(* ===== verification/Prelude.thy ===== *)
theory Prelude
  imports Main "HOL-Library.Word"
begin

text \<open>
  What every component of the VerveOS model shares: the machine integer types of the
  i386 build (\<open>uint8_t\<close> to \<open>uint64_t\<close>; \<open>uintptr_t\<close> and \<open>size_t\<close> are 32 bits wide there),
  page arithmetic on addresses, the search for the first index of a table that
  satisfies a test, and the collections of facts the component theories extend.
\<close>

unbundle bit_operations_syntax

type_synonym u8 = "8 word"
type_synonym u16 = "16 word"
type_synonym u32 = "32 word"
type_synonym u64 = "64 word"

text \<open>
  \<open>kdefs\<close> collects the definitions of small helpers a proof unfolds together;
  \<open>mem_simps\<close> the equations about loads and stores; \<open>frame_simps\<close> the equations that say
  which parts of the state an operation leaves alone.
\<close>

named_theorems kdefs
named_theorems mem_simps
named_theorems frame_simps

text \<open>
  \<open>returns r Q\<close>: the computation \<open>r\<close> returns (it neither faults nor runs for ever) and its
  result satisfies \<open>Q\<close>.  \<open>returns_intros\<close> collects the rules for the calls of each component.
\<close>

named_theorems returns_intros

definition returns :: "'a option \<Rightarrow> ('a \<Rightarrow> bool) \<Rightarrow> bool" where
  "returns r Q \<longleftrightarrow> (\<exists>x. r = Some x \<and> Q x)"

lemma returns_Some [simp]: "returns (Some x) Q \<longleftrightarrow> Q x"
  by (simp add: returns_def)

lemma returns_bind [returns_intros]: "returns r (\<lambda>x. returns (f x) Q) \<Longrightarrow> returns (Option.bind r f) Q"
  by (auto simp: returns_def)

lemma returns_map [returns_intros]: "returns r (\<lambda>x. Q (f x)) \<Longrightarrow> returns (map_option f r) Q"
  by (auto simp: returns_def)

lemma returns_case: "returns (case r of None \<Rightarrow> None | Some x \<Rightarrow> f x) Q \<longleftrightarrow> returns r (\<lambda>x. returns (f x) Q)"
  by (cases r) (auto simp: returns_def)

lemma returns_mono: "returns r Q \<Longrightarrow> (\<And>x. Q x \<Longrightarrow> R x) \<Longrightarrow> returns r R"
  by (auto simp: returns_def)

section \<open>Words\<close>

lemma unat_bound: "unat (w :: 'a::len word) < 2 ^ LENGTH('a)"
  by simp

lemma unat_lt8: "unat (w :: u8) < 256"
  using unat_bound [of w] by simp

lemma unat_lt32: "unat (w :: u32) < 4294967296"
  using unat_bound [of w] by simp

lemma unat_lt64: "unat (w :: u64) < 18446744073709551616"
  using unat_bound [of w] by simp

lemma unat_of_nat32: "n < 4294967296 \<Longrightarrow> unat (of_nat n :: u32) = n"
  by (simp add: unat_of_nat)

lemma unat_of_nat64: "n < 18446744073709551616 \<Longrightarrow> unat (of_nat n :: u64) = n"
  by (simp add: unat_of_nat)

lemma unat_plus32: "unat (a :: u32) + n < 4294967296 \<Longrightarrow> unat (a + of_nat n) = unat a + n"
  by (simp add: unat_word_ariths unat_of_nat)

lemma unat_add32: "unat (a :: u32) + unat b < 4294967296 \<Longrightarrow> unat (a + b) = unat a + unat b"
  by (simp add: unat_word_ariths)

lemma unat_minus: "b \<le> a \<Longrightarrow> unat (a - b :: 'a::len word) = unat a - unat b"
  by (rule unat_sub)

lemma of_nat_eq_iff32:
  "i < 4294967296 \<Longrightarrow> j < 4294967296 \<Longrightarrow> (of_nat i :: u32) = of_nat j \<longleftrightarrow> i = j"
  by (metis unat_of_nat32)

lemma unat_ucast_u32_u64 [simp]: "unat (ucast (w :: u32) :: u64) = unat w"
  using unat_lt32 [of w] by (simp add: unsigned_ucast_eq take_bit_nat_eq_self_iff)

lemma unat_ucast_u64_u32: "unat (ucast (w :: u64) :: u32) = unat w mod 4294967296"
  by (simp add: unsigned_ucast_eq take_bit_eq_mod)

lemma unat_ucast_u8_u32 [simp]: "unat (ucast (w :: u8) :: u32) = unat w"
  using unat_lt8 [of w] by (simp add: unsigned_ucast_eq take_bit_nat_eq_self_iff)

lemma unat_ucast_u32_u8: "unat (ucast (w :: u32) :: u8) = unat w mod 256"
  by (simp add: unsigned_ucast_eq take_bit_eq_mod)

lemma unat_shiftr: "unat (drop_bit n w) = unat w div 2 ^ n"
  unfolding unat_drop_bit_eq by (rule drop_bit_eq_div)

lemma unat_shiftl:
  assumes "unat w * 2 ^ n < 2 ^ LENGTH('a)"
  shows "unat (push_bit n w :: 'a::len word) = unat w * 2 ^ n"
proof -
  have "unat (push_bit n w) = take_bit LENGTH('a) (push_bit n (unat w))"
    by (rule unsigned_push_bit_eq)
  then show ?thesis
    using assms by (simp only: push_bit_eq_mult take_bit_eq_mod mod_less)
qed

lemma unat_and_mask: "unat (w AND mask n) = unat w mod 2 ^ n"
proof -
  have "unat (w AND mask n) = unat (take_bit n w)" by (simp only: take_bit_eq_mask)
  also have "\<dots> = take_bit n (unat w)" by (rule unsigned_take_bit_eq)
  finally show ?thesis by (simp only: take_bit_eq_mod)
qed

section \<open>Pages\<close>

text \<open>
  Pages and frames are 4096 bytes (\<open>FRAME_SIZE\<close> of \<open>kernel/pmm.c\<close>, \<open>VERVE_PAGE_SIZE\<close> of
  \<open>kernel/proc.c\<close>).  The code rounds an address down to its page as \<open>x & 0xFFFFF000u\<close> or
  \<open>x & ~0xFFFu\<close>; both are \<open>page_of\<close>.
\<close>

abbreviation (input) page_size :: u32 where "page_size \<equiv> 4096"

definition page_of :: "u32 \<Rightarrow> u32" where
  "page_of a = a AND NOT 4095"

lemma mask12: "(4095 :: 'a::len word) = mask 12"
  by (simp add: mask_eq_exp_minus_1)

lemma mask10: "(1023 :: 'a::len word) = mask 10"
  by (simp add: mask_eq_exp_minus_1)

lemma mask3: "(7 :: 'a::len word) = mask 3"
  by (simp add: mask_eq_exp_minus_1)

lemma and_page_mask [simp]: "x AND 0xFFFFF000 = page_of x"
proof -
  have "(0xFFFFF000 :: u32) = NOT 4095" by simp
  then show ?thesis by (simp only: page_of_def)
qed

lemma and_not_4095: "x AND NOT 4095 = page_of x"
  by (simp only: page_of_def)

lemma unat_page_off: "unat (a AND 4095 :: 'a::len word) = unat a mod 4096"
  by (simp only: mask12 unat_and_mask) simp

lemma and_not_minus: "a AND NOT b = a - (a AND b)" for a b :: "'a::len word"
proof -
  have "a = (a AND NOT b) + (a AND b)"
    by (subst disjunctive_add_eq_or) (auto simp: bit_simps intro!: bit_eqI)
  then show ?thesis by (metis add_diff_cancel_right')
qed

lemma unat_page_of: "unat (page_of a) = unat a div 4096 * 4096"
proof -
  have "unat (page_of a) = unat (a - (a AND 4095))"
    by (simp only: page_of_def and_not_minus)
  also have "\<dots> = unat a - unat (a AND 4095)"
    by (rule unat_sub) (simp only: word_le_nat_alt unat_page_off mod_less_eq_dividend)
  finally show ?thesis by (simp only: unat_page_off minus_mod_eq_div_mult)
qed

lemma page_of_eq_iff: "page_of a = page_of b \<longleftrightarrow> unat a div 4096 = unat b div 4096"
  by (metis mult_cancel2 unat_page_of word_unat_eq_iff zero_neq_numeral)

lemma aligned_iff: "a AND 4095 = 0 \<longleftrightarrow> unat a mod 4096 = 0" for a :: "'a::len word"
  by (metis unat_eq_0 unat_page_off)

lemma page_of_aligned: "a AND 4095 = 0 \<Longrightarrow> page_of a = a"
  by (simp only: page_of_def and_not_minus) simp

lemma page_of_idem [simp]: "page_of (page_of a) = page_of a"
  by (simp only: page_of_def) (rule bit_word_eqI, auto simp only: bit_and_iff)

lemma page_of_le: "page_of a \<le> a"
  by (simp add: word_le_nat_alt unat_page_of)

section \<open>Searching a table\<close>

text \<open>
  Three tables of the kernel are searched for their first free entry: the frame bitmap,
  the file descriptor table, the thread pool.  \<open>first_index p lo hi\<close> is the loop
  \<open>for (i = lo; i < hi; ++i) if (p(i)) return i;\<close>.
\<close>

function first_index :: "(nat \<Rightarrow> bool) \<Rightarrow> nat \<Rightarrow> nat \<Rightarrow> nat option" where
  "first_index p i n = (if i < n then (if p i then Some i else first_index p (Suc i) n) else None)"
  by pat_completeness auto
termination by (relation "measure (\<lambda>(p, i, n). n - i)") auto

declare first_index.simps [simp del]

lemma first_index_None: "first_index p i n = None \<longleftrightarrow> (\<forall>k. i \<le> k \<and> k < n \<longrightarrow> \<not> p k)"
proof (induction p i n rule: first_index.induct)
  case (1 p i n)
  show ?case
  proof (cases "i < n \<and> \<not> p i")
    case True
    then have "first_index p i n = first_index p (Suc i) n" by (simp add: first_index.simps)
    with 1 True show ?thesis by (auto simp: Suc_le_eq) (metis le_neq_implies_less)
  next
    case False
    then show ?thesis by (auto simp: first_index.simps [of p i n])
  qed
qed

lemma first_index_Some:
  "first_index p i n = Some k \<longleftrightarrow> i \<le> k \<and> k < n \<and> p k \<and> (\<forall>j. i \<le> j \<and> j < k \<longrightarrow> \<not> p j)"
proof (induction p i n rule: first_index.induct)
  case (1 p i n)
  show ?case
  proof (cases "i < n \<and> \<not> p i")
    case True
    then have "first_index p i n = first_index p (Suc i) n" by (simp add: first_index.simps)
    with 1 True show ?thesis by (auto simp: Suc_le_eq) (metis le_neq_implies_less)+
  next
    case False
    then show ?thesis
      by (auto simp: first_index.simps [of p i n] not_less intro: le_antisym)
  qed
qed

lemma first_index_cong:
  "(\<And>k. i \<le> k \<Longrightarrow> k < n \<Longrightarrow> p k = q k) \<Longrightarrow> first_index p i n = first_index q i n"
proof (induction p i n rule: first_index.induct)
  case (1 p i n)
  then show ?case by (simp add: first_index.simps [of _ i n])
qed

end
