(* ===== verification/Machine.thy ===== *)
theory Machine
  imports Prelude
begin

text \<open>
  The machine under the C code: a flat 32-bit physical address space of bytes with the
  little-endian loads and stores the compiler emits for \<open>uint32_t\<close> and \<open>uint64_t\<close>
  objects, the array loops built from them, and the two-level page walk of the i386
  memory management unit (the documented meaning of CR3, page directories and page
  tables, with the P, R/W and U/S bits).  Nothing here is code of the repository: it is
  the meaning of the language and of the instructions its \<open>asm\<close> statements use.
\<close>

type_synonym memory = "u32 \<Rightarrow> u8"

text \<open>
  The addresses the linker gives to the objects the code takes the address of: the bounds
  of the kernel image (\<open>linker.ld\<close>), the boot page directory, the static page tables, the
  pool of MMIO page tables and the heap arena.  They are parameters of the model.
\<close>

record layout =
  kernel_image_begin :: u32
  kernel_image_end :: u32
  boot_pd :: u32
  boot_pt :: u32
  g_mmio_pts :: u32
  g_heap :: u32

section \<open>Loads and stores\<close>

definition ld32 :: "memory \<Rightarrow> u32 \<Rightarrow> u32" where
  "ld32 m a = ucast (m a) OR push_bit 8 (ucast (m (a + 1)))
     OR push_bit 16 (ucast (m (a + 2))) OR push_bit 24 (ucast (m (a + 3)))"

definition st32 :: "memory \<Rightarrow> u32 \<Rightarrow> u32 \<Rightarrow> memory" where
  "st32 m a v = m(a := ucast v, a + 1 := ucast (drop_bit 8 v),
     a + 2 := ucast (drop_bit 16 v), a + 3 := ucast (drop_bit 24 v))"

definition ld64 :: "memory \<Rightarrow> u32 \<Rightarrow> u64" where
  "ld64 m a = ucast (ld32 m a) OR push_bit 32 (ucast (ld32 m (a + 4)))"

text \<open>Byte ranges are circular: \<open>x\<close> is one of the \<open>n\<close> bytes from \<open>a\<close> on.\<close>

definition in_range :: "u32 \<Rightarrow> nat \<Rightarrow> u32 \<Rightarrow> bool" where
  "in_range a n x \<longleftrightarrow> unat (x - a) < n"

definition same_on :: "u32 \<Rightarrow> nat \<Rightarrow> memory \<Rightarrow> memory \<Rightarrow> bool" where
  "same_on a n m m' \<longleftrightarrow> (\<forall>x. in_range a n x \<longrightarrow> m x = m' x)"

lemma bit_ld32: "bit (ld32 m a) n \<longleftrightarrow>
   (if n < 8 then bit (m a) n
    else if n < 16 then bit (m (a + 1)) (n - 8)
    else if n < 24 then bit (m (a + 2)) (n - 16)
    else if n < 32 then bit (m (a + 3)) (n - 24) else False)"
  unfolding ld32_def
  by (auto simp: bit_simps not_le not_less dest: bit_imp_le_length)

lemma st32_apply: "st32 m a v x =
   (if x = a + 3 then ucast (drop_bit 24 v) else if x = a + 2 then ucast (drop_bit 16 v)
    else if x = a + 1 then ucast (drop_bit 8 v) else if x = a then ucast v else m x)"
  by (simp add: st32_def)

lemma ld32_st32_same [mem_simps]: "ld32 (st32 m a v) a = v"
proof (rule bit_word_eqI)
  fix n assume "n < LENGTH(32)"
  then show "bit (ld32 (st32 m a v) a) n = bit v n"
    by (auto simp: bit_ld32 st32_apply bit_simps)
qed

lemma st32_out: "\<not> in_range a 4 x \<Longrightarrow> st32 m a v x = m x"
  by (auto simp: st32_apply in_range_def)

lemma aligned4_neq:
  fixes a b :: u32
  assumes "unat a mod 4 = 0" and "unat b mod 4 = 0" and "a \<noteq> b" and "i < 4" and "j < 4"
  shows "a + of_nat i \<noteq> b + of_nat j"
proof
  assume eq: "a + of_nat i = b + of_nat j"
  have lim: "unat x + k < 4294967296" if "unat x mod 4 = 0" "k < 4" for x :: u32 and k
    using that unat_lt32 [of x] by presburger
  have "unat a + i = unat b + j"
    using eq unat_plus32 [OF lim [OF assms(1,4)]] unat_plus32 [OF lim [OF assms(2,5)]] by simp
  with assms have "unat a = unat b" by presburger
  with assms(3) show False by (simp add: word_unat_eq_iff)
qed

lemma ld32_cong: "m a = m' a \<Longrightarrow> m (a + 1) = m' (a + 1) \<Longrightarrow> m (a + 2) = m' (a + 2) \<Longrightarrow>
    m (a + 3) = m' (a + 3) \<Longrightarrow> ld32 m a = ld32 m' a"
  by (simp add: ld32_def)

lemma ld32_st32_other:
  assumes "unat a mod 4 = 0" and "unat b mod 4 = 0" and "a \<noteq> b"
  shows "ld32 (st32 m a v) b = ld32 m b"
proof -
  have ne: "b + of_nat j \<noteq> a + of_nat i" if "i < 4" "j < 4" for i j
    using aligned4_neq [OF assms that] by metis
  have "b \<noteq> a + of_nat i \<and> b + 1 \<noteq> a + of_nat i \<and> b + 2 \<noteq> a + of_nat i \<and> b + 3 \<noteq> a + of_nat i"
    if "i < 4" for i
    using ne [OF that, of 0] ne [OF that, of 1] ne [OF that, of 2] ne [OF that, of 3] by simp
  from this [of 0] this [of 1] this [of 2] this [of 3]
  show ?thesis by (intro ld32_cong) (simp_all add: st32_apply)
qed

lemma in_range_plus: "k < n \<Longrightarrow> n \<le> 4294967296 \<Longrightarrow> in_range a n (a + of_nat k)"
  by (simp add: in_range_def unat_of_nat32)

lemma in_rangeE: "in_range a n x \<Longrightarrow> (\<And>k. k < n \<Longrightarrow> x = a + of_nat k \<Longrightarrow> P) \<Longrightarrow> P"
  by (metis add_diff_cancel_left' diff_add_cancel add.commute in_range_def of_nat_unat ucast_id)

lemma in_range_mono: "in_range a n x \<Longrightarrow> n \<le> k \<Longrightarrow> in_range a k x"
  by (simp add: in_range_def)

lemma in_range_step: "in_range (a + of_nat k) n x \<Longrightarrow> k + n \<le> j \<Longrightarrow> j \<le> 4294967296 \<Longrightarrow> in_range a j x"
  by (elim in_rangeE) (auto simp: add.assoc intro!: in_range_plus simp flip: of_nat_add)

lemma in_range_iff:
  "unat a + n \<le> 4294967296 \<Longrightarrow> in_range a n x \<longleftrightarrow> unat a \<le> unat x \<and> unat x < unat a + n"
  by (auto simp: in_range_def unat_sub_if_size word_size split: if_splits)

lemma same_onD: "same_on a n m m' \<Longrightarrow> in_range a n x \<Longrightarrow> m x = m' x"
  by (simp add: same_on_def)

lemma same_on_off: "same_on a n m m' \<Longrightarrow> k < n \<Longrightarrow> n \<le> 4294967296 \<Longrightarrow> m (a + of_nat k) = m' (a + of_nat k)"
  by (simp add: same_onD in_range_plus)

lemma same_on_refl [simp]: "same_on a n m m"
  by (simp add: same_on_def)

lemma same_on_sym: "same_on a n m m' \<Longrightarrow> same_on a n m' m"
  by (simp add: same_on_def)

lemma same_on_trans: "same_on a n m m' \<Longrightarrow> same_on a n m' m'' \<Longrightarrow> same_on a n m m''"
  by (simp add: same_on_def)

lemma ld32_same_on: "same_on a n m m' \<Longrightarrow> k + 4 \<le> n \<Longrightarrow> n \<le> 4294967296 \<Longrightarrow>
    ld32 m (a + of_nat k) = ld32 m' (a + of_nat k)"
  using same_on_off [of a n m m' k] same_on_off [of a n m m' "k + 1"]
    same_on_off [of a n m m' "k + 2"] same_on_off [of a n m m' "k + 3"]
  by (intro ld32_cong) (simp_all add: ac_simps)

lemma ld64_same_on: "same_on a n m m' \<Longrightarrow> k + 8 \<le> n \<Longrightarrow> n \<le> 4294967296 \<Longrightarrow>
    ld64 m (a + of_nat k) = ld64 m' (a + of_nat k)"
  using ld32_same_on [of a n m m' k] ld32_same_on [of a n m m' "k + 4"]
  by (simp add: ld64_def add.assoc)

section \<open>Array loops\<close>

text \<open>\<open>for (i = 0; i < n; ++i) p[i] = v_i;\<close> on an array of 32-bit words.\<close>

fun store_words :: "memory \<Rightarrow> u32 \<Rightarrow> u32 list \<Rightarrow> memory" where
  "store_words m p [] = m"
| "store_words m p (v # vs) = store_words (st32 m p v) (p + 4) vs"

text \<open>\<open>for (i = 0; i < n; ++i) dst[i] = src[i];\<close> on arrays of 32-bit words.\<close>

fun copy_words :: "memory \<Rightarrow> u32 \<Rightarrow> u32 \<Rightarrow> nat \<Rightarrow> memory" where
  "copy_words m dst src 0 = m"
| "copy_words m dst src (Suc n) = copy_words (st32 m dst (ld32 m src)) (dst + 4) (src + 4) n"

text \<open>\<open>for (i = 0; i < n; ++i) p[i] = b_i;\<close> on bytes, and reading \<open>n\<close> bytes.\<close>

fun store_bytes :: "memory \<Rightarrow> u32 \<Rightarrow> u8 list \<Rightarrow> memory" where
  "store_bytes m p [] = m"
| "store_bytes m p (b # bs) = store_bytes (m(p := b)) (p + 1) bs"

definition load_bytes :: "memory \<Rightarrow> u32 \<Rightarrow> nat \<Rightarrow> u8 list" where
  "load_bytes m p n = map (\<lambda>i. m (p + of_nat i)) [0..<n]"

lemma length_load_bytes [simp]: "length (load_bytes m p n) = n"
  by (simp add: load_bytes_def)

lemma nth_load_bytes: "i < n \<Longrightarrow> load_bytes m p n ! i = m (p + of_nat i)"
  by (simp add: load_bytes_def)

lemma store_words_out:
  "\<not> in_range p (4 * length vs) x \<Longrightarrow> 4 * length vs \<le> 4294967296 \<Longrightarrow> store_words m p vs x = m x"
proof (induction vs arbitrary: m p)
  case Nil
  then show ?case by simp
next
  case (Cons v vs)
  have "\<not> in_range p 4 x"
    using Cons.prems(1) in_range_mono [of p 4 x "4 * length (v # vs)"] by auto
  moreover have "\<not> in_range (p + 4) (4 * length vs) x"
    using Cons.prems in_range_step [of p 4 "4 * length vs" x "4 * length (v # vs)"] by auto
  ultimately show ?case
    using Cons.IH [of "p + 4" "st32 m p v"] Cons.prems(2) by (simp add: st32_out)
qed

text \<open>
  Word-aligned addresses: with \<open>b\<close> and \<open>p\<close> multiples of four, a word at \<open>b\<close> lies outside
  the \<open>4 n\<close> bytes from \<open>p\<close> as soon as its first byte does.
\<close>

lemma aligned4_plus: "unat a mod 4 = 0 \<Longrightarrow> unat (a + 4) mod 4 = 0" for a :: u32
  by (simp add: unat_word_ariths mod_mod_cancel) 

lemma aligned4_index: "unat a mod 4 = 0 \<Longrightarrow> unat (a + 4 * of_nat i) mod 4 = 0" for a :: u32
proof (induction i)
  case 0
  then show ?case by simp
next
  case (Suc i)
  then show ?case using aligned4_plus [of "a + 4 * of_nat i"] by (simp add: algebra_simps)
qed

lemma aligned4_minus:
  assumes "unat a mod 4 = 0" and "unat b mod 4 = 0"
  shows "unat (a - b :: u32) mod 4 = 0"
proof -
  have a: "4 dvd unat a" and b: "4 dvd unat b" using assms by auto
  have c: "4 dvd (4294967296 :: nat)" by simp
  have "4 dvd unat a + 4294967296 - unat b"
    using dvd_diff_nat [OF dvd_add [OF a c] b] .
  moreover have "4 dvd unat a - unat b" using dvd_diff_nat [OF a b] .
  ultimately have "4 dvd unat (a - b)" by (simp add: unat_sub_if_size word_size)
  then show ?thesis by simp
qed

lemma page_aligned4:
  assumes "page_of a = a"
  shows "unat a mod 4 = 0"
proof -
  obtain k where "unat a = k * 4096" using assms unat_page_of [of a] by metis
  then have "4 dvd unat a" by simp
  then show ?thesis by simp
qed

lemma aligned4_outside:
  assumes "unat b mod 4 = 0" and "unat p mod 4 = 0" and "\<not> in_range p (4 * n) b" and "j < 4"
  shows "\<not> in_range p (4 * n) (b + of_nat j)"
proof -
  have m: "unat (b - p) mod 4 = 0" by (rule aligned4_minus [OF assms(1,2)])
  with \<open>j < 4\<close> have "unat (b - p) + j < 4294967296" using unat_lt32 [of "b - p"] by presburger
  then have "unat (b - p + of_nat j) = unat (b - p) + j" by (rule unat_plus32)
  then show ?thesis using assms(3) by (simp add: in_range_def algebra_simps)
qed

lemma ld32_same_outside:
  assumes eq: "\<And>x. \<not> in_range p (4 * n) x \<Longrightarrow> m' x = m x"
    and "unat b mod 4 = 0" and "unat p mod 4 = 0" and "\<not> in_range p (4 * n) b"
  shows "ld32 m' b = ld32 m b"
  using aligned4_outside [OF assms(2-4), of 0] aligned4_outside [OF assms(2-4), of 1]
    aligned4_outside [OF assms(2-4), of 2] aligned4_outside [OF assms(2-4), of 3]
  by (intro ld32_cong eq) simp_all

lemma ld32_store_words_out:
  assumes "unat b mod 4 = 0" and "unat p mod 4 = 0" and "\<not> in_range p (4 * length vs) b"
    and "4 * length vs \<le> 4294967296"
  shows "ld32 (store_words m p vs) b = ld32 m b"
  by (rule ld32_same_outside [OF store_words_out [OF _ assms(4)] assms(1-3)])

lemma ld32_store_words_in:
  assumes "i < length vs" and "unat p mod 4 = 0" and "4 * length vs \<le> 4294967296"
  shows "ld32 (store_words m p vs) (p + 4 * of_nat i) = vs ! i"
  using assms
proof (induction vs arbitrary: m p i)
  case Nil
  then show ?case by simp
next
  case (Cons v vs)
  have al: "unat (p + 4) mod 4 = 0" using Cons.prems(2) by (rule aligned4_plus)
  show ?case
  proof (cases i)
    case 0
    have "\<not> in_range (p + 4) (4 * length vs) p"
      using Cons.prems(3) by (simp add: in_range_def unat_sub_if_size word_size)
    then have "ld32 (store_words (st32 m p v) (p + 4) vs) p = ld32 (st32 m p v) p"
      using Cons.prems al by (intro ld32_store_words_out) auto
    then show ?thesis using 0 by (simp add: ld32_st32_same)
  next
    case (Suc k)
    then have "ld32 (store_words (st32 m p v) (p + 4) vs) (p + 4 + 4 * of_nat k) = vs ! k"
      using Cons.prems al by (intro Cons.IH) auto
    then show ?thesis using Suc by (simp add: algebra_simps)
  qed
qed

text \<open>The copy loop reads each source word unchanged when the two arrays do not overlap.\<close>

lemma copy_words_store:
  assumes "unat dst mod 4 = 0" and "unat src mod 4 = 0" and "4 * n \<le> 4294967296"
    and "\<And>i. i < n \<Longrightarrow> \<not> in_range dst (4 * n) (src + 4 * of_nat i)"
  shows "copy_words m dst src n = store_words m dst (map (\<lambda>i. ld32 m (src + 4 * of_nat i)) [0..<n])"
  using assms
proof (induction n arbitrary: m dst src)
  case 0
  then show ?case by simp
next
  case (Suc n)
  let ?m = "st32 m dst (ld32 m src)"
  have al: "unat (dst + 4) mod 4 = 0" "unat (src + 4) mod 4 = 0"
    using Suc.prems by (auto intro: aligned4_plus)
  have sep: "\<not> in_range (dst + 4) (4 * n) (src + 4 + 4 * of_nat i)" if "i < n" for i
  proof
    assume "in_range (dst + 4) (4 * n) (src + 4 + 4 * of_nat i)"
    then have "in_range dst (4 * Suc n) (src + 4 * of_nat (Suc i))"
      using in_range_step [of dst 4 "4 * n" _ "4 * Suc n"] Suc.prems(3) by (simp add: algebra_simps)
    then show False using Suc.prems(4) [of "Suc i"] that by simp
  qed
  have same: "ld32 ?m (src + 4 + 4 * of_nat i) = ld32 m (src + 4 + 4 * of_nat i)" if "i < n" for i
  proof (rule ld32_st32_other)
    show "unat (src + 4 + 4 * of_nat i) mod 4 = 0" using al(2) by (rule aligned4_index)
    have "\<not> in_range dst (4 * Suc n) (src + 4 * of_nat (Suc i))" using Suc.prems(4) [of "Suc i"] that by simp
    then show "dst \<noteq> src + 4 + 4 * of_nat i"
      by (auto simp: algebra_simps in_range_def)
  qed (use Suc.prems in simp)
  have "copy_words m dst src (Suc n) = copy_words ?m (dst + 4) (src + 4) n" by simp
  also have "\<dots> = store_words ?m (dst + 4) (map (\<lambda>i. ld32 ?m (src + 4 + 4 * of_nat i)) [0..<n])"
    using Suc.prems al sep by (intro Suc.IH) auto
  also have "map (\<lambda>i. ld32 ?m (src + 4 + 4 * of_nat i)) [0..<n]
      = map (\<lambda>i. ld32 m (src + 4 + 4 * of_nat i)) [0..<n]"
    using same by simp
  also have "\<dots> = map ((\<lambda>i. ld32 m (src + 4 * of_nat i)) \<circ> Suc) [0..<n]"
    by (simp add: algebra_simps)
  also have "\<dots> = map (\<lambda>i. ld32 m (src + 4 * of_nat i)) [1..<Suc n]"
    by (metis One_nat_def list.map_comp map_Suc_upt)
  also have "store_words ?m (dst + 4) \<dots>
      = store_words m dst (map (\<lambda>i. ld32 m (src + 4 * of_nat i)) [0..<Suc n])"
    by (simp add: upt_conv_Cons del: upt_Suc)
  finally show ?case .
qed

lemma store_bytes_out:
  "\<not> in_range p (length bs) x \<Longrightarrow> length bs \<le> 4294967296 \<Longrightarrow> store_bytes m p bs x = m x"
proof (induction bs arbitrary: m p)
  case Nil
  then show ?case by simp
next
  case (Cons b bs)
  have "x \<noteq> p" using Cons.prems(1) by (auto simp: in_range_def)
  moreover have "\<not> in_range (p + 1) (length bs) x"
    using Cons.prems in_range_step [of p 1 "length bs" x "length (b # bs)"] by auto
  ultimately show ?case
    using Cons.IH [of "p + 1" "m(p := b)"] Cons.prems(2)
    by (simp del: fun_upd_apply add: fun_upd_other)
qed

lemma store_bytes_in:
  "i < length bs \<Longrightarrow> length bs \<le> 4294967296 \<Longrightarrow> store_bytes m p bs (p + of_nat i) = bs ! i"
proof (induction bs arbitrary: m p i)
  case Nil
  then show ?case by simp
next
  case (Cons b bs)
  show ?case
  proof (cases i)
    case 0
    have "unat (- 1 :: u32) = 4294967295" 
      by (simp add: unsigned_minus_1_eq_mask mask_eq_exp_minus_1)
    then have "\<not> in_range (p + 1) (length bs) p"
      using Cons.prems(2) by (simp add: in_range_def)
    then show ?thesis
      using 0 Cons.prems(2) store_bytes_out [of "p + 1" bs p "m(p := b)"] by (simp del: fun_upd_apply add: fun_upd_same)
  next
    case (Suc k)
    then have "store_bytes (m(p := b)) (p + 1) bs (p + 1 + of_nat k) = bs ! k"
      using Cons.prems by (intro Cons.IH) auto
    then show ?thesis using Suc by (simp add: algebra_simps)
  qed
qed

lemma load_store_bytes: "length bs \<le> 4294967296 \<Longrightarrow> load_bytes (store_bytes m p bs) p (length bs) = bs"
  by (rule nth_equalityI) (auto simp: nth_load_bytes store_bytes_in)

section \<open>Little-endian encodings\<close>

definition le32 :: "u32 \<Rightarrow> u8 list" where
  "le32 v = [ucast v, ucast (drop_bit 8 v), ucast (drop_bit 16 v), ucast (drop_bit 24 v)]"

definition le64 :: "u64 \<Rightarrow> u8 list" where
  "le64 v = le32 (ucast v) @ le32 (ucast (drop_bit 32 v))"

lemma length_le32 [simp]: "length (le32 v) = 4"
  by (simp add: le32_def)

lemma length_le64 [simp]: "length (le64 v) = 8"
  by (simp add: le64_def)

text \<open>\<open>holds m a bs\<close>: the bytes \<open>bs\<close> are in memory from address \<open>a\<close> on.\<close>

definition holds :: "memory \<Rightarrow> u32 \<Rightarrow> u8 list \<Rightarrow> bool" where
  "holds m a bs \<longleftrightarrow> (\<forall>i < length bs. m (a + of_nat i) = bs ! i)"

lemma holds_Nil [simp]: "holds m a []"
  by (simp add: holds_def)

lemma holds_Cons: "holds m a (b # bs) \<longleftrightarrow> m a = b \<and> holds m (a + 1) bs"
  by (auto simp: holds_def All_less_Suc2 algebra_simps)

lemma holds_append: "holds m a (bs @ cs) \<longleftrightarrow> holds m a bs \<and> holds m (a + of_nat (length bs)) cs"
  by (induction bs arbitrary: a) (auto simp: holds_Cons algebra_simps)

lemma holds_ld32: "holds m a (le32 v) \<longleftrightarrow> ld32 m a = v"
proof
  assume h: "holds m a (le32 v)"
  then have "m a = ucast v" "m (a + 1) = ucast (drop_bit 8 v)"
    "m (a + 2) = ucast (drop_bit 16 v)" "m (a + 3) = ucast (drop_bit 24 v)"
    by (simp_all add: le32_def holds_Cons add.assoc)
  then show "ld32 m a = v" by (intro bit_word_eqI) (auto simp: bit_ld32 bit_simps)
next
  assume "ld32 m a = v"
  then show "holds m a (le32 v)"
    by (auto simp: le32_def holds_Cons add.assoc bit_ld32 bit_simps intro!: bit_word_eqI)
qed

lemma holds_ld64: "holds m a (le64 v) \<Longrightarrow> ld64 m a = v"
  by (intro bit_word_eqI) (auto simp: le64_def holds_append holds_ld32 ld64_def bit_simps)

lemma holds_store_bytes: "length bs \<le> 4294967296 \<Longrightarrow> holds (store_bytes m a bs) a bs"
  by (simp add: holds_def store_bytes_in)

section \<open>The memory management unit\<close>

abbreviation (input) PTE_PRESENT :: u32 where "PTE_PRESENT \<equiv> 1"
abbreviation (input) PTE_RW :: u32 where "PTE_RW \<equiv> 2"
abbreviation (input) PTE_US :: u32 where "PTE_US \<equiv> 4"

definition pd_index :: "u32 \<Rightarrow> u32" where
  "pd_index va = drop_bit 22 va"

definition pt_index :: "u32 \<Rightarrow> u32" where
  "pt_index va = drop_bit 12 va AND 0x3FF"

text \<open>
  The hardware walk from the directory whose physical address is in CR3: \<open>None\<close> when one
  of the two present bits is clear, the pair of entries otherwise.
\<close>

definition mmu_walk :: "memory \<Rightarrow> u32 \<Rightarrow> u32 \<Rightarrow> (u32 \<times> u32) option" where
  "mmu_walk m cr3 va =
     (let pde = ld32 m (page_of cr3 + 4 * pd_index va)
      in if pde AND PTE_PRESENT = 0 then None
         else let pte = ld32 m (page_of pde + 4 * pt_index va)
              in if pte AND PTE_PRESENT = 0 then None else Some (pde, pte))"

text \<open>
  Rights: a user-mode access needs U/S in both entries, a user-mode write needs R/W in
  both; supervisor accesses need only a present mapping (the kernel never sets CR0.WP).
\<close>

definition mmu_allows :: "bool \<Rightarrow> bool \<Rightarrow> u32 \<Rightarrow> u32 \<Rightarrow> bool" where
  "mmu_allows user write pde pte \<longleftrightarrow>
     user \<longrightarrow> pde AND PTE_US \<noteq> 0 \<and> pte AND PTE_US \<noteq> 0
       \<and> (write \<longrightarrow> pde AND PTE_RW \<noteq> 0 \<and> pte AND PTE_RW \<noteq> 0)"

definition mmu_translate :: "memory \<Rightarrow> u32 \<Rightarrow> bool \<Rightarrow> bool \<Rightarrow> u32 \<Rightarrow> u32 option" where
  "mmu_translate m cr3 user write va =
     (case mmu_walk m cr3 va of None \<Rightarrow> None
      | Some (pde, pte) \<Rightarrow>
          if mmu_allows user write pde pte then Some (page_of pte OR (va AND 4095)) else None)"

lemma unat_pd_index: "unat (pd_index va) = unat va div 4194304"
  by (simp add: pd_index_def unat_shiftr)

lemma unat_pt_index: "unat (pt_index va) = unat va div 4096 mod 1024"
proof -
  have "unat (pt_index va) = unat (drop_bit 12 va AND mask 10)"
    unfolding pt_index_def by (simp only: mask10)
  then show ?thesis by (simp only: unat_and_mask unat_shiftr) simp
qed

lemma pd_index_lt: "unat (pd_index va) < 1024"
  using unat_lt32 [of va] by (simp add: unat_pd_index)

lemma pt_index_lt: "unat (pt_index va) < 1024"
  by (simp add: unat_pt_index)

lemma page_indices: "page_of va = page_of va' \<longleftrightarrow> pd_index va = pd_index va' \<and> pt_index va = pt_index va'"
proof -
  have pd: "unat (pd_index v) = unat v div 4096 div 1024" for v
    by (simp add: unat_pd_index div_mult2_eq [symmetric])
  have "a = b \<longleftrightarrow> a div 1024 = b div 1024 \<and> a mod 1024 = b mod 1024" for a b :: nat
    by (metis div_mult_mod_eq)
  from this [of "unat va div 4096" "unat va' div 4096"] show ?thesis
    by (simp only: page_of_eq_iff word_unat_eq_iff [of "pd_index va"]
        word_unat_eq_iff [of "pt_index va"] pd unat_pt_index)
qed

end
