(* ===== verification/Heap_Interface.thy ===== *)
theory Heap_Interface
  imports Machine
begin

text \<open>
  The contract between the kernel heap and its clients (the thread stacks).  \<open>rep s Lv\<close>
  relates a heap state to the map of live pointers with the number of bytes each may use;
  \<open>byte\<close> and \<open>poke\<close> read and write memory.  A client's own writes keep the representation.
\<close>

locale kernel_heap =
  fixes alloc :: "u32 \<Rightarrow> 's \<Rightarrow> (u32 \<times> 's) option"
    and release :: "u32 \<Rightarrow> 's \<Rightarrow> 's"
    and rep :: "'s \<Rightarrow> (u32 \<Rightarrow> nat option) \<Rightarrow> bool"
    and byte :: "'s \<Rightarrow> u32 \<Rightarrow> u8"
    and poke :: "u32 \<Rightarrow> u8 \<Rightarrow> 's \<Rightarrow> 's"
  assumes alloc_returns: "rep s Lv \<Longrightarrow> \<exists>p s'. alloc n s = Some (p, s')"
    and alloc_null: "rep s Lv \<Longrightarrow> alloc n s = Some (0, s') \<Longrightarrow> s' = s"
    and alloc_new: "rep s Lv \<Longrightarrow> alloc n s = Some (p, s') \<Longrightarrow> p \<noteq> 0 \<Longrightarrow>
      Lv p = None \<and> (\<exists>k \<ge> unat n. rep s' (Lv(p \<mapsto> k)))"
    and alloc_keeps: "rep s Lv \<Longrightarrow> alloc n s = Some (p, s') \<Longrightarrow> Lv q = Some k \<Longrightarrow> in_range q k x \<Longrightarrow>
      byte s' x = byte s x"
    and release_rep: "rep s Lv \<Longrightarrow> Lv p = Some k \<Longrightarrow> rep (release p s) (Lv(p := None))"
    and release_keeps: "rep s Lv \<Longrightarrow> Lv p = Some k \<Longrightarrow> Lv q = Some l \<Longrightarrow> q \<noteq> p \<Longrightarrow> in_range q l x \<Longrightarrow>
      byte (release p s) x = byte s x"
    and live_disjoint: "rep s Lv \<Longrightarrow> Lv p = Some k \<Longrightarrow> Lv q = Some l \<Longrightarrow> p \<noteq> q \<Longrightarrow>
      in_range p k x \<Longrightarrow> \<not> in_range q l x"
    and poke_rep: "rep s Lv \<Longrightarrow> Lv p = Some k \<Longrightarrow> in_range p k x \<Longrightarrow> rep (poke x v s) Lv"
    and byte_poke: "byte (poke x v s) y = (if y = x then v else byte s y)"
begin

text \<open>Allocating and releasing at once leaves the live blocks and their contents as they were.\<close>

lemma alloc_release:
  assumes r: "rep s Lv" and a: "alloc n s = Some (p, s')" and nz: "p \<noteq> 0"
  shows "rep (release p s') Lv"
    and "Lv q = Some k \<Longrightarrow> in_range q k x \<Longrightarrow> byte (release p s') x = byte s x"
proof -
  obtain l where l: "rep s' (Lv(p \<mapsto> l))" and new: "Lv p = None" using alloc_new [OF r a nz] by blast
  have "(Lv(p \<mapsto> l))(p := None) = Lv" using new by auto
  then show "rep (release p s') Lv" using release_rep [OF l, of p l] by simp
  show "byte (release p s') x = byte s x" if q: "Lv q = Some k" "in_range q k x"
  proof -
    have "q \<noteq> p" using q(1) new by auto
    then have "byte (release p s') x = byte s' x"
      using release_keeps [OF l, of p l q k x] q by simp
    then show ?thesis using alloc_keeps [OF r a q] by simp
  qed
qed

text \<open>The bytes just allocated belong to no other live block.\<close>

lemma alloc_disjoint:
  assumes r: "rep s Lv" and a: "alloc n s = Some (p, s')" and nz: "p \<noteq> 0"
    and x: "in_range p (unat n) x" and q: "Lv q = Some k"
  shows "\<not> in_range q k x"
proof -
  obtain l where l: "unat n \<le> l" "rep s' (Lv(p \<mapsto> l))" and new: "Lv p = None"
    using alloc_new [OF r a nz] by blast
  have "in_range p l x" using x l(1) by (rule in_range_mono)
  moreover have "q \<noteq> p" using q new by auto
  ultimately show ?thesis using live_disjoint [OF l(2), of p l q k x] q by simp
qed

text \<open>The owner of a block can write it without disturbing anybody else's.\<close>

lemma poke_other:
  assumes "rep s Lv" "Lv p = Some k" "in_range p k x" "Lv q = Some l" "q \<noteq> p" "in_range q l y"
  shows "byte (poke x v s) y = byte s y"
  using live_disjoint [OF assms(1,2,4), of x] assms by (auto simp: byte_poke)

end

end
