(* ===== verification/Kheap.thy ===== *)
theory Kheap
  imports Heap_Interface
begin

text \<open>
  \<open>kernel/heap.c\<close>: the kernel heap, a first-fit free list over a 256 KiB arena with a bump
  pointer behind it.  Headers and links are words of the flat memory inside the arena
  \<open>g_heap\<close>; the list head and the bump offset are the two static variables.  The
  contract of a kernel heap, the locale of \<open>Heap_Interface\<close>, is interpreted on this allocator.
\<close>

record kheap =
  g_freelist :: u32
  g_heap_off :: u32

section \<open>The code\<close>

abbreviation (input) VERVE_HEAP_SIZE :: u32 where "VERVE_HEAP_SIZE \<equiv> 262144"
abbreviation (input) HEAP_HDR_ALIGN :: u32 where "HEAP_HDR_ALIGN \<equiv> 16"

text \<open>A \<open>heap_hdr\<close> is one \<open>size_t\<close>, four bytes.\<close>

definition HEAP_HDR_USER_OFFSET :: u32 where
  "HEAP_HDR_USER_OFFSET = (4 + (HEAP_HDR_ALIGN - 1)) AND NOT (HEAP_HDR_ALIGN - 1)"

definition heap_align_up :: "u32 \<Rightarrow> u32 \<Rightarrow> u32" where
  "heap_align_up x align = (x + align - 1) AND NOT (align - 1)"

definition heap_init :: "kheap \<Rightarrow> kheap" where
  "heap_init h = h\<lparr>g_freelist := 0, g_heap_off := 0\<rparr>"

text \<open>
  The search of \<open>kmalloc\<close>.  \<open>plink\<close> is \<open>None\<close> while it points to \<open>g_freelist\<close> and the address
  of the link word otherwise.  A cyclic list is searched for ever (\<open>None\<close>); the result of a
  finished search is the link, the block found and its successor.
\<close>

partial_function (option) heap_search ::
    "memory \<Rightarrow> u32 \<Rightarrow> u32 option \<Rightarrow> u32 \<Rightarrow> (u32 option \<times> u32 \<times> u32) option option" where
  "heap_search m need plink b =
     (if b = 0 then Some None
      else let nb = ld32 m (b + HEAP_HDR_USER_OFFSET)
        in if ld32 m b \<ge> need then Some (Some (plink, b, nb))
           else heap_search m need (Some (b + HEAP_HDR_USER_OFFSET)) nb)"

definition store_link :: "u32 option \<Rightarrow> u32 \<Rightarrow> memory \<times> kheap \<Rightarrow> memory \<times> kheap" where
  "store_link plink v mh =
     (case plink of None \<Rightarrow> (fst mh, (snd mh)\<lparr>g_freelist := v\<rparr>) | Some a \<Rightarrow> (st32 (fst mh) a v, snd mh))"

definition kmalloc :: "layout \<Rightarrow> u32 \<Rightarrow> memory \<times> kheap \<Rightarrow> (u32 \<times> memory \<times> kheap) option" where
  "kmalloc L sz mh =
     (if sz = 0 \<or> sz > VERVE_HEAP_SIZE then Some (0, mh)
      else let need = heap_align_up (HEAP_HDR_USER_OFFSET + sz) HEAP_HDR_ALIGN
        in if need > VERVE_HEAP_SIZE then Some (0, mh)
        else case heap_search (fst mh) need None (g_freelist (snd mh)) of
          None \<Rightarrow> None
        | Some (Some (plink, b, nb)) \<Rightarrow> Some (b + HEAP_HDR_USER_OFFSET, store_link plink nb mh)
        | Some None \<Rightarrow>
            if VERVE_HEAP_SIZE - g_heap_off (snd mh) < need then Some (0, mh)
            else let h = g_heap L + g_heap_off (snd mh)
              in Some (h + HEAP_HDR_USER_OFFSET, st32 (fst mh) h need,
                   (snd mh)\<lparr>g_heap_off := g_heap_off (snd mh) + need\<rparr>))"

definition kfree :: "layout \<Rightarrow> u32 \<Rightarrow> memory \<times> kheap \<Rightarrow> memory \<times> kheap" where
  "kfree L ptr mh =
     (if ptr = 0 then mh
      else let arena_lo = g_heap L + HEAP_HDR_USER_OFFSET; arena_hi = g_heap L + VERVE_HEAP_SIZE
        in if ptr < arena_lo \<or> ptr \<ge> arena_hi then mh
        else let h = ptr - HEAP_HDR_USER_OFFSET
          in (st32 (fst mh) (h + HEAP_HDR_USER_OFFSET) (g_freelist (snd mh)), (snd mh)\<lparr>g_freelist := h\<rparr>))"

section \<open>The invariant\<close>

text \<open>
  \<open>F\<close> is the free list and \<open>A\<close> the set of live blocks, both as offsets into the arena.  The
  blocks are multiples of 16 bytes, at least 32, lie below the bump offset and do not
  overlap; the header of each holds its size and the free ones are chained in the order
  of \<open>F\<close>.
\<close>

definition blk :: "layout \<Rightarrow> nat \<Rightarrow> u32" where
  "blk L k = g_heap L + of_nat k"

definition blk_size :: "layout \<Rightarrow> memory \<Rightarrow> nat \<Rightarrow> nat" where
  "blk_size L m k = unat (ld32 m (blk L k))"

fun chain :: "layout \<Rightarrow> memory \<Rightarrow> u32 \<Rightarrow> nat list \<Rightarrow> bool" where
  "chain L m p [] \<longleftrightarrow> p = 0"
| "chain L m p (k # ks) \<longleftrightarrow> p = blk L k \<and> chain L m (ld32 m (blk L (k + 16))) ks"

definition arena_ok :: "layout \<Rightarrow> bool" where
  "arena_ok L \<longleftrightarrow> unat (g_heap L) mod 16 = 0 \<and> g_heap L \<noteq> 0 \<and> unat (g_heap L) + 262144 < 4294967296"

definition block_ok :: "layout \<Rightarrow> memory \<Rightarrow> nat \<Rightarrow> nat \<Rightarrow> bool" where
  "block_ok L m hi k \<longleftrightarrow> k mod 16 = 0 \<and> blk_size L m k mod 16 = 0 \<and> 32 \<le> blk_size L m k
     \<and> k + blk_size L m k \<le> hi"

definition heap_inv :: "layout \<Rightarrow> memory \<Rightarrow> kheap \<Rightarrow> nat list \<Rightarrow> nat set \<Rightarrow> bool" where
  "heap_inv L m h F A \<longleftrightarrow> arena_ok L \<and> unat (g_heap_off h) \<le> 262144 \<and> unat (g_heap_off h) mod 16 = 0
     \<and> distinct F \<and> set F \<inter> A = {} \<and> chain L m (g_freelist h) F
     \<and> (\<forall>k \<in> set F \<union> A. block_ok L m (unat (g_heap_off h)) k)
     \<and> (\<forall>k \<in> set F \<union> A. \<forall>j \<in> set F \<union> A. k < j \<longrightarrow> k + blk_size L m k \<le> j)"

lemma heap_inv_init: "arena_ok L \<Longrightarrow> heap_inv L m (heap_init h) [] {}"
  by (simp add: heap_inv_def heap_init_def)

lemma user_offset [simp]: "HEAP_HDR_USER_OFFSET = 16"
  by (simp add: HEAP_HDR_USER_OFFSET_def)

lemma unat_blk: "arena_ok L \<Longrightarrow> k \<le> 262144 \<Longrightarrow> unat (blk L k) = unat (g_heap L) + k"
  unfolding blk_def arena_ok_def by (intro unat_plus32) simp

lemma blk_eq: "arena_ok L \<Longrightarrow> k \<le> 262144 \<Longrightarrow> j \<le> 262144 \<Longrightarrow> blk L k = blk L j \<longleftrightarrow> k = j"
  by (simp add: word_unat_eq_iff unat_blk)

lemma blk_nonzero: "arena_ok L \<Longrightarrow> k \<le> 262144 \<Longrightarrow> blk L k \<noteq> 0"
  by (simp add: word_unat_eq_iff unat_blk) (auto simp: arena_ok_def word_unat_eq_iff)

lemma blk_plus: "blk L k + of_nat j = blk L (k + j)"
  by (simp add: blk_def)

lemma blk_plus16: "blk L k + 16 = blk L (k + 16)"
  by (simp add: blk_def)

lemma blk_aligned4: "arena_ok L \<Longrightarrow> k \<le> 262144 \<Longrightarrow> k mod 4 = 0 \<Longrightarrow> unat (blk L k) mod 4 = 0"
proof -
  assume a: "arena_ok L" "k \<le> 262144" "k mod 4 = 0"
  have "4 dvd (16 :: nat)" by simp
  then have "4 dvd unat (g_heap L)" using a(1) by (auto simp: arena_ok_def intro: dvd_trans)
  moreover have "4 dvd k" using a(3) by auto
  ultimately show ?thesis using unat_blk [OF a(1,2)] by (simp only:) (auto intro: dvd_add)
qed

text \<open>Words of the arena: a store to one leaves the others alone.\<close>

lemma ld_st_blk:
  "arena_ok L \<Longrightarrow> k \<le> 262144 \<Longrightarrow> j \<le> 262144 \<Longrightarrow> k mod 4 = 0 \<Longrightarrow> j mod 4 = 0 \<Longrightarrow>
     ld32 (st32 m (blk L k) v) (blk L j) = (if k = j then v else ld32 m (blk L j))"
  using ld32_st32_other [of "blk L k" "blk L j" m v] blk_aligned4 [of L k] blk_aligned4 [of L j] blk_eq [of L k j]
  by (auto simp: ld32_st32_same)

lemma mod16_4: "k mod 16 = 0 \<Longrightarrow> (k + 16) mod 4 = 0 \<and> k mod 4 = 0" for k :: nat
  by presburger

lemma heap_invD:
  assumes "heap_inv L m h F A"
  shows "arena_ok L" and "unat (g_heap_off h) \<le> 262144" and "unat (g_heap_off h) mod 16 = 0"
    and "distinct F" and "k \<in> set F \<Longrightarrow> k \<notin> A" and "chain L m (g_freelist h) F"
    and "k \<in> set F \<union> A \<Longrightarrow> block_ok L m (unat (g_heap_off h)) k"
    and "k \<in> set F \<union> A \<Longrightarrow> j \<in> set F \<union> A \<Longrightarrow> k < j \<Longrightarrow> k + blk_size L m k \<le> j"
  using assms by (auto simp: heap_inv_def)

lemma block_bounds:
  assumes "heap_inv L m h F A" and "k \<in> set F \<union> A"
  shows "k + 32 \<le> 262144" and "k mod 4 = 0" and "(k + 16) mod 4 = 0"
proof -
  have b: "k mod 16 = 0" "32 \<le> blk_size L m k" "k + blk_size L m k \<le> unat (g_heap_off h)"
    using heap_invD(7) [OF assms] unfolding block_ok_def by blast+
  then show "k + 32 \<le> 262144" using heap_invD(2) [OF assms(1)] by linarith
  show "k mod 4 = 0" "(k + 16) mod 4 = 0" using mod16_4 [OF b(1)] by blast+
qed

lemma link_not_header:
  assumes "heap_inv L m h F A" and "k \<in> set F \<union> A" and "j \<in> set F \<union> A"
  shows "k + 16 \<noteq> j"
proof
  assume "k + 16 = j"
  then have "k + blk_size L m k \<le> j" by (intro heap_invD(8) [OF assms]) simp
  moreover have "32 \<le> blk_size L m k" using heap_invD(7) [OF assms(1,2)] unfolding block_ok_def by blast
  ultimately show False using \<open>k + 16 = j\<close> by linarith
qed

text \<open>Writing the link word of a block changes no header and no other link.\<close>

lemma write_link:
  assumes I: "heap_inv L m h F A" and k: "k \<in> set F \<union> A" and j: "j \<in> set F \<union> A"
  shows "blk_size L (st32 m (blk L (k + 16)) v) j = blk_size L m j"
    and "ld32 (st32 m (blk L (k + 16)) v) (blk L (j + 16)) = (if j = k then v else ld32 m (blk L (j + 16)))"
  using block_bounds [OF I k] block_bounds [OF I j] link_not_header [OF I k j] heap_invD(1) [OF I]
  by (auto simp: blk_size_def ld_st_blk)

lemma chain_cong:
  "(\<And>k. k \<in> set ks \<Longrightarrow> ld32 m' (blk L (k + 16)) = ld32 m (blk L (k + 16))) \<Longrightarrow>
     chain L m' p ks = chain L m p ks"
  by (induction ks arbitrary: p) auto

lemma chain_append_link:
  "chain L m p (F1 @ k # F2) \<Longrightarrow> chain L m (ld32 m (blk L (k + 16))) F2"
  by (induction F1 arbitrary: p) auto

text \<open>Unlinking a block.\<close>

definition link_of :: "layout \<Rightarrow> nat list \<Rightarrow> u32 option \<Rightarrow> u32 option" where
  "link_of L F1 pl = (if F1 = [] then pl else Some (blk L (last F1 + 16)))"

lemma heap_search_found:
  assumes "arena_ok L" and "chain L m p (F1 @ k # F2)" and "\<forall>j\<in>set (F1 @ k # F2). j \<le> 262144"
    and "\<forall>j\<in>set F1. blk_size L m j < unat need" and "unat need \<le> blk_size L m k"
  shows "heap_search m need pl p = Some (Some (link_of L F1 pl, blk L k, ld32 m (blk L (k + 16))))"
  using assms(2-5)
proof (induction F1 arbitrary: p pl)
  case Nil
  then have "p = blk L k" "p \<noteq> 0" using blk_nonzero [OF assms(1), of k] by auto
  then show ?case
    using Nil by (subst heap_search.simps) (simp add: blk_size_def word_le_nat_alt blk_plus16 link_of_def Let_def)
next
  case (Cons j F1)
  then have p: "p = blk L j" "p \<noteq> 0" using blk_nonzero [OF assms(1), of j] by auto
  have lt: "\<not> need \<le> ld32 m p"
    using Cons.prems(3) p(1) by (simp add: blk_size_def word_le_nat_alt)
  have "heap_search m need (Some (blk L (j + 16))) (ld32 m (blk L (j + 16)))
      = Some (Some (link_of L F1 (Some (blk L (j + 16))), blk L k, ld32 m (blk L (k + 16))))"
    using Cons.prems by (intro Cons.IH) auto
  moreover have "link_of L F1 (Some (blk L (j + 16))) = link_of L (j # F1) pl"
    by (simp add: link_of_def)
  ultimately show ?case
    using p lt by (subst heap_search.simps) (simp add: Let_def blk_plus16)
qed

lemma heap_search_miss:
  assumes "arena_ok L" and "chain L m p F" and "\<forall>j\<in>set F. j \<le> 262144"
    and "\<forall>j\<in>set F. blk_size L m j < unat need"
  shows "heap_search m need pl p = Some None"
  using assms(2-4)
proof (induction F arbitrary: p pl)
  case Nil
  then show ?case by (subst heap_search.simps) simp
next
  case (Cons j F)
  then have p: "p = blk L j" "p \<noteq> 0" using blk_nonzero [OF assms(1), of j] by auto
  have "\<not> need \<le> ld32 m p"
    using Cons.prems(3) p(1) by (simp add: blk_size_def word_le_nat_alt)
  then show ?case
    using p Cons by (subst heap_search.simps) (simp add: Let_def blk_plus16)
qed

lemma unlink:
  assumes I: "heap_inv L m h (F1 @ k # F2) A"
  defines "mh \<equiv> store_link (link_of L F1 None) (ld32 m (blk L (k + 16))) (m, h)"
  shows "heap_inv L (fst mh) (snd mh) (F1 @ F2) (insert k A)"
    and "j \<in> set (F1 @ k # F2) \<union> A \<Longrightarrow> blk_size L (fst mh) j = blk_size L m j"
    and "fst mh = m \<or> (\<exists>l \<in> set F1. \<exists>v. fst mh = st32 m (blk L (l + 16)) v)"
proof -
  let ?F = "F1 @ k # F2" and ?v = "ld32 m (blk L (k + 16))"
  note D = heap_invD [OF I]
  have dis: "distinct ?F" "set ?F \<inter> A = {}" using D(4) D(5) by auto
  have off: "g_heap_off (snd mh) = g_heap_off h"
    by (simp add: mh_def store_link_def split: option.split)
  show form: "fst mh = m \<or> (\<exists>l \<in> set F1. \<exists>v. fst mh = st32 m (blk L (l + 16)) v)"
    by (auto simp: mh_def store_link_def link_of_def)
  show sizes: "blk_size L (fst mh) j = blk_size L m j" if "j \<in> set ?F \<union> A" for j
    using form write_link(1) [OF I _ that] by auto
  have ch: "chain L (fst mh) (g_freelist (snd mh)) (F1 @ F2)"
  proof (cases F1 rule: rev_cases)
    case Nil
    then show ?thesis using D(6) by (simp add: mh_def store_link_def link_of_def)
  next
    case (snoc G l)
    have lF: "l \<in> set ?F \<union> A" using snoc by simp
    let ?m' = "st32 m (blk L (l + 16)) ?v"
    have mh: "mh = (?m', h)" using snoc by (simp add: mh_def store_link_def link_of_def)
    have tail: "chain L ?m' ?v F2"
    proof -
      have "chain L m ?v F2" using D(6) by (rule chain_append_link)
      moreover have "chain L ?m' ?v F2 = chain L m ?v F2"
        using dis(1) snoc write_link(2) [OF I lF] by (intro chain_cong) auto
      ultimately show ?thesis by simp
    qed
    have "chain L ?m' p (G @ l # F2)" if "chain L m p (G @ l # k # F2)" "\<forall>g\<in>set G. g \<in> set ?F \<and> g \<noteq> l" for p
      using that
    proof (induction G arbitrary: p)
      case Nil
      then show ?case using tail write_link(2) [OF I lF lF, of ?v] by simp
    next
      case (Cons g G)
      then show ?case using write_link(2) [OF I lF, of g ?v] by auto
    qed
    moreover have "\<forall>g\<in>set G. g \<in> set ?F \<and> g \<noteq> l" using snoc dis(1) by auto
    ultimately show ?thesis using D(6) snoc by (simp add: mh)
  qed
  show "heap_inv L (fst mh) (snd mh) (F1 @ F2) (insert k A)"
    unfolding heap_inv_def
  proof (intro conjI)
    show "\<forall>j\<in>set (F1 @ F2) \<union> insert k A. block_ok L (fst mh) (unat (g_heap_off (snd mh))) j"
      using D(7) sizes by (auto simp: block_ok_def off)
    show "\<forall>i\<in>set (F1 @ F2) \<union> insert k A. \<forall>j\<in>set (F1 @ F2) \<union> insert k A.
        i < j \<longrightarrow> i + blk_size L (fst mh) i \<le> j"
      using D(8) sizes by auto
  qed (use D ch dis off in auto)
qed

text \<open>The size \<open>kmalloc\<close> reserves, and the two ways it gets a block.\<close>

definition need_of :: "nat \<Rightarrow> nat" where
  "need_of n = (n + 31) div 16 * 16"

lemma unat_need:
  assumes "sz \<le> VERVE_HEAP_SIZE"
  shows "unat (heap_align_up (HEAP_HDR_USER_OFFSET + sz) HEAP_HDR_ALIGN) = need_of (unat sz)"
proof -
  have m: "(15 :: u32) = mask 4" by (simp add: mask_eq_exp_minus_1)
  have "unat (sz + of_nat 31) = unat sz + 31"
    using assms by (intro unat_plus32) (simp add: word_le_nat_alt)
  moreover have "HEAP_HDR_USER_OFFSET + sz + HEAP_HDR_ALIGN - 1 = sz + of_nat 31" by simp
  ultimately have x: "unat (HEAP_HDR_USER_OFFSET + sz + HEAP_HDR_ALIGN - 1) = unat sz + 31" by metis
  have "unat (w AND NOT 15) = unat w div 16 * 16" for w :: u32
  proof -
    have "unat (w AND NOT 15) = unat w - unat (w AND 15)"
      unfolding and_not_minus by (rule unat_sub) (simp only: m unat_and_mask word_le_nat_alt mod_less_eq_dividend)
    then show ?thesis by (simp only: m unat_and_mask) (simp add: minus_mod_eq_div_mult)
  qed
  from this [of "HEAP_HDR_USER_OFFSET + sz + HEAP_HDR_ALIGN - 1"] show ?thesis
    by (simp only: heap_align_up_def x need_of_def) simp
qed

lemma need_of_facts: "n + 16 \<le> need_of n" "need_of n mod 16 = 0" "0 < n \<Longrightarrow> 32 \<le> need_of n"
  unfolding need_of_def by presburger+

lemma heap_inv_bump:
  assumes I: "heap_inv L m h F A" and n: "n mod 16 = 0" "32 \<le> n" "unat need = n"
    and room: "unat (g_heap_off h) + n \<le> 262144"
  defines "o' \<equiv> unat (g_heap_off h)"
  shows "heap_inv L (st32 m (blk L o') need) (h\<lparr>g_heap_off := g_heap_off h + need\<rparr>) F (insert o' A)"
    and "o' \<notin> A" and "j \<in> set F \<union> A \<Longrightarrow> blk_size L (st32 m (blk L o') need) j = blk_size L m j"
    and "blk_size L (st32 m (blk L o') need) o' = n"
proof -
  note D = heap_invD [OF I]
  let ?m = "st32 m (blk L o') need"
  have below: "k + blk_size L m k \<le> o'" "32 \<le> blk_size L m k" if "k \<in> set F \<union> A" for k
    using D(7) [OF that] by (auto simp: block_ok_def o'_def)
  have o'4: "o' mod 4 = 0" "o' mod 16 = 0" "o' \<le> 262144"
    using D(2,3) mod16_4 [of o'] by (auto simp: o'_def)
  show sizes: "blk_size L ?m j = blk_size L m j" if "j \<in> set F \<union> A" for j
    using below [OF that] block_bounds [OF I that] o'4 D(1) by (auto simp: blk_size_def ld_st_blk)
  show own: "blk_size L ?m o' = n" using n(3) by (simp add: blk_size_def ld32_st32_same)
  have fresh: "o' \<notin> set F \<union> A" using below by force
  then show "o' \<notin> A" by blast
  have "ld32 ?m (blk L (k + 16)) = ld32 m (blk L (k + 16))" if "k \<in> set F \<union> A" for k
  proof -
    have "o' \<noteq> k + 16" using below [OF that] by linarith
    then show ?thesis using block_bounds [OF I that] o'4 D(1) by (simp add: ld_st_blk)
  qed
  then have ch: "chain L ?m (g_freelist h) F" using D(6) chain_cong [of F ?m L m] by auto
  have off: "unat (g_heap_off h + need) = o' + n"
    using room n(3) unat_add32 [of "g_heap_off h" need] by (simp add: o'_def)
  show "heap_inv L ?m (h\<lparr>g_heap_off := g_heap_off h + need\<rparr>) F (insert o' A)"
    unfolding heap_inv_def
  proof (intro conjI)
    show "\<forall>k\<in>set F \<union> insert o' A. block_ok L ?m (unat (g_heap_off (h\<lparr>g_heap_off := g_heap_off h + need\<rparr>))) k"
      using D(7) sizes own n o'4 by (force simp: block_ok_def off o'_def [symmetric])
    have "k + blk_size L ?m k \<le> j" if kj: "k \<in> set F \<union> insert o' A" "j \<in> set F \<union> insert o' A" "k < j" for k j
    proof -
      have "k \<noteq> o'" using kj below by force
      then have k: "k \<in> set F \<union> A" using kj(1) by blast
      show ?thesis
      proof (cases "j = o'")
        case True
        then show ?thesis using below(1) [OF k] sizes [OF k] by simp
      next
        case False
        then show ?thesis using D(8) [OF k _ kj(3)] kj(2) sizes [OF k] by auto
      qed
    qed
    then show "\<forall>k\<in>set F \<union> insert o' A. \<forall>j\<in>set F \<union> insert o' A. k < j \<longrightarrow> k + blk_size L ?m k \<le> j" by blast
  qed (use D ch fresh off room o'4 n in \<open>auto simp: o'_def mod_add_eq [symmetric]\<close>)
qed

text \<open>\<open>payload\<close>: the bytes the owner of a live block may use.\<close>

definition payload :: "layout \<Rightarrow> memory \<Rightarrow> nat \<Rightarrow> u32 \<Rightarrow> bool" where
  "payload L m k x \<longleftrightarrow> in_range (blk L (k + 16)) (blk_size L m k - 16) x"

lemma payload_iff:
  assumes "heap_inv L m h F A" and "k \<in> set F \<union> A"
  shows "payload L m k x \<longleftrightarrow> unat (g_heap L) + k + 16 \<le> unat x \<and> unat x < unat (g_heap L) + k + blk_size L m k"
proof -
  have b: "32 \<le> blk_size L m k" "k + blk_size L m k \<le> 262144" and a: "arena_ok L"
    using heap_invD(1,2) [OF assms(1)] heap_invD(7) [OF assms] by (auto simp: block_ok_def)
  then have "unat (blk L (k + 16)) = unat (g_heap L) + (k + 16)" by (intro unat_blk) auto
  then show ?thesis
    using b a unfolding payload_def by (subst in_range_iff) (auto simp: arena_ok_def)
qed

lemma payload_disjoint:
  assumes "heap_inv L m h F A" and "k \<in> set F \<union> A" "j \<in> set F \<union> A" "k \<noteq> j"
  shows "\<not> (payload L m k x \<and> payload L m j x)"
proof (cases "k < j")
  case True
  then show ?thesis
    using heap_invD(8) [OF assms(1-3)] by (simp add: payload_iff [OF assms(1,2)] payload_iff [OF assms(1,3)])
next
  case False
  then have "j < k" using assms(4) by simp
  then show ?thesis
    using heap_invD(8) [OF assms(1,3,2)] by (simp add: payload_iff [OF assms(1,2)] payload_iff [OF assms(1,3)])
qed

text \<open>A store into a header or into the link of a block of the list misses every live payload.\<close>

lemma store_misses_payload:
  assumes I: "heap_inv L m h F A" and j: "j \<in> set F \<union> A" and p: "payload L m j x"
    and "a = blk L k" "k + 4 \<le> 262144 + 4"
    and out: "k + 4 \<le> j + 16 \<or> j + blk_size L m j \<le> k"
  shows "st32 m a v x = m x"
proof -
  have a: "unat a = unat (g_heap L) + k" using assms(4,5) unat_blk heap_invD(1) [OF I] by simp
  have "\<not> in_range a 4 x"
  proof -
    have "unat a + 4 \<le> 4294967296" using a assms(5) heap_invD(1) [OF I] by (auto simp: arena_ok_def)
    then show ?thesis using p out by (auto simp: in_range_iff a payload_iff [OF I j])
  qed
  then show ?thesis by (rule st32_out)
qed

lemma link_misses_payload:
  assumes I: "heap_inv L m h F A" and j: "j \<in> set F \<union> A" and p: "payload L m j x"
    and k: "k \<in> set F \<union> A" "k \<noteq> j"
  shows "st32 m (blk L (k + 16)) v x = m x"
proof (rule store_misses_payload [OF I j p refl])
  have b: "k + 32 \<le> 262144" "32 \<le> blk_size L m k"
    using block_bounds [OF I k(1)] heap_invD(7) [OF I k(1)] by (auto simp: block_ok_def)
  then show "k + 16 + 4 \<le> 262144 + 4" by simp
  show "k + 16 + 4 \<le> j + 16 \<or> j + blk_size L m j \<le> k + 16"
    using heap_invD(8) [OF I k(1) j] heap_invD(8) [OF I j k(1)] k(2) b by linarith
qed

section \<open>Allocation and release\<close>

text \<open>What one call did to the heap: the blocks live before keep their size and their contents.\<close>

definition keeps_live :: "layout \<Rightarrow> memory \<Rightarrow> memory \<Rightarrow> nat set \<Rightarrow> bool" where
  "keeps_live L m m' A \<longleftrightarrow> (\<forall>j\<in>A. blk_size L m' j = blk_size L m j \<and> (\<forall>x. payload L m j x \<longrightarrow> m' x = m x))"

lemma keeps_live_unlink:
  assumes I: "heap_inv L m h (F1 @ k # F2) A"
  shows "keeps_live L m (fst (store_link (link_of L F1 None) (ld32 m (blk L (k + 16))) (m, h))) A"
proof -
  let ?m = "fst (store_link (link_of L F1 None) (ld32 m (blk L (k + 16))) (m, h))"
  have "?m x = m x" if j: "j \<in> A" "payload L m j x" for j x
    using unlink(3) [OF I]
  proof
    assume "\<exists>l\<in>set F1. \<exists>v. ?m = st32 m (blk L (l + 16)) v"
    then obtain l v where l: "l \<in> set F1" "?m = st32 m (blk L (l + 16)) v" by blast
    have "l \<noteq> j" using l(1) j(1) heap_invD(5) [OF I, of l] by auto
    then show ?thesis using link_misses_payload [OF I, of j x l v] l j by simp
  qed simp
  then show ?thesis using unlink(2) [OF I] by (auto simp: keeps_live_def)
qed

lemma keeps_live_bump:
  assumes I: "heap_inv L m h F A" and room: "unat (g_heap_off h) + n \<le> 262144" and n: "n mod 16 = 0" "32 \<le> n" "unat need = n"
  shows "keeps_live L m (st32 m (blk L (unat (g_heap_off h))) need) A"
proof -
  have "st32 m (blk L (unat (g_heap_off h))) need x = m x" if j: "j \<in> A" "payload L m j x" for j x
  proof (rule store_misses_payload [OF I _ j(2) refl])
    have "j + blk_size L m j \<le> unat (g_heap_off h)" using heap_invD(7) [OF I, of j] j(1) by (auto simp: block_ok_def)
    then show "unat (g_heap_off h) + 4 \<le> j + 16 \<or> j + blk_size L m j \<le> unat (g_heap_off h)" by simp
    show "unat (g_heap_off h) + 4 \<le> 262144 + 4" using room by simp
  qed (use j in simp)
  then show ?thesis using heap_inv_bump(3) [OF I n room] by (auto simp: keeps_live_def)
qed

lemma first_fit: "(\<forall>j\<in>set F. \<not> P j) \<or> (\<exists>F1 k F2. F = F1 @ k # F2 \<and> P k \<and> (\<forall>j\<in>set F1. \<not> P j))"
  by (metis split_list_first_prop)

lemma kmalloc_reject: "sz = 0 \<or> 262144 < need_of (unat sz) \<Longrightarrow> kmalloc L sz mh = Some (0, mh)"
proof -
  assume h: "sz = 0 \<or> 262144 < need_of (unat sz)"
  show ?thesis
  proof (cases "sz = 0 \<or> sz > VERVE_HEAP_SIZE")
    case True
    then show ?thesis by (auto simp: kmalloc_def)
  next
    case False
    then have "unat (heap_align_up (HEAP_HDR_USER_OFFSET + sz) HEAP_HDR_ALIGN) = need_of (unat sz)"
      by (intro unat_need) (simp add: not_less)
    then show ?thesis using False h by (simp add: kmalloc_def Let_def word_less_nat_alt)
  qed
qed

lemma kmalloc_accept:
  assumes "sz \<noteq> 0" and n: "need_of (unat sz) \<le> 262144"
  defines "need \<equiv> heap_align_up (HEAP_HDR_USER_OFFSET + sz) HEAP_HDR_ALIGN"
  shows "unat need = need_of (unat sz)"
    and "kmalloc L sz (m, h) = (case heap_search m need None (g_freelist h) of
          None \<Rightarrow> None
        | Some (Some (plink, b, nb)) \<Rightarrow> Some (b + HEAP_HDR_USER_OFFSET, store_link plink nb (m, h))
        | Some None \<Rightarrow>
            if VERVE_HEAP_SIZE - g_heap_off h < need then Some (0, (m, h))
            else Some (g_heap L + g_heap_off h + HEAP_HDR_USER_OFFSET, st32 m (g_heap L + g_heap_off h) need,
                   h\<lparr>g_heap_off := g_heap_off h + need\<rparr>))"
proof -
  have "unat sz \<le> 262144" using n need_of_facts(1) [of "unat sz"] by simp
  then have le: "sz \<le> VERVE_HEAP_SIZE" by (simp add: word_le_nat_alt)
  show u: "unat need = need_of (unat sz)" unfolding need_def by (rule unat_need [OF le])
  have "\<not> need > VERVE_HEAP_SIZE" using u n by (simp add: word_less_nat_alt)
  then have "(VERVE_HEAP_SIZE < need) = False" "(sz = 0 \<or> VERVE_HEAP_SIZE < sz) = False"
    using assms(1) le by auto
  then show "kmalloc L sz (m, h) = (case heap_search m need None (g_freelist h) of
          None \<Rightarrow> None
        | Some (Some (plink, b, nb)) \<Rightarrow> Some (b + HEAP_HDR_USER_OFFSET, store_link plink nb (m, h))
        | Some None \<Rightarrow>
            if VERVE_HEAP_SIZE - g_heap_off h < need then Some (0, (m, h))
            else Some (g_heap L + g_heap_off h + HEAP_HDR_USER_OFFSET, st32 m (g_heap L + g_heap_off h) need,
                   h\<lparr>g_heap_off := g_heap_off h + need\<rparr>))"
    unfolding need_def by (simp only: kmalloc_def Let_def fst_conv snd_conv if_False)
qed

lemma kmalloc_cases:
  assumes I: "heap_inv L m h F A"
  obtains
    (none) "kmalloc L sz (m, h) = Some (0, m, h)"
      "sz = 0 \<or> 262144 < need_of (unat sz)
       \<or> (\<forall>k\<in>set F. blk_size L m k < need_of (unat sz)) \<and> 262144 < unat (g_heap_off h) + need_of (unat sz)"
  | (found) k F1 F2 mh where "F = F1 @ k # F2" "kmalloc L sz (m, h) = Some (blk L (k + 16), mh)"
      "heap_inv L (fst mh) (snd mh) (F1 @ F2) (insert k A)" "keeps_live L m (fst mh) A" "k \<notin> A"
      "need_of (unat sz) \<le> blk_size L (fst mh) k" "\<forall>j\<in>set F1. blk_size L m j < need_of (unat sz)" "sz \<noteq> 0"
  | (bump) mh where "kmalloc L sz (m, h) = Some (blk L (unat (g_heap_off h) + 16), mh)"
      "heap_inv L (fst mh) (snd mh) F (insert (unat (g_heap_off h)) A)" "keeps_live L m (fst mh) A"
      "unat (g_heap_off h) \<notin> A" "blk_size L (fst mh) (unat (g_heap_off h)) = need_of (unat sz)"
      "\<forall>j\<in>set F. blk_size L m j < need_of (unat sz)" "sz \<noteq> 0"
proof (cases "sz = 0 \<or> 262144 < need_of (unat sz)")
  case True
  then show thesis using none kmalloc_reject by blast
next
  case False
  let ?need = "heap_align_up (HEAP_HDR_USER_OFFSET + sz) HEAP_HDR_ALIGN" and ?n = "need_of (unat sz)"
  have s0: "sz \<noteq> 0" "?n \<le> 262144" using False by auto
  note acc = kmalloc_accept [OF s0]
  note D = heap_invD [OF I]
  have le: "\<forall>j\<in>set F. j \<le> 262144" using block_bounds(1) [OF I] by force
  from first_fit [of F "\<lambda>j. ?n \<le> blk_size L m j"] show thesis
  proof (elim disjE exE conjE)
    fix F1 k F2
    assume F: "F = F1 @ k # F2" and fit: "?n \<le> blk_size L m k" and nofit: "\<forall>j\<in>set F1. \<not> ?n \<le> blk_size L m j"
    let ?mh = "store_link (link_of L F1 None) (ld32 m (blk L (k + 16))) (m, h)"
    note U = unlink [OF I [unfolded F]]
    have "heap_search m ?need None (g_freelist h) = Some (Some (link_of L F1 None, blk L k, ld32 m (blk L (k + 16))))"
      using D(1,6) le F fit nofit acc(1) by (intro heap_search_found) auto
    then have "kmalloc L sz (m, h) = Some (blk L (k + 16), ?mh)" by (simp add: acc(2) blk_plus16)
    then show thesis
      using F U(1) U(2) [of k] keeps_live_unlink [OF I [unfolded F]] fit nofit D(5) [of k] s0(1)
      by (intro found [of F1 k F2 ?mh]) (auto simp: not_le)
  next
    assume nofit: "\<forall>j\<in>set F. \<not> ?n \<le> blk_size L m j"
    have miss: "heap_search m ?need None (g_freelist h) = Some None"
      using D(1,6) le nofit acc(1) by (intro heap_search_miss) (auto simp: not_le)
    have sub: "unat (VERVE_HEAP_SIZE - g_heap_off h) = 262144 - unat (g_heap_off h)"
      using D(2) by (subst unat_sub) (auto simp: word_le_nat_alt)
    show thesis
    proof (cases "262144 < unat (g_heap_off h) + ?n")
      case True
      then have "VERVE_HEAP_SIZE - g_heap_off h < ?need" using sub acc(1) D(2) by (simp add: word_less_nat_alt)
      then have "kmalloc L sz (m, h) = Some (0, m, h)" using miss by (simp add: acc(2))
      then show thesis using True nofit by (intro none) (auto simp: not_le)
    next
      case room: False
      let ?o = "unat (g_heap_off h)"
      have b: "blk L ?o = g_heap L + g_heap_off h" by (simp add: blk_def)
      have "\<not> VERVE_HEAP_SIZE - g_heap_off h < ?need" using sub acc(1) room by (simp add: word_less_nat_alt)
      then have run: "kmalloc L sz (m, h) = Some (blk L (?o + 16), st32 m (blk L ?o) ?need,
          h\<lparr>g_heap_off := g_heap_off h + ?need\<rparr>)"
        using miss by (simp add: acc(2) b blk_plus16 [symmetric])
      have n: "?n mod 16 = 0" "32 \<le> ?n" using need_of_facts s0(1) by (simp_all add: unat_gt_0)
      note B = heap_inv_bump [OF I n acc(1)]
      have "?o + ?n \<le> 262144" using room by simp
      then show thesis
        using run B nofit s0(1) keeps_live_bump [OF I _ n acc(1)] by (intro bump [OF run]) (auto simp: not_le)
    qed
  qed
qed

lemma kfree_live:
  assumes I: "heap_inv L m h F A" and k: "k \<in> A"
  shows "kfree L (blk L (k + 16)) (m, h) = (st32 m (blk L (k + 16)) (g_freelist h), h\<lparr>g_freelist := blk L k\<rparr>)"
    and "heap_inv L (st32 m (blk L (k + 16)) (g_freelist h)) (h\<lparr>g_freelist := blk L k\<rparr>) (k # F) (A - {k})"
    and "keeps_live L m (st32 m (blk L (k + 16)) (g_freelist h)) (A - {k})"
proof -
  note D = heap_invD [OF I]
  have kS: "k \<in> set F \<union> A" using k by simp
  note b = block_bounds [OF I kS]
  have u: "unat (blk L (k + 16)) = unat (g_heap L) + (k + 16)" "unat (blk L 16) = unat (g_heap L) + 16"
    "unat (blk L 262144) = unat (g_heap L) + 262144"
    using D(1) b by (auto intro: unat_blk)
  have e: "g_heap L + 16 = blk L 16" "g_heap L + VERVE_HEAP_SIZE = blk L 262144" by (simp_all add: blk_def)
  have "blk L (k + 16) \<noteq> 0" using b D(1) by (intro blk_nonzero) auto
  then show "kfree L (blk L (k + 16)) (m, h) = (st32 m (blk L (k + 16)) (g_freelist h), h\<lparr>g_freelist := blk L k\<rparr>)"
    using u b by (simp add: kfree_def Let_def e word_less_nat_alt word_le_nat_alt) (simp add: blk_def)
  let ?m = "st32 m (blk L (k + 16)) (g_freelist h)"
  note W = write_link [OF I kS, of _ "g_freelist h"]
  have kF: "k \<notin> set F" using D(5) k by blast
  have "chain L ?m (g_freelist h) F = chain L m (g_freelist h) F"
    by (rule chain_cong) (use W(2) kF in auto)
  then have "chain L ?m (g_freelist h) F" using D(6) by simp
  moreover have "ld32 ?m (blk L (k + 16)) = g_freelist h" by (rule ld32_st32_same)
  ultimately have ch: "chain L ?m (blk L k) (k # F)" by simp
  have S: "set (k # F) \<union> (A - {k}) = set F \<union> A" using k by auto
  show "heap_inv L ?m (h\<lparr>g_freelist := blk L k\<rparr>) (k # F) (A - {k})"
    unfolding heap_inv_def S
  proof (intro conjI)
    show "\<forall>j\<in>set F \<union> A. block_ok L ?m (unat (g_heap_off (h\<lparr>g_freelist := blk L k\<rparr>))) j"
      using D(7) W(1) by (simp add: block_ok_def)
    show "\<forall>i\<in>set F \<union> A. \<forall>j\<in>set F \<union> A. i < j \<longrightarrow> i + blk_size L ?m i \<le> j" using D(8) W(1) by simp
  qed (use D ch kF in auto)
  show "keeps_live L m ?m (A - {k})"
    using W(1) link_misses_payload [OF I _ _ kS] by (auto simp: keeps_live_def)
qed

section \<open>The contract\<close>

definition live_map :: "layout \<Rightarrow> memory \<Rightarrow> nat set \<Rightarrow> u32 \<Rightarrow> nat option" where
  "live_map L m A p = (if \<exists>k\<in>A. p = blk L (k + 16)
     then Some (unat (ld32 m (p - 16)) - 16) else None)"

definition heap_rep :: "layout \<Rightarrow> memory \<times> kheap \<Rightarrow> (u32 \<Rightarrow> nat option) \<Rightarrow> bool" where
  "heap_rep L mh Lv \<longleftrightarrow> (\<exists>F A. heap_inv L (fst mh) (snd mh) F A \<and> Lv = live_map L (fst mh) A)"

lemma live_map_at: "live_map L m A (blk L (k + 16)) = (if \<exists>j\<in>A. blk L (k + 16) = blk L (j + 16)
    then Some (blk_size L m k - 16) else None)"
  by (simp add: live_map_def blk_size_def) (simp add: blk_def)

lemma live_mapE:
  assumes "live_map L m A p = Some n"
  obtains k where "k \<in> A" "p = blk L (k + 16)" "n = blk_size L m k - 16"
    "\<And>x. in_range p n x \<longleftrightarrow> payload L m k x"
proof -
  obtain k where k: "k \<in> A" "p = blk L (k + 16)" using assms by (auto simp: live_map_def split: if_splits)
  then have "\<exists>j\<in>A. blk L (k + 16) = blk L (j + 16)" by blast
  then have "n = blk_size L m k - 16" using assms by (simp add: k(2) live_map_at)
  then show thesis using k by (intro that [of k]) (auto simp: payload_def)
qed

lemma live_map_mem:
  assumes I: "heap_inv L m h F A" and k: "k \<le> 262128"
  shows "live_map L m A (blk L (k + 16)) = (if k \<in> A then Some (blk_size L m k - 16) else None)"
proof -
  have "blk L (k + 16) = blk L (j + 16) \<longleftrightarrow> k = j" if "j \<in> A" for j
    using block_bounds(1) [OF I, of j] that k heap_invD(1) [OF I] by (subst blk_eq) auto
  then show ?thesis by (auto simp: live_map_at)
qed

lemma live_map_None:
  assumes I: "heap_inv L m h F A" and p: "\<And>k. k \<le> 262128 \<Longrightarrow> p \<noteq> blk L (k + 16)"
  shows "live_map L m A p = None"
proof -
  have "p \<noteq> blk L (k + 16)" if "k \<in> A" for k
    using block_bounds(1) [OF I, of k] that by (intro p) simp
  then show ?thesis by (auto simp: live_map_def)
qed

lemma live_map_eqI:
  assumes I: "heap_inv L m h F A" and I': "heap_inv L m' h' F' A'"
    and eq: "\<And>k. k \<le> 262128 \<Longrightarrow> (if k \<in> A' then Some (blk_size L m' k - 16) else None)
      = (if k = c then v else if k \<in> A then Some (blk_size L m k - 16) else None)"
    and c: "c \<le> 262128"
  shows "live_map L m' A' = (live_map L m A)(blk L (c + 16) := v)"
proof
  fix p
  show "live_map L m' A' p = ((live_map L m A)(blk L (c + 16) := v)) p"
  proof (cases "\<exists>k \<le> 262128. p = blk L (k + 16)")
    case True
    then obtain k where k: "k \<le> 262128" "p = blk L (k + 16)" by blast
    have "blk L (k + 16) = blk L (c + 16) \<longleftrightarrow> k = c"
      using k c heap_invD(1) [OF I] by (subst blk_eq) auto
    then show ?thesis using eq [OF k(1)] live_map_mem [OF I k(1)] live_map_mem [OF I' k(1)] k(2) by auto
  next
    case False
    have "live_map L m' A' p = None" "live_map L m A p = None"
      using False by (auto intro: live_map_None [OF I] live_map_None [OF I'])
    then show ?thesis using False c by auto
  qed
qed

lemma ld32_upd_out:
  assumes "\<not> in_range a 4 x"
  shows "ld32 (m(x := v)) a = ld32 m a"
proof -
  have ne: "x \<noteq> a + of_nat j" if "j < 4" for j using assms that by (auto simp: in_range_plus)
  from ne [of 0] ne [of 1] ne [of 2] ne [of 3] show ?thesis by (intro ld32_cong) auto
qed

lemma heap_inv_poke:
  assumes I: "heap_inv L m h F A" and k: "k \<in> A" and x: "payload L m k x"
  shows "heap_inv L (m(x := v)) h F A" and "\<And>j. j \<in> set F \<union> A \<Longrightarrow> blk_size L (m(x := v)) j = blk_size L m j"
proof -
  note D = heap_invD [OF I]
  have kS: "k \<in> set F \<union> A" using k by simp
  have px: "unat (g_heap L) + k + 16 \<le> unat x" "unat x < unat (g_heap L) + k + blk_size L m k"
    using x payload_iff [OF I kS] by auto
  have out: "ld32 (m(x := v)) (blk L j) = ld32 m (blk L j)" if "j + 4 \<le> 262144 + 4" "j + 4 \<le> k + 16 \<or> k + blk_size L m k \<le> j" for j
  proof (rule ld32_upd_out)
    have "unat (blk L j) = unat (g_heap L) + j" using D(1) that(1) by (intro unat_blk) auto
    then show "\<not> in_range (blk L j) 4 x"
      using px that D(1) by (subst in_range_iff) (auto simp: arena_ok_def)
  qed
  have sep: "j = k \<or> j + blk_size L m j \<le> k \<or> k + blk_size L m k \<le> j" "32 \<le> blk_size L m j" "j + 32 \<le> 262144"
    if "j \<in> set F \<union> A" for j
    using D(8) [OF that kS] D(8) [OF kS that] D(7) [OF that] block_bounds(1) [OF I that]
    by (auto simp: block_ok_def dest: linorder_neqE_nat)
  show sizes: "blk_size L (m(x := v)) j = blk_size L m j" if "j \<in> set F \<union> A" for j
    using out [of j] sep [OF that] unfolding blk_size_def [of L _ j] by fastforce
  have "ld32 (m(x := v)) (blk L (j + 16)) = ld32 m (blk L (j + 16))" if "j \<in> set F" for j
  proof -
    have "j \<noteq> k" using that k D(5) by blast
    then show ?thesis using out [of "j + 16"] sep [of j] that by fastforce
  qed
  then have "chain L (m(x := v)) (g_freelist h) F = chain L m (g_freelist h) F" by (intro chain_cong)
  then show "heap_inv L (m(x := v)) h F A"
    using I sizes by (auto simp: heap_inv_def block_ok_def)
qed

interpretation kheap: kernel_heap "kmalloc L" "kfree L" "heap_rep L" "fst" "\<lambda>x v mh. ((fst mh)(x := v), snd mh)"
  for L
proof unfold_locales
  fix s :: "memory \<times> kheap" and Lv n assume r: "heap_rep L s Lv"
  obtain m h where s: "s = (m, h)" by (cases s)
  obtain F A where I: "heap_inv L m h F A" and Lv: "Lv = live_map L m A" using r by (auto simp: heap_rep_def s)
  note D = heap_invD [OF I]
  have keep: "m' x = m x" if "keeps_live L m m' B" "Lv q = Some k" "in_range q k x" "\<And>j. j \<in> A \<Longrightarrow> q = blk L (j + 16) \<Longrightarrow> j \<in> B"
    for m' B q k x
    using that by (auto simp: Lv keeps_live_def elim!: live_mapE)
  show "\<exists>p s'. kmalloc L n s = Some (p, s')"
    unfolding s by (rule kmalloc_cases [OF I, of n]) blast+
  have nz: "blk L (k + 16) \<noteq> 0" if "k + 16 \<le> 262144" for k using D(1) that by (rule blk_nonzero)
  show "s' = s" if run: "kmalloc L n s = Some (0, s')" for s'
  proof (cases rule: kmalloc_cases [OF I, of n])
    case 1
    then show ?thesis using run by (simp add: s)
  next
    case (2 k F1 F2 mh)
    then have "k \<in> set F \<union> A" by simp
    then have "blk L (k + 16) \<noteq> 0" using block_bounds(1) [OF I] by (intro nz) fastforce
    then show ?thesis using run 2(2) by (simp add: s)
  next
    case (3 mh)
    let ?o = "unat (g_heap_off h)"
    have "block_ok L (fst mh) (unat (g_heap_off (snd mh))) ?o" using heap_invD(7) [OF 3(2), of ?o] by simp
    then have "blk L (?o + 16) \<noteq> 0" using heap_invD(2) [OF 3(2)] by (intro nz) (simp add: block_ok_def)
    then show ?thesis using run 3(1) by (simp add: s)
  qed
  show "fst s' x = fst s x" if "kmalloc L n s = Some (p, s')" "Lv q = Some k" "in_range q k x" for p s' q k x
    using that keep unfolding s by (cases rule: kmalloc_cases [OF I, of n]) auto
  show "Lv p = None \<and> (\<exists>k \<ge> unat n. heap_rep L s' (Lv(p \<mapsto> k)))"
    if run: "kmalloc L n s = Some (p, s')" and p: "p \<noteq> 0" for p s'
  proof (cases rule: kmalloc_cases [OF I, of n])
    case 1
    then show ?thesis using run p by (simp add: s)
  next
    case (2 k F1 F2 mh)
    have e: "p = blk L (k + 16)" "s' = mh" using 2(2) run by (auto simp: s)
    have kF: "k \<in> set F \<union> A" using 2(1) by simp
    have k: "k \<le> 262128" using block_bounds(1) [OF I kF] by simp
    let ?v = "blk_size L (fst mh) k - 16"
    have "live_map L (fst mh) (insert k A) = Lv(p \<mapsto> ?v)"
      unfolding Lv e(1)
      by (rule live_map_eqI [OF I 2(3) _ k]) (use 2(4) in \<open>auto simp: keeps_live_def\<close>)
    then have "heap_rep L s' (Lv(p \<mapsto> ?v))" using 2(3) e(2) by (force simp: heap_rep_def)
    moreover have "unat n \<le> ?v" using 2(6) need_of_facts(1) [of "unat n"] by linarith
    moreover have "Lv p = None" using live_map_mem [OF I k] 2(5) by (simp add: Lv e(1))
    ultimately show ?thesis by blast
  next
    case (3 mh)
    let ?o = "unat (g_heap_off h)"
    have e: "p = blk L (?o + 16)" "s' = mh" using 3(1) run by (auto simp: s)
    have "block_ok L (fst mh) (unat (g_heap_off (snd mh))) ?o" using heap_invD(7) [OF 3(2), of ?o] by simp
    then have k: "?o \<le> 262128" using heap_invD(2) [OF 3(2)] by (auto simp: block_ok_def)
    let ?v = "blk_size L (fst mh) ?o - 16"
    have "live_map L (fst mh) (insert ?o A) = Lv(p \<mapsto> ?v)"
      unfolding Lv e(1)
      by (rule live_map_eqI [OF I 3(2) _ k]) (use 3(3) in \<open>auto simp: keeps_live_def\<close>)
    then have "heap_rep L s' (Lv(p \<mapsto> ?v))" using 3(2) e(2) by (force simp: heap_rep_def)
    moreover have "unat n \<le> ?v" using 3(5) need_of_facts(1) [of "unat n"] by linarith
    moreover have "Lv p = None" using live_map_mem [OF I k] 3(4) by (simp add: Lv e(1))
    ultimately show ?thesis by blast
  qed
  show "heap_rep L (kfree L p s) (Lv(p := None))" if p: "Lv p = Some k" for p k
  proof -
    obtain j where j: "j \<in> A" "p = blk L (j + 16)" using p by (auto simp: Lv elim!: live_mapE)
    note K = kfree_live [OF I j(1)]
    have "j \<le> 262128" using block_bounds(1) [OF I, of j] j(1) by simp
    then have "live_map L (st32 m (blk L (j + 16)) (g_freelist h)) (A - {j}) = Lv(p := None)"
      unfolding Lv j(2) by (intro live_map_eqI [OF I K(2)]) (use K(3) in \<open>auto simp: keeps_live_def\<close>)
    then show ?thesis using K(1,2) by (force simp: heap_rep_def s j(2))
  qed
  show "fst (kfree L p s) x = fst s x"
    if p: "Lv p = Some k" and q: "Lv q = Some l" "q \<noteq> p" "in_range q l x" for p k q l x
  proof -
    obtain j where j: "j \<in> A" "p = blk L (j + 16)" using p by (auto simp: Lv elim!: live_mapE)
    show ?thesis using kfree_live(1,3) [OF I j(1)] keep [OF _ q(1,3)] q(2) by (auto simp: s j(2))
  qed
  show "\<not> in_range q l x" if pq: "Lv p = Some k" "Lv q = Some l" "p \<noteq> q" "in_range p k x" for p k q l x
  proof -
    obtain i where i: "i \<in> A" "p = blk L (i + 16)" "in_range p k x \<longleftrightarrow> payload L m i x"
      by (rule live_mapE [OF pq(1) [unfolded Lv]]) blast
    obtain j where j: "j \<in> A" "q = blk L (j + 16)" "in_range q l x \<longleftrightarrow> payload L m j x"
      by (rule live_mapE [OF pq(2) [unfolded Lv]]) blast
    have "i \<noteq> j" using i(2) j(2) pq(3) by blast
    then show ?thesis using payload_disjoint [OF I, of i j x] i j pq(4) by blast
  qed
  show "heap_rep L ((fst s)(x := v), snd s) Lv" if px: "Lv p = Some k" "in_range p k x" for p k x v
  proof -
    obtain j where j: "j \<in> A" "payload L m j x"
      by (rule live_mapE [OF px(1) [unfolded Lv]]) (use px(2) in blast)
    note P = heap_inv_poke [OF I j, where v = v]
    have "live_map L (m(x := v)) A = (live_map L m A)(blk L (j + 16) := live_map L m A (blk L (j + 16)))"
    proof (rule live_map_eqI [OF I P(1)])
      show "j \<le> 262128" using block_bounds(1) [OF I, of j] j(1) by simp
      then show "(if i \<in> A then Some (blk_size L (m(x := v)) i - 16) else None)
          = (if i = j then live_map L m A (blk L (j + 16)) else if i \<in> A then Some (blk_size L m i - 16) else None)" for i
        using P(2) live_map_mem [OF I, of j] j(1) by auto
    qed
    then show ?thesis using P(1) by (force simp: heap_rep_def s Lv)
  qed
qed simp

section \<open>Properties\<close>

text \<open>
  C20: \<open>kmalloc\<close> always returns on a well-formed heap, and it is first fit: it takes the first
  free block large enough for the request and its header, a new block behind the last one
  if there is none, and returns NULL without changing anything only if neither exists.  The
  invariant is kept, and so are the sizes and contents of all live blocks.
\<close>

theorem kmalloc_first_fit:
  assumes "heap_inv L m h F A"
  shows "\<exists>p mh. kmalloc L sz (m, h) = Some (p, mh) \<and>
    (p = 0 \<and> mh = (m, h) \<and> (sz = 0 \<or> 262144 < need_of (unat sz)
       \<or> (\<forall>k\<in>set F. blk_size L m k < need_of (unat sz)) \<and> 262144 < unat (g_heap_off h) + need_of (unat sz))
     \<or> (\<exists>F1 k F2. F = F1 @ k # F2 \<and> p = blk L (k + 16) \<and> k \<notin> A
       \<and> (\<forall>j\<in>set F1. blk_size L m j < need_of (unat sz)) \<and> need_of (unat sz) \<le> blk_size L (fst mh) k
       \<and> heap_inv L (fst mh) (snd mh) (F1 @ F2) (insert k A) \<and> keeps_live L m (fst mh) A)
     \<or> (\<forall>j\<in>set F. blk_size L m j < need_of (unat sz)) \<and> p = blk L (unat (g_heap_off h) + 16)
       \<and> unat (g_heap_off h) \<notin> A \<and> blk_size L (fst mh) (unat (g_heap_off h)) = need_of (unat sz)
       \<and> heap_inv L (fst mh) (snd mh) F (insert (unat (g_heap_off h)) A) \<and> keeps_live L m (fst mh) A)"
  by (rule kmalloc_cases [OF assms, of sz]) (fastforce intro: exI)+

definition sample_arena :: layout where
  "sample_arena = \<lparr>kernel_image_begin = 0x100000, kernel_image_end = 0x180000, boot_pd = 0x101000,
     boot_pt = 0x102000, g_mmio_pts = 0x103000, g_heap = 0x110000\<rparr>"

lemma sample_arena_ok: "arena_ok sample_arena"
  by (simp add: arena_ok_def sample_arena_def)

lemma sample_heap_inv: "heap_inv sample_arena m (heap_init h) [] {}"
  by (rule heap_inv_init [OF sample_arena_ok])

theorem kmalloc_first_fit_witness:
  "\<exists>p mh. kmalloc sample_arena 100 (\<lambda>_. 0, heap_init \<lparr>g_freelist = 0, g_heap_off = 0\<rparr>) = Some (p, mh)"
  using kmalloc_first_fit [OF sample_heap_inv, of 100 "\<lambda>_. 0" "\<lparr>g_freelist = 0, g_heap_off = 0\<rparr>"] by blast

text \<open>
  C24: the heap as its clients see it.  The bytes of a new block belong to no live block;
  freeing it at once gives back the map of live blocks, with all their contents, that held
  before the allocation.
\<close>

theorem kmalloc_kfree_roundtrip:
  assumes "heap_rep L mh Lv" and "kmalloc L sz mh = Some (p, mh')" and "p \<noteq> 0"
  shows "heap_rep L (kfree L p mh') Lv
    \<and> (\<forall>q k x. Lv q = Some k \<longrightarrow> in_range q k x \<longrightarrow>
         \<not> in_range p (unat sz) x \<and> fst mh' x = fst mh x \<and> fst (kfree L p mh') x = fst mh x)"
  using kheap.alloc_release [OF assms] kheap.alloc_disjoint [OF assms] kheap.alloc_keeps [OF assms(1,2)] by blast

lemma sample_heap_rep: "heap_rep sample_arena (m, heap_init h) (\<lambda>_. None)"
  using sample_heap_inv [of m h] by (force simp: heap_rep_def live_map_def)

lemma sample_kmalloc: "kmalloc sample_arena 100 (\<lambda>_. 0, \<lparr>g_freelist = 0, g_heap_off = 0\<rparr>)
    = Some (0x110010, st32 (\<lambda>_. 0) 0x110000 128, \<lparr>g_freelist = 0, g_heap_off = 128\<rparr>)"
  by (simp add: kmalloc_def heap_align_up_def heap_search.simps Let_def sample_arena_def)

theorem kmalloc_kfree_roundtrip_witness:
  "heap_rep sample_arena (kfree sample_arena 0x110010
     (st32 (\<lambda>_. 0) 0x110000 128, \<lparr>g_freelist = 0, g_heap_off = 128\<rparr>)) (\<lambda>_. None)"
  using kmalloc_kfree_roundtrip [OF _ sample_kmalloc, of "\<lambda>_. None"]
    sample_heap_rep [of "\<lambda>_. 0" "\<lparr>g_freelist = 0, g_heap_off = 0\<rparr>"]
  by (simp add: heap_init_def)

lemma heap_search_cycle:
  assumes "b \<noteq> 0" and "ld32 m (b + 16) = b" and "\<not> need \<le> ld32 m b"
  shows "heap_search m need pl b = None"
proof -
  have "m = m \<longrightarrow> need = need \<longrightarrow> b \<noteq> b" if run: "heap_search m need pl b = Some r" for r
  proof (rule heap_search.raw_induct [where P = "\<lambda>m' n' pl' p r'. m' = m \<longrightarrow> n' = need \<longrightarrow> p \<noteq> b", OF _ run])
    fix f m' n' pl' p r'
    assume IH: "\<And>x n q c y. f x n q c = Some y \<Longrightarrow> x = m \<longrightarrow> n = need \<longrightarrow> c \<noteq> b"
      and step: "(if p = 0 then Some None
        else let nb = ld32 m' (p + HEAP_HDR_USER_OFFSET)
          in if ld32 m' p \<ge> n' then Some (Some (pl', p, nb))
             else f m' n' (Some (p + HEAP_HDR_USER_OFFSET)) nb) = Some r'"
    show "m' = m \<longrightarrow> n' = need \<longrightarrow> p \<noteq> b"
      using step assms IH [of m need "Some (b + 16)" b r'] by (auto simp: Let_def)
  qed
  then show ?thesis by (cases "heap_search m need pl b") auto
qed

text \<open>
  A block freed twice.  \<open>kfree\<close> does not detect it and ties the free list into a cycle:
  after the second call every \<open>kmalloc\<close> of more than the block holds (and at most the
  arena) searches for ever.
\<close>

theorem kfree_twice_hangs:
  assumes I: "heap_inv L m h F A" and k: "k \<in> A"
    and sz: "blk_size L m k < need_of (unat sz)" "need_of (unat sz) \<le> 262144"
  shows "kmalloc L sz (kfree L (blk L (k + 16)) (kfree L (blk L (k + 16)) (m, h))) = None"
proof -
  let ?p = "blk L (k + 16)"
  have kS: "k \<in> set F \<union> A" using k by simp
  note b = block_bounds [OF I kS] and D = heap_invD [OF I] and K = kfree_live [OF I k]
  let ?m1 = "st32 m ?p (g_freelist h)" and ?h1 = "h\<lparr>g_freelist := blk L k\<rparr>"
  let ?m2 = "st32 ?m1 ?p (blk L k)"
  have u: "unat ?p = unat (g_heap L) + (k + 16)" "unat (blk L 16) = unat (g_heap L) + 16"
    "unat (blk L 262144) = unat (g_heap L) + 262144"
    using D(1) b by (auto intro: unat_blk)
  have e: "g_heap L + 16 = blk L 16" "g_heap L + VERVE_HEAP_SIZE = blk L 262144" by (simp_all add: blk_def)
  have "?p \<noteq> 0" using b D(1) by (intro blk_nonzero) auto
  then have "kfree L ?p (?m1, ?h1) = (?m2, ?h1)"
    using u b by (simp add: kfree_def Let_def e word_less_nat_alt word_le_nat_alt) (simp add: blk_def)
  then have run: "kfree L ?p (kfree L ?p (m, h)) = (?m2, ?h1)" by (simp add: K(1))
  have s0: "sz \<noteq> 0"
    using sz(1) D(7) [OF kS] by (auto simp: block_ok_def need_of_def)
  have head: "ld32 ?m2 (blk L k) = ld32 m (blk L k)"
    using b D(1) by (simp add: ld_st_blk)
  note acc = kmalloc_accept [OF s0 sz(2)]
  have "heap_search ?m2 (heap_align_up (HEAP_HDR_USER_OFFSET + sz) HEAP_HDR_ALIGN) None (blk L k) = None"
  proof (rule heap_search_cycle)
    show "blk L k \<noteq> 0" using b D(1) by (intro blk_nonzero) auto
    show "ld32 ?m2 (blk L k + 16) = blk L k" by (simp add: blk_plus16 ld32_st32_same)
    show "\<not> heap_align_up (HEAP_HDR_USER_OFFSET + sz) HEAP_HDR_ALIGN \<le> ld32 ?m2 (blk L k)"
      unfolding head word_le_nat_alt acc(1) using sz(1) by (simp add: blk_size_def)
  qed
  then show ?thesis by (simp only: run acc(2)) simp
qed

theorem kfree_twice_hangs_witness:
  "kmalloc sample_arena 200 (kfree sample_arena (blk sample_arena (0 + 16))
     (kfree sample_arena (blk sample_arena (0 + 16))
       (st32 (\<lambda>_. 0) 0x110000 128, \<lparr>g_freelist = 0, g_heap_off = 128\<rparr>))) = None"
proof (rule kfree_twice_hangs)
  let ?m = "st32 (\<lambda>_. 0) 0x110000 128"
  have b: "blk sample_arena 0 = 0x110000" by (simp add: blk_def sample_arena_def)
  have size: "blk_size sample_arena ?m 0 = 128" by (simp add: blk_size_def b ld32_st32_same)
  show "heap_inv sample_arena ?m \<lparr>g_freelist = 0, g_heap_off = 128\<rparr> [] {0}"
    using sample_arena_ok by (simp add: heap_inv_def block_ok_def size)
  show "blk_size sample_arena ?m 0 < need_of (unat (200 :: u32))" by (simp add: size need_of_def)
  show "need_of (unat (200 :: u32)) \<le> 262144" by (simp add: need_of_def)
qed simp

end
