(* ===== verification/Mboot2.thy ===== *)
theory Mboot2
  imports Machine
begin

text \<open>
  \<open>kernel/mboot2.c\<close>: the walk over the Multiboot2 information structure that the boot
  loader leaves at the physical address \<open>info\<close>.  A pointer \<open>p\<close> into the structure is the
  offset \<open>p - info\<close>, a natural number: the code compares \<open>p + sz\<close> with \<open>end\<close> as C
  pointers, which do not wrap.  Output parameters written on success only are \<open>option\<close>
  results.
\<close>

section \<open>The code\<close>

abbreviation (input) MB2_TAG_END :: u32 where "MB2_TAG_END \<equiv> 0"
abbreviation (input) MB2_TAG_BASIC_MEMINFO :: u32 where "MB2_TAG_BASIC_MEMINFO \<equiv> 4"
abbreviation (input) MB2_TAG_MMAP :: u32 where "MB2_TAG_MMAP \<equiv> 6"
abbreviation (input) MB2_TAG_ACPI_OLD :: u32 where "MB2_TAG_ACPI_OLD \<equiv> 14"
abbreviation (input) MB2_TAG_ACPI_NEW :: u32 where "MB2_TAG_ACPI_NEW \<equiv> 15"
abbreviation (input) MB2_MMAP_AVAILABLE :: u32 where "MB2_MMAP_AVAILABLE \<equiv> 1"

record mb2_mmap_entry =
  mm_base :: u64
  mm_length :: u64
  mm_type :: u32
  mm_reserved0 :: u32

definition mmap_entry_at :: "memory \<Rightarrow> u32 \<Rightarrow> mb2_mmap_entry" where
  "mmap_entry_at m a = \<lparr>mm_base = ld64 m a, mm_length = ld64 m (a + 8),
     mm_type = ld32 m (a + 16), mm_reserved0 = ld32 m (a + 20)\<rparr>"

text \<open>
  The inner loop over the entries of one memory map tag, from offset \<open>e\<close>.  The caller has
  checked that \<open>entry_size\<close> is at least 24; the conjunct \<open>0 < entry_size\<close> is there for
  the termination proof only.  The callback returns whether to go on and its new context.
\<close>

function walk_entries :: "memory \<Rightarrow> u32 \<Rightarrow> nat \<Rightarrow> nat \<Rightarrow> (mb2_mmap_entry \<Rightarrow> 'c \<Rightarrow> bool \<times> 'c)
    \<Rightarrow> nat \<Rightarrow> 'c \<Rightarrow> bool \<times> 'c" where
  "walk_entries m info entry_size tag_end on_entry e ctx =
     (if 0 < entry_size \<and> e + entry_size \<le> tag_end then
        (case on_entry (mmap_entry_at m (info + of_nat e)) ctx of (ok, ctx') \<Rightarrow>
           if \<not> ok then (False, ctx')
           else walk_entries m info entry_size tag_end on_entry (e + entry_size) ctx')
      else (True, ctx))"
  by pat_completeness auto
termination
  by (relation "measure (\<lambda>(m, info, entry_size, tag_end, on_entry, e, ctx). Suc tag_end - e)") auto

definition tag_type :: "memory \<Rightarrow> u32 \<Rightarrow> nat \<Rightarrow> u32" where
  "tag_type m info p = ld32 m (info + of_nat p)"

definition tag_size :: "memory \<Rightarrow> u32 \<Rightarrow> nat \<Rightarrow> nat" where
  "tag_size m info p = unat (ld32 m (info + of_nat p + 4))"

text \<open>\<open>sz < sizeof(struct mb2_tag) || (sz & 7u) != 0\<close>, the test every walk makes.\<close>

definition bad_tag_size :: "nat \<Rightarrow> bool" where
  "bad_tag_size sz \<longleftrightarrow> sz < 8 \<or> sz mod 8 \<noteq> 0"

function walk_mmap_tags :: "memory \<Rightarrow> u32 \<Rightarrow> nat \<Rightarrow> (mb2_mmap_entry \<Rightarrow> 'c \<Rightarrow> bool \<times> 'c)
    \<Rightarrow> nat \<Rightarrow> 'c \<Rightarrow> bool \<times> 'c" where
  "walk_mmap_tags m info tot on_entry p ctx =
     (if p + 8 \<le> tot then
        let sz = tag_size m info p in
        if bad_tag_size sz then (False, ctx)
        else if p + sz > tot then (False, ctx)
        else if tag_type m info p = MB2_TAG_END then (True, ctx)
        else if tag_type m info p = MB2_TAG_MMAP then
          (if sz < 16 + 24 then (False, ctx)
           else let entry_size = unat (ld32 m (info + of_nat p + 8)) in
             if entry_size < 24 then (False, ctx)
             else (case walk_entries m info entry_size (p + sz) on_entry (p + 16) ctx of
                 (ok, ctx') \<Rightarrow>
                   if \<not> ok then (False, ctx')
                   else walk_mmap_tags m info tot on_entry (p + sz) ctx'))
        else walk_mmap_tags m info tot on_entry (p + sz) ctx
      else (True, ctx))"
  by pat_completeness auto
termination
  by (relation "measure (\<lambda>(m, info, tot, on_entry, p, ctx). Suc tot - p)")
    (auto simp: bad_tag_size_def)

definition walk_mmap_entries :: "memory \<Rightarrow> u32 \<Rightarrow> (mb2_mmap_entry \<Rightarrow> 'c \<Rightarrow> bool \<times> 'c)
    \<Rightarrow> 'c \<Rightarrow> bool \<times> 'c" where
  "walk_mmap_entries m info on_entry ctx =
     (let tot = unat (ld32 m info) in
      if tot < 16 \<or> tot mod 8 \<noteq> 0 then (False, ctx)
      else walk_mmap_tags m info tot on_entry 8 ctx)"

definition sum_cb :: "mb2_mmap_entry \<Rightarrow> u64 \<Rightarrow> bool \<times> u64" where
  "sum_cb e s = (True, if mm_type e = MB2_MMAP_AVAILABLE then s + mm_length e else s)"

definition mb2_sum_usable_ram :: "memory \<Rightarrow> u32 \<Rightarrow> u64 option" where
  "mb2_sum_usable_ram m info =
     (case walk_mmap_entries m info sum_cb 0 of (ok, s) \<Rightarrow> if \<not> ok then None else Some s)"

function read_meminfo_tags :: "memory \<Rightarrow> u32 \<Rightarrow> nat \<Rightarrow> nat \<Rightarrow> (u32 \<times> u32) option" where
  "read_meminfo_tags m info tot p =
     (if p + 8 \<le> tot then
        let sz = tag_size m info p in
        if bad_tag_size sz then None
        else if p + sz > tot then None
        else if tag_type m info p = MB2_TAG_END then None
        else if tag_type m info p = MB2_TAG_BASIC_MEMINFO then
          (if sz < 16 then None
           else Some (ld32 m (info + of_nat p + 8), ld32 m (info + of_nat p + 12)))
        else read_meminfo_tags m info tot (p + sz)
      else None)"
  by pat_completeness auto
termination
  by (relation "measure (\<lambda>(m, info, tot, p). Suc tot - p)") (auto simp: bad_tag_size_def)

definition mb2_read_basic_meminfo :: "memory \<Rightarrow> u32 \<Rightarrow> (u32 \<times> u32) option" where
  "mb2_read_basic_meminfo m info =
     (let tot = unat (ld32 m info) in
      if tot < 16 \<or> tot mod 8 \<noteq> 0 then None else read_meminfo_tags m info tot 8)"

text \<open>\<open>avail_walk_cb\<close> with the client's callback \<open>fn\<close>; the client's context is threaded.\<close>

definition avail_walk_cb :: "(u64 \<Rightarrow> u64 \<Rightarrow> 'c \<Rightarrow> 'c) \<Rightarrow> mb2_mmap_entry \<Rightarrow> 'c \<Rightarrow> bool \<times> 'c" where
  "avail_walk_cb fn e ctx =
     (True, if mm_type e = MB2_MMAP_AVAILABLE \<and> mm_length e \<noteq> 0
            then fn (mm_base e) (mm_length e) ctx else ctx)"

definition mb2_for_each_available :: "memory \<Rightarrow> u32 \<Rightarrow> (u64 \<Rightarrow> u64 \<Rightarrow> 'c \<Rightarrow> 'c) \<Rightarrow> 'c \<Rightarrow> bool \<times> 'c" where
  "mb2_for_each_available m info fn ctx = walk_mmap_entries m info (avail_walk_cb fn) ctx"

text \<open>\<open>find_acpi_tag\<close> returns the payload's address and length.\<close>

function find_acpi_tags :: "memory \<Rightarrow> u32 \<Rightarrow> nat \<Rightarrow> u32 \<Rightarrow> nat \<Rightarrow> (u32 \<times> nat) option" where
  "find_acpi_tags m info tot want_type p =
     (if p + 8 \<le> tot then
        let sz = tag_size m info p in
        if bad_tag_size sz then None
        else if p + sz > tot then None
        else if tag_type m info p = MB2_TAG_END then None
        else if tag_type m info p = want_type then
          (if sz \<le> 8 then None else Some (info + of_nat p + 8, sz - 8))
        else find_acpi_tags m info tot want_type (p + sz)
      else None)"
  by pat_completeness auto
termination
  by (relation "measure (\<lambda>(m, info, tot, want_type, p). Suc tot - p)") (auto simp: bad_tag_size_def)

definition find_acpi_tag :: "memory \<Rightarrow> u32 \<Rightarrow> u32 \<Rightarrow> (u32 \<times> nat) option" where
  "find_acpi_tag m info want_type =
     (let tot = unat (ld32 m info) in
      if tot < 16 \<or> tot mod 8 \<noteq> 0 then None else find_acpi_tags m info tot want_type 8)"

text \<open>A tag that \<open>find_acpi_tag\<close> found but whose payload is \<open>NULL\<close> or empty is not used.\<close>

definition usable_payload :: "(u32 \<times> nat) option \<Rightarrow> (u32 \<times> nat) option" where
  "usable_payload r = (case r of None \<Rightarrow> None
     | Some (pl, plen) \<Rightarrow> if pl = 0 \<or> plen = 0 then None else Some (pl, plen))"

definition mb2_find_rsdp_payload :: "memory \<Rightarrow> u32 \<Rightarrow> nat \<Rightarrow> u8 list option" where
  "mb2_find_rsdp_payload m info out_cap =
     (case (case usable_payload (find_acpi_tag m info MB2_TAG_ACPI_NEW) of
              None \<Rightarrow> usable_payload (find_acpi_tag m info MB2_TAG_ACPI_OLD)
            | Some r \<Rightarrow> Some r) of
        None \<Rightarrow> None
      | Some (pl, n) \<Rightarrow> if n > out_cap then None else Some (load_bytes m pl n))"

declare walk_entries.simps [simp del] walk_mmap_tags.simps [simp del]
  read_meminfo_tags.simps [simp del] find_acpi_tags.simps [simp del]

section \<open>One parse behind the three loops\<close>

text \<open>
  The specification: the tags of the structure as a list of (offset, type, size), and
  whether the list ended well (an end tag, or fewer than eight bytes left) or at a tag
  whose size is wrong.
\<close>

function tag_scan :: "memory \<Rightarrow> u32 \<Rightarrow> nat \<Rightarrow> nat \<Rightarrow> (nat \<times> u32 \<times> nat) list \<times> bool" where
  "tag_scan m info tot p =
     (if p + 8 \<le> tot then
        if bad_tag_size (tag_size m info p) \<or> p + tag_size m info p > tot then ([], False)
        else if tag_type m info p = MB2_TAG_END then ([], True)
        else (case tag_scan m info tot (p + tag_size m info p) of
            (ts, ok) \<Rightarrow> ((p, tag_type m info p, tag_size m info p) # ts, ok))
      else ([], True))"
  by pat_completeness auto
termination
  by (relation "measure (\<lambda>(m, info, tot, p). Suc tot - p)") (auto simp: bad_tag_size_def)

declare tag_scan.simps [simp del]

definition mb2_tags :: "memory \<Rightarrow> u32 \<Rightarrow> (nat \<times> u32 \<times> nat) list \<times> bool" where
  "mb2_tags m info =
     (let tot = unat (ld32 m info) in
      if tot < 16 \<or> tot mod 8 \<noteq> 0 then ([], False) else tag_scan m info tot 8)"

text \<open>The entries of one memory map tag, \<open>None\<close> when the tag is malformed.\<close>

definition entry_count :: "nat \<Rightarrow> nat \<Rightarrow> nat" where
  "entry_count sz entry_size = (sz - 16) div entry_size"

definition tag_entries :: "memory \<Rightarrow> u32 \<Rightarrow> nat \<Rightarrow> nat \<Rightarrow> mb2_mmap_entry list option" where
  "tag_entries m info p sz =
     (let entry_size = unat (ld32 m (info + of_nat p + 8)) in
      if sz < 40 \<or> entry_size < 24 then None
      else Some (map (\<lambda>i. mmap_entry_at m (info + of_nat (p + 16 + i * entry_size)))
             [0..<entry_count sz entry_size]))"

fun tags_entries :: "memory \<Rightarrow> u32 \<Rightarrow> (nat \<times> u32 \<times> nat) list \<Rightarrow> mb2_mmap_entry list option" where
  "tags_entries m info [] = Some []"
| "tags_entries m info ((p, ty, sz) # ts) =
     (if ty = MB2_TAG_MMAP then
        (case tag_entries m info p sz of None \<Rightarrow> None
         | Some es \<Rightarrow> map_option (\<lambda>r. es @ r) (tags_entries m info ts))
      else tags_entries m info ts)"

text \<open>The whole memory map: \<open>None\<close> when any tag up to the end tag is malformed.\<close>

definition mb2_mmap :: "memory \<Rightarrow> u32 \<Rightarrow> mb2_mmap_entry list option" where
  "mb2_mmap m info =
     (case mb2_tags m info of (ts, ok) \<Rightarrow> if ok then tags_entries m info ts else None)"

text \<open>The entries the code hands to \<open>mb2_for_each_available\<close>'s client.\<close>

definition avail_entries :: "mb2_mmap_entry list \<Rightarrow> mb2_mmap_entry list" where
  "avail_entries es = filter (\<lambda>e. mm_type e = MB2_MMAP_AVAILABLE \<and> mm_length e \<noteq> 0) es"

section \<open>The walks compute the specification\<close>

text \<open>Both callbacks of this file always ask to go on: the inner loop is then a fold.\<close>

definition total_cb :: "(mb2_mmap_entry \<Rightarrow> 'c \<Rightarrow> bool \<times> 'c) \<Rightarrow> bool" where
  "total_cb f \<longleftrightarrow> (\<forall>e c. fst (f e c))"

lemma total_cbD: "total_cb f \<Longrightarrow> f e c = (True, snd (f e c))"
  by (metis eq_fst_iff total_cb_def sndI)

lemma walk_entries_fold:
  assumes "total_cb f" and "0 < es"
  shows "walk_entries m info es tend f e c =
    (True, fold (\<lambda>x c. snd (f x c))
       (map (\<lambda>i. mmap_entry_at m (info + of_nat (e + i * es))) [0..<(tend - e) div es]) c)"
  using assms
proof (induction m info es tend f e c rule: walk_entries.induct)
  case (1 m info es tend f e c)
  let ?x = "mmap_entry_at m (info + of_nat e)"
  show ?case
  proof (cases "e + es \<le> tend")
    case True
    have fx: "f ?x c = (True, snd (f ?x c))" by (rule total_cbD [OF "1.prems"(1)])
    have n: "(tend - e) div es = Suc ((tend - (e + es)) div es)"
      using True \<open>0 < es\<close> by (simp add: le_div_geq)
    have idx: "map (\<lambda>i. mmap_entry_at m (info + of_nat (e + i * es))) [0..<(tend - e) div es]
        = ?x # map (\<lambda>i. mmap_entry_at m (info + of_nat (e + es + i * es))) [0..<(tend - (e + es)) div es]"
      unfolding n map_upt_Suc by (simp add: algebra_simps)
    have "walk_entries m info es tend f e c = walk_entries m info es tend f (e + es) (snd (f ?x c))"
      using True "1.prems" by (subst walk_entries.simps) (subst fx, simp)
    also have "\<dots> = (True, fold (\<lambda>x c. snd (f x c))
        (map (\<lambda>i. mmap_entry_at m (info + of_nat (e + es + i * es))) [0..<(tend - (e + es)) div es])
        (snd (f ?x c)))"
      using 1 True fx by (metis (no_types, lifting))
    finally show ?thesis by (simp only: idx fold.simps comp_apply)
  next
    case False
    with \<open>0 < es\<close> have "(tend - e) div es = 0" by (intro div_less) arith
    then show ?thesis using False by (subst walk_entries.simps) simp
  qed
qed

lemma walk_mmap_tags_Some:
  assumes "total_cb f" and "tag_scan m info tot p = (ts, True)"
    and "tags_entries m info ts = Some es"
  shows "walk_mmap_tags m info tot f p c = (True, fold (\<lambda>x c. snd (f x c)) es c)"
  using assms
proof (induction m info tot p arbitrary: c ts es rule: tag_scan.induct)
  case (1 m info tot p)
  let ?sz = "tag_size m info p" and ?ty = "tag_type m info p"
  show ?case
  proof (cases "p + 8 \<le> tot \<and> ?ty \<noteq> MB2_TAG_END")
    case False
    with "1.prems" show ?thesis
      by (subst walk_mmap_tags.simps)
        (auto simp: Let_def tag_scan.simps [of m info tot p] split: if_splits prod.splits)
  next
    case True
    from True "1.prems"(2) obtain ts' where
      ok: "\<not> (bad_tag_size ?sz \<or> p + ?sz > tot)"
      and rest: "tag_scan m info tot (p + ?sz) = (ts', True)"
      and ts: "ts = (p, ?ty, ?sz) # ts'"
      by (auto simp: tag_scan.simps [of m info tot p] split: if_splits prod.splits)
    have IH: "walk_mmap_tags m info tot f (p + ?sz) c' = (True, fold (\<lambda>x c. snd (f x c)) r c')"
      if "tags_entries m info ts' = Some r" for r c'
      using "1.IH" True ok rest "1.prems"(1) that by blast
    show ?thesis
    proof (cases "?ty = MB2_TAG_MMAP")
      case False
      with "1.prems"(3) ts have "tags_entries m info ts' = Some es" by simp
      with IH [of es c] True ok False show ?thesis
        by (subst walk_mmap_tags.simps) (simp add: Let_def)
    next
      case mm: True
      with "1.prems"(3) ts obtain e1 r where
        e1: "tag_entries m info p ?sz = Some e1" and r: "tags_entries m info ts' = Some r"
        and es: "es = e1 @ r"
        by (auto split: option.splits)
      let ?n = "unat (ld32 m (info + of_nat p + 8))"
      from e1 have big: "40 \<le> ?sz" "24 \<le> ?n"
        and e1': "e1 = map (\<lambda>i. mmap_entry_at m (info + of_nat (p + 16 + i * ?n))) [0..<entry_count ?sz ?n]"
        by (auto simp: tag_entries_def Let_def split: if_splits)
      have "walk_entries m info ?n (p + ?sz) f (p + 16) c = (True, fold (\<lambda>x c. snd (f x c)) e1 c)"
        using walk_entries_fold [OF "1.prems"(1), of ?n m info "p + ?sz" "p + 16" c] big
        by (simp add: e1' entry_count_def)
      with IH [OF r] True ok mm big es show ?thesis
        by (subst walk_mmap_tags.simps) (simp add: Let_def)
    qed
  qed
qed

lemma walk_mmap_tags_None:
  assumes "total_cb f" and "tag_scan m info tot p = (ts, ok)"
    and "\<not> ok \<or> tags_entries m info ts = None"
  shows "\<not> fst (walk_mmap_tags m info tot f p c)"
  using assms
proof (induction m info tot p arbitrary: c ts rule: tag_scan.induct)
  case (1 m info tot p)
  let ?sz = "tag_size m info p" and ?ty = "tag_type m info p"
  show ?case
  proof (cases "p + 8 \<le> tot \<and> \<not> (bad_tag_size ?sz \<or> p + ?sz > tot) \<and> ?ty \<noteq> MB2_TAG_END")
    case False
    with "1.prems" show ?thesis
      by (subst walk_mmap_tags.simps)
        (auto simp: Let_def tag_scan.simps [of m info tot p] split: if_splits prod.splits)
  next
    case True
    with "1.prems"(2) obtain ts' where
      rest: "tag_scan m info tot (p + ?sz) = (ts', ok)"
      and ts: "ts = (p, ?ty, ?sz) # ts'"
      by (auto simp: tag_scan.simps [of m info tot p] split: if_splits prod.splits)
    have IH: "\<not> fst (walk_mmap_tags m info tot f (p + ?sz) c')"
      if "\<not> ok \<or> tags_entries m info ts' = None" for c'
      using "1.IH" True rest "1.prems"(1) that by blast
    let ?n = "unat (ld32 m (info + of_nat p + 8))"
    have "fst (walk_entries m info ?n (p + ?sz) f (p + 16) c)" if "24 \<le> ?n"
      using walk_entries_fold [OF "1.prems"(1), of ?n] that by simp
    with IH True "1.prems"(3) ts show ?thesis
      by (subst walk_mmap_tags.simps)
        (auto simp: Let_def tag_entries_def split: prod.splits if_splits option.splits)
  qed
qed

lemma walk_mmap_entries_Some:
  "total_cb f \<Longrightarrow> mb2_mmap m info = Some es \<Longrightarrow>
     walk_mmap_entries m info f c = (True, fold (\<lambda>x c. snd (f x c)) es c)"
  by (auto simp: walk_mmap_entries_def mb2_mmap_def mb2_tags_def Let_def
      intro!: walk_mmap_tags_Some split: if_splits prod.splits)

lemma walk_mmap_entries_None:
  "total_cb f \<Longrightarrow> mb2_mmap m info = None \<Longrightarrow> \<not> fst (walk_mmap_entries m info f c)"
  by (auto simp: walk_mmap_entries_def mb2_mmap_def mb2_tags_def Let_def
      dest: walk_mmap_tags_None split: if_splits prod.splits)

lemma total_cb_sum [simp]: "total_cb sum_cb"
  by (simp add: total_cb_def sum_cb_def)

lemma total_cb_avail [simp]: "total_cb (avail_walk_cb fn)"
  by (simp add: total_cb_def avail_walk_cb_def)

lemma fold_sum_cb: "fold (\<lambda>x c. snd (sum_cb x c)) es s
    = s + sum_list (map mm_length (filter (\<lambda>e. mm_type e = MB2_MMAP_AVAILABLE) es))"
  by (induction es arbitrary: s) (auto simp: sum_cb_def algebra_simps)

lemma fold_avail_cb: "fold (\<lambda>x c. snd (avail_walk_cb fn x c)) es c
    = fold (\<lambda>e. fn (mm_base e) (mm_length e)) (avail_entries es) c"
  by (induction es arbitrary: c) (auto simp: avail_walk_cb_def avail_entries_def)

lemma mb2_for_each_available_Some:
  "mb2_mmap m info = Some es \<Longrightarrow> mb2_for_each_available m info fn c
     = (True, fold (\<lambda>e. fn (mm_base e) (mm_length e)) (avail_entries es) c)"
  by (simp add: mb2_for_each_available_def walk_mmap_entries_Some fold_avail_cb)

lemma mb2_for_each_available_None:
  "mb2_mmap m info = None \<Longrightarrow> \<not> fst (mb2_for_each_available m info fn c)"
  by (simp add: mb2_for_each_available_def walk_mmap_entries_None)

section \<open>The other two walks find the first tag of a type\<close>

definition tag_of_type :: "u32 \<Rightarrow> (nat \<times> u32 \<times> nat) list \<Rightarrow> (nat \<times> u32 \<times> nat) option" where
  "tag_of_type ty ts = find (\<lambda>(p, t, sz). t = ty) ts"

lemma tag_of_type_simps [simp]:
  "tag_of_type ty [] = None"
  "tag_of_type ty ((p, t, sz) # ts) = (if t = ty then Some (p, t, sz) else tag_of_type ty ts)"
  by (simp_all add: tag_of_type_def)

lemma read_meminfo_tags_first: "read_meminfo_tags m info tot p =
  (case tag_of_type MB2_TAG_BASIC_MEMINFO (fst (tag_scan m info tot p)) of None \<Rightarrow> None
   | Some (q, _, sz) \<Rightarrow> if sz < 16 then None
       else Some (ld32 m (info + of_nat q + 8), ld32 m (info + of_nat q + 12)))"
proof (induction m info tot p rule: tag_scan.induct)
  case (1 m info tot p)
  then show ?case
    by (subst read_meminfo_tags.simps, subst tag_scan.simps) (auto simp: Let_def split: prod.split)
qed

lemma find_acpi_tags_first: "find_acpi_tags m info tot want p =
  (case tag_of_type want (fst (tag_scan m info tot p)) of None \<Rightarrow> None
   | Some (q, _, sz) \<Rightarrow> if sz \<le> 8 then None else Some (info + of_nat q + 8, sz - 8))"
proof (induction m info tot p rule: tag_scan.induct)
  case (1 m info tot p)
  then show ?case
    by (subst find_acpi_tags.simps, subst tag_scan.simps) (auto simp: Let_def split: prod.split)
qed

lemma tag_scan_sizes:
  "(q, ty, sz) \<in> set (fst (tag_scan m info tot p)) \<Longrightarrow> 8 \<le> sz \<and> sz mod 8 = 0 \<and> q + sz \<le> tot"
proof (induction m info tot p rule: tag_scan.induct)
  case (1 m info tot p)
  then show ?case
    by (subst (asm) tag_scan.simps)
      (auto simp: bad_tag_size_def split: if_splits prod.splits)
qed

lemma tag_of_type_mem: "tag_of_type ty ts = Some x \<Longrightarrow> x \<in> set ts"
  by (induction ts) (auto simp: tag_of_type_def split: if_splits)

lemma find_acpi_tag_size:
  assumes "find_acpi_tag m info want = Some (pl, n)"
  shows "n mod 8 = 0" and "0 < n" and "8 + n \<le> unat (ld32 m info)"
proof -
  let ?tot = "unat (ld32 m info)"
  from assms obtain q ty sz where "tag_of_type want (fst (tag_scan m info ?tot 8)) = Some (q, ty, sz)"
    and sz: "\<not> sz \<le> 8" "n = sz - 8"
    by (auto simp: find_acpi_tag_def Let_def find_acpi_tags_first
        split: if_splits option.splits prod.splits)
  then have "8 \<le> sz \<and> sz mod 8 = 0 \<and> q + sz \<le> ?tot"
    by (intro tag_scan_sizes) (rule tag_of_type_mem)
  with sz show "n mod 8 = 0" "0 < n" "8 + n \<le> ?tot"
    by (auto intro: dvd_diff_nat)
qed

section \<open>The walks read inside the structure only\<close>

lemma tag_type_same: "same_on info n m m' \<Longrightarrow> p + 8 \<le> n \<Longrightarrow> n \<le> 4294967296 \<Longrightarrow>
    tag_type m info p = tag_type m' info p"
  by (simp add: tag_type_def ld32_same_on)

lemma ld32_off_same: "same_on info n m m' \<Longrightarrow> p + k + 4 \<le> n \<Longrightarrow> n \<le> 4294967296 \<Longrightarrow>
    ld32 m (info + of_nat p + of_nat k) = ld32 m' (info + of_nat p + of_nat k)"
  using ld32_same_on [of info n m m' "p + k"] by (simp add: add.assoc)

lemma tag_size_same: "same_on info n m m' \<Longrightarrow> p + 8 \<le> n \<Longrightarrow> n \<le> 4294967296 \<Longrightarrow>
    tag_size m info p = tag_size m' info p"
  using ld32_off_same [of info n m m' p 4] by (simp add: tag_size_def)

lemma mmap_entry_same: "same_on info n m m' \<Longrightarrow> p + 24 \<le> n \<Longrightarrow> n \<le> 4294967296 \<Longrightarrow>
    mmap_entry_at m (info + of_nat p) = mmap_entry_at m' (info + of_nat p)"
  using ld64_same_on [of info n m m' p] ld64_same_on [of info n m m' "p + 8"]
    ld32_off_same [of info n m m' p 16] ld32_off_same [of info n m m' p 20]
  by (simp add: mmap_entry_at_def add.assoc)

lemma walk_entries_same:
  assumes "same_on info n m m'" and "n \<le> 4294967296" and "24 \<le> es" and "tend \<le> n"
  shows "walk_entries m info es tend f e c = walk_entries m' info es tend f e c"
  using assms
proof (induction m info es tend f e c rule: walk_entries.induct)
  case (1 m info es tend f e c)
  show ?case
  proof (cases "e + es \<le> tend")
    case True
    then have "mmap_entry_at m (info + of_nat e) = mmap_entry_at m' (info + of_nat e)"
      using "1.prems" by (intro mmap_entry_same) auto
    with 1 True show ?thesis
      by (subst (1 2) walk_entries.simps) (auto split: prod.splits)
  next
    case False
    then show ?thesis by (subst (1 2) walk_entries.simps) simp
  qed
qed

lemma tag_scan_same:
  assumes "same_on info n m m'" and "n \<le> 4294967296" and "tot \<le> n"
  shows "tag_scan m info tot p = tag_scan m' info tot p"
  using assms
proof (induction m info tot p rule: tag_scan.induct)
  case (1 m info tot p)
  show ?case
  proof (cases "p + 8 \<le> tot")
    case True
    then have "tag_type m info p = tag_type m' info p" "tag_size m info p = tag_size m' info p"
      using "1.prems" by (auto intro: tag_type_same tag_size_same)
    with 1 True show ?thesis
      by (subst (1 2) tag_scan.simps) (simp split: prod.splits)
  next
    case False
    then show ?thesis by (subst (1 2) tag_scan.simps) simp
  qed
qed

lemma walk_mmap_tags_same:
  assumes "same_on info n m m'" and "n \<le> 4294967296" and "tot \<le> n"
  shows "walk_mmap_tags m info tot f p c = walk_mmap_tags m' info tot f p c"
  using assms
proof (induction m info tot f p c rule: walk_mmap_tags.induct)
  case (1 m info tot f p c)
  show ?case
  proof (cases "p + 8 \<le> tot")
    case True
    have e: "tag_type m info p = tag_type m' info p" "tag_size m info p = tag_size m' info p"
      using "1.prems" True by (auto intro: tag_type_same tag_size_same)
    have es: "ld32 m (info + of_nat p + 8) = ld32 m' (info + of_nat p + 8)"
      if "40 \<le> tag_size m info p" "p + tag_size m info p \<le> tot"
      using ld32_off_same [of info n m m' p 8] "1.prems" that by simp
    show ?thesis
    proof (cases "bad_tag_size (tag_size m' info p) \<or> tot < p + tag_size m' info p
        \<or> tag_type m' info p = MB2_TAG_END")
      case True
      then show ?thesis
        by (subst (1 2) walk_mmap_tags.simps) (auto simp: Let_def e)
    next
      case False
      note stop = this
      show ?thesis
      proof (cases "tag_type m' info p = MB2_TAG_MMAP")
        case mm: True
        show ?thesis
        proof (cases "tag_size m' info p < 40 \<or> unat (ld32 m' (info + of_nat p + 8)) < 24")
          case True
          with mm stop es e show ?thesis
            by (subst (1 2) walk_mmap_tags.simps) (auto simp: Let_def)
        next
          case False
          let ?k = "unat (ld32 m' (info + of_nat p + 8))"
          have we: "walk_entries m info ?k (p + tag_size m' info p) f (p + 16) c
              = walk_entries m' info ?k (p + tag_size m' info p) f (p + 16) c"
            using "1.prems" False stop by (intro walk_entries_same [of _ n]) auto
          have IH: "walk_mmap_tags m info tot f (p + tag_size m' info p) c'
              = walk_mmap_tags m' info tot f (p + tag_size m' info p) c'"
            if "walk_entries m info ?k (p + tag_size m' info p) f (p + 16) c = (True, c')" for c'
            using "1.IH"(1) \<open>p + 8 \<le> tot\<close> stop mm False e es that "1.prems" by auto
          from mm stop False es e IH show ?thesis
            by (subst (1 2) walk_mmap_tags.simps) (auto simp: Let_def we split: prod.splits)
        qed
      next
        case other: False
        then have "walk_mmap_tags m info tot f (p + tag_size m' info p) c
            = walk_mmap_tags m' info tot f (p + tag_size m' info p) c"
          using "1.IH"(2) \<open>p + 8 \<le> tot\<close> stop e "1.prems" by auto
        with other stop e show ?thesis
          by (subst (1 2) walk_mmap_tags.simps) (simp add: Let_def)
      qed
    qed
  next
    case False
    then show ?thesis by (subst (1 2) walk_mmap_tags.simps) simp
  qed
qed

section \<open>Encoding\<close>

text \<open>
  The structure a boot loader builds for a memory map: the fixed part, one memory map tag
  with 24-byte entries, and the end tag.
\<close>

definition entry_bytes :: "mb2_mmap_entry \<Rightarrow> u8 list" where
  "entry_bytes e = le64 (mm_base e) @ le64 (mm_length e) @ le32 (mm_type e) @ le32 (mm_reserved0 e)"

definition mbi_image :: "mb2_mmap_entry list \<Rightarrow> u8 list" where
  "mbi_image es =
     le32 (of_nat (32 + 24 * length es)) @ le32 0
     @ le32 MB2_TAG_MMAP @ le32 (of_nat (16 + 24 * length es)) @ le32 24 @ le32 0
     @ concat (map entry_bytes es) @ le32 MB2_TAG_END @ le32 8"

lemma length_entry_bytes [simp]: "length (entry_bytes e) = 24"
  by (simp add: entry_bytes_def)

lemma length_concat_entries [simp]: "length (concat (map entry_bytes es)) = 24 * length es"
  by (induction es) simp_all

lemma holds_entry: "holds m a (entry_bytes e) \<Longrightarrow> mmap_entry_at m a = e"
  by (simp add: entry_bytes_def mmap_entry_at_def holds_append holds_ld32 holds_ld64 add.assoc)

lemma holds_entries:
  "holds m a (concat (map entry_bytes es)) \<Longrightarrow> i < length es \<Longrightarrow>
     mmap_entry_at m (a + of_nat (i * 24)) = es ! i"
proof (induction es arbitrary: a i)
  case Nil
  then show ?case by simp
next
  case (Cons e es)
  then have e: "mmap_entry_at m a = e" and rest: "holds m (a + 24) (concat (map entry_bytes es))"
    by (auto simp: holds_append intro: holds_entry)
  show ?case
  proof (cases i)
    case 0
    then show ?thesis using e by simp
  next
    case (Suc k)
    then show ?thesis using Cons.IH [OF rest, of k] Cons.prems(2) by (simp add: algebra_simps)
  qed
qed

lemma mbi_image_scan:
  assumes h: "holds m info (mbi_image es)" and n: "24 * length es + 32 < 4294967296"
  shows "mb2_tags m info = ([(8, MB2_TAG_MMAP, 16 + 24 * length es)], True)"
proof -
  let ?k = "24 * length es"
  have f: "ld32 m info = of_nat (32 + ?k)" "ld32 m (info + 8) = 6"
    "ld32 m (info + 12) = of_nat (16 + ?k)"
    "ld32 m (info + (24 + 24 * of_nat (length es))) = 0"
    "ld32 m (info + (28 + 24 * of_nat (length es))) = 8"
    using h by (simp_all add: mbi_image_def holds_append holds_ld32 ac_simps)
  have u: "unat (of_nat (c + ?k) :: u32) = c + ?k" if "c \<le> 32" for c
    using n that by (intro unat_of_nat32) simp
  have tot: "unat (ld32 m info) = 32 + ?k"
    by (simp only: f(1) u [OF order_refl])
  have sz: "tag_size m info 8 = 16 + ?k"
    using f(3) u [of 16] by (simp add: tag_size_def add.assoc)
  have ty: "tag_type m info 8 = 6"
    using f(2) by (simp add: tag_type_def)
  have a: "info + of_nat (24 + ?k) = info + (24 + 24 * of_nat (length es))"
    "info + of_nat (24 + ?k) + 4 = info + (28 + 24 * of_nat (length es))"
    by simp_all
  have e: "tag_size m info (24 + ?k) = 8" "tag_type m info (24 + ?k) = 0"
    using f(4,5) a by (simp_all only: tag_size_def tag_type_def) simp_all
  have "tag_scan m info (32 + ?k) (24 + ?k) = ([], True)"
    by (subst tag_scan.simps) (simp add: e bad_tag_size_def)
  then have "tag_scan m info (32 + ?k) 8 = ([(8, 6, 16 + ?k)], True)"
    by (subst tag_scan.simps) (simp add: sz ty bad_tag_size_def)
  then show ?thesis by (simp add: mb2_tags_def tot Let_def)
qed

section \<open>Properties\<close>


text \<open>
  The round trip.  A structure laid out as the boot protocol prescribes for a nonempty
  memory map parses back to exactly that memory map.
\<close>

theorem mb2_parse_image:
  assumes "holds m info (mbi_image es)" and "es \<noteq> []" and "24 * length es + 32 < 4294967296"
  shows "mb2_mmap m info = Some es"
proof -
  have n: "24 * length es \<ge> 24" using assms(2) by (cases es) auto
  have a: "info + of_nat (8 + 16 + i * 24) = info + 24 + of_nat (i * 24)" for i
    by (simp add: ac_simps)
  have f: "ld32 m (info + 16) = 24" "holds m (info + 24) (concat (map entry_bytes es))"
    using assms(1) by (simp_all add: mbi_image_def holds_append holds_ld32 ac_simps)
  have "tag_entries m info 8 (16 + 24 * length es)
      = Some (map (\<lambda>i. mmap_entry_at m (info + of_nat (8 + 16 + i * 24))) [0..<length es])"
    using n f(1) assms(2) by (simp add: tag_entries_def Let_def entry_count_def add.commute [of info 16])
  also have "map (\<lambda>i. mmap_entry_at m (info + of_nat (8 + 16 + i * 24))) [0..<length es] = es"
    unfolding a by (rule nth_equalityI) (simp_all add: holds_entries [OF f(2)] del: of_nat_mult)
  finally show ?thesis by (simp add: mb2_mmap_def mbi_image_scan [OF assms(1,3)])
qed

theorem mb2_parse_image_witness:
  "mb2_mmap (store_bytes (\<lambda>_. 0) 0x1000
      (mbi_image [\<lparr>mm_base = 0, mm_length = 0x9F000, mm_type = 1, mm_reserved0 = 0\<rparr>])) 0x1000
   = Some [\<lparr>mm_base = 0, mm_length = 0x9F000, mm_type = 1, mm_reserved0 = 0\<rparr>]"
  by (rule mb2_parse_image) (simp_all add: holds_store_bytes mbi_image_def)

lemma mb2_reads_same:
  assumes "same_on info (max 8 (unat (ld32 m info))) m m'"
  shows "walk_mmap_entries m info f c = walk_mmap_entries m' info f c"
    and "mb2_read_basic_meminfo m info = mb2_read_basic_meminfo m' info"
    and "mb2_find_rsdp_payload m info cap = mb2_find_rsdp_payload m' info cap"
proof -
  let ?n = "max 8 (unat (ld32 m info))"
  have n: "?n \<le> 4294967296" using unat_lt32 [of "ld32 m info"] by simp
  have t: "ld32 m info = ld32 m' info" using ld32_same_on [OF assms, of 0] n by simp
  have scan: "tag_scan m info (unat (ld32 m' info)) 8 = tag_scan m' info (unat (ld32 m' info)) 8"
    using assms n t by (intro tag_scan_same [of _ ?n]) auto
  show "walk_mmap_entries m info f c = walk_mmap_entries m' info f c"
    using t by (simp add: walk_mmap_entries_def Let_def walk_mmap_tags_same [OF assms n])
  have mem: "ld32 m (info + of_nat q + of_nat k) = ld32 m' (info + of_nat q + of_nat k)"
    if "q + k + 4 \<le> unat (ld32 m' info)" for q k
    using ld32_off_same [OF assms, of q k] n t that by simp
  have m8: "ld32 m (info + of_nat q + 8) = ld32 m' (info + of_nat q + 8)"
    and m12: "ld32 m (info + of_nat q + 12) = ld32 m' (info + of_nat q + 12)"
    if "q + 16 \<le> unat (ld32 m' info)" for q
    using mem [of q 8] mem [of q 12] that by simp_all
  have inside: "q + 16 \<le> unat (ld32 m' info)"
    if "tag_of_type ty (fst (tag_scan m' info (unat (ld32 m' info)) 8)) = Some (q, ty', sz)" "16 \<le> sz"
    for ty q ty' sz
    using tag_scan_sizes [of q ty' sz m' info "unat (ld32 m' info)" 8] tag_of_type_mem [OF that(1)]
      that(2) by simp
  show "mb2_read_basic_meminfo m info = mb2_read_basic_meminfo m' info"
    by (auto simp: mb2_read_basic_meminfo_def Let_def t read_meminfo_tags_first scan
        intro!: m8 m12 dest: inside split: option.split)
  have acpi: "find_acpi_tag m info ty = find_acpi_tag m' info ty" for ty
    by (simp add: find_acpi_tag_def Let_def t find_acpi_tags_first scan)
  have pay: "load_bytes m pl k = load_bytes m' pl k"
    if "find_acpi_tag m' info ty = Some (pl, k)" for ty pl k
  proof -
    from that obtain q ty' sz where
      q: "tag_of_type ty (fst (tag_scan m' info (unat (ld32 m' info)) 8)) = Some (q, ty', sz)"
      and pl: "pl = info + of_nat (q + 8)" "k = sz - 8" "8 < sz"
      by (auto simp: find_acpi_tag_def Let_def find_acpi_tags_first add.assoc
          split: if_splits option.splits)
    have "q + sz \<le> unat (ld32 m' info)"
      using tag_scan_sizes [of q ty' sz m' info "unat (ld32 m' info)" 8] tag_of_type_mem [OF q] by simp
    then have "m (info + of_nat (q + 8 + i)) = m' (info + of_nat (q + 8 + i))" if "i < k" for i
      using same_on_off [OF assms _ n, of "q + 8 + i"] that pl t by simp
    then show ?thesis by (simp add: load_bytes_def pl add.assoc)
  qed
  show "mb2_find_rsdp_payload m info cap = mb2_find_rsdp_payload m' info cap"
    using pay by (auto simp: mb2_find_rsdp_payload_def usable_payload_def acpi
        split: option.splits if_splits)
qed



text \<open>
  The payload handed to the ACPI code is nonempty, fits the caller's buffer, and its length
  is a multiple of eight, because the walks reject every tag whose size is not.  A Multiboot2
  loader stores sizes without padding, so the 20-byte RSDP of ACPI 1 and the 36-byte RSDP of
  ACPI 2 are never found.
\<close>

theorem mb2_rsdp_payload_multiple_of_8:
  assumes "mb2_find_rsdp_payload m info cap = Some buf"
  shows "length buf mod 8 = 0 \<and> 0 < length buf \<and> length buf \<le> cap
    \<and> length buf \<noteq> 20 \<and> length buf \<noteq> 36"
proof -
  from assms obtain ty pl where "find_acpi_tag m info ty = Some (pl, length buf)"
    and cap: "length buf \<le> cap"
    by (auto simp: mb2_find_rsdp_payload_def usable_payload_def split: option.splits if_splits)
  from find_acpi_tag_size [OF this(1)] have "length buf mod 8 = 0" "0 < length buf" by auto
  then show ?thesis using cap by auto
qed

text \<open>A structure with one ACPI tag whose payload is eight bytes long.\<close>

definition acpi_image :: "u8 list" where
  "acpi_image = le32 32 @ le32 0 @ le32 MB2_TAG_ACPI_NEW @ le32 16 @ [1, 2, 3, 4, 5, 6, 7, 8]
     @ le32 MB2_TAG_END @ le32 8"

lemma acpi_image_payload:
  "mb2_find_rsdp_payload (store_bytes (\<lambda>_. 0) 0x1000 acpi_image) 0x1000 128
     = Some [1, 2, 3, 4, 5, 6, 7, 8]"
  by code_simp

theorem mb2_rsdp_payload_multiple_of_8_witness:
  "length [1, 2, 3, 4, 5, 6, 7, 8 :: u8] mod 8 = 0 \<and> length [1, 2, 3, 4, 5, 6, 7, 8 :: u8] \<le> 128"
  using mb2_rsdp_payload_multiple_of_8 [OF acpi_image_payload] by simp

end
