(* ===== verification/Frame_Interface.thy ===== *)
theory Frame_Interface
  imports Machine
begin

text \<open>
  The contract between the physical frame allocator and its clients (the page tables, the
  process heap, the program loaders, the AP stacks): \<open>alloc\<close> hands out a free page-aligned
  frame or 0, \<open>release\<close> takes a managed frame back, and nothing else changes.  The client
  facts are proved here once, from the contract alone.
\<close>

locale frame_allocator =
  fixes alloc :: "'s \<Rightarrow> u32 \<times> 's"
    and release :: "u32 \<Rightarrow> 's \<Rightarrow> 's"
    and is_free :: "'s \<Rightarrow> u32 \<Rightarrow> bool"
    and managed :: "'s \<Rightarrow> u32 \<Rightarrow> bool"
    and inv :: "'s \<Rightarrow> bool"
  assumes inv_alloc: "inv s \<Longrightarrow> inv (snd (alloc s))"
    and inv_release: "inv s \<Longrightarrow> inv (release f s)"
    and free_frame: "inv s \<Longrightarrow> is_free s f \<Longrightarrow> managed s f"
    and managed_frame: "managed s f \<Longrightarrow> f \<noteq> 0 \<and> page_of f = f"
    and alloc_takes: "inv s \<Longrightarrow> fst (alloc s) \<noteq> 0 \<Longrightarrow> is_free s (fst (alloc s))"
    and alloc_free: "inv s \<Longrightarrow> is_free (snd (alloc s)) g \<longleftrightarrow> is_free s g \<and> g \<noteq> fst (alloc s)"
    and alloc_fails: "inv s \<Longrightarrow> fst (alloc s) = 0 \<Longrightarrow> \<not> is_free s g"
    and release_free: "inv s \<Longrightarrow> managed s f \<Longrightarrow> is_free (release f s) g \<longleftrightarrow> is_free s g \<or> g = f"
    and managed_alloc: "managed (snd (alloc s)) = managed s"
    and managed_release: "managed (release f s) = managed s"
begin

lemmas alloc_simps = inv_alloc inv_release alloc_free managed_alloc managed_release

lemma alloc_frame: "inv s \<Longrightarrow> fst (alloc s) \<noteq> 0 \<Longrightarrow> page_of (fst (alloc s)) = fst (alloc s)"
  using alloc_takes free_frame managed_frame by blast

lemma alloc_succeeds: "inv s \<Longrightarrow> is_free s g \<Longrightarrow> fst (alloc s) \<noteq> 0"
  using alloc_fails by blast

text \<open>Two allocations in a row never return the same frame.\<close>

lemma alloc_twice_distinct:
  assumes "inv s" and "fst (alloc s) \<noteq> 0" and "fst (alloc (snd (alloc s))) \<noteq> 0"
  shows "fst (alloc (snd (alloc s))) \<noteq> fst (alloc s)"
  using alloc_takes [OF inv_alloc [OF assms(1)] assms(3)] alloc_free [OF assms(1)] by blast

text \<open>Giving back the frame just taken restores the set of free frames.\<close>

lemma alloc_release_roundtrip:
  assumes "inv s" and "fst (alloc s) \<noteq> 0"
  shows "is_free (release (fst (alloc s)) (snd (alloc s))) g \<longleftrightarrow> is_free s g"
proof -
  have f: "is_free s (fst (alloc s))" by (rule alloc_takes [OF assms])
  then have "managed (snd (alloc s)) (fst (alloc s))"
    using free_frame [OF assms(1)] by (simp add: managed_alloc)
  then show ?thesis
    using release_free [OF inv_alloc [OF assms(1)]] alloc_free [OF assms(1)] f by blast
qed

end

text \<open>\<open>n\<close> allocations in a row.\<close>

fun alloc_many :: "('s \<Rightarrow> u32 \<times> 's) \<Rightarrow> nat \<Rightarrow> 's \<Rightarrow> u32 list \<times> 's" where
  "alloc_many alloc 0 s = ([], s)"
| "alloc_many alloc (Suc n) s =
     (case alloc s of (f, s') \<Rightarrow> case alloc_many alloc n s' of (fs, s'') \<Rightarrow> (f # fs, s''))"

context frame_allocator
begin

lemma inv_alloc_many: "inv s \<Longrightarrow> inv (snd (alloc_many alloc n s))"
  by (induction n arbitrary: s) (auto simp: split_beta inv_alloc)

lemma alloc_many_free:
  "inv s \<Longrightarrow> is_free (snd (alloc_many alloc n s)) g
     \<longleftrightarrow> is_free s g \<and> g \<notin> set (fst (alloc_many alloc n s))"
  by (induction n arbitrary: s) (auto simp: split_beta alloc_simps)

lemma alloc_many_were_free:
  "inv s \<Longrightarrow> f \<in> set (fst (alloc_many alloc n s)) \<Longrightarrow> f \<noteq> 0 \<Longrightarrow> is_free s f"
proof (induction n arbitrary: s)
  case 0
  then show ?case by simp
next
  case (Suc n)
  from Suc.prems(2) consider "f = fst (alloc s)" | "f \<in> set (fst (alloc_many alloc n (snd (alloc s))))"
    by (auto simp: split_beta)
  then show ?case
  proof cases
    case 1
    then show ?thesis using Suc.prems alloc_takes by blast
  next
    case 2
    then have "is_free (snd (alloc s)) f" using Suc.prems by (intro Suc.IH inv_alloc)
    then show ?thesis using alloc_free [OF Suc.prems(1)] by blast
  qed
qed

text \<open>Frames handed out one after the other are pairwise different.\<close>

lemma alloc_many_distinct:
  "inv s \<Longrightarrow> 0 \<notin> set (fst (alloc_many alloc n s)) \<Longrightarrow> distinct (fst (alloc_many alloc n s))"
proof (induction n arbitrary: s)
  case 0
  then show ?case by simp
next
  case (Suc n)
  let ?s = "snd (alloc s)"
  have "fst (alloc s) \<notin> set (fst (alloc_many alloc n ?s))"
  proof
    assume in_tail: "fst (alloc s) \<in> set (fst (alloc_many alloc n ?s))"
    with Suc.prems have "is_free ?s (fst (alloc s))"
      by (intro alloc_many_were_free [of ?s _ n]) (auto simp: split_beta inv_alloc)
    then show False using alloc_free [OF Suc.prems(1)] by blast
  qed
  moreover have "distinct (fst (alloc_many alloc n ?s))"
    using Suc.prems by (intro Suc.IH inv_alloc) (auto simp: split_beta)
  ultimately show ?case by (simp add: split_beta)
qed

end

end
