(* ===== verification/Pmm.thy ===== *)
theory Pmm
  imports Mboot2 Frame_Interface
begin

text \<open>
  \<open>kernel/pmm.c\<close>: the bitmap allocator of physical frames.  The state is the file's static
  variables; \<open>bitmap\<close> is the content of the \<open>bitmap_byte_len\<close> bytes from \<open>bm_base\<close> on (a set
  bit is a used frame).  Those bytes are in frames the allocator marks used, so no other
  component writes them; \<open>pmm_init\<close> fills them in the memory the second walk reads.
  The file also states the contract of a frame allocator as a locale, proves what its
  clients need from it, and interprets it on this allocator.
\<close>

section \<open>The code\<close>

record pmm =
  bitmap :: "u8 list"
  bm_base :: u32
  bitmap_byte_len :: u32
  frame_count :: u64

definition align_up :: "u32 \<Rightarrow> u32 \<Rightarrow> u32" where
  "align_up x a = (x + a - 1) AND NOT (a - 1)"

definition align_down :: "u32 \<Rightarrow> u32 \<Rightarrow> u32" where
  "align_down x a = x AND NOT (a - 1)"

definition phys_pfn :: "u32 \<Rightarrow> u64" where
  "phys_pfn p = drop_bit 12 (ucast p)"

definition bm_set :: "u64 \<Rightarrow> pmm \<Rightarrow> pmm" where
  "bm_set pfn s =
     (if pfn \<ge> frame_count s then s
      else let i = unat (ucast (drop_bit 3 pfn) :: u32); b = unat (ucast (pfn AND 7) :: u32)
        in s\<lparr>bitmap := (bitmap s)[i := bitmap s ! i OR ucast (push_bit b (1 :: u32))]\<rparr>)"

definition bm_clear :: "u64 \<Rightarrow> pmm \<Rightarrow> pmm" where
  "bm_clear pfn s =
     (if pfn \<ge> frame_count s then s
      else let i = unat (ucast (drop_bit 3 pfn) :: u32); b = unat (ucast (pfn AND 7) :: u32)
        in s\<lparr>bitmap := (bitmap s)[i := bitmap s ! i AND ucast (NOT (push_bit b (1 :: u32)))]\<rparr>)"

definition bm_get :: "u64 \<Rightarrow> pmm \<Rightarrow> u32" where
  "bm_get pfn s =
     (if pfn \<ge> frame_count s then 1
      else let i = unat (ucast (drop_bit 3 pfn) :: u32); b = unat (ucast (pfn AND 7) :: u32)
        in ucast (drop_bit b (bitmap s ! i)) AND 1)"

definition bm_fill :: "u8 \<Rightarrow> u32 \<Rightarrow> pmm \<Rightarrow> pmm" where
  "bm_fill v n s = s\<lparr>bitmap := replicate (unat n) v\<rparr>"

text \<open>
  The loop of \<open>frames_mark_used\<close> and \<open>frames_mark_free\<close>, with \<open>f\<close> either \<open>bm_set\<close> or
  \<open>bm_clear\<close>.  Both bounds are multiples of the frame size, so \<open>p + FRAME_SIZE\<close> does not
  wrap while \<open>p < e\<close> (\<open>frame_step_no_wrap\<close> below): the inner test is always true and is
  there for the termination proof only.
\<close>

function mark_frames :: "(u64 \<Rightarrow> pmm \<Rightarrow> pmm) \<Rightarrow> u32 \<Rightarrow> u32 \<Rightarrow> pmm \<Rightarrow> pmm" where
  "mark_frames f p e s =
     (if p < e then
        let pfn = phys_pfn p; s' = (if pfn < frame_count s then f pfn s else s)
        in if p < p + page_size then mark_frames f (p + page_size) e s' else s'
      else s)"
  by pat_completeness auto
termination
  by (relation "measure (\<lambda>(f, p, e, s). unat e - unat p)") (auto simp: word_less_nat_alt)

declare mark_frames.simps [simp del]

definition frames_mark_used :: "u32 \<Rightarrow> u32 \<Rightarrow> pmm \<Rightarrow> pmm" where
  "frames_mark_used begin_a end_a s =
     (if begin_a \<ge> end_a then s
      else mark_frames bm_set (align_down begin_a page_size) (align_up end_a page_size) s)"

definition frames_mark_free :: "u32 \<Rightarrow> u32 \<Rightarrow> pmm \<Rightarrow> pmm" where
  "frames_mark_free begin_a end_a s =
     (if begin_a \<ge> end_a then s
      else mark_frames bm_clear (align_down begin_a page_size) (align_up end_a page_size) s)"

definition max_cb :: "u64 \<Rightarrow> u64 \<Rightarrow> u64 \<Rightarrow> u64" where
  "max_cb base_a len max_end = (let end_a = base_a + len in if end_a > max_end then end_a else max_end)"

definition free_cb :: "u64 \<Rightarrow> u64 \<Rightarrow> pmm \<Rightarrow> pmm" where
  "free_cb base_a len s = frames_mark_free (ucast base_a) (ucast (base_a + len)) s"

text \<open>
  The state after the bitmap is laid out and filled, and \<open>pmm_init\<close>.  The second walk reads
  memory after \<open>bm_fill\<close> has written the bitmap's bytes.
\<close>

definition pmm_setup :: "layout \<Rightarrow> u64 \<Rightarrow> pmm \<Rightarrow> pmm" where
  "pmm_setup L max_end s =
     (let last_byte = max_end - 1; last_pfn = drop_bit 12 last_byte;
          fc = last_pfn + 1; len = ucast ((fc + 7) div 8)
      in bm_fill 0xFF len (s\<lparr>frame_count := fc, bitmap_byte_len := len,
           bm_base := align_up (kernel_image_end L) page_size\<rparr>))"

definition pmm_init :: "layout \<Rightarrow> memory \<Rightarrow> u32 \<Rightarrow> u32 \<Rightarrow> pmm \<Rightarrow> bool \<times> pmm" where
  "pmm_init L m info mb_info_phys s =
     (case mb2_for_each_available m info max_cb 0 of (ok, max_end) \<Rightarrow>
        if \<not> ok \<or> max_end = 0 then (False, s)
        else let s1 = pmm_setup L max_end s; m1 = store_bytes m (bm_base s1) (bitmap s1)
          in case mb2_for_each_available m1 info free_cb s1 of (ok2, s2) \<Rightarrow>
            if \<not> ok2 then (False, s2)
            else
              let s3 = frames_mark_used (kernel_image_begin L) (kernel_image_end L) s2;
                  s4 = frames_mark_used mb_info_phys (mb_info_phys + ld32 m1 info) s3;
                  s5 = frames_mark_used (bm_base s4) (bm_base s4 + bitmap_byte_len s4) s4
              in (True, bm_set 0 s5))"

definition pmm_frame_count :: "pmm \<Rightarrow> u64" where
  "pmm_frame_count s = frame_count s"

definition pmm_max_pfn :: "pmm \<Rightarrow> u64" where
  "pmm_max_pfn s = (if frame_count s \<noteq> 0 then frame_count s - 1 else 0)"

text \<open>The 64-bit loop counter runs from 1 to \<open>frame_count\<close>; the result 0 means "no frame".\<close>

definition pmm_alloc_frame :: "pmm \<Rightarrow> u32 \<times> pmm" where
  "pmm_alloc_frame s =
     (case first_index (\<lambda>k. bm_get (of_nat k) s = 0) 1 (unat (frame_count s)) of
        Some k \<Rightarrow> (push_bit 12 (ucast (of_nat k :: u64)), bm_set (of_nat k) s)
      | None \<Rightarrow> (0, s))"

definition pmm_free_frame :: "u32 \<Rightarrow> pmm \<Rightarrow> pmm" where
  "pmm_free_frame phys s =
     (if phys AND (page_size - 1) \<noteq> 0 then s
      else let pfn = phys_pfn phys in
        if pfn = 0 \<or> pfn \<ge> frame_count s then s
        else if bm_get pfn s = 0 then s
        else bm_clear pfn s)"

section \<open>The bitmap as a set of free frames\<close>

text \<open>
  \<open>frame_free s k\<close>: frame number \<open>k\<close> is managed and its bit is clear.  The invariant says
  that the bitmap has a bit for every managed frame, that all frame numbers fit 32-bit
  physical addresses, and that frame 0 is never free.
\<close>

definition frame_free :: "pmm \<Rightarrow> nat \<Rightarrow> bool" where
  "frame_free s k \<longleftrightarrow> k < unat (frame_count s) \<and> \<not> bit (bitmap s ! (k div 8)) (k mod 8)"

definition pmm_shape :: "pmm \<Rightarrow> bool" where
  "pmm_shape s \<longleftrightarrow> unat (frame_count s) \<le> 8 * length (bitmap s) \<and> unat (frame_count s) \<le> 1048576"

definition pmm_inv :: "pmm \<Rightarrow> bool" where
  "pmm_inv s \<longleftrightarrow> pmm_shape s \<and> \<not> frame_free s 0"

lemma bm_index:
  assumes "unat pfn < 1048576"
  shows "unat (ucast (drop_bit 3 pfn :: u64) :: u32) = unat pfn div 8"
proof -
  have "unat pfn div 8 < 4294967296" using assms by simp
  then show ?thesis by (simp add: unat_ucast_u64_u32 unat_shiftr)
qed

lemma bm_bit: "unat (ucast (pfn AND 7 :: u64) :: u32) = unat pfn mod 8"
proof -
  have "unat (pfn AND 7) = unat pfn mod 8" by (simp only: mask3 unat_and_mask) simp
  then show ?thesis by (simp add: unat_ucast_u64_u32)
qed

lemma u64_of_nat: "k < 1048576 \<Longrightarrow> unat (of_nat k :: u64) = k"
  by (intro unat_of_nat64) simp

lemma bit_one_shift: "bit (ucast (2 ^ b :: u32) :: u8) n \<longleftrightarrow> n = b \<and> b < 8"
  by (auto simp: bit_simps)

lemma bit_not_one_shift: "bit (ucast (NOT (2 ^ b :: u32)) :: u8) n \<longleftrightarrow> n < 8 \<and> n \<noteq> b"
  by (auto simp: bit_simps)

lemma bm_get_free:
  assumes "pmm_shape s" and "k < unat (frame_count s)"
  shows "bm_get (of_nat k) s = 0 \<longleftrightarrow> frame_free s k"
proof -
  have k: "k < 1048576" using assms by (simp add: pmm_shape_def)
  have "(ucast (drop_bit b w) AND 1 :: u32) = 0 \<longleftrightarrow> \<not> bit w b" for w :: u8 and b
  proof -
    have "(ucast (drop_bit b w) AND 1 :: u32) = of_bool (bit (ucast (drop_bit b w) :: u32) 0)"
      by (simp add: and_one_eq mod_2_eq_odd bit_0)
    then show ?thesis by (simp add: bit_simps)
  qed
  then show ?thesis
    using assms(2) k by (simp add: bm_get_def frame_free_def Let_def bm_index bm_bit u64_of_nat
        word_le_nat_alt not_le)
qed

lemma shape_bm_set [simp]: "pmm_shape (bm_set pfn s) = pmm_shape s"
  and shape_bm_clear [simp]: "pmm_shape (bm_clear pfn s) = pmm_shape s"
  by (simp_all add: pmm_shape_def bm_set_def bm_clear_def Let_def)

lemma bm_frame [frame_simps]:
  "frame_count (bm_set pfn s) = frame_count s" "frame_count (bm_clear pfn s) = frame_count s"
  "bm_base (bm_set pfn s) = bm_base s" "bm_base (bm_clear pfn s) = bm_base s"
  "bitmap_byte_len (bm_set pfn s) = bitmap_byte_len s"
  "bitmap_byte_len (bm_clear pfn s) = bitmap_byte_len s"
  by (simp_all add: bm_set_def bm_clear_def Let_def)

lemma same_bit_index: "k div 8 = j div 8 \<Longrightarrow> k mod 8 = j mod 8 \<Longrightarrow> k = j" for k j :: nat
  by (metis div_mult_mod_eq)

lemma frame_free_bm_set:
  assumes "pmm_shape s" and "unat pfn < unat (frame_count s)"
  shows "frame_free (bm_set pfn s) k \<longleftrightarrow> frame_free s k \<and> k \<noteq> unat pfn"
proof -
  have p: "unat pfn < 1048576" and len: "unat pfn div 8 < length (bitmap s)"
    using assms by (auto simp: pmm_shape_def)
  show ?thesis
    using assms(2) p len same_bit_index [of k "unat pfn"]
    by (auto simp: frame_free_def bm_set_def Let_def bm_index bm_bit word_le_nat_alt
        nth_list_update bit_or_iff bit_one_shift)
qed

lemma frame_free_bm_clear:
  assumes "pmm_shape s" and "unat pfn < unat (frame_count s)"
  shows "frame_free (bm_clear pfn s) k \<longleftrightarrow> frame_free s k \<or> k = unat pfn"
proof -
  have p: "unat pfn < 1048576" and len: "unat pfn div 8 < length (bitmap s)"
    using assms by (auto simp: pmm_shape_def)
  show ?thesis
    using assms(2) p len same_bit_index [of k "unat pfn"]
    by (auto simp: frame_free_def bm_clear_def Let_def bm_index bm_bit word_le_nat_alt
        nth_list_update bit_and_iff bit_not_one_shift)
qed

section \<open>Allocation and release\<close>

definition frame_is_free :: "pmm \<Rightarrow> u32 \<Rightarrow> bool" where
  "frame_is_free s f \<longleftrightarrow> page_of f = f \<and> f \<noteq> 0 \<and> frame_free s (unat f div 4096)"

definition frame_managed :: "pmm \<Rightarrow> u32 \<Rightarrow> bool" where
  "frame_managed s f \<longleftrightarrow> page_of f = f \<and> f \<noteq> 0 \<and> unat f div 4096 < unat (frame_count s)"

lemma frame_addr:
  assumes "k < 1048576"
  shows "unat (push_bit 12 (ucast (of_nat k :: u64)) :: u32) = k * 4096"
proof -
  have k: "unat (ucast (of_nat k :: u64) :: u32) = k"
    using assms by (simp add: unat_ucast_u64_u32 u64_of_nat)
  have "unat (push_bit 12 (ucast (of_nat k :: u64)) :: u32)
      = unat (ucast (of_nat k :: u64) :: u32) * 2 ^ 12"
    using assms k by (intro unat_shiftl) simp
  then show ?thesis using k by simp
qed

lemma page_frame_number: "page_of f = f \<Longrightarrow> unat f = unat f div 4096 * 4096"
  using unat_page_of [of f] by simp

lemma frame_eq_iff:
  "page_of f = f \<Longrightarrow> page_of g = g \<Longrightarrow> f = g \<longleftrightarrow> unat f div 4096 = unat g div 4096"
  using page_of_eq_iff [of f g] by simp

lemma frame_addr_aligned:
  "k < 1048576 \<Longrightarrow> page_of (push_bit 12 (ucast (of_nat k :: u64))) = push_bit 12 (ucast (of_nat k :: u64))"
  by (simp add: word_unat_eq_iff unat_page_of frame_addr del: push_bit_of_nat)

lemma frame_addr_eq:
  assumes "k < 1048576" and "page_of g = g"
  shows "g = push_bit 12 (ucast (of_nat k :: u64)) \<longleftrightarrow> unat g div 4096 = k"
  by (metis assms frame_addr mult_cancel2 page_frame_number word_unat_eq_iff zero_neq_numeral)

lemma unat_phys_pfn: "unat (phys_pfn p) = unat p div 4096"
  by (simp add: phys_pfn_def unat_shiftr)

lemma pmm_alloc_Some:
  assumes "pmm_inv s" and "first_index (\<lambda>k. bm_get (of_nat k) s = 0) 1 (unat (frame_count s)) = Some k"
  shows "pmm_alloc_frame s = (push_bit 12 (ucast (of_nat k :: u64)), bm_set (of_nat k) s)"
    and "1 \<le> k" and "k < 1048576" and "frame_free s k"
    and "j < k \<Longrightarrow> \<not> frame_free s j"
    and "frame_free (bm_set (of_nat k) s) i \<longleftrightarrow> frame_free s i \<and> i \<noteq> k"
proof -
  have sh: "pmm_shape s" using assms(1) by (simp add: pmm_inv_def)
  from assms(2) have k: "1 \<le> k" "k < unat (frame_count s)" "bm_get (of_nat k) s = 0"
    and min: "\<And>j. 1 \<le> j \<Longrightarrow> j < k \<Longrightarrow> bm_get (of_nat j) s \<noteq> 0"
    by (auto simp: first_index_Some)
  show "pmm_alloc_frame s = (push_bit 12 (ucast (of_nat k :: u64)), bm_set (of_nat k) s)"
    by (simp only: pmm_alloc_frame_def assms(2) option.case)
  show "1 \<le> k" by (rule k)
  show "k < 1048576" using k sh by (simp add: pmm_shape_def)
  then have u: "unat (of_nat k :: u64) = k" by (rule u64_of_nat)
  show "frame_free s k" using bm_get_free [OF sh k(2)] k(3) by simp
  show "\<not> frame_free s j" if "j < k"
    using that min [of j] bm_get_free [OF sh, of j] k(2) assms(1) by (cases j) (auto simp: pmm_inv_def)
  show "frame_free (bm_set (of_nat k) s) i \<longleftrightarrow> frame_free s i \<and> i \<noteq> k"
    using frame_free_bm_set [OF sh, of "of_nat k" i] k u by simp
qed

lemma pmm_alloc_None:
  assumes "pmm_inv s" and "first_index (\<lambda>k. bm_get (of_nat k) s = 0) 1 (unat (frame_count s)) = None"
  shows "pmm_alloc_frame s = (0, s)" and "\<not> frame_free s k"
proof -
  show "pmm_alloc_frame s = (0, s)" by (simp only: pmm_alloc_frame_def assms(2) option.case)
  have sh: "pmm_shape s" using assms(1) by (simp add: pmm_inv_def)
  from assms(2) have "bm_get (of_nat k) s \<noteq> 0" if "1 \<le> k" "k < unat (frame_count s)"
    using that by (simp add: first_index_None)
  then show "\<not> frame_free s k"
    using bm_get_free [OF sh, of k] assms(1) by (cases k) (auto simp: pmm_inv_def frame_free_def)
qed

lemma pmm_alloc_cases:
  assumes "pmm_inv s"
  obtains (full) "pmm_alloc_frame s = (0, s)" "\<And>k. \<not> frame_free s k"
  | (frame) k where
      "pmm_alloc_frame s = (push_bit 12 (ucast (of_nat k :: u64)), bm_set (of_nat k) s)"
      "1 \<le> k" "k < 1048576" "frame_free s k" "\<And>j. j < k \<Longrightarrow> \<not> frame_free s j"
      "\<And>i. frame_free (bm_set (of_nat k) s) i \<longleftrightarrow> frame_free s i \<and> i \<noteq> k"
  using pmm_alloc_None [OF assms] pmm_alloc_Some [OF assms]
  by (cases "first_index (\<lambda>k. bm_get (of_nat k) s = 0) 1 (unat (frame_count s))") metis+

lemma frame_addr_nonzero: "Suc 0 \<le> k \<Longrightarrow> k < 1048576 \<Longrightarrow> push_bit 12 (ucast (of_nat k :: u64)) \<noteq> (0 :: u32)"
  by (metis One_nat_def frame_addr mult_is_0 not_one_le_zero unat_0 zero_neq_numeral)

lemma pmm_alloc_frame_lowest_eq: "pmm_inv s \<Longrightarrow> fst (pmm_alloc_frame s) = 0 \<Longrightarrow> pmm_alloc_frame s = (0, s)"
  by (auto elim!: pmm_alloc_cases dest: frame_addr_nonzero)

lemma pmm_inv_bm_set: "pmm_inv s \<Longrightarrow> unat pfn < unat (frame_count s) \<Longrightarrow> pmm_inv (bm_set pfn s)"
  by (simp add: pmm_inv_def frame_free_bm_set)

lemma pmm_inv_alloc:
  assumes s: "pmm_inv s"
  shows "pmm_inv (snd (pmm_alloc_frame s))"
proof (cases rule: pmm_alloc_cases [OF s])
  case 1
  then show ?thesis using s by simp
next
  case (2 k)
  have "pmm_inv (bm_set (of_nat k) s)"
    using s 2(3,4) by (intro pmm_inv_bm_set) (auto simp: u64_of_nat frame_free_def)
  then show ?thesis using 2 by simp
qed

lemma pmm_free_effect:
  assumes "pmm_inv s" and "frame_managed s f"
  shows "frame_free (pmm_free_frame f s) k \<longleftrightarrow> frame_free s k \<or> k = unat f div 4096"
proof -
  have sh: "pmm_shape s" using assms(1) by (simp add: pmm_inv_def)
  let ?k = "unat f div 4096"
  from assms(2) have al: "page_of f = f" and nz: "f \<noteq> 0" and lt: "?k < unat (frame_count s)"
    by (auto simp: frame_managed_def)
  then have "?k \<noteq> 0" using page_frame_number [OF al] by (metis mult_is_0 unat_eq_0)
  then have pfn: "phys_pfn f \<noteq> 0" "\<not> frame_count s \<le> phys_pfn f"
    using lt by (auto simp: word_unat_eq_iff word_le_nat_alt unat_phys_pfn)
  have off: "f AND 4095 = 0"
    using page_frame_number [OF al] unat_page_off [of f] by (metis mod_mult_self2_is_0 unat_eq_0)
  have k20: "?k < 1048576" using lt sh by (simp add: pmm_shape_def)
  have "of_nat ?k = phys_pfn f" using k20 by (simp add: word_unat_eq_iff unat_phys_pfn u64_of_nat)
  then have "bm_get (phys_pfn f) s = 0 \<longleftrightarrow> frame_free s ?k" using bm_get_free [OF sh lt] by simp
  then show ?thesis
    using pfn off lt frame_free_bm_clear [OF sh, of "phys_pfn f" k]
    by (auto simp: pmm_free_frame_def Let_def unat_phys_pfn)
qed

lemma pmm_free_unmanaged: "\<not> frame_managed s f \<Longrightarrow> pmm_free_frame f s = s"
proof -
  assume nm: "\<not> frame_managed s f"
  have "page_of f = f" if "f AND 4095 = 0" using that by (rule page_of_aligned)
  then show ?thesis
    using nm by (auto simp: pmm_free_frame_def Let_def frame_managed_def word_unat_eq_iff
        word_le_nat_alt unat_phys_pfn not_le)
qed

lemma pmm_inv_free: "pmm_inv s \<Longrightarrow> pmm_inv (pmm_free_frame f s)"
proof (cases "frame_managed s f")
  case True
  assume s: "pmm_inv s"
  have "unat f div 4096 \<noteq> 0" using True page_frame_number [of f]
    by (metis frame_managed_def mult_is_0 unat_eq_0)
  then have "\<not> frame_free (pmm_free_frame f s) 0"
    using pmm_free_effect [OF s True, of 0] s by (auto simp: pmm_inv_def)
  moreover have "pmm_shape (pmm_free_frame f s)"
    using s by (simp add: pmm_free_frame_def Let_def pmm_inv_def)
  ultimately show ?thesis by (simp add: pmm_inv_def)
qed (simp add: pmm_free_unmanaged)

lemma pmm_frame_count_const [frame_simps]:
  "frame_count (snd (pmm_alloc_frame s)) = frame_count s"
  "frame_count (pmm_free_frame f s) = frame_count s"
  by (simp_all add: pmm_alloc_frame_def pmm_free_frame_def Let_def frame_simps split: option.split)

interpretation frames: frame_allocator pmm_alloc_frame pmm_free_frame frame_is_free frame_managed pmm_inv
proof unfold_locales
  fix s :: pmm and f g :: u32
  show "frame_managed (snd (pmm_alloc_frame s)) = frame_managed s"
    "frame_managed (pmm_free_frame f s) = frame_managed s"
    by (simp_all add: fun_eq_iff frame_managed_def frame_simps)
  show "frame_managed s f \<Longrightarrow> f \<noteq> 0 \<and> page_of f = f" by (simp add: frame_managed_def)
  assume s: "pmm_inv s"
  show "pmm_inv (snd (pmm_alloc_frame s))" "pmm_inv (pmm_free_frame f s)"
    using s by (auto intro: pmm_inv_alloc pmm_inv_free)
  show "frame_is_free s f \<Longrightarrow> frame_managed s f"
    by (simp add: frame_is_free_def frame_managed_def frame_free_def)
  show "frame_managed s f \<Longrightarrow> frame_is_free (pmm_free_frame f s) g \<longleftrightarrow> frame_is_free s g \<or> g = f"
    using pmm_free_effect [OF s, of f "unat g div 4096"] frame_eq_iff [of g f]
    by (auto simp: frame_is_free_def frame_managed_def)
  show "fst (pmm_alloc_frame s) \<noteq> 0 \<Longrightarrow> frame_is_free s (fst (pmm_alloc_frame s))"
    using s by (rule pmm_alloc_cases)
      (auto simp: frame_is_free_def frame_addr frame_addr_aligned simp del: push_bit_of_nat)
  show "fst (pmm_alloc_frame s) = 0 \<Longrightarrow> \<not> frame_is_free s g"
    using s by (rule pmm_alloc_cases)
      (auto simp: frame_is_free_def dest: frame_addr_nonzero)
  show "frame_is_free (snd (pmm_alloc_frame s)) g \<longleftrightarrow> frame_is_free s g \<and> g \<noteq> fst (pmm_alloc_frame s)"
    using s by (rule pmm_alloc_cases) (auto simp: frame_is_free_def frame_addr_eq frame_addr)
qed

section \<open>Marking ranges\<close>

lemma unat_align_down: "unat (align_down x page_size) = unat x div 4096 * 4096"
proof -
  have "align_down x page_size = page_of x" by (simp add: align_down_def page_of_def)
  then show ?thesis by (simp add: unat_page_of)
qed

lemma unat_align_up:
  "unat (align_up x page_size)
     = (if unat x \<le> 4294963200 then (unat x + 4095) div 4096 * 4096 else 0)"
proof -
  have eq: "align_up x page_size = page_of (x + of_nat 4095)"
    by (simp add: align_up_def page_of_def add.commute)
  show ?thesis
  proof (cases "unat x \<le> 4294963200")
    case True
    then have "unat (x + of_nat 4095) = unat x + 4095" by (intro unat_plus32) simp
    then show ?thesis using True by (simp only: eq unat_page_of) simp
  next
    case False
    have "unat (x + of_nat 4095) = (unat x + 4095) mod 4294967296"
      by (simp add: unat_word_ariths)
    also have "\<dots> = unat x + 4095 - 4294967296"
      using False unat_lt32 [of x] by (subst le_mod_geq) auto
    also have "\<dots> < 4096" using unat_lt32 [of x] by simp
    finally show ?thesis using False by (simp only: eq unat_page_of) simp
  qed
qed

lemma frame_step_no_wrap:
  fixes p e :: u32
  assumes "unat p mod 4096 = 0" and "unat e mod 4096 = 0" and "p < e"
  shows "unat (p + page_size) = unat p + 4096" and "p < p + page_size" and "unat p + 4096 \<le> unat e"
proof -
  have "4096 dvd unat e - unat p" using assms by (intro dvd_diff_nat) auto
  then show le: "unat p + 4096 \<le> unat e"
    using assms(3) by (auto simp: word_less_nat_alt dest!: dvd_imp_le)
  then show "unat (p + page_size) = unat p + 4096"
    using unat_lt32 [of e] unat_plus32 [of p 4096] by simp
  then show "p < p + page_size" by (simp add: word_less_nat_alt)
qed

lemma frame_mod_step: "unat p mod 4096 = 0 \<Longrightarrow> unat (p + page_size) = unat p + 4096 \<Longrightarrow>
    unat (p + page_size) mod 4096 = 0 \<and> unat (p + page_size) div 4096 = Suc (unat p div 4096)"
  by (simp del: Word.unat_add_lem)

text \<open>The marking loop, once per frame number of the range.\<close>

definition mark_all :: "(u64 \<Rightarrow> pmm \<Rightarrow> pmm) \<Rightarrow> nat list \<Rightarrow> pmm \<Rightarrow> pmm" where
  "mark_all f ks s = fold (\<lambda>k s. if k < unat (frame_count s) then f (of_nat k) s else s) ks s"

lemma mark_all_simps [simp]:
  "mark_all f [] s = s"
  "mark_all f (k # ks) s = mark_all f ks (if k < unat (frame_count s) then f (of_nat k) s else s)"
  by (simp_all add: mark_all_def)

lemma mark_frames_all:
  assumes "unat p mod 4096 = 0" and "unat e mod 4096 = 0"
  shows "mark_frames f p e s = mark_all f [unat p div 4096..<unat e div 4096] s"
  using assms
proof (induction f p e s rule: mark_frames.induct)
  case (1 f p e s)
  show ?case
  proof (cases "p < e")
    case True
    note step = frame_step_no_wrap [OF 1(2,3) True]
    note m = frame_mod_step [OF 1(2) step(1)]
    have k: "unat p div 4096 < 1048576" using unat_lt32 [of p] by simp
    then have pfn: "phys_pfn p = of_nat (unat p div 4096)"
      by (simp add: word_unat_eq_iff unat_phys_pfn u64_of_nat)
    have "unat p div 4096 < unat e div 4096" using step(3) by simp
    then have "[unat p div 4096..<unat e div 4096]
        = unat p div 4096 # [unat (p + page_size) div 4096..<unat e div 4096]"
      using m by (metis upt_conv_Cons)
    moreover have "mark_frames f p e s = mark_frames f (p + page_size) e
        (if phys_pfn p < frame_count s then f (phys_pfn p) s else s)"
      using True step(2) by (subst mark_frames.simps) (simp add: Let_def)
    moreover have "phys_pfn p < frame_count s \<longleftrightarrow> unat p div 4096 < unat (frame_count s)"
      by (simp add: word_less_nat_alt unat_phys_pfn)
    ultimately show ?thesis
      using 1(1) [OF True refl refl step(2)] m 1(3) by (simp only: pfn mark_all_simps)
  next
    case False
    then have "unat e div 4096 \<le> unat p div 4096"
      by (intro div_le_mono) (simp add: word_less_nat_alt)
    then show ?thesis using False by (subst mark_frames.simps) simp
  qed
qed

lemma frame_free_lt: "frame_free s k \<Longrightarrow> k < unat (frame_count s)"
  by (simp add: frame_free_def)

lemma mark_all_set:
  assumes "pmm_shape s"
  shows "pmm_shape (mark_all bm_set ks s) \<and> frame_count (mark_all bm_set ks s) = frame_count s
      \<and> (frame_free (mark_all bm_set ks s) j \<longleftrightarrow> frame_free s j \<and> j \<notin> set ks)"
  using assms
proof (induction ks arbitrary: s)
  case (Cons k ks)
  show ?case
  proof (cases "k < unat (frame_count s)")
    case True
    then have "unat (of_nat k :: u64) = k" using Cons.prems by (intro u64_of_nat) (simp add: pmm_shape_def)
    then have "frame_free (bm_set (of_nat k) s) j \<longleftrightarrow> frame_free s j \<and> j \<noteq> k"
      using frame_free_bm_set [OF Cons.prems, of "of_nat k" j] True by simp
    then show ?thesis
      using True Cons.prems Cons.IH [of "bm_set (of_nat k) s"] by (auto simp: frame_simps)
  next
    case False
    then show ?thesis using Cons.IH [OF Cons.prems] frame_free_lt [of s j] by auto
  qed
qed simp

lemma mark_all_clear:
  assumes "pmm_shape s"
  shows "pmm_shape (mark_all bm_clear ks s) \<and> frame_count (mark_all bm_clear ks s) = frame_count s
      \<and> (frame_free (mark_all bm_clear ks s) j
          \<longleftrightarrow> frame_free s j \<or> j \<in> set ks \<and> j < unat (frame_count s))"
  using assms
proof (induction ks arbitrary: s)
  case (Cons k ks)
  show ?case
  proof (cases "k < unat (frame_count s)")
    case True
    then have "unat (of_nat k :: u64) = k" using Cons.prems by (intro u64_of_nat) (simp add: pmm_shape_def)
    then have "frame_free (bm_clear (of_nat k) s) j \<longleftrightarrow> frame_free s j \<or> j = k"
      using frame_free_bm_clear [OF Cons.prems, of "of_nat k" j] True by simp
    then show ?thesis
      using True Cons.prems Cons.IH [of "bm_clear (of_nat k) s"] by (auto simp: frame_simps)
  next
    case False
    then show ?thesis using Cons.IH [OF Cons.prems] by auto
  qed
qed simp

text \<open>
  The frames a byte range \<open>[b, e)\<close> touches.  A range that ends in the last frame of the
  address space touches none: \<open>align_up\<close> of its end wraps to 0.
\<close>

definition range_frames :: "u32 \<Rightarrow> u32 \<Rightarrow> nat \<Rightarrow> bool" where
  "range_frames b e k \<longleftrightarrow> b < e \<and> unat e \<le> 0xFFFFF000
     \<and> unat b < (k + 1) * 4096 \<and> k * 4096 < unat e"

lemma range_frames_upt:
  "b < e \<Longrightarrow> range_frames b e k
     \<longleftrightarrow> k \<in> set [unat (align_down b page_size) div 4096..<unat (align_up e page_size) div 4096]"
proof -
  assume be: "b < e"
  have lo: "x < 4096 + k * 4096 \<longleftrightarrow> x div 4096 \<le> k" for x :: nat
    using div_less_iff_less_mult [of 4096 x "k + 1"] by auto
  have hi: "k * 4096 < x \<longleftrightarrow> k < (x + 4095) div 4096" for x :: nat
    using less_eq_div_iff_mult_less_eq [of 4096 "Suc k" "x + 4095"] by auto
  show ?thesis
    using be by (simp add: range_frames_def unat_align_down unat_align_up lo hi)
qed

lemma frames_mark_used_effect:
  assumes "pmm_shape s"
  shows "pmm_shape (frames_mark_used b e s)" and "frame_count (frames_mark_used b e s) = frame_count s"
    and "frame_free (frames_mark_used b e s) k \<longleftrightarrow> frame_free s k \<and> \<not> range_frames b e k"
proof -
  have "pmm_shape (frames_mark_used b e s) \<and> frame_count (frames_mark_used b e s) = frame_count s
    \<and> (frame_free (frames_mark_used b e s) k \<longleftrightarrow> frame_free s k \<and> \<not> range_frames b e k)"
  proof (cases "b < e")
    case True
    then have "frames_mark_used b e s = mark_all bm_set
        [unat (align_down b page_size) div 4096..<unat (align_up e page_size) div 4096] s"
      by (simp add: frames_mark_used_def mark_frames_all unat_align_down unat_align_up)
    then show ?thesis
      using mark_all_set [OF assms] range_frames_upt [OF True] by simp
  qed (use assms in \<open>auto simp: frames_mark_used_def range_frames_def\<close>)
  then show "pmm_shape (frames_mark_used b e s)" "frame_count (frames_mark_used b e s) = frame_count s"
    "frame_free (frames_mark_used b e s) k \<longleftrightarrow> frame_free s k \<and> \<not> range_frames b e k"
    by auto
qed

lemma frames_mark_free_effect:
  assumes "pmm_shape s"
  shows "pmm_shape (frames_mark_free b e s)" and "frame_count (frames_mark_free b e s) = frame_count s"
    and "frame_free (frames_mark_free b e s) k
      \<longleftrightarrow> frame_free s k \<or> range_frames b e k \<and> k < unat (frame_count s)"
proof -
  have "pmm_shape (frames_mark_free b e s) \<and> frame_count (frames_mark_free b e s) = frame_count s
    \<and> (frame_free (frames_mark_free b e s) k
       \<longleftrightarrow> frame_free s k \<or> range_frames b e k \<and> k < unat (frame_count s))"
  proof (cases "b < e")
    case True
    then have "frames_mark_free b e s = mark_all bm_clear
        [unat (align_down b page_size) div 4096..<unat (align_up e page_size) div 4096] s"
      by (simp add: frames_mark_free_def mark_frames_all unat_align_down unat_align_up)
    then show ?thesis
      using mark_all_clear [OF assms] range_frames_upt [OF True] by simp
  qed (use assms in \<open>auto simp: frames_mark_free_def range_frames_def\<close>)
  then show "pmm_shape (frames_mark_free b e s)" "frame_count (frames_mark_free b e s) = frame_count s"
    "frame_free (frames_mark_free b e s) k
      \<longleftrightarrow> frame_free s k \<or> range_frames b e k \<and> k < unat (frame_count s)"
    by auto
qed

section \<open>Initialisation\<close>

text \<open>The end of usable memory, and what the bitmap of \<open>n\<close> frames looks like.\<close>

definition ram_end :: "mb2_mmap_entry list \<Rightarrow> u64" where
  "ram_end es = fold (\<lambda>e a. max (mm_base e + mm_length e) a) (avail_entries es) 0"

definition touches :: "mb2_mmap_entry \<Rightarrow> nat \<Rightarrow> bool" where
  "touches e = range_frames (ucast (mm_base e)) (ucast (mm_base e + mm_length e))"

lemma ram_end_max_cb: "fold (\<lambda>e. max_cb (mm_base e) (mm_length e)) (avail_entries es) 0 = ram_end es"
proof -
  have "(\<lambda>e :: mb2_mmap_entry. max_cb (mm_base e) (mm_length e)) = (\<lambda>e a. max (mm_base e + mm_length e) a)"
    by (auto simp: fun_eq_iff max_cb_def max_def Let_def)
  then show ?thesis by (simp add: ram_end_def)
qed

lemma fold_free_cb:
  assumes "pmm_shape s"
  shows "pmm_shape (fold (\<lambda>e. free_cb (mm_base e) (mm_length e)) es s)
    \<and> frame_count (fold (\<lambda>e. free_cb (mm_base e) (mm_length e)) es s) = frame_count s
    \<and> (frame_free (fold (\<lambda>e. free_cb (mm_base e) (mm_length e)) es s) k
       \<longleftrightarrow> frame_free s k \<or> (\<exists>e\<in>set es. touches e k) \<and> k < unat (frame_count s))"
  using assms
proof (induction es arbitrary: s)
  case (Cons e es)
  let ?s = "free_cb (mm_base e) (mm_length e) s"
  have "pmm_shape ?s" "frame_count ?s = frame_count s"
    "frame_free ?s k \<longleftrightarrow> frame_free s k \<or> touches e k \<and> k < unat (frame_count s)"
    using frames_mark_free_effect [OF Cons.prems] by (auto simp: free_cb_def touches_def)
  then show ?case using Cons.IH [of ?s] by auto
qed simp

lemma unat_frame_total:
  assumes "0 < n"
  shows "unat (drop_bit 12 (n - 1 :: u64) + 1) = (unat n + 4095) div 4096"
proof -
  have n: "unat (n - 1) = unat n - 1"
    using assms by (intro unat_minus_one) auto
  have d: "unat (drop_bit 12 (n - 1)) = (unat n - 1) div 4096"
    using n by (simp add: unat_shiftr)
  have "(unat n - 1) div 4096 + 1 < 18446744073709551616"
    using unat_lt64 [of n] by linarith
  then have "unat (drop_bit 12 (n - 1) + 1) = (unat n - 1) div 4096 + 1"
    using d by (simp add: unat_word_ariths)
  moreover have "0 < unat n" using assms by (simp add: word_less_nat_alt)
  then have "(unat n - 1) div 4096 + 1 = (unat n + 4095) div 4096"
    by (subst div_add_self2 [symmetric]) auto
  ultimately show ?thesis by simp
qed

lemma unat_bitmap_len: "unat (f :: u64) \<le> 1048576 \<Longrightarrow> unat ((f + 7) div 8) = (unat f + 7) div 8"
  by (simp add: unat_div_distrib unat_word_ariths del: unat_div)

lemma unat_bitmap_len32:
  assumes "unat (f :: u64) \<le> 1048576"
  shows "unat (ucast ((f + 7) div 8) :: u32) = (unat f + 7) div 8"
proof -
  have "(unat f + 7) div 8 < 4294967296" using assms by linarith
  then show ?thesis by (simp only: unat_ucast_u64_u32 unat_bitmap_len [OF assms] mod_less)
qed

lemma pmm_setup_effect:
  assumes "0 < n" and "unat n \<le> 4294967296"
  shows "unat (frame_count (pmm_setup L n s)) = (unat n + 4095) div 4096"
    and "pmm_shape (pmm_setup L n s)" and "\<not> frame_free (pmm_setup L n s) k"
    and "length (bitmap (pmm_setup L n s)) = unat (bitmap_byte_len (pmm_setup L n s))"
proof -
  let ?fc = "drop_bit 12 (n - 1) + 1 :: u64"
  have fc: "unat ?fc = (unat n + 4095) div 4096" by (rule unat_frame_total [OF assms(1)])
  have le: "unat ?fc \<le> 1048576" using fc assms(2) by linarith
  have len: "unat (ucast ((?fc + 7) div 8) :: u32) = (unat ?fc + 7) div 8"
    by (rule unat_bitmap_len32 [OF le])
  show "unat (frame_count (pmm_setup L n s)) = (unat n + 4095) div 4096"
    using fc by (simp add: pmm_setup_def bm_fill_def Let_def)
  show sh: "pmm_shape (pmm_setup L n s)"
    using len le by (simp add: pmm_shape_def pmm_setup_def bm_fill_def Let_def) 
  show "length (bitmap (pmm_setup L n s)) = unat (bitmap_byte_len (pmm_setup L n s))"
    by (simp add: pmm_setup_def bm_fill_def Let_def)
  have ones: "bit (0xFF :: u8) j" if "j < 8" for j
  proof -
    have "(0xFF :: u8) = mask 8" by (simp add: mask_eq_exp_minus_1)
    then show ?thesis using that by (simp only: bit_mask_iff) simp
  qed
  show "\<not> frame_free (pmm_setup L n s) k"
  proof
    assume free: "frame_free (pmm_setup L n s) k"
    then have "k div 8 < length (bitmap (pmm_setup L n s))"
      using sh by (auto simp: frame_free_def pmm_shape_def)
    then have "bitmap (pmm_setup L n s) ! (k div 8) = 0xFF"
      by (simp add: pmm_setup_def bm_fill_def Let_def)
    then show False using free ones [of "k mod 8"] by (simp add: frame_free_def)
  qed
qed

text \<open>The bytes of the bitmap: from the page after the kernel image on.\<close>

definition bitmap_start :: "layout \<Rightarrow> u32" where
  "bitmap_start L = align_up (kernel_image_end L) page_size"

definition bitmap_bytes :: "u64 \<Rightarrow> nat" where
  "bitmap_bytes n = ((unat n + 4095) div 4096 + 7) div 8"

lemma pmm_setup_fields:
  assumes "0 < n" and "unat n \<le> 4294967296"
  shows "bm_base (pmm_setup L n s) = bitmap_start L"
    and "bitmap_byte_len (pmm_setup L n s) = of_nat (bitmap_bytes n)"
    and "length (bitmap (pmm_setup L n s)) = bitmap_bytes n"
proof -
  let ?fc = "drop_bit 12 (n - 1) + 1 :: u64"
  have fc: "unat ?fc = (unat n + 4095) div 4096" by (rule unat_frame_total [OF assms(1)])
  have "unat ?fc \<le> 1048576" using fc assms(2) by linarith
  then have len: "unat (ucast ((?fc + 7) div 8) :: u32) = bitmap_bytes n"
    by (simp only: unat_bitmap_len32 bitmap_bytes_def fc)
  show "bm_base (pmm_setup L n s) = bitmap_start L"
    by (simp add: pmm_setup_def bm_fill_def Let_def bitmap_start_def)
  show "bitmap_byte_len (pmm_setup L n s) = of_nat (bitmap_bytes n)"
    unfolding len [symmetric] by (simp add: pmm_setup_def bm_fill_def Let_def)
  show "length (bitmap (pmm_setup L n s)) = bitmap_bytes n"
    unfolding len [symmetric] by (simp add: pmm_setup_def bm_fill_def Let_def)
qed

lemma bm_base_mark [frame_simps]:
  "bm_base (mark_frames bm_set p e s) = bm_base s"
  "bitmap_byte_len (mark_frames bm_set p e s) = bitmap_byte_len s"
  "bm_base (mark_frames bm_clear p e s) = bm_base s"
  "bitmap_byte_len (mark_frames bm_clear p e s) = bitmap_byte_len s"
proof -
  have "bm_base (mark_frames f p e s) = bm_base s \<and> bitmap_byte_len (mark_frames f p e s) = bitmap_byte_len s"
    if "\<And>k s. bm_base (f k s) = bm_base s" "\<And>k s. bitmap_byte_len (f k s) = bitmap_byte_len s" for f
    using that
  proof (induction f p e s rule: mark_frames.induct)
    case (1 f p e s)
    then show ?case by (subst (1 2) mark_frames.simps) (simp add: Let_def)
  qed
  from this [of bm_set] this [of bm_clear] show
    "bm_base (mark_frames bm_set p e s) = bm_base s"
    "bitmap_byte_len (mark_frames bm_set p e s) = bitmap_byte_len s"
    "bm_base (mark_frames bm_clear p e s) = bm_base s"
    "bitmap_byte_len (mark_frames bm_clear p e s) = bitmap_byte_len s"
    by (auto simp: frame_simps)
qed

lemma bm_base_marks [frame_simps]:
  "bm_base (frames_mark_used b e s) = bm_base s"
  "bitmap_byte_len (frames_mark_used b e s) = bitmap_byte_len s"
  "bm_base (frames_mark_free b e s) = bm_base s"
  "bitmap_byte_len (frames_mark_free b e s) = bitmap_byte_len s"
  by (simp_all add: frames_mark_used_def frames_mark_free_def frame_simps)

lemma bm_base_fold_free:
  "bm_base (fold (\<lambda>e. free_cb (mm_base e) (mm_length e)) es s) = bm_base s \<and>
   bitmap_byte_len (fold (\<lambda>e. free_cb (mm_base e) (mm_length e)) es s) = bitmap_byte_len s"
  by (induction es arbitrary: s) (auto simp: free_cb_def frame_simps)

lemma pmm_init_fails:
  assumes "mb2_mmap m info = None \<or> mb2_mmap m info = Some es \<and> ram_end es = 0"
  shows "pmm_init L m info mb s = (False, s)"
  using assms mb2_for_each_available_None [of m info max_cb 0]
  by (auto simp: pmm_init_def mb2_for_each_available_Some ram_end_max_cb split: prod.splits)

lemma for_each_same:
  "same_on info (max 8 (unat (ld32 m info))) m m' \<Longrightarrow>
     mb2_for_each_available m' info fn c = mb2_for_each_available m info fn c"
  by (simp add: mb2_for_each_available_def mb2_reads_same(1))

section \<open>Properties\<close>


definition sample_pmm :: pmm where
  "sample_pmm = \<lparr>bitmap = [0xF7], bm_base = 0x101000, bitmap_byte_len = 1, frame_count = 8\<rparr>"

text \<open>Two megabytes of memory, the kernel at 1 MiB, the boot information at 0x9000.\<close>

definition sample_layout :: layout where
  "sample_layout = \<lparr>kernel_image_begin = 0x100000, kernel_image_end = 0x104000, boot_pd = 0x101000,
     boot_pt = 0x102000, g_mmio_pts = 0x103000, g_heap = 0x103800\<rparr>"

definition sample_map :: "mb2_mmap_entry list" where
  "sample_map = [\<lparr>mm_base = 0, mm_length = 0x200000, mm_type = 1, mm_reserved0 = 0\<rparr>]"

definition sample_memory :: memory where
  "sample_memory = store_bytes (\<lambda>_. 0) 0x9000 (mbi_image sample_map)"

lemma sample_map_facts:
  "ram_end sample_map = 0x200000" "bitmap_bytes 0x200000 = 64" "bitmap_start sample_layout = 0x104000"
  "avail_entries sample_map = sample_map" "ld32 sample_memory 0x9000 = 56"
proof -
  show "ram_end sample_map = 0x200000" "avail_entries sample_map = sample_map"
    by (simp_all add: ram_end_def avail_entries_def sample_map_def)
  show "bitmap_bytes 0x200000 = 64" by (simp add: bitmap_bytes_def)
  show "bitmap_start sample_layout = 0x104000"
    by (simp add: bitmap_start_def align_up_def sample_layout_def)
  show "ld32 sample_memory 0x9000 = 56"
    by code_simp
qed

lemma sample_memory_map: "mb2_mmap sample_memory 0x9000 = Some sample_map"
  unfolding sample_memory_def
  by (rule mb2_parse_image)
    (simp_all add: holds_store_bytes mbi_image_def sample_map_def)

lemma sample_frames:
  "(\<exists>e\<in>set sample_map. touches e 300)"
  "\<not> range_frames 0x100000 0x104000 300"
  "\<not> range_frames 0x9000 (0x9000 + 56) 300"
  "\<not> range_frames 0x104000 (0x104000 + 64) 300"
  by (simp_all add: touches_def range_frames_def sample_map_def)


text \<open>
  Allocation takes the lowest free frame.  On a state that satisfies the invariant,
  \<open>pmm_alloc_frame\<close> either finds no free frame, returns 0 and changes nothing, or returns the
  address of the lowest free frame, which is then the only frame whose status has changed.
\<close>

theorem pmm_alloc_frame_lowest:
  assumes "pmm_inv s"
  shows "pmm_inv (snd (pmm_alloc_frame s))
    \<and> (if \<exists>k. frame_free s k
       then \<exists>k. unat (fst (pmm_alloc_frame s)) = 4096 * k \<and> 0 < k \<and> frame_free s k
          \<and> (\<forall>j < k. \<not> frame_free s j)
          \<and> (\<forall>j. frame_free (snd (pmm_alloc_frame s)) j = (frame_free s j \<and> j \<noteq> k))
       else pmm_alloc_frame s = (0, s))"
proof (cases rule: pmm_alloc_cases [OF assms])
  case 1
  then show ?thesis using assms by simp
next
  case (2 k)
  then have "unat (fst (pmm_alloc_frame s)) = 4096 * k" by (simp add: frame_addr)
  then show ?thesis using 2 pmm_inv_alloc [OF assms] by (auto intro!: exI [of _ k])
qed

lemma sample_pmm_inv: "pmm_inv sample_pmm"
  by (simp add: pmm_inv_def pmm_shape_def frame_free_def sample_pmm_def bit_numeral_rec)

lemma sample_pmm_alloc: "fst (pmm_alloc_frame sample_pmm) = 0x3000"
  by (simp add: pmm_alloc_frame_def sample_pmm_def first_index.simps bm_get_def Let_def)

theorem pmm_alloc_frame_lowest_witness:
  "pmm_inv (snd (pmm_alloc_frame sample_pmm)) \<and> fst (pmm_alloc_frame sample_pmm) = 0x3000"
proof
  show "pmm_inv (snd (pmm_alloc_frame sample_pmm))"
    using pmm_alloc_frame_lowest [OF sample_pmm_inv] by (rule conjunct1)
  show "fst (pmm_alloc_frame sample_pmm) = 0x3000" by (rule sample_pmm_alloc)
qed

text \<open>
  Releasing is the inverse of allocating, and it is idempotent: giving back the frame
  just allocated frees exactly the frames free before, and a second release of the same
  address, a release of an unaligned address or of an unmanaged one changes nothing.
\<close>

theorem pmm_alloc_free_roundtrip:
  assumes "pmm_inv s" and "fst (pmm_alloc_frame s) \<noteq> 0"
  shows "(\<forall>g. frame_is_free (pmm_free_frame (fst (pmm_alloc_frame s)) (snd (pmm_alloc_frame s))) g
         = frame_is_free s g)
    \<and> (\<forall>f t. frame_is_free t f \<or> \<not> frame_managed t f \<longrightarrow> pmm_inv t \<longrightarrow> pmm_free_frame f t = t)"
proof (intro conjI allI impI)
  show "frame_is_free (pmm_free_frame (fst (pmm_alloc_frame s)) (snd (pmm_alloc_frame s))) g
      = frame_is_free s g" for g
    by (rule frames.alloc_release_roundtrip [OF assms])
  show "pmm_free_frame f t = t" if "frame_is_free t f \<or> \<not> frame_managed t f" "pmm_inv t" for f t
  proof (cases "frame_managed t f")
    case True
    then have free: "frame_free t (unat f div 4096)" using that(1) by (simp add: frame_is_free_def)
    have sh: "pmm_shape t" using that(2) by (simp add: pmm_inv_def)
    have "unat f div 4096 < unat (frame_count t)" using free by (rule frame_free_lt)
    moreover have "phys_pfn f = of_nat (unat f div 4096)"
      using sh calculation by (simp add: word_unat_eq_iff unat_phys_pfn u64_of_nat pmm_shape_def)
    ultimately show ?thesis
      using bm_get_free [OF sh, of "unat f div 4096"] free by (simp add: pmm_free_frame_def Let_def)
  qed (rule pmm_free_unmanaged)
qed

theorem pmm_alloc_free_roundtrip_witness:
  "frame_is_free (pmm_free_frame (fst (pmm_alloc_frame sample_pmm)) (snd (pmm_alloc_frame sample_pmm))) 0x3000
   = frame_is_free sample_pmm 0x3000"
  by (rule pmm_alloc_free_roundtrip [OF sample_pmm_inv, THEN conjunct1, THEN spec])
    (simp add: sample_pmm_alloc)

end
