(* ===== verification/Ports.thy ===== *)
theory Ports
  imports Machine
begin

text \<open>
  The I/O ports (\<open>verve_inb\<close> and \<open>verve_outb\<close> of \<open>include/arch/i386/io.h\<close>).  Devices are the
  environment: \<open>io_in n p\<close> is the byte the \<open>n\<close>-th port read returns when it reads port \<open>p\<close>,
  and \<open>io_outs\<close> is the trace of all bytes written.
\<close>

record io =
  io_in :: "nat \<Rightarrow> u16 \<Rightarrow> u8"
  io_reads :: nat
  io_outs :: "(u16 \<times> u8) list"

definition verve_inb :: "u16 \<Rightarrow> 'a io_scheme \<Rightarrow> u8 \<times> 'a io_scheme" where
  "verve_inb port s = (io_in s (io_reads s) port, s\<lparr>io_reads := Suc (io_reads s)\<rparr>)"

definition verve_outb :: "u16 \<Rightarrow> u8 \<Rightarrow> 'a io_scheme \<Rightarrow> 'a io_scheme" where
  "verve_outb port data s = s\<lparr>io_outs := io_outs s @ [(port, data)]\<rparr>"

text \<open>The bytes written to one port.\<close>

definition sent :: "u16 \<Rightarrow> 'a io_scheme \<Rightarrow> u8 list" where
  "sent port s = map snd (filter (\<lambda>e. fst e = port) (io_outs s))"

lemma inb_simps [simp]:
  "io_outs (snd (verve_inb p s)) = io_outs s" "io_in (snd (verve_inb p s)) = io_in s"
  "io_reads (snd (verve_inb p s)) = Suc (io_reads s)" "io.more (snd (verve_inb p s)) = io.more s"
  by (simp_all add: verve_inb_def)

lemma outb_simps [simp]:
  "io_outs (verve_outb p v s) = io_outs s @ [(p, v)]" "io_in (verve_outb p v s) = io_in s"
  "io_reads (verve_outb p v s) = io_reads s" "io.more (verve_outb p v s) = io.more s"
  by (simp_all add: verve_outb_def)

lemma sent_outb: "sent q (verve_outb p v s) = (if p = q then sent q s @ [v] else sent q s)"
  by (simp add: sent_def)

text \<open>C strings are lists of bytes without the terminating zero.\<close>

definition cstr :: "string \<Rightarrow> u8 list" where
  "cstr s = map of_char s"

end
