(* ===== verification/Serial.thy ===== *)
theory Serial
  imports Ports
begin

text \<open>
  \<open>kernel/serial.c\<close> and \<open>include/verve/spinlock.h\<close>: the serial console and the spin lock
  around it.  The functions below are the view of one CPU; the step relation at the end is
  the view of all CPUs that print at the same time.
\<close>

record con = io +
  g_serial_lock :: u32

section \<open>The spin lock, seen by one CPU\<close>

text \<open>
  A lock held by nobody else is taken at once.  A CPU that finds the lock held spins; with
  no other CPU to release it, it spins for ever (\<open>None\<close>).
\<close>

partial_function (option) spin_relax :: "u32 \<Rightarrow> unit option" where
  "spin_relax l = (if l \<noteq> 0 then spin_relax l else Some ())"

partial_function (option) verve_spin_lock :: "u32 \<Rightarrow> u32 option" where
  "verve_spin_lock l =
     (let prev = l; l' = 1
      in if prev = 0 then Some l'
         else case spin_relax l' of None \<Rightarrow> None | Some u \<Rightarrow> verve_spin_lock l')"

definition verve_spin_unlock :: "u32 \<Rightarrow> u32" where
  "verve_spin_unlock l = 0"

lemma spin_lock_free [simp]: "verve_spin_lock 0 = Some 1"
  by (subst verve_spin_lock.simps) simp

section \<open>The console\<close>

abbreviation (input) COM1_DATA :: u16 where "COM1_DATA \<equiv> 0x3F8"

partial_function (option) serial_ready :: "'a io_scheme \<Rightarrow> 'a io_scheme option" where
  "serial_ready s =
     (case verve_inb (COM1_DATA + 5) s of (v, s') \<Rightarrow> if v AND 0x20 = 0 then serial_ready s' else Some s')"

definition serial_putc_raw :: "u8 \<Rightarrow> 'a io_scheme \<Rightarrow> 'a io_scheme option" where
  "serial_putc_raw c s = map_option (verve_outb COM1_DATA c) (serial_ready s)"

fun serial_put_list :: "u8 list \<Rightarrow> 'a io_scheme \<Rightarrow> 'a io_scheme option" where
  "serial_put_list [] s = Some s"
| "serial_put_list (c # cs) s = Option.bind (serial_putc_raw c s) (serial_put_list cs)"

text \<open>Every exported function takes the lock, sends its bytes and releases the lock.\<close>

definition locked :: "('a con_scheme \<Rightarrow> 'a con_scheme option) \<Rightarrow> 'a con_scheme \<Rightarrow> 'a con_scheme option" where
  "locked body s =
     (case verve_spin_lock (g_serial_lock s) of None \<Rightarrow> None
      | Some l \<Rightarrow> map_option (\<lambda>s'. s'\<lparr>g_serial_lock := verve_spin_unlock (g_serial_lock s')\<rparr>)
          (body (s\<lparr>g_serial_lock := l\<rparr>)))"

definition serial_putc :: "u8 \<Rightarrow> 'a con_scheme \<Rightarrow> 'a con_scheme option" where
  "serial_putc c = locked (serial_putc_raw c)"

definition serial_puts :: "u8 list \<Rightarrow> 'a con_scheme \<Rightarrow> 'a con_scheme option" where
  "serial_puts cs = locked (serial_put_list cs)"

text \<open>The loop over the nibbles; \<open>buf\<close> has 32 bytes and never fills up.\<close>

definition hex_digits :: "u8 list" where
  "hex_digits = cstr ''0123456789ABCDEF''"

fun hex_loop :: "u64 \<Rightarrow> nat list \<Rightarrow> bool \<Rightarrow> u8 list \<Rightarrow> bool \<times> u8 list" where
  "hex_loop v [] started buf = (started, buf)"
| "hex_loop v (s # ss) started buf =
     (let nibble = unat (drop_bit s v AND 0xF)
      in if \<not> started \<and> nibble = 0 \<and> s \<noteq> 0 then hex_loop v ss started buf
         else let buf' = buf @ [hex_digits ! nibble]
           in if length buf' \<ge> 31 then (True, buf') else hex_loop v ss True buf')"

definition hex_shifts :: "nat list" where
  "hex_shifts = rev (map (\<lambda>i. 4 * i) [0..<16])"

definition hex_buf :: "u64 \<Rightarrow> u8 list" where
  "hex_buf v = (case hex_loop v hex_shifts False (cstr ''0x'') of (started, buf) \<Rightarrow>
     if started then buf else buf @ cstr ''0'')"

definition serial_put_u64_hex :: "u64 \<Rightarrow> 'a con_scheme \<Rightarrow> 'a con_scheme option" where
  "serial_put_u64_hex v = locked (serial_put_list (hex_buf v))"

section \<open>What the console sends\<close>

text \<open>The transmitter becomes ready again and again: what the code relies on to return at all.\<close>

definition uart_live :: "'a io_scheme \<Rightarrow> bool" where
  "uart_live s \<longleftrightarrow> (\<forall>n. \<exists>k\<ge>n. io_in s k 0x3FD AND 0x20 \<noteq> 0)"

lemma serial_ready_live:
  assumes "io_in s k 0x3FD AND 0x20 \<noteq> 0" and "io_reads s \<le> k"
  shows "\<exists>n. serial_ready s = Some (s\<lparr>io_reads := n\<rparr>)"
  using assms
proof (induction "k - io_reads s" arbitrary: s)
  case 0
  then have "io_reads s = k" by simp
  then show ?case using 0 by (subst serial_ready.simps) (auto simp: verve_inb_def)
next
  case (Suc d)
  show ?case
  proof (cases "io_in s (io_reads s) 0x3FD AND 0x20 = 0")
    case True
    have "\<exists>n. serial_ready (s\<lparr>io_reads := Suc (io_reads s)\<rparr>)
        = Some (s\<lparr>io_reads := Suc (io_reads s)\<rparr>\<lparr>io_reads := n\<rparr>)"
      using Suc.hyps(2) Suc.prems by (intro Suc.hyps(1)) auto
    then show ?thesis using True by (subst serial_ready.simps) (simp add: verve_inb_def)
  next
    case False
    then show ?thesis by (subst serial_ready.simps) (auto simp: verve_inb_def)
  qed
qed

lemma serial_putc_raw_live:
  assumes "uart_live s"
  shows "\<exists>n. serial_putc_raw c s = Some (s\<lparr>io_reads := n, io_outs := io_outs s @ [(COM1_DATA, c)]\<rparr>)"
proof -
  obtain k where "io_reads s \<le> k" "io_in s k 0x3FD AND 0x20 \<noteq> 0" using assms by (auto simp: uart_live_def)
  then obtain n where "serial_ready s = Some (s\<lparr>io_reads := n\<rparr>)" using serial_ready_live by blast
  then show ?thesis by (auto simp: serial_putc_raw_def verve_outb_def)
qed

lemma serial_put_list_live:
  assumes "uart_live s"
  shows "\<exists>n. serial_put_list cs s
    = Some (s\<lparr>io_reads := n, io_outs := io_outs s @ map (\<lambda>c. (COM1_DATA, c)) cs\<rparr>)"
  using assms
proof (induction cs arbitrary: s)
  case Nil
  have "s = s\<lparr>io_reads := io_reads s, io_outs := io_outs s\<rparr>" by simp
  then show ?case by (intro exI [of _ "io_reads s"]) simp
next
  case (Cons c cs)
  obtain n where n: "serial_putc_raw c s = Some (s\<lparr>io_reads := n, io_outs := io_outs s @ [(COM1_DATA, c)]\<rparr>)"
    using serial_putc_raw_live [OF Cons.prems] by blast
  have "uart_live (s\<lparr>io_reads := n, io_outs := io_outs s @ [(COM1_DATA, c)]\<rparr>)"
    using Cons.prems by (simp add: uart_live_def)
  from Cons.IH [OF this] n show ?case by auto
qed

lemma locked_put:
  assumes "uart_live s" and "g_serial_lock s = 0"
  shows "\<exists>n. locked (serial_put_list cs) s
    = Some (s\<lparr>io_reads := n, io_outs := io_outs s @ map (\<lambda>c. (COM1_DATA, c)) cs\<rparr>)"
proof -
  have "uart_live (s\<lparr>g_serial_lock := 1\<rparr>)" using assms(1) by (simp add: uart_live_def)
  from serial_put_list_live [OF this, of cs] obtain n where
    "serial_put_list cs (s\<lparr>g_serial_lock := 1\<rparr>) = Some (s\<lparr>g_serial_lock := 1\<rparr>
      \<lparr>io_reads := n, io_outs := io_outs s @ map (\<lambda>c. (COM1_DATA, c)) cs\<rparr>)" by auto
  then show ?thesis using assms(2) by (intro exI [of _ n]) (simp add: locked_def verve_spin_unlock_def)
qed

lemma sent_put: "sent p (s\<lparr>io_reads := n, io_outs := io_outs s @ map (\<lambda>c. (q, c)) cs\<rparr>)
    = sent p s @ (if p = q then cs else [])"
  by (auto simp: sent_def filter_map comp_def)

text \<open>
  What a caller sees of a print: the trace of the ports has grown by the bytes and nothing
  else has changed but the number of port reads.
\<close>

definition con_ok :: "'a con_scheme \<Rightarrow> bool" where
  "con_ok s \<longleftrightarrow> uart_live s \<and> g_serial_lock s = 0"

definition prints :: "'a con_scheme \<Rightarrow> u8 list \<Rightarrow> 'a con_scheme \<Rightarrow> bool" where
  "prints s cs s' \<longleftrightarrow> (\<exists>n. s' = s\<lparr>io_reads := n, io_outs := io_outs s @ map (\<lambda>c. (COM1_DATA, c)) cs\<rparr>)"

lemma prints_refl [simp]: "prints s [] s"
  by (auto simp: prints_def intro: exI [of _ "io_reads s"])

lemma prints_trans: "prints s cs s1 \<Longrightarrow> prints s1 ds s2 \<Longrightarrow> prints s (cs @ ds) s2"
  by (auto simp: prints_def)

lemma prints_sent: "prints s cs s' \<Longrightarrow> sent COM1_DATA s' = sent COM1_DATA s @ cs"
  by (auto simp: prints_def sent_put)

lemma con_ok_prints: "prints s cs s' \<Longrightarrow> con_ok s \<Longrightarrow> con_ok s'"
  by (auto simp: prints_def con_ok_def uart_live_def)

lemma returns_locked:
  assumes "con_ok s" and "\<And>s'. prints s cs s' \<Longrightarrow> con_ok s' \<Longrightarrow> Q s'"
  shows "returns (locked (serial_put_list cs) s) Q"
proof -
  obtain n where "locked (serial_put_list cs) s
      = Some (s\<lparr>io_reads := n, io_outs := io_outs s @ map (\<lambda>c. (COM1_DATA, c)) cs\<rparr>)"
    using locked_put assms(1) unfolding con_ok_def by blast
  then show ?thesis using assms con_ok_prints unfolding returns_def prints_def by blast
qed

lemma returns_puts [returns_intros]:
  "con_ok s \<Longrightarrow> (\<And>s'. prints s cs s' \<Longrightarrow> con_ok s' \<Longrightarrow> Q s') \<Longrightarrow> returns (serial_puts cs s) Q"
  unfolding serial_puts_def by (rule returns_locked)

lemma returns_hex [returns_intros]:
  "con_ok s \<Longrightarrow> (\<And>s'. prints s (hex_buf v) s' \<Longrightarrow> con_ok s' \<Longrightarrow> Q s') \<Longrightarrow> returns (serial_put_u64_hex v s) Q"
  unfolding serial_put_u64_hex_def by (rule returns_locked)

lemma returns_putc [returns_intros]:
  fixes s :: "'a con_scheme"
  assumes "con_ok s" and "\<And>s'. prints s [c] s' \<Longrightarrow> con_ok s' \<Longrightarrow> Q s'"
  shows "returns (serial_putc c s) Q"
proof -
  have "serial_put_list [c] = (serial_putc_raw c :: 'a con_scheme \<Rightarrow> _)"
  proof (rule ext)
    show "serial_put_list [c] x = serial_putc_raw c x" for x :: "'a con_scheme"
      by (cases "serial_putc_raw c x") simp_all
  qed
  then have "serial_putc c s = locked (serial_put_list [c]) s" by (simp add: serial_putc_def locked_def)
  then show ?thesis using returns_locked [OF assms] by simp
qed

section \<open>Hexadecimal numbers\<close>

definition nibble :: "u64 \<Rightarrow> nat \<Rightarrow> nat" where
  "nibble v s = unat (drop_bit s v AND 0xF)"

lemma nibble_eq: "nibble v s = unat v div 2 ^ s mod 16"
proof -
  have m: "(15 :: u64) = mask 4" by (simp add: mask_eq_exp_minus_1)
  show ?thesis by (simp only: nibble_def m unat_and_mask unat_shiftr) simp
qed

lemma hex_loop_started:
  "length buf + length ss < 31 \<Longrightarrow>
     hex_loop v ss True buf = (True, buf @ map (\<lambda>s. hex_digits ! nibble v s) ss)"
  by (induction ss arbitrary: buf) (auto simp: Let_def nibble_def)

lemma hex_loop_leading:
  "length buf + length ss < 31 \<Longrightarrow> hex_loop v ss False buf
     = (dropWhile (\<lambda>s. nibble v s = 0 \<and> s \<noteq> 0) ss \<noteq> [],
        buf @ map (\<lambda>s. hex_digits ! nibble v s) (dropWhile (\<lambda>s. nibble v s = 0 \<and> s \<noteq> 0) ss))"
  by (induction ss) (auto simp: Let_def nibble_def [symmetric] hex_loop_started)

lemma hex_buf_digits:
  "hex_buf v = cstr ''0x'' @ map (\<lambda>s. hex_digits ! nibble v s)
     (dropWhile (\<lambda>s. nibble v s = 0 \<and> s \<noteq> 0) hex_shifts)"
proof -
  let ?P = "\<lambda>s. nibble v s = 0 \<and> s \<noteq> 0"
  have "(0 :: nat) \<in> set hex_shifts" by (simp add: hex_shifts_def)
  then have "dropWhile ?P hex_shifts \<noteq> []" by (auto simp: dropWhile_eq_Nil_conv)
  moreover have "length (cstr ''0x'') + length hex_shifts < 31" by (simp add: hex_shifts_def cstr_def)
  ultimately show ?thesis using hex_loop_leading [of "cstr ''0x''" hex_shifts v] by (simp add: hex_buf_def)
qed

text \<open>Reading a number back.\<close>

definition hex_val :: "u8 \<Rightarrow> nat" where
  "hex_val c = (if unat c < 58 then unat c - 48 else unat c - 55)"

definition parse_hex :: "u8 list \<Rightarrow> nat" where
  "parse_hex cs = foldl (\<lambda>a c. 16 * a + hex_val c) 0 cs"

lemma hex_val_digit: "n < 16 \<Longrightarrow> hex_val (hex_digits ! n) = n"
proof -
  assume "n < 16"
  then have "n \<in> set [0..<16]" by simp
  moreover have "\<forall>n \<in> set [0..<16]. hex_val (hex_digits ! n) = n"
    by code_simp
  ultimately show ?thesis by blast
qed

lemma hex_digit_zero: "n < 16 \<Longrightarrow> hex_digits ! n = 48 \<longleftrightarrow> n = 0"
proof
  assume n: "n < 16" "hex_digits ! n = 48"
  then have "hex_val 48 = n" using hex_val_digit [OF n(1)] by simp
  then show "n = 0" by (simp add: hex_val_def)
next
  have "hex_digits ! 0 = 48" by code_simp
  then show "n = 0 \<Longrightarrow> hex_digits ! n = 48" by simp
qed

lemma parse_digits:
  "foldl (\<lambda>a c. 16 * a + hex_val c) a (map (\<lambda>s. hex_digits ! nibble v s) (rev (map (\<lambda>i. 4 * i) [0..<n])))
    = 16 ^ n * a + unat v mod 16 ^ n"
proof (induction n arbitrary: a)
  case (Suc n)
  have d: "hex_val (hex_digits ! nibble v (4 * n)) = unat v div 16 ^ n mod 16"
  proof -
    have "(2 :: nat) ^ (4 * n) = 16 ^ n" by (simp add: power_mult)
    then show ?thesis using hex_val_digit [of "nibble v (4 * n)"] by (simp add: nibble_eq)
  qed
  have "unat v mod 16 ^ Suc n = 16 ^ n * (unat v div 16 ^ n mod 16) + unat v mod 16 ^ n"
    using mod_mult2_eq [of "unat v" "16 ^ n" 16] by (simp only: power_Suc2)
  let ?f = "\<lambda>a c. 16 * a + hex_val c" and ?d = "\<lambda>s. hex_digits ! nibble v s"
  have "foldl ?f a (map ?d (rev (map (\<lambda>i. 4 * i) [0..<Suc n])))
      = foldl ?f (16 * a + hex_val (?d (4 * n))) (map ?d (rev (map (\<lambda>i. 4 * i) [0..<n])))" by simp
  also have "\<dots> = 16 ^ n * (16 * a + unat v div 16 ^ n mod 16) + unat v mod 16 ^ n"
    unfolding d by (rule Suc.IH)
  also have "\<dots> = 16 ^ Suc n * a + unat v mod 16 ^ Suc n"
    using \<open>unat v mod 16 ^ Suc n = _\<close> by (simp add: algebra_simps)
  finally show ?case .
qed simp

lemma foldl_leading_zeros:
  "(\<And>s. s \<in> set ss \<Longrightarrow> P s \<Longrightarrow> f s = (0 :: nat)) \<Longrightarrow>
     foldl (\<lambda>a s. 16 * a + f s) 0 (dropWhile P ss) = foldl (\<lambda>a s. 16 * a + f s) 0 ss"
  by (induction ss) auto

section \<open>Many CPUs printing\<close>

text \<open>
  Where a CPU is in \<open>serial_puts\<close>: outside, at the \<open>xchg\<close>, in the inner waiting loop, or
  printing with a part of the message left.  \<open>finished\<close> is a ghost: the messages whose
  printer has left, in order.
\<close>

datatype ploc = Idle | Want "u8 list" | Spin "u8 list" | Print "u8 list" "u8 list"

record smp_con =
  lock :: u32
  locs :: "nat \<Rightarrow> ploc"
  tx :: "u8 list"
  finished :: "u8 list list"

inductive con_step :: "smp_con \<Rightarrow> smp_con \<Rightarrow> bool" where
  call: "locs s c = Idle \<Longrightarrow> con_step s (s\<lparr>locs := (locs s)(c := Want m)\<rparr>)"
| xchg_won: "locs s c = Want m \<Longrightarrow> lock s = 0 \<Longrightarrow>
    con_step s (s\<lparr>lock := 1, locs := (locs s)(c := Print m m)\<rparr>)"
| xchg_lost: "locs s c = Want m \<Longrightarrow> lock s \<noteq> 0 \<Longrightarrow>
    con_step s (s\<lparr>lock := 1, locs := (locs s)(c := Spin m)\<rparr>)"
| relax: "locs s c = Spin m \<Longrightarrow> lock s \<noteq> 0 \<Longrightarrow> con_step s s"
| retry: "locs s c = Spin m \<Longrightarrow> lock s = 0 \<Longrightarrow> con_step s (s\<lparr>locs := (locs s)(c := Want m)\<rparr>)"
| putc: "locs s c = Print m (b # bs) \<Longrightarrow>
    con_step s (s\<lparr>locs := (locs s)(c := Print m bs), tx := tx s @ [b]\<rparr>)"
| unlock: "locs s c = Print m [] \<Longrightarrow>
    con_step s (s\<lparr>lock := 0, locs := (locs s)(c := Idle), finished := finished s @ [m]\<rparr>)"

inductive_cases con_stepE: "con_step s s'"

definition con_start :: smp_con where
  "con_start = \<lparr>lock = 0, locs = \<lambda>_. Idle, tx = [], finished = []\<rparr>"

definition printing :: "smp_con \<Rightarrow> nat \<Rightarrow> bool" where
  "printing s c \<longleftrightarrow> (\<exists>m bs. locs s c = Print m bs)"

text \<open>
  The invariant: the lock is free when nobody prints; the printer is unique; what was sent
  is the finished messages and the part of the printer's message it has sent.
\<close>

definition con_inv :: "smp_con \<Rightarrow> bool" where
  "con_inv s \<longleftrightarrow>
     (\<forall>c d. printing s c \<longrightarrow> printing s d \<longrightarrow> c = d)
     \<and> (\<forall>c m bs. locs s c = Print m bs \<longrightarrow>
          lock s \<noteq> 0 \<and> (\<exists>as. m = as @ bs \<and> tx s = concat (finished s) @ as))
     \<and> ((\<forall>c. \<not> printing s c) \<longrightarrow> tx s = concat (finished s) \<and> lock s = 0)"

lemma con_inv_start: "con_inv con_start"
  by (simp add: con_inv_def con_start_def printing_def)

lemma con_inv_step:
  assumes "con_step s s'" and I: "con_inv s"
  shows "con_inv s'"
  using assms(1)
proof cases
  case (call c m)
  then have "printing s' = printing s" by (auto simp: printing_def fun_eq_iff)
  then show ?thesis using I call by (auto simp: con_inv_def split: if_splits)
next
  case (xchg_won c m)
  then have none: "\<And>d. \<not> printing s d" using I by (auto simp: con_inv_def printing_def)
  then show ?thesis using I xchg_won by (auto simp: con_inv_def printing_def split: if_splits)
next
  case (xchg_lost c m)
  then have "printing s' = printing s" by (auto simp: printing_def fun_eq_iff)
  moreover have "\<exists>d. printing s d" using I xchg_lost(3) by (auto simp: con_inv_def)
  ultimately show ?thesis using I xchg_lost by (auto simp: con_inv_def split: if_splits)
next
  case (relax c m)
  then show ?thesis using I by simp
next
  case (retry c m)
  then have "printing s' = printing s" by (auto simp: printing_def fun_eq_iff)
  then show ?thesis using I retry by (auto simp: con_inv_def split: if_splits)
next
  case (putc c m b bs)
  then have p: "printing s' = printing s" by (auto simp: printing_def fun_eq_iff)
  have c: "printing s c" using putc(2) by (auto simp: printing_def)
  then have only: "\<And>d m' bs'. locs s d = Print m' bs' \<Longrightarrow> d = c" using I by (auto simp: con_inv_def printing_def)
  obtain as where as: "lock s \<noteq> 0" "m = as @ b # bs" "tx s = concat (finished s) @ as"
    using I putc(2) unfolding con_inv_def by blast
  have "lock s' \<noteq> 0 \<and> (\<exists>as. m' = as @ bs' \<and> tx s' = concat (finished s') @ as)"
    if d: "locs s' d = Print m' bs'" for d m' bs'
  proof -
    have "d = c" using d only [of d] putc(1) by (auto split: if_splits)
    then have "m' = m" "bs' = bs" using d putc(1) by auto
    then show ?thesis using as putc(1) by (intro conjI exI [of _ "as @ [b]"]) auto
  qed
  moreover have "\<forall>c d. printing s' c \<longrightarrow> printing s' d \<longrightarrow> c = d" using I p by (simp add: con_inv_def)
  moreover have "printing s' c" using c p by simp
  ultimately show ?thesis unfolding con_inv_def by blast
next
  case (unlock c m)
  then have c: "printing s c" by (auto simp: printing_def)
  then have only: "\<And>d. printing s d \<Longrightarrow> d = c" using I by (auto simp: con_inv_def)
  then have none: "\<And>d. \<not> printing s' d" using unlock(1) by (auto simp: printing_def)
  have "\<exists>as. m = as @ [] \<and> tx s = concat (finished s) @ as"
    using I unlock(2) unfolding con_inv_def by blast
  then have "tx s = concat (finished s) @ m" by auto
  then show ?thesis using none unlock(1) by (auto simp: con_inv_def printing_def)
qed

lemma con_inv_reachable: "con_step\<^sup>*\<^sup>* con_start s \<Longrightarrow> con_inv s"
  by (induction rule: rtranclp_induct) (auto intro: con_inv_start con_inv_step)

section \<open>Properties\<close>

text \<open>
  Numbers.  When the transmitter keeps becoming ready and nobody holds the lock,
  \<open>serial_put_u64_hex\<close> returns with the lock free, having sent \<open>0x\<close> and digits that read back
  as the number, with no leading zero except for 0 itself.
\<close>

theorem serial_put_u64_hex_correct:
  assumes "uart_live s" and "g_serial_lock s = 0"
  shows "\<exists>s' ds. serial_put_u64_hex v s = Some s' \<and> g_serial_lock s' = 0
    \<and> sent COM1_DATA s' = sent COM1_DATA s @ cstr ''0x'' @ ds
    \<and> parse_hex ds = unat v \<and> (length ds = 1 \<or> ds \<noteq> [] \<and> hd ds \<noteq> 48)"
proof -
  let ?P = "\<lambda>s. nibble v s = 0 \<and> s \<noteq> 0" and ?d = "\<lambda>s. hex_digits ! nibble v s"
  let ?ss = "dropWhile ?P hex_shifts"
  obtain n where run: "serial_put_u64_hex v s
      = Some (s\<lparr>io_reads := n, io_outs := io_outs s @ map (\<lambda>c. (COM1_DATA, c)) (hex_buf v)\<rparr>)"
    using locked_put [OF assms] by (auto simp: serial_put_u64_hex_def)
  have lt: "nibble v x < 16" for x by (simp add: nibble_eq)
  have "parse_hex (map ?d ?ss) = foldl (\<lambda>a s. 16 * a + hex_val (?d s)) 0 ?ss"
    by (simp add: parse_hex_def foldl_map)
  also have "\<dots> = foldl (\<lambda>a s. 16 * a + hex_val (?d s)) 0 hex_shifts"
    by (rule foldl_leading_zeros) (simp add: hex_val_digit)
  also have "\<dots> = unat v mod 16 ^ 16"
    using parse_digits [of 0 v 16] by (simp add: hex_shifts_def foldl_map)
  finally have parse: "parse_hex (map ?d ?ss) = unat v" using unat_lt64 [of v] by simp
  have "(0 :: nat) \<in> set hex_shifts" by (simp add: hex_shifts_def)
  then have ne: "?ss \<noteq> []" by (auto simp: dropWhile_eq_Nil_conv)
  have "length ?ss = 1 \<or> hd (map ?d ?ss) \<noteq> 48"
  proof (cases "hd ?ss = 0")
    case True
    have "sorted_wrt (>) hex_shifts" by code_simp
    then have "sorted_wrt (>) ?ss" by (metis sorted_wrt_append takeWhile_dropWhile_id)
    then have "tl ?ss = []" using ne True by (cases ?ss; cases "tl ?ss") auto
    then show ?thesis using ne by (cases ?ss) auto
  next
    case False
    have "\<not> ?P (hd ?ss)" by (rule hd_dropWhile [OF ne])
    then have "nibble v (hd ?ss) \<noteq> 0" using False by simp
    then show ?thesis using ne lt hex_digit_zero by (simp add: hd_map)
  qed
  moreover have "sent COM1_DATA (s\<lparr>io_reads := n, io_outs := io_outs s @ map (\<lambda>c. (COM1_DATA, c)) (hex_buf v)\<rparr>)
      = sent COM1_DATA s @ cstr ''0x'' @ map ?d ?ss"
    by (simp only: sent_put hex_buf_digits) simp
  ultimately show ?thesis
    using run assms(2) parse ne
    by (intro exI [of _ "s\<lparr>io_reads := n, io_outs := io_outs s @ map (\<lambda>c. (COM1_DATA, c)) (hex_buf v)\<rparr>"]
        exI [of _ "map ?d ?ss"]) simp
qed

definition sample_con :: con where
  "sample_con = \<lparr>io_in = \<lambda>_ _. 0x60, io_reads = 0, io_outs = [], g_serial_lock = 0\<rparr>"

theorem serial_put_u64_hex_correct_witness:
  "\<exists>s'. serial_put_u64_hex 0xC0FFEE sample_con = Some s' \<and> g_serial_lock s' = 0"
proof -
  have "uart_live sample_con" by (auto simp: uart_live_def sample_con_def)
  moreover have "g_serial_lock sample_con = 0" by (simp add: sample_con_def)
  ultimately show ?thesis using serial_put_u64_hex_correct [of sample_con "0xC0FFEE"] by blast
qed

text \<open>
  C37: messages of several CPUs.  In every state reachable when any number of CPUs call
  \<open>serial_puts\<close>, at most one holds the lock, and the bytes sent are whole messages one after
  the other, followed by the beginning of the message being printed.
\<close>

theorem serial_messages_whole:
  assumes "con_step\<^sup>*\<^sup>* con_start s"
  shows "(\<forall>c d. printing s c \<longrightarrow> printing s d \<longrightarrow> c = d)
    \<and> (\<forall>c m bs. locs s c = Print m bs \<longrightarrow> (\<exists>as. m = as @ bs \<and> tx s = concat (finished s) @ as))
    \<and> ((\<forall>c. \<not> printing s c) \<longrightarrow> tx s = concat (finished s))"
  using con_inv_reachable [OF assms] unfolding con_inv_def by blast

lemma sample_run: "con_step\<^sup>*\<^sup>* con_start
   \<lparr>lock = 1, locs = (\<lambda>_. Idle)(0 := Print [65, 66] [66], 1 := Want [67]), tx = [65], finished = []\<rparr>"
proof -
  let ?s1 = "con_start\<lparr>locs := (locs con_start)(0 := Want [65, 66])\<rparr>"
  let ?s2 = "?s1\<lparr>lock := 1, locs := (locs ?s1)(0 := Print [65, 66] [65, 66])\<rparr>"
  let ?s3 = "?s2\<lparr>locs := (locs ?s2)(0 := Print [65, 66] [66]), tx := tx ?s2 @ [65]\<rparr>"
  let ?s4 = "?s3\<lparr>locs := (locs ?s3)(1 := Want [67])\<rparr>"
  have "con_step con_start ?s1" by (rule con_step.call) (simp add: con_start_def)
  moreover have "con_step ?s1 ?s2" by (rule con_step.xchg_won) (simp_all add: con_start_def)
  moreover have "con_step ?s2 ?s3" by (rule con_step.putc) simp
  moreover have "con_step ?s3 ?s4" by (rule con_step.call) (simp add: con_start_def)
  ultimately have "con_step\<^sup>*\<^sup>* con_start ?s4" by (meson converse_rtranclp_into_rtranclp rtranclp.rtrancl_refl)
  moreover have "?s4 = \<lparr>lock = 1, locs = (\<lambda>_. Idle)(0 := Print [65, 66] [66], 1 := Want [67]), tx = [65], finished = []\<rparr>"
    by (simp add: con_start_def fun_eq_iff)
  ultimately show ?thesis by simp
qed

theorem serial_messages_whole_witness:
  "\<exists>as. [65, 66 :: u8] = as @ [66] \<and> [65] = concat [] @ as"
proof -
  let ?s = "\<lparr>lock = 1, locs = (\<lambda>_. Idle)(0 := Print [65, 66] [66], 1 := Want [67]), tx = [65], finished = []\<rparr>"
  have l: "locs ?s 0 = Print [65, 66] [66]" by simp
  have "\<exists>as. [65, 66] = as @ [66] \<and> tx ?s = concat (finished ?s) @ as"
    by (rule serial_messages_whole [OF sample_run, THEN conjunct2, THEN conjunct1, rule_format, OF l])
  then show ?thesis by simp
qed

end
