(* ===== verification/Paging.thy ===== *)
theory Paging
  imports Pmm Serial
begin

text \<open>
  \<open>arch/i386/paging.c\<close>: the boot page directory and its identity tables, the static tables
  for memory-mapped devices, and the operations on the address space of a process.  All
  tables are words of the flat memory; \<open>cr3\<close> and the paging bit of CR0 are the control
  registers.  The translation look-aside buffer is not modelled: every operation that
  changes an entry executes \<open>invlpg\<close> on its page or reloads CR3.
\<close>

record vm = con +
  mem :: memory
  cr3 :: u32
  cr0_pg :: bool
  frames :: pmm

section \<open>The code\<close>

definition entry_at :: "u32 \<Rightarrow> u32 \<Rightarrow> u32" where
  "entry_at table i = table + 4 * i"

text \<open>\<open>mmio_pt_slot_t g_mmio_pts[16]\<close>: \<open>used\<close>, \<open>pd_idx\<close> and 1024 table words, 4104 bytes a slot.\<close>

definition mmio_slot :: "layout \<Rightarrow> nat \<Rightarrow> u32" where
  "mmio_slot L i = g_mmio_pts L + of_nat (4104 * i)"

definition mmio_used :: "layout \<Rightarrow> memory \<Rightarrow> nat \<Rightarrow> u32" where
  "mmio_used L m i = ld32 m (mmio_slot L i)"

definition mmio_pd_idx :: "layout \<Rightarrow> memory \<Rightarrow> nat \<Rightarrow> u32" where
  "mmio_pd_idx L m i = ld32 m (mmio_slot L i + 4)"

definition mmio_tbl :: "layout \<Rightarrow> nat \<Rightarrow> u32" where
  "mmio_tbl L i = mmio_slot L i + 8"

abbreviation (input) MMIO_PT_SLOTS :: nat where "MMIO_PT_SLOTS \<equiv> 16"

text \<open>The result is the table's address, \<open>None\<close> for \<open>NULL\<close>.\<close>

definition mmio_pt_for_pd :: "layout \<Rightarrow> u32 \<Rightarrow> memory \<Rightarrow> u32 option \<times> memory" where
  "mmio_pt_for_pd L pd_idx m =
     (let pde = ld32 m (entry_at (boot_pd L) pd_idx)
      in if pde \<noteq> 0 then (Some (page_of pde), m)
      else case first_index (\<lambda>i. mmio_used L m i \<noteq> 0 \<and> mmio_pd_idx L m i = pd_idx) 0 MMIO_PT_SLOTS of
        Some i \<Rightarrow> (Some (mmio_tbl L i), m)
      | None \<Rightarrow>
          (case first_index (\<lambda>i. mmio_used L m i = 0) 0 MMIO_PT_SLOTS of
             Some i \<Rightarrow>
               let m1 = store_words m (mmio_tbl L i) (replicate 1024 0);
                   m2 = st32 m1 (mmio_slot L i + 4) pd_idx;
                   m3 = st32 m2 (mmio_slot L i) 1;
                   m4 = st32 m3 (entry_at (boot_pd L) pd_idx)
                          (page_of (mmio_tbl L i) OR PTE_PRESENT OR PTE_RW)
               in (Some (mmio_tbl L i), m4)
           | None \<Rightarrow> (None, m)))"

definition cr3_load :: "u32 \<Rightarrow> 'a vm_scheme \<Rightarrow> 'a vm_scheme" where
  "cr3_load pd_phys s = s\<lparr>cr3 := pd_phys\<rparr>"

definition paging_enable_if_needed :: "'a vm_scheme \<Rightarrow> 'a vm_scheme" where
  "paging_enable_if_needed s = (if cr0_pg s then s else s\<lparr>cr0_pg := True\<rparr>)"

text \<open>The entries of table \<open>ti\<close> of \<open>boot_pt\<close>, and one turn of the outer loop.\<close>

definition identity_pt :: "u32 \<Rightarrow> u32 \<Rightarrow> u32 list" where
  "identity_pt pfns ti = map (\<lambda>pi. let pfn = ti * 1024 + of_nat pi
     in if pfn \<ge> pfns then 0
        else let addr = push_bit 12 pfn in page_of addr OR PTE_PRESENT OR PTE_RW) [0..<1024]"

definition identity_table :: "layout \<Rightarrow> u32 \<Rightarrow> nat \<Rightarrow> memory \<Rightarrow> memory" where
  "identity_table L pfns ti m =
     (let pt_phys = boot_pt L + 4096 * of_nat ti;
          m1 = st32 m (entry_at (boot_pd L) (of_nat ti)) (pt_phys OR PTE_PRESENT OR PTE_RW)
      in store_words m1 pt_phys (identity_pt pfns (of_nat ti)))"

definition paging_identity_init :: "layout \<Rightarrow> u32 \<Rightarrow> 'a vm_scheme \<Rightarrow> bool \<times> 'a vm_scheme" where
  "paging_identity_init L max_pfn s =
     (let pfns = max_pfn + 1; n_pt = (pfns + 1024 - 1) div 1024
      in if n_pt > 128 then (False, s)
      else let m1 = store_words (mem s) (boot_pd L) (replicate 1024 0);
               m2 = fold (identity_table L pfns) [0..<unat n_pt] m1
        in (True, paging_enable_if_needed (cr3_load (boot_pd L) (s\<lparr>mem := m2\<rparr>))))"

definition paging_get_cr3 :: "'a vm_scheme \<Rightarrow> u32" where
  "paging_get_cr3 s = cr3 s AND 0xFFFFF000"

definition paging_switch_cr3 :: "u32 \<Rightarrow> 'a vm_scheme \<Rightarrow> 'a vm_scheme" where
  "paging_switch_cr3 pd_phys s = cr3_load (pd_phys AND 0xFFFFF000) s"

definition pte_fetch_pd :: "memory \<Rightarrow> u32 \<Rightarrow> u32 \<Rightarrow> u32 option" where
  "pte_fetch_pd m pd_phys virt =
     (let pd_e = ld32 m (entry_at pd_phys (drop_bit 22 virt))
      in if pd_e AND PTE_PRESENT = 0 then None
      else let pte = ld32 m (entry_at (pd_e AND 0xFFFFF000) (drop_bit 12 virt AND 0x3FF))
        in if pte AND PTE_PRESENT = 0 then None else Some pte)"

text \<open>
  The loop over the pages of a user range.  It may run for ever (when the last page is the
  last page of the address space and every page passes the tests), so it is a partial
  function: \<open>None\<close> is not returning.
\<close>

partial_function (option) user_pages_ok :: "memory \<Rightarrow> u32 \<Rightarrow> bool \<Rightarrow> u32 \<Rightarrow> u32 \<Rightarrow> bool option" where
  "user_pages_ok m pd for_write pg top_pg =
     (if pg \<le> top_pg then
        (case pte_fetch_pd m pd pg of
           None \<Rightarrow> Some False
         | Some pte \<Rightarrow>
             if pte AND PTE_US = 0 then Some False
             else if for_write \<and> pte AND PTE_RW = 0 then Some False
             else user_pages_ok m pd for_write (pg + 4096) top_pg)
      else Some True)"

declare user_pages_ok.simps [code]

definition paging_user_range_ok :: "u32 \<Rightarrow> u32 \<Rightarrow> bool \<Rightarrow> 'a vm_scheme \<Rightarrow> bool option" where
  "paging_user_range_ok va len for_write s =
     (if len = 0 then Some True
      else let end_a = va + len
        in if end_a < va \<or> end_a = 0 then Some False
        else let end' = end_a - 1
          in user_pages_ok (mem s) (paging_get_cr3 s) for_write (va AND NOT 0xFFF) (end' AND NOT 0xFFF))"

definition paging_clone_kernel_pd :: "layout \<Rightarrow> 'a vm_scheme \<Rightarrow> u32 \<times> 'a vm_scheme" where
  "paging_clone_kernel_pd L s =
     (case pmm_alloc_frame (frames s) of (n, p) \<Rightarrow>
        let s1 = s\<lparr>frames := p\<rparr>
        in if n = 0 then (0, s1)
           else (n, s1\<lparr>mem := copy_words (mem s) n (boot_pd L) 1024\<rparr>))"

definition paging_map_page :: "u32 \<Rightarrow> u32 \<Rightarrow> u32 \<Rightarrow> u32 \<Rightarrow> 'a vm_scheme \<Rightarrow> bool \<times> 'a vm_scheme" where
  "paging_map_page pd_phys virt phys pte_flags s =
     (let pd = pd_phys AND 0xFFFFF000; pd_idx = drop_bit 22 virt;
          pt_idx = drop_bit 12 virt AND 0x3FF; pde = ld32 (mem s) (entry_at pd pd_idx);
          pte = (phys AND 0xFFFFF000) OR (pte_flags AND 0xFFF)
      in if pde AND PTE_PRESENT = 0 then
           (case pmm_alloc_frame (frames s) of (pt_phys, p) \<Rightarrow>
              let s1 = s\<lparr>frames := p\<rparr>
              in if pt_phys = 0 then (False, s1)
              else let m1 = store_words (mem s) pt_phys (replicate 1024 0);
                       m2 = st32 m1 (entry_at pd pd_idx)
                              ((pt_phys AND 0xFFFFF000) OR PTE_PRESENT OR PTE_RW)
                in (True, s1\<lparr>mem := st32 m2 (entry_at pt_phys pt_idx) pte\<rparr>))
         else let pt = pde AND 0xFFFFF000
           in (True, s\<lparr>mem := st32 (mem s) (entry_at pt pt_idx) pte\<rparr>))"

definition paging_pte_set_user :: "layout \<Rightarrow> u32 \<Rightarrow> bool \<Rightarrow> 'a vm_scheme \<Rightarrow> bool \<times> 'a vm_scheme" where
  "paging_pte_set_user L virt user s =
     (let pd_e = ld32 (mem s) (entry_at (boot_pd L) (drop_bit 22 virt))
      in if pd_e AND PTE_PRESENT = 0 then (False, s)
      else let a = entry_at (pd_e AND 0xFFFFF000) (drop_bit 12 virt AND 0x3FF); pte = ld32 (mem s) a
        in if pte AND PTE_PRESENT = 0 then (False, s)
        else (True, s\<lparr>mem := st32 (mem s) a (if user then pte OR PTE_US else pte AND NOT PTE_US)\<rparr>))"

definition paging_map_identity_page :: "layout \<Rightarrow> u32 \<Rightarrow> 'a vm_scheme \<Rightarrow> bool \<times> 'a vm_scheme" where
  "paging_map_identity_page L phys s =
     (case mmio_pt_for_pd L (drop_bit 22 phys) (mem s) of
        (None, m) \<Rightarrow> (False, s\<lparr>mem := m\<rparr>)
      | (Some pt, m) \<Rightarrow>
          (True, s\<lparr>mem := st32 m (entry_at pt (drop_bit 12 phys AND 0x3FF))
                     ((phys AND 0xFFFFF000) OR PTE_PRESENT OR PTE_RW)\<rparr>))"

section \<open>Entries of page-aligned tables\<close>

lemma unat_entry_at:
  assumes "page_of t = t" and "unat i < 1024"
  shows "unat (entry_at t i) = unat t + 4 * unat i"
proof -
  have i: "unat (4 * i) = 4 * unat i" using assms(2) by (simp add: unat_word_ariths)
  obtain k where k: "unat t = k * 4096" using assms(1) unat_page_of [of t] by metis
  have "k < 1048576" using k unat_lt32 [of t] by simp
  then have "unat t + unat (4 * i) < 4294967296" using k i assms(2) by simp
  then show ?thesis by (simp add: entry_at_def i unat_add32)
qed

lemma page_of_entry_at:
  assumes "page_of t = t" and "unat i < 1024"
  shows "page_of (entry_at t i) = t"
proof -
  obtain k where k: "unat t = k * 4096" using assms(1) unat_page_of [of t] by metis
  have "unat (page_of (entry_at t i)) = unat t"
    using assms(2) k by (simp add: unat_page_of unat_entry_at [OF assms])
  then show ?thesis by (simp add: word_unat_eq_iff)
qed

lemma entry_at_aligned4: "page_of t = t \<Longrightarrow> unat i < 1024 \<Longrightarrow> unat (entry_at t i) mod 4 = 0"
  using page_aligned4 [of t] by (simp add: unat_entry_at mod_add_eq)

lemma entry_at_eq:
  assumes "page_of t = t" "unat i < 1024" "page_of u = u" "unat j < 1024"
  shows "entry_at t i = entry_at u j \<longleftrightarrow> t = u \<and> i = j"
proof
  assume e: "entry_at t i = entry_at u j"
  then have "t = u" using page_of_entry_at [OF assms(1,2)] page_of_entry_at [OF assms(3,4)] by simp
  moreover have "i = j"
  proof -
    have "unat t + 4 * unat i = unat t + 4 * unat j"
      using e \<open>t = u\<close> unat_entry_at [OF assms(1,2)] unat_entry_at [OF assms(3,4)] by metis
    then show ?thesis by (simp add: word_unat_eq_iff)
  qed
  ultimately show "t = u \<and> i = j" by simp
qed simp

lemma ld_st_entry:
  assumes "page_of t = t" "unat i < 1024" "page_of u = u" "unat j < 1024"
  shows "ld32 (st32 m (entry_at t i) v) (entry_at u j)
    = (if t = u \<and> i = j then v else ld32 m (entry_at u j))"
  using ld32_st32_other [of "entry_at t i" "entry_at u j" m v] entry_at_eq [OF assms]
    entry_at_aligned4 [of t i] entry_at_aligned4 [of u j] assms
  by (auto simp: ld32_st32_same)

lemma in_page_iff:
  assumes "page_of t = t"
  shows "in_range t 4096 x \<longleftrightarrow> page_of x = t"
proof -
  obtain k where k: "unat t = k * 4096" using assms(1) unat_page_of [of t] by metis
  then have "k < 1048576" using unat_lt32 [of t] by simp
  then have "in_range t 4096 x \<longleftrightarrow> k * 4096 \<le> unat x \<and> unat x < k * 4096 + 4096"
    using k by (subst in_range_iff) auto
  also have "\<dots> \<longleftrightarrow> unat x div 4096 = k"
    by (auto simp: div_nat_eqI intro: le_antisym) 
  also have "\<dots> \<longleftrightarrow> page_of x = t"
    using k by (simp add: word_unat_eq_iff unat_page_of)
  finally show ?thesis .
qed

lemma ld_store_table:
  assumes "page_of t = t" "length vs = 1024" "page_of u = u" "unat j < 1024"
  shows "ld32 (store_words m t vs) (entry_at u j)
    = (if t = u then vs ! unat j else ld32 m (entry_at u j))"
proof (cases "t = u")
  case True
  have "ld32 (store_words m t vs) (t + 4 * of_nat (unat j)) = vs ! unat j"
    using assms page_aligned4 [OF assms(1)] by (intro ld32_store_words_in) auto
  then show ?thesis using True by (simp add: entry_at_def)
next
  case False
  then have "\<not> in_range t (4 * length vs) (entry_at u j)"
    using assms by (simp add: in_page_iff page_of_entry_at)
  then show ?thesis
    using False assms entry_at_aligned4 [of u j] page_aligned4 [OF assms(1)]
    by (simp add: ld32_store_words_out)
qed

section \<open>Entry values\<close>

lemma page_of_or_flags: "page_of (page_of x OR (f AND 4095)) = page_of x"
  by (simp only: page_of_def) (rule bit_word_eqI, auto simp only: bit_simps)

lemma and_flags:
  assumes "g AND 4095 = g"
  shows "(page_of x OR (f AND 4095)) AND g = f AND g"
proof -
  have "(page_of x OR (f AND 4095)) AND (g AND 4095) = f AND (g AND 4095)"
    by (simp only: page_of_def) (rule bit_word_eqI, auto simp only: bit_simps)
  then show ?thesis by (simp only: assms)
qed

lemma table_pde:
  "page_of (page_of x OR (PTE_PRESENT OR PTE_RW)) = page_of x"
  "(page_of x OR (PTE_PRESENT OR PTE_RW)) AND PTE_PRESENT = 1"
  "(page_of x OR (PTE_PRESENT OR PTE_RW)) AND PTE_RW = 2"
  "(page_of x OR (PTE_PRESENT OR PTE_RW)) AND PTE_US = 0"
  using page_of_or_flags [of x 3] and_flags [of 1 x 3] and_flags [of 2 x 3] and_flags [of 4 x 3]
  by simp_all

lemma code_indices: "drop_bit 22 va = pd_index va" "drop_bit 12 va AND 0x3FF = pt_index va"
  by (simp_all add: pd_index_def pt_index_def)

lemma mmu_walk_entries: "page_of pd = pd \<Longrightarrow> mmu_walk m pd va =
   (let pde = ld32 m (entry_at pd (pd_index va)); pte = ld32 m (entry_at (page_of pde) (pt_index va))
    in if pde AND 1 = 0 \<or> pte AND 1 = 0 then None else Some (pde, pte))"
  by (simp add: mmu_walk_def Let_def entry_at_def)

text \<open>The software walk reads the entry the hardware would use, and ignores the directory's rights.\<close>

lemma pte_fetch_mmu: "page_of pd = pd \<Longrightarrow> pte_fetch_pd m pd va = map_option snd (mmu_walk m pd va)"
  by (simp add: pte_fetch_pd_def code_indices mmu_walk_entries Let_def)

section \<open>Well-formed address spaces\<close>

text \<open>
  The directory \<open>pd\<close> and the tables its present entries point to are pairwise different
  frames, none of which the frame allocator considers free.
\<close>

definition pde_of :: "memory \<Rightarrow> u32 \<Rightarrow> u32 \<Rightarrow> u32" where
  "pde_of m pd i = ld32 m (entry_at pd i)"

definition present :: "u32 \<Rightarrow> bool" where
  "present e \<longleftrightarrow> e AND PTE_PRESENT \<noteq> 0"

definition space_wf :: "u32 \<Rightarrow> 'a vm_scheme \<Rightarrow> bool" where
  "space_wf pd s \<longleftrightarrow> pmm_inv (frames s) \<and> page_of pd = pd \<and> \<not> frame_is_free (frames s) pd
     \<and> (\<forall>i. unat i < 1024 \<longrightarrow> present (pde_of (mem s) pd i) \<longrightarrow>
          page_of (pde_of (mem s) pd i) \<noteq> pd
          \<and> \<not> frame_is_free (frames s) (page_of (pde_of (mem s) pd i))
          \<and> (\<forall>j. unat j < 1024 \<longrightarrow> present (pde_of (mem s) pd j) \<longrightarrow>
               page_of (pde_of (mem s) pd i) = page_of (pde_of (mem s) pd j) \<longrightarrow> i = j))"

lemma mmu_walk_pde: "page_of pd = pd \<Longrightarrow> mmu_walk m pd va =
   (let pde = pde_of m pd (pd_index va); pte = ld32 m (entry_at (page_of pde) (pt_index va))
    in if present pde \<and> present pte then Some (pde, pte) else None)"
  by (simp add: mmu_walk_entries pde_of_def present_def Let_def)

lemma space_wfD:
  assumes "space_wf pd s"
  shows "pmm_inv (frames s)" and "page_of pd = pd" and "\<not> frame_is_free (frames s) pd"
    and "unat i < 1024 \<Longrightarrow> present (pde_of (mem s) pd i) \<Longrightarrow> page_of (pde_of (mem s) pd i) \<noteq> pd"
    and "unat i < 1024 \<Longrightarrow> present (pde_of (mem s) pd i) \<Longrightarrow>
      \<not> frame_is_free (frames s) (page_of (pde_of (mem s) pd i))"
    and "unat i < 1024 \<Longrightarrow> unat j < 1024 \<Longrightarrow> present (pde_of (mem s) pd i) \<Longrightarrow>
      present (pde_of (mem s) pd j) \<Longrightarrow>
      page_of (pde_of (mem s) pd i) = page_of (pde_of (mem s) pd j) \<Longrightarrow> i = j"
  using assms unfolding space_wf_def by blast+

text \<open>Writing one entry of a present table.\<close>

lemma write_pte:
  assumes wf: "space_wf pd s" and i: "present (pde_of (mem s) pd (pd_index virt))"
  defines "t \<equiv> page_of (pde_of (mem s) pd (pd_index virt))"
  shows "unat j < 1024 \<Longrightarrow> pde_of (st32 (mem s) (entry_at t (pt_index virt)) v) pd j = pde_of (mem s) pd j"
    and "mmu_walk (st32 (mem s) (entry_at t (pt_index virt)) v) pd va
      = (if page_of va = page_of virt
         then (if present v then Some (pde_of (mem s) pd (pd_index virt), v) else None)
         else mmu_walk (mem s) pd va)"
proof -
  note D = space_wfD [OF wf] and lt = pd_index_lt pt_index_lt
  have t: "page_of t = t" "t \<noteq> pd" using D(4) [OF lt(1) i] by (auto simp: t_def)
  show pde: "pde_of (st32 (mem s) (entry_at t (pt_index virt)) v) pd j = pde_of (mem s) pd j"
    if "unat j < 1024" for j
    using t D(2) that lt by (simp add: pde_of_def ld_st_entry)
  show "mmu_walk (st32 (mem s) (entry_at t (pt_index virt)) v) pd va
      = (if page_of va = page_of virt
         then (if present v then Some (pde_of (mem s) pd (pd_index virt), v) else None)
         else mmu_walk (mem s) pd va)"
  proof (cases "pd_index va = pd_index virt")
    case True
    then show ?thesis
      using i t D(2) lt
      by (auto simp: mmu_walk_pde pde Let_def ld_st_entry page_indices simp flip: t_def)
  next
    case False
    then have "present (pde_of (mem s) pd (pd_index va)) \<Longrightarrow>
        page_of (pde_of (mem s) pd (pd_index va)) \<noteq> t"
      using D(6) [OF lt(1) lt(1), of va virt] i by (auto simp: t_def)
    then show ?thesis
      using False t D(2) lt
      by (auto simp: mmu_walk_pde pde Let_def ld_st_entry page_indices)
  qed
qed

text \<open>The frame allocator's facts, read off its interface.\<close>

lemma alloc_facts:
  assumes "pmm_inv p" and "pmm_alloc_frame p = (f, p')" and "f \<noteq> 0"
  shows "frame_is_free p f" and "page_of f = f" and "pmm_inv p'"
    and "frame_is_free p' g \<longleftrightarrow> frame_is_free p g \<and> g \<noteq> f"
  using frames.alloc_takes [OF assms(1)] frames.alloc_frame [OF assms(1)]
    frames.inv_alloc [OF assms(1)] frames.alloc_free [OF assms(1), of g] assms(2,3) by simp_all

lemma alloc_none:
  assumes "pmm_inv p" and "pmm_alloc_frame p = (0, p')"
  shows "p' = p" and "\<not> frame_is_free p g"
  using frames.alloc_fails [OF assms(1), of g] pmm_alloc_frame_lowest_eq [OF assms(1)] assms(2)
  by auto

text \<open>The memory and the allocator after \<open>paging_map_page\<close> has added an empty table.\<close>

definition with_table :: "u32 \<Rightarrow> u32 \<Rightarrow> u32 \<Rightarrow> memory \<Rightarrow> memory" where
  "with_table pd virt pt m = st32 (store_words m pt (replicate 1024 0))
     (entry_at pd (pd_index virt)) (page_of pt OR (PTE_PRESENT OR PTE_RW))"

lemma new_table:
  assumes wf: "space_wf pd s" and np: "\<not> present (pde_of (mem s) pd (pd_index virt))"
    and al: "pmm_alloc_frame (frames s) = (pt, p)" and nz: "pt \<noteq> 0"
  defines "s2 \<equiv> s\<lparr>frames := p, mem := with_table pd virt pt (mem s)\<rparr>"
  shows "unat j < 1024 \<Longrightarrow> pde_of (mem s2) pd j
      = (if j = pd_index virt then pt OR (PTE_PRESENT OR PTE_RW) else pde_of (mem s) pd j)"
    and "space_wf pd s2" and "mmu_walk (mem s2) pd va = mmu_walk (mem s) pd va"
    and "present (pt OR (PTE_PRESENT OR PTE_RW))" and "page_of (pt OR (PTE_PRESENT OR PTE_RW)) = pt"
proof -
  note D = space_wfD [OF wf] and lt = pd_index_lt pt_index_lt
  note A = alloc_facts [OF D(1) al nz]
  note V = table_pde [of pt, unfolded A(2)]
  have ne: "pt \<noteq> pd" using A(1) D(3) by blast
  show pr: "present (pt OR (PTE_PRESENT OR PTE_RW))" unfolding present_def using V(2) by (metis zero_neq_one)
  show pg: "page_of (pt OR (PTE_PRESENT OR PTE_RW)) = pt" by (rule V(1))
  have mem2: "mem s2 = with_table pd virt pt (mem s)" by (simp add: s2_def)
  have ld: "ld32 (mem s2) (entry_at t j) = (if t = pd \<and> j = pd_index virt then pt OR (PTE_PRESENT OR PTE_RW)
      else if t = pt then 0 else ld32 (mem s) (entry_at t j))"
    if "page_of t = t" "unat j < 1024" for t j
    using that D(2) A(2) lt ne unfolding mem2 with_table_def
    by (auto simp: ld_st_entry ld_store_table A(2))
  show pde: "pde_of (mem s2) pd j
      = (if j = pd_index virt then pt OR (PTE_PRESENT OR PTE_RW) else pde_of (mem s) pd j)"
    if "unat j < 1024" for j
    using ld [OF D(2) that] ne by (auto simp: pde_of_def)
  have old: "page_of (pde_of (mem s) pd j) \<noteq> pt" if "unat j < 1024" "present (pde_of (mem s) pd j)" for j
    using D(5) [OF that] A(1) by metis
  show "space_wf pd s2"
    unfolding space_wf_def
  proof (intro conjI allI impI)
    show "pmm_inv (frames s2)" "page_of pd = pd" "\<not> frame_is_free (frames s2) pd"
      using A D(2,3) by (simp_all add: s2_def)
  next
    fix i assume i: "unat i < 1024" "present (pde_of (mem s2) pd i)"
    show "page_of (pde_of (mem s2) pd i) \<noteq> pd"
      using i pde [OF i(1)] pg ne D(4) by (auto split: if_splits)
    have "\<not> frame_is_free p (page_of (pde_of (mem s2) pd i))"
      using i pde [OF i(1)] pg D(5) A(4) by (auto split: if_splits)
    then show "\<not> frame_is_free (frames s2) (page_of (pde_of (mem s2) pd i))" by (simp add: s2_def)
    fix j assume j: "unat j < 1024" "present (pde_of (mem s2) pd j)"
      "page_of (pde_of (mem s2) pd i) = page_of (pde_of (mem s2) pd j)"
    show "i = j"
      using i j pde [OF i(1)] pde [OF j(1)] pg D(6) [OF i(1) j(1)] old by (auto split: if_splits)
  qed
  show "mmu_walk (mem s2) pd va = mmu_walk (mem s) pd va"
  proof (cases "pd_index va = pd_index virt")
    case True
    have np0: "\<not> present 0" by (simp add: present_def)
    have "ld32 (mem s2) (entry_at pt (pt_index va)) = 0"
      using ld [OF A(2) lt(2)] ne by simp
    then show ?thesis
      using True np pg np0 pde [OF lt(1), of va] by (simp add: mmu_walk_pde D(2) Let_def)
  next
    case False
    have "ld32 (mem s2) (entry_at (page_of (pde_of (mem s) pd (pd_index va))) (pt_index va))
        = ld32 (mem s) (entry_at (page_of (pde_of (mem s) pd (pd_index va))) (pt_index va))"
      if "present (pde_of (mem s) pd (pd_index va))"
      using ld [OF _ lt(2), of "page_of (pde_of (mem s) pd (pd_index va))" va]
        D(4) [OF lt(1) that] old [OF lt(1) that] by simp
    then show ?thesis
      using False pde [OF lt(1), of va] by (auto simp: mmu_walk_pde D(2) Let_def)
  qed
qed

text \<open>\<open>paging_map_page\<close> is the addition of a table, if there is none, and the write of one entry.\<close>

abbreviation (input) new_pte :: "u32 \<Rightarrow> u32 \<Rightarrow> u32" where
  "new_pte phys flags \<equiv> page_of phys OR (flags AND 4095)"

lemma map_page_old:
  assumes "page_of pd = pd" and "present (pde_of (mem s) pd (pd_index virt))"
  shows "paging_map_page pd virt phys flags s = (True, s\<lparr>mem := st32 (mem s)
      (entry_at (page_of (pde_of (mem s) pd (pd_index virt))) (pt_index virt)) (new_pte phys flags)\<rparr>)"
  using assms by (simp add: paging_map_page_def Let_def code_indices pde_of_def present_def)

lemma map_page_new:
  assumes "page_of pd = pd" and "\<not> present (pde_of (mem s) pd (pd_index virt))"
    and "pmm_alloc_frame (frames s) = (pt, p)" and "pt \<noteq> 0" and "page_of pt = pt"
  shows "paging_map_page pd virt phys flags s = (True, s\<lparr>frames := p, mem := st32 (with_table pd virt pt (mem s))
      (entry_at pt (pt_index virt)) (new_pte phys flags)\<rparr>)"
  using assms by (simp add: paging_map_page_def Let_def code_indices pde_of_def present_def with_table_def)

lemma map_page_full:
  assumes "page_of pd = pd" and "\<not> present (pde_of (mem s) pd (pd_index virt))"
    and "pmm_alloc_frame (frames s) = (0, p)"
  shows "paging_map_page pd virt phys flags s = (False, s\<lparr>frames := p\<rparr>)"
  using assms by (simp add: paging_map_page_def Let_def code_indices pde_of_def present_def)

lemma space_wf_cong:
  assumes "space_wf pd s" and "frames s' = frames s"
    and "\<And>j. unat j < 1024 \<Longrightarrow> pde_of (mem s') pd j = pde_of (mem s) pd j"
  shows "space_wf pd s'"
  using assms by (auto simp: space_wf_def)

lemma space_wf_write_pte:
  assumes "space_wf pd s" and "present (pde_of (mem s) pd (pd_index virt))"
  shows "space_wf pd (s\<lparr>mem := st32 (mem s) (entry_at (page_of (pde_of (mem s) pd (pd_index virt)))
      (pt_index virt)) v\<rparr>)"
  by (rule space_wf_cong [OF assms(1)]) (simp_all add: write_pte(1) [OF assms])

definition maps_page :: "u32 \<Rightarrow> u32 \<Rightarrow> u32 \<Rightarrow> memory \<Rightarrow> memory \<Rightarrow> bool" where
  "maps_page pd virt pte m m' \<longleftrightarrow>
     (\<forall>va. mmu_walk m' pd va =
        (if page_of va = page_of virt
         then (if present pte then Some (pde_of m' pd (pd_index virt), pte) else None)
         else mmu_walk m pd va))"

lemma map_page_cases:
  assumes wf: "space_wf pd s"
  obtains
    (old) "present (pde_of (mem s) pd (pd_index virt))" "fst (paging_map_page pd virt phys flags s)"
      "space_wf pd (snd (paging_map_page pd virt phys flags s))"
      "maps_page pd virt (new_pte phys flags) (mem s) (mem (snd (paging_map_page pd virt phys flags s)))"
      "pde_of (mem (snd (paging_map_page pd virt phys flags s))) pd (pd_index virt) = pde_of (mem s) pd (pd_index virt)"
      "frames (snd (paging_map_page pd virt phys flags s)) = frames s"
  | (new) pt where "\<not> present (pde_of (mem s) pd (pd_index virt))" "fst (paging_map_page pd virt phys flags s)"
      "space_wf pd (snd (paging_map_page pd virt phys flags s))"
      "maps_page pd virt (new_pte phys flags) (mem s) (mem (snd (paging_map_page pd virt phys flags s)))"
      "frame_is_free (frames s) pt"
      "pde_of (mem (snd (paging_map_page pd virt phys flags s))) pd (pd_index virt) = pt OR (PTE_PRESENT OR PTE_RW)"
      "\<And>g. frame_is_free (frames (snd (paging_map_page pd virt phys flags s))) g \<longleftrightarrow> frame_is_free (frames s) g \<and> g \<noteq> pt"
  | (full) "\<not> present (pde_of (mem s) pd (pd_index virt))" "\<And>g. \<not> frame_is_free (frames s) g"
      "paging_map_page pd virt phys flags s = (False, s)"
proof (cases "present (pde_of (mem s) pd (pd_index virt))")
  case True
  note run = map_page_old [OF space_wfD(2) [OF wf] True, of phys flags]
  have "maps_page pd virt (new_pte phys flags) (mem s) (mem (snd (paging_map_page pd virt phys flags s)))"
    using write_pte(2) [OF wf True, of "new_pte phys flags"]
      write_pte(1) [OF wf True pd_index_lt, of "new_pte phys flags" virt]
    by (simp add: run maps_page_def)
  then show thesis
    using True space_wf_write_pte [OF wf True] write_pte(1) [OF wf True pd_index_lt]
    by (intro old) (simp_all add: run)
next
  case False
  obtain pt p where al: "pmm_alloc_frame (frames s) = (pt, p)" by (cases "pmm_alloc_frame (frames s)")
  note D = space_wfD [OF wf]
  show thesis
  proof (cases "pt = 0")
    case True
    then show thesis
      using al False alloc_none [OF D(1), of p] map_page_full [OF D(2) False, of p] by (intro full) auto
  next
    case nz: False
    note A = alloc_facts [OF D(1) al nz] and T = new_table [OF wf False al nz]
    note run = map_page_new [OF D(2) False al nz A(2), of phys flags]
    let ?s2 = "s\<lparr>frames := p, mem := with_table pd virt pt (mem s)\<rparr>"
    have pde: "pde_of (mem ?s2) pd (pd_index virt) = pt OR (PTE_PRESENT OR PTE_RW)"
      using T(1) [OF pd_index_lt, of virt] by simp
    then have pr: "present (pde_of (mem ?s2) pd (pd_index virt))"
      and pg: "page_of (pde_of (mem ?s2) pd (pd_index virt)) = pt" using T(4,5) by simp_all
    note W = write_pte [OF T(2) pr, unfolded pg] and S = space_wf_write_pte [OF T(2) pr, unfolded pg]
    have "maps_page pd virt (new_pte phys flags) (mem s) (mem (snd (paging_map_page pd virt phys flags s)))"
      using W(2) [of "new_pte phys flags"] W(1) [OF pd_index_lt, of "new_pte phys flags" virt] T(3)
      by (simp add: run maps_page_def)
    then show thesis
      using False A S W(1) [OF pd_index_lt, of "new_pte phys flags" virt] pde
      by (intro new [of pt]) (simp_all add: run)
  qed
qed

section \<open>Checking a user range\<close>

text \<open>What the loop tests of one page; only the table entry's rights are looked at.\<close>

definition page_user_ok :: "memory \<Rightarrow> u32 \<Rightarrow> bool \<Rightarrow> u32 \<Rightarrow> bool" where
  "page_user_ok m pd for_write va \<longleftrightarrow>
     (case pte_fetch_pd m pd va of None \<Rightarrow> False
      | Some pte \<Rightarrow> pte AND PTE_US \<noteq> 0 \<and> (for_write \<longrightarrow> pte AND PTE_RW \<noteq> 0))"

lemma page_user_ok_cong: "page_of va = page_of va' \<Longrightarrow> page_user_ok m pd w va = page_user_ok m pd w va'"
  by (simp only: page_user_ok_def pte_fetch_pd_def code_indices page_indices)

lemma user_pages_step:
  "user_pages_ok m pd w pg hi =
     (if pg \<le> hi then if page_user_ok m pd w pg then user_pages_ok m pd w (pg + 4096) hi else Some False
      else Some True)"
  by (subst user_pages_ok.simps) (auto simp: page_user_ok_def split: option.split)

lemma user_pages_reject:
  "\<not> page_user_ok m pd w (pg + 4096 * of_nat k) \<Longrightarrow> \<forall>j\<le>k. pg + 4096 * of_nat j \<le> hi \<Longrightarrow>
     user_pages_ok m pd w pg hi = Some False"
proof (induction k arbitrary: pg)
  case 0
  then show ?case by (simp add: user_pages_step [of _ _ _ pg])
next
  case (Suc k)
  have pg: "pg \<le> hi" using Suc.prems(2) by (auto dest: spec [of _ 0])
  have "user_pages_ok m pd w (pg + 4096) hi = Some False"
  proof (rule Suc.IH)
    show "\<not> page_user_ok m pd w (pg + 4096 + 4096 * of_nat k)"
      using Suc.prems(1) by (simp add: algebra_simps)
    show "\<forall>j\<le>k. pg + 4096 + 4096 * of_nat j \<le> hi"
      using Suc.prems(2) by (auto simp: algebra_simps dest: spec [of _ "Suc _"])
  qed
  then show ?case using pg by (subst user_pages_step) simp
qed

lemma user_pages_accept:
  "\<forall>j<n. pg + 4096 * of_nat j \<le> hi \<and> page_user_ok m pd w (pg + 4096 * of_nat j) \<Longrightarrow>
     \<not> pg + 4096 * of_nat n \<le> hi \<Longrightarrow> user_pages_ok m pd w pg hi = Some True"
proof (induction n arbitrary: pg)
  case 0
  then show ?case by (simp add: user_pages_step [of _ _ _ pg])
next
  case (Suc n)
  have pg: "pg \<le> hi" "page_user_ok m pd w pg" using Suc.prems(1) by (auto dest: spec [of _ 0])
  have "user_pages_ok m pd w (pg + 4096) hi = Some True"
  proof (rule Suc.IH)
    show "\<forall>j<n. pg + 4096 + 4096 * of_nat j \<le> hi \<and> page_user_ok m pd w (pg + 4096 + 4096 * of_nat j)"
      using Suc.prems(1) by (auto simp: algebra_simps dest: spec [of _ "Suc _"])
    show "\<not> pg + 4096 + 4096 * of_nat n \<le> hi" using Suc.prems(2) by (simp add: algebra_simps)
  qed
  then show ?case using pg by (subst user_pages_step) simp
qed

lemma page_aligned_dvd: "page_of a = a \<longleftrightarrow> 4096 dvd unat a"
proof -
  have "page_of a = a \<longleftrightarrow> unat a div 4096 * 4096 = unat a"
    by (simp only: word_unat_eq_iff unat_page_of)
  then show ?thesis by (simp add: dvd_div_mult_self dvd_triv_right [of 4096 "unat a div 4096"])
    (metis dvd_div_mult_self dvd_triv_right)
qed

lemma dvd_mod_word: "4096 dvd n \<Longrightarrow> 4096 dvd n mod (4294967296 :: nat)"
  by (intro dvd_mod) simp_all

lemma page_aligned_add: "page_of pg = pg \<Longrightarrow> page_of (pg + 4096 * w) = pg + 4096 * w"
  unfolding page_aligned_dvd unat_word_ariths by (intro dvd_mod dvd_add) simp_all

lemma page_aligned_diff:
  assumes "page_of a = a" and "page_of b = b"
  shows "a = b + 4096 * of_nat (unat (a - b) div 4096)"
proof -
  have "4096 dvd unat a + 4294967296 - unat b" "4096 dvd unat a - unat b"
    using assms unfolding page_aligned_dvd by (intro dvd_diff_nat dvd_add; simp)+
  then have "4096 dvd unat (a - b)" by (simp add: unat_sub_if_size word_size)
  then have "unat (a - b) = 4096 * (unat (a - b) div 4096)" by simp
  then have "of_nat (unat (a - b)) = (4096 * of_nat (unat (a - b) div 4096) :: u32)"
    by (metis of_nat_mult of_nat_numeral)
  then show ?thesis by (simp add: algebra_simps)
qed

lemma page_aligned_top: "page_of a = a \<Longrightarrow> a \<le> 0xFFFFF000"
proof -
  assume "page_of a = a"
  then have "unat a = unat a div 4096 * 4096" by (rule page_frame_number)
  moreover have "unat a div 4096 \<le> 1048575" using unat_lt32 [of a] by linarith
  ultimately have "unat a \<le> 1048575 * 4096" by linarith
  then show "a \<le> 0xFFFFF000" by (simp add: word_le_nat_alt)
qed

lemma page_step:
  assumes "page_of pg = pg" and "unat pg div 4096 + j < 1048576"
  shows "unat (pg + 4096 * of_nat j) = (unat pg div 4096 + j) * 4096"
proof -
  have pg: "unat pg = unat pg div 4096 * 4096" by (rule page_frame_number [OF assms(1)])
  have e: "pg + 4096 * of_nat j = pg + of_nat (4096 * j)" by simp
  have "unat pg + 4096 * j < 4294967296" using assms(2) pg by linarith
  then have "unat (pg + 4096 * of_nat j) = unat pg + 4096 * j" by (simp only: e unat_plus32)
  also have "\<dots> = unat pg div 4096 * 4096 + j * 4096" using pg by (simp only: mult.commute)
  finally show ?thesis by (simp only: add_mult_distrib)
qed

lemma user_pages_exact:
  assumes al: "page_of pg = pg" "page_of hi = hi" and le: "pg \<le> hi" and top: "unat hi < 0xFFFFF000"
  shows "user_pages_ok m pd w pg hi
    = Some (\<forall>j \<le> unat hi div 4096 - unat pg div 4096. page_user_ok m pd w (pg + 4096 * of_nat j))"
proof -
  let ?P = "unat pg div 4096" and ?H = "unat hi div 4096"
  have hi: "unat hi = ?H * 4096" by (rule page_frame_number [OF al(2)])
  have "?H < 1048575" using hi top by linarith
  moreover have PH: "?P \<le> ?H" using le by (simp add: word_le_nat_alt div_le_mono)
  ultimately have at: "unat (pg + 4096 * of_nat j) = (?P + j) * 4096" if "j \<le> ?H - ?P + 1" for j
    using that by (intro page_step al) linarith
  have below: "pg + 4096 * of_nat j \<le> hi" if "j \<le> ?H - ?P" for j
    using at [of j] that hi PH by (simp add: word_le_nat_alt)
  have above: "\<not> pg + 4096 * of_nat (Suc (?H - ?P)) \<le> hi"
    using at [of "Suc (?H - ?P)"] hi PH by (simp add: word_le_nat_alt del: of_nat_Suc)
  show ?thesis
  proof (cases "\<forall>j \<le> ?H - ?P. page_user_ok m pd w (pg + 4096 * of_nat j)")
    case True
    then have "user_pages_ok m pd w pg hi = Some True"
      using below above by (intro user_pages_accept [of "Suc (?H - ?P)"]) (auto simp: less_Suc_eq_le simp del: of_nat_Suc)
    then show ?thesis using True by simp
  next
    case False
    then obtain j where j: "j \<le> ?H - ?P" "\<not> page_user_ok m pd w (pg + 4096 * of_nat j)" by blast
    then have "user_pages_ok m pd w pg hi = Some False"
      using below by (intro user_pages_reject [of _ _ _ _ j]) auto
    then show ?thesis using False by simp
  qed
qed

text \<open>A range that reaches the last page of the address space is walked in circles until a page fails.\<close>

lemma user_pages_top:
  assumes "\<not> page_user_ok m pd w x" and "page_of pg = pg"
  shows "user_pages_ok m pd w pg 0xFFFFF000 = Some False"
proof -
  let ?k = "unat (page_of x - pg) div 4096"
  have "page_of x = pg + 4096 * of_nat ?k" by (rule page_aligned_diff [OF page_of_idem assms(2)])
  moreover have "\<not> page_user_ok m pd w (page_of x)"
    using assms(1) page_user_ok_cong [of "page_of x" x] by simp
  ultimately have "\<not> page_user_ok m pd w (pg + 4096 * of_nat ?k)" by simp
  then show ?thesis
    by (rule user_pages_reject) (simp add: page_aligned_top page_aligned_add assms(2))
qed

lemma page_user_ok_number: "page_user_ok m pd w x = page_user_ok m pd w (of_nat (unat x div 4096 * 4096))"
proof (rule page_user_ok_cong)
  have "of_nat (unat x div 4096 * 4096) = page_of x"
    by (metis unat_page_of of_nat_unat ucast_id)
  then show "page_of x = page_of (of_nat (unat x div 4096 * 4096))" by simp
qed

lemma range_pages:
  fixes q :: "nat \<Rightarrow> bool"
  assumes "0 < n"
  shows "(\<forall>i<n. q ((v + i) div 4096)) \<longleftrightarrow> (\<forall>j \<le> (v + n - 1) div 4096 - v div 4096. q (v div 4096 + j))"
proof (intro iffI allI impI)
  fix i assume h: "\<forall>j \<le> (v + n - 1) div 4096 - v div 4096. q (v div 4096 + j)" and i: "i < n"
  have "v div 4096 \<le> (v + i) div 4096" "(v + i) div 4096 \<le> (v + n - 1) div 4096"
    using i by (auto intro: div_le_mono)
  then show "q ((v + i) div 4096)" using h [rule_format, OF diff_le_mono, of "(v + i) div 4096"] by simp
next
  fix j assume h: "\<forall>i<n. q ((v + i) div 4096)" and j: "j \<le> (v + n - 1) div 4096 - v div 4096"
  show "q (v div 4096 + j)"
  proof (cases j)
    case 0
    then show ?thesis using h assms by (auto dest: spec [of _ 0])
  next
    case (Suc k)
    let ?i = "(v div 4096 + j) * 4096 - v"
    have "v \<le> (v div 4096 + j) * 4096" using Suc by (simp add: add_mult_distrib)
    moreover have "v div 4096 + j \<le> (v + n - 1) div 4096" using j Suc by simp
    then have "(v div 4096 + j) * 4096 \<le> v + n - 1" by (simp add: less_eq_div_iff_mult_less_eq)
    ultimately have "v + ?i = (v div 4096 + j) * 4096" "?i < n" using assms by linarith+
    then show ?thesis using h by (metis nonzero_mult_div_cancel_right zero_neq_numeral)
  qed
qed

lemma user_range_ok_exact:
  assumes len: "len \<noteq> 0" and top: "unat va + unat len \<le> 0xFFFFF000"
  shows "paging_user_range_ok va len w s
    = Some (\<forall>i<unat len. page_user_ok (mem s) (paging_get_cr3 s) w (va + of_nat i))"
proof -
  let ?m = "mem s" and ?pd = "paging_get_cr3 s"
  let ?q = "\<lambda>k. page_user_ok ?m ?pd w (of_nat (k * 4096))"
  have l: "0 < unat len" using len by (simp add: unat_gt_0)
  have e: "unat (va + len) = unat va + unat len" using top by (intro unat_add32) simp
  have ne: "va + len \<noteq> 0" "\<not> va + len < va"
    using e l by (auto simp: word_unat_eq_iff word_less_nat_alt)
  have "unat (va + len - 1) = unat (va + len) - 1" using ne by (intro unat_minus_one) auto
  then have hi: "unat (va + len - 1) = unat va + unat len - 1" using e by simp
  let ?pg = "page_of va" and ?hi = "page_of (va + len - 1)"
  have upg: "unat ?pg = unat va div 4096 * 4096" and uhi: "unat ?hi = (unat va + unat len - 1) div 4096 * 4096"
    by (simp_all only: unat_page_of hi)
  have P: "unat ?pg div 4096 = unat va div 4096" "unat ?hi div 4096 = (unat va + unat len - 1) div 4096"
    by (simp_all add: upg uhi)
  have "unat va div 4096 \<le> (unat va + unat len - 1) div 4096" using l by (intro div_le_mono) simp
  then have le: "?pg \<le> ?hi" by (simp add: word_le_nat_alt upg uhi)
  have lt: "(unat va + unat len - 1) div 4096 < 1048575" using top l by linarith
  then have "unat ?hi < 0xFFFFF000" by (simp add: uhi)
  note ex = user_pages_exact [OF page_of_idem page_of_idem le this, of ?m ?pd w, unfolded P]
  have "page_user_ok ?m ?pd w (?pg + 4096 * of_nat j) = ?q (unat va div 4096 + j)"
    if "j \<le> (unat va + unat len - 1) div 4096 - unat va div 4096" for j
  proof -
    have "unat va div 4096 + j < 1048576" using that lt by linarith
    then have "unat (?pg + 4096 * of_nat j) = (unat va div 4096 + j) * 4096"
      using page_step [OF page_of_idem, of va j] P(1) by simp
    then show ?thesis by (subst page_user_ok_number) (simp del: of_nat_add of_nat_mult)
  qed
  then have 1: "user_pages_ok ?m ?pd w ?pg ?hi
      = Some (\<forall>j \<le> (unat va + unat len - 1) div 4096 - unat va div 4096. ?q (unat va div 4096 + j))"
    unfolding ex by auto
  have "page_user_ok ?m ?pd w (va + of_nat i) = ?q ((unat va + i) div 4096)" if "i < unat len" for i
  proof -
    have "unat (va + of_nat i) = unat va + i" using that top by (intro unat_plus32) simp
    then show ?thesis by (subst page_user_ok_number) simp
  qed
  then have "(\<forall>i<unat len. page_user_ok ?m ?pd w (va + of_nat i)) \<longleftrightarrow> (\<forall>i<unat len. ?q ((unat va + i) div 4096))"
    by auto
  also have "\<dots> \<longleftrightarrow> (\<forall>j \<le> (unat va + unat len - 1) div 4096 - unat va div 4096. ?q (unat va div 4096 + j))"
    by (rule range_pages [OF l])
  finally show ?thesis
    using len ne 1 by (simp only: paging_user_range_ok_def Let_def and_not_4095) simp
qed

lemma user_range_ok_wrap:
  assumes "len \<noteq> 0" and "4294967296 \<le> unat va + unat len"
  shows "paging_user_range_ok va len w s = Some False"
proof -
  have "unat (va + len) = unat va + unat len - 4294967296"
    using assms(2) unat_lt32 [of va] unat_lt32 [of len] by (simp add: unat_word_ariths le_mod_geq)
  then have "va + len < va" using unat_lt32 [of len] assms(2) by (simp add: word_less_nat_alt)
  then show ?thesis using assms(1) by (simp add: paging_user_range_ok_def Let_def)
qed

lemma user_range_ok_last_page:
  assumes "0xFFFFF000 < unat va + unat len" "unat va + unat len < 4294967296" "len \<noteq> 0"
    and "\<not> page_user_ok (mem s) (paging_get_cr3 s) w x"
  shows "paging_user_range_ok va len w s = Some False"
proof -
  have l: "0 < unat len" using assms(3) by (simp add: unat_gt_0)
  have e: "unat (va + len) = unat va + unat len" using assms(2) by (rule unat_add32)
  have ne: "va + len \<noteq> 0" "\<not> va + len < va"
    using e l by (auto simp: word_unat_eq_iff word_less_nat_alt)
  have "unat (va + len - 1) = unat (va + len) - 1" using ne by (intro unat_minus_one) auto
  then have "unat (va + len - 1) div 4096 = 1048575" using e assms(1,2) by linarith
  then have "page_of (va + len - 1) = 0xFFFFF000" by (simp add: word_unat_eq_iff unat_page_of)
  then show ?thesis
    using ne assms(3) user_pages_top [OF assms(4) page_of_idem, of va]
    by (simp only: paging_user_range_ok_def Let_def and_not_4095) simp
qed

lemma user_range_cong:
  assumes "mem s' = mem s" and "cr3 s' = cr3 s"
  shows "paging_user_range_ok va n w s' = paging_user_range_ok va n w s"
  unfolding paging_user_range_ok_def paging_get_cr3_def assms ..

lemma user_range_exact:
  assumes "\<not> page_user_ok (mem s) (paging_get_cr3 s) w x"
  shows "paging_user_range_ok va len w s = Some (len = 0 \<or> unat va + unat len \<le> 0xFFFFF000
    \<and> (\<forall>i<unat len. page_user_ok (mem s) (paging_get_cr3 s) w (va + of_nat i)))"
proof (cases "len = 0")
  case True
  then show ?thesis by (simp add: paging_user_range_ok_def)
next
  case False
  consider "unat va + unat len \<le> 0xFFFFF000"
    | "0xFFFFF000 < unat va + unat len" "unat va + unat len < 4294967296"
    | "4294967296 \<le> unat va + unat len" by linarith
  then show ?thesis
  proof cases
    case 1
    then show ?thesis using False user_range_ok_exact [OF False 1, of w s] by simp
  next
    case 2
    then show ?thesis using False user_range_ok_last_page [OF 2 False assms] by simp
  next
    case 3
    then show ?thesis using False user_range_ok_wrap [OF False 3, of w s] by simp
  qed
qed

section \<open>The kernel's own directory\<close>

definition boot_tables_ok :: "layout \<Rightarrow> bool" where
  "boot_tables_ok L \<longleftrightarrow> page_of (boot_pd L) = boot_pd L \<and> page_of (boot_pt L) = boot_pt L
     \<and> unat (boot_pt L) + 128 * 4096 \<le> 4294967296
     \<and> (\<forall>t < 128. boot_pt L + 4096 * of_nat t \<noteq> boot_pd L)"

abbreviation (input) boot_table :: "layout \<Rightarrow> nat \<Rightarrow> u32" where
  "boot_table L t \<equiv> boot_pt L + 4096 * of_nat t"

lemma boot_table_facts:
  assumes "boot_tables_ok L" and "t < 128"
  shows "page_of (boot_table L t) = boot_table L t" and "boot_table L t \<noteq> boot_pd L"
    and "u < 128 \<Longrightarrow> boot_table L t = boot_table L u \<longleftrightarrow> t = u"
proof -
  have al: "page_of (boot_pt L) = boot_pt L" and lim: "unat (boot_pt L) + 128 * 4096 \<le> 4294967296"
    using assms(1) by (auto simp: boot_tables_ok_def)
  show "page_of (boot_table L t) = boot_table L t" by (rule page_aligned_add [OF al])
  show "boot_table L t \<noteq> boot_pd L" using assms by (simp add: boot_tables_ok_def)
  have u: "unat (boot_table L k) = unat (boot_pt L) + 4096 * k" if "k < 128" for k
  proof -
    have "unat (boot_pt L) + 4096 * k < 4294967296" using lim that by linarith
    then have "unat (boot_pt L + of_nat (4096 * k)) = unat (boot_pt L) + 4096 * k" by (rule unat_plus32)
    then show ?thesis by simp
  qed
  show "u < 128 \<Longrightarrow> boot_table L t = boot_table L u \<longleftrightarrow> t = u"
    using u [of t] u [of u] assms(2) by (auto simp: word_unat_eq_iff)
qed

lemma identity_pt_length [simp]: "length (identity_pt pfns ti) = 1024"
  by (simp add: identity_pt_def)

lemma identity_fold:
  assumes L: "boot_tables_ok L" and zero: "\<forall>i. unat i < 1024 \<longrightarrow> pde_of m (boot_pd L) i = 0" and n: "n \<le> 128"
  shows "(\<forall>i. unat i < 1024 \<longrightarrow> pde_of (fold (identity_table L pfns) [0..<n] m) (boot_pd L) i
      = (if unat i < n then boot_table L (unat i) OR (PTE_PRESENT OR PTE_RW) else 0))
    \<and> (\<forall>t < n. \<forall>i. unat i < 1024 \<longrightarrow> ld32 (fold (identity_table L pfns) [0..<n] m) (entry_at (boot_table L t) i)
      = identity_pt pfns (of_nat t) ! unat i)"
  using n
proof (induction n)
  case 0
  then show ?case using zero by simp
next
  case (Suc n)
  let ?m = "fold (identity_table L pfns) [0..<n] m" and ?t = "boot_table L n"
  let ?v = "?t OR (PTE_PRESENT OR PTE_RW)"
  have n: "n < 128" "unat (of_nat n :: u32) = n" using Suc.prems by (auto intro!: unat_of_nat32)
  note T = boot_table_facts [OF L]
  have pd: "page_of (boot_pd L) = boot_pd L" using L by (simp add: boot_tables_ok_def)
  have step: "fold (identity_table L pfns) [0..<Suc n] m
      = store_words (st32 ?m (entry_at (boot_pd L) (of_nat n)) ?v) ?t (identity_pt pfns (of_nat n))"
    by (simp add: identity_table_def Let_def)
  have ld: "ld32 (fold (identity_table L pfns) [0..<Suc n] m) (entry_at u i)
      = (if u = ?t then identity_pt pfns (of_nat n) ! unat i
         else if u = boot_pd L \<and> i = of_nat n then ?v else ld32 ?m (entry_at u i))"
    if "page_of u = u" "unat i < 1024" for u i
    using that n pd T(1,2) [OF n(1)] unfolding step
    by (simp add: ld_store_table ld_st_entry)
  have IH: "pde_of ?m (boot_pd L) i = (if unat i < n then boot_table L (unat i) OR (PTE_PRESENT OR PTE_RW) else 0)"
    if "unat i < 1024" for i
    using Suc that by simp
  have IH2: "ld32 ?m (entry_at (boot_table L t) i) = identity_pt pfns (of_nat t) ! unat i"
    if "t < n" "unat i < 1024" for t i
    using Suc that by simp
  show ?case
  proof (intro conjI allI impI)
    fix i :: u32 assume i: "unat i < 1024"
    have "i = of_nat n \<longleftrightarrow> unat i = n" using n(2) by (simp add: word_unat_eq_iff)
    then show "pde_of (fold (identity_table L pfns) [0..<Suc n] m) (boot_pd L) i
        = (if unat i < Suc n then boot_table L (unat i) OR (PTE_PRESENT OR PTE_RW) else 0)"
      using ld [OF pd i] T(2) [OF n(1)] IH [OF i] by (auto simp: pde_of_def less_Suc_eq)
  next
    fix t and i :: u32 assume t: "t < Suc n" and i: "unat i < 1024"
    then show "ld32 (fold (identity_table L pfns) [0..<Suc n] m) (entry_at (boot_table L t) i)
        = identity_pt pfns (of_nat t) ! unat i"
      using ld [OF T(1) i, of t] T(2) [of t] T(3) [of t n] n(1) IH2 [OF _ i, of t]
      by (auto simp: less_Suc_eq)
  qed
qed

lemma identity_pt_nth:
  fixes i :: u32
  assumes "unat i < 1024" and "t < 128" and "unat pfns \<le> 131072"
  shows "identity_pt pfns (of_nat t) ! unat i
    = (if 1024 * t + unat i < unat pfns then of_nat ((1024 * t + unat i) * 4096) OR (PTE_PRESENT OR PTE_RW) else 0)"
proof -
  let ?k = "1024 * t + unat i"
  have k: "?k < 131072" using assms by simp
  have w: "of_nat t * 1024 + i = (of_nat ?k :: u32)" by (simp add: mult.commute)
  have uk: "unat (of_nat ?k :: u32) = ?k" using k by (intro unat_of_nat32) simp
  have "push_bit 12 (of_nat ?k :: u32) = of_nat (?k * 4096)"
    by (simp only: push_bit_eq_mult of_nat_mult) simp
  moreover have "unat (of_nat (?k * 4096) :: u32) = ?k * 4096" using k by (intro unat_of_nat32) simp
  then have "page_of (of_nat (?k * 4096) :: u32) = of_nat (?k * 4096)"
    by (simp only: page_aligned_dvd) simp
  ultimately show ?thesis
    using assms(1) uk
    by (simp add: identity_pt_def Let_def w word_le_nat_alt not_le del: of_nat_add of_nat_mult push_bit_of_nat)
qed

lemma page_number_indices: "unat va div 4096 = 1024 * unat (pd_index va) + unat (pt_index va)"
proof -
  have "unat va div 4194304 = unat va div 4096 div 1024" by (simp flip: div_mult2_eq)
  then show ?thesis by (simp only: unat_pd_index unat_pt_index mult_div_mod_eq)
qed

lemma of_nat_page: "of_nat (unat va div 4096 * 4096) = page_of va"
  by (metis of_nat_unat ucast_id unat_page_of)

lemma page_and_offset: "page_of va OR (va AND 4095) = va"
  unfolding page_of_def by (rule bit_word_eqI) (auto simp only: bit_simps possible_bit_word)

lemma identity_walk:
  assumes L: "boot_tables_ok L" and M: "unat max_pfn < 131072"
    and run: "paging_identity_init L max_pfn s = (ok, s')"
  shows "ok \<and> cr3 s' = boot_pd L \<and> cr0_pg s'"
    and "mmu_walk (mem s') (boot_pd L) va = (if unat va div 4096 \<le> unat max_pfn
      then Some (boot_table L (unat (pd_index va)) OR (PTE_PRESENT OR PTE_RW), page_of va OR (PTE_PRESENT OR PTE_RW))
      else None)"
proof -
  have pd: "page_of (boot_pd L) = boot_pd L" using L by (simp add: boot_tables_ok_def)
  have pf: "unat (max_pfn + 1) = unat max_pfn + 1"
    using M unat_plus32 [of max_pfn 1] by simp
  have "unat (max_pfn + 1 + 1023) = unat max_pfn + 1024"
    using M unat_plus32 [of max_pfn 1024] by (simp add: add.assoc)
  then have n: "unat ((max_pfn + 1 + 1024 - 1) div 1024) = unat max_pfn div 1024 + 1"
    by (simp add: unat_div_distrib)
  let ?n = "unat max_pfn div 1024 + 1"
  have n128: "?n \<le> 128" using M by linarith
  let ?m1 = "store_words (mem s) (boot_pd L) (replicate 1024 0)"
  let ?m = "fold (identity_table L (max_pfn + 1)) [0..<?n] ?m1"
  have "\<not> 128 < (max_pfn + 1 + 1024 - 1) div 1024" using n n128 by (simp add: word_less_nat_alt)
  then have run': "ok" "s' = paging_enable_if_needed (cr3_load (boot_pd L) (s\<lparr>mem := ?m\<rparr>))"
    using run n by (auto simp: paging_identity_init_def Let_def)
  then show "ok \<and> cr3 s' = boot_pd L \<and> cr0_pg s'"
    by (simp add: paging_enable_if_needed_def cr3_load_def)
  have mem': "mem s' = ?m" using run'(2) by (simp add: paging_enable_if_needed_def cr3_load_def)
  have "\<forall>i. unat i < 1024 \<longrightarrow> pde_of ?m1 (boot_pd L) i = 0"
    using pd by (simp add: pde_of_def ld_store_table)
  note F = identity_fold [OF L this n128, of "max_pfn + 1"]
  have pde: "pde_of (mem s') (boot_pd L) (pd_index va) = (if unat (pd_index va) < ?n
      then boot_table L (unat (pd_index va)) OR (PTE_PRESENT OR PTE_RW) else 0)"
    unfolding mem' using F pd_index_lt [of va] by blast
  let ?k = "1024 * unat (pd_index va) + unat (pt_index va)"
  have k: "unat va div 4096 = ?k" by (rule page_number_indices)
  have ptl: "unat (pt_index va) < 1024" by (rule pt_index_lt)
  show "mmu_walk (mem s') (boot_pd L) va = (if unat va div 4096 \<le> unat max_pfn
      then Some (boot_table L (unat (pd_index va)) OR (PTE_PRESENT OR PTE_RW), page_of va OR (PTE_PRESENT OR PTE_RW))
      else None)"
  proof (cases "unat (pd_index va) < ?n")
    case True
    then have t: "unat (pd_index va) < 128" using n128 by linarith
    note T = boot_table_facts(1) [OF L t]
    note V = table_pde [of "boot_table L (unat (pd_index va))", unfolded T]
    have pte: "ld32 (mem s') (entry_at (boot_table L (unat (pd_index va))) (pt_index va))
        = (if ?k < unat max_pfn + 1 then page_of va OR (PTE_PRESENT OR PTE_RW) else 0)"
    proof -
      have "ld32 (mem s') (entry_at (boot_table L (unat (pd_index va))) (pt_index va))
          = identity_pt (max_pfn + 1) (of_nat (unat (pd_index va))) ! unat (pt_index va)"
        unfolding mem' using F True ptl by blast
      also have "\<dots> = (if ?k < unat max_pfn + 1 then of_nat (?k * 4096) OR (PTE_PRESENT OR PTE_RW) else 0)"
        using identity_pt_nth [OF ptl t, of "max_pfn + 1"] pf M by simp
      finally show ?thesis by (simp only: k [symmetric] of_nat_page)
    qed
    have pr: "present (boot_table L (unat (pd_index va)) OR (PTE_PRESENT OR PTE_RW))"
      "present (page_of va OR (PTE_PRESENT OR PTE_RW))" "\<not> present 0"
      using V(2) table_pde(2) [of va] by (simp_all add: present_def)
    show ?thesis
      using True pr V(1) pte pde by (simp add: mmu_walk_pde pd k Let_def)
  next
    case False
    then have "\<not> unat va div 4096 \<le> unat max_pfn" unfolding k by linarith
    then show ?thesis using False by (simp add: mmu_walk_pde pd pde Let_def present_def)
  qed
qed

section \<open>Device pages\<close>

lemma mmio_tbl_mod:
  "unat (mmio_tbl L i) mod 4096 = (unat (g_mmio_pts L) + 8 + 8 * i) mod 4096"
proof -
  have "mmio_tbl L i = g_mmio_pts L + of_nat (4104 * i + 8)"
    by (simp add: mmio_tbl_def mmio_slot_def)
  then have "unat (mmio_tbl L i) = (unat (g_mmio_pts L) + (4104 * i + 8)) mod 4294967296"
    by (simp only: unat_word_ariths unat_of_nat) (simp add: mod_simps)
  then have "unat (mmio_tbl L i) mod 4096 = (unat (g_mmio_pts L) + (4104 * i + 8)) mod 4096"
    by (simp add: mod_mod_cancel)
  also have "unat (g_mmio_pts L) + (4104 * i + 8) = (unat (g_mmio_pts L) + 8 + 8 * i) + 4096 * i" by simp
  finally show ?thesis by (simp only: mod_mult_self2)
qed

text \<open>At most one of the 16 static tables starts at a page boundary.\<close>

lemma mmio_one_aligned:
  assumes "page_of (mmio_tbl L i) = mmio_tbl L i" "page_of (mmio_tbl L j) = mmio_tbl L j"
    and "i < 16" "j < 16"
  shows "i = j"
proof -
  let ?b = "unat (g_mmio_pts L) + 8"
  have dvd: "4096 dvd ?b + 8 * k" if "page_of (mmio_tbl L k) = mmio_tbl L k" for k
    using that mmio_tbl_mod [of L k] by (simp add: page_aligned_dvd dvd_eq_mod_eq_0)
  have "\<not> u < v" if "4096 dvd ?b + 8 * u" "4096 dvd ?b + 8 * v" "v < 16" for u v
  proof
    assume "u < v"
    have "4096 dvd (?b + 8 * v) - (?b + 8 * u)" by (rule dvd_diff_nat [OF that(2,1)])
    then have "4096 dvd 8 * (v - u)" by (simp add: algebra_simps)
    then show False using \<open>u < v\<close> that(3) by (auto dest!: dvd_imp_le)
  qed
  from this [OF dvd dvd] show ?thesis using assms by (metis linorder_neqE_nat)
qed

definition mmio_ok :: "layout \<Rightarrow> nat \<Rightarrow> bool" where
  "mmio_ok L i \<longleftrightarrow> page_of (boot_pd L) = boot_pd L \<and> unat (g_mmio_pts L) mod 4 = 0
     \<and> unat (mmio_slot L i) + 4104 \<le> 4294967296
     \<and> (\<forall>x. in_range (mmio_slot L i) 4104 x \<longrightarrow> page_of x \<noteq> boot_pd L)"

lemma mmio_slot_aligned: "unat (g_mmio_pts L) mod 4 = 0 \<Longrightarrow> unat (mmio_slot L i) mod 4 = 0"
proof -
  assume "unat (g_mmio_pts L) mod 4 = 0"
  moreover have "mmio_slot L i = g_mmio_pts L + 4 * of_nat (1026 * i)"
    by (simp add: mmio_slot_def)
  ultimately show ?thesis by (simp only: aligned4_index)
qed

lemma mmio_fresh_memory:
  assumes pde: "ld32 m (entry_at (boot_pd L) idx) = 0"
    and none: "first_index (\<lambda>i. mmio_used L m i \<noteq> 0 \<and> mmio_pd_idx L m i = idx) 0 16 = None"
    and slot: "first_index (\<lambda>i. mmio_used L m i = 0) 0 16 = Some i"
    and ok: "mmio_ok L i" and idx: "unat idx < 1024"
  obtains m4 where "mmio_pt_for_pd L idx m = (Some (mmio_tbl L i), m4)"
    and "ld32 m4 (entry_at (boot_pd L) idx) = page_of (mmio_tbl L i) OR (PTE_PRESENT OR PTE_RW)"
    and "\<And>k. k < 1024 \<Longrightarrow> ld32 m4 (mmio_tbl L i + 4 * of_nat k) = 0"
proof -
  let ?s = "mmio_slot L i" and ?t = "mmio_tbl L i" and ?e = "entry_at (boot_pd L) idx"
  define m1 where "m1 = store_words m ?t (replicate 1024 0)"
  define m4 where "m4 = st32 (st32 (st32 m1 (?s + 4) idx) ?s 1) ?e (page_of ?t OR (PTE_PRESENT OR PTE_RW))"
  have run: "mmio_pt_for_pd L idx m = (Some ?t, m4)"
    using pde none slot by (simp add: mmio_pt_for_pd_def m4_def m1_def)
  have al: "page_of (boot_pd L) = boot_pd L" "unat ?s mod 4 = 0" and lim: "unat ?s + 4104 \<le> 4294967296"
    and sep: "\<And>x. in_range ?s 4104 x \<Longrightarrow> page_of x \<noteq> boot_pd L"
    using ok mmio_slot_aligned by (auto simp: mmio_ok_def)
  have als: "unat (?s + 4) mod 4 = 0" using al(2) by (rule aligned4_plus)
  have alt: "unat ?t mod 4 = 0" using aligned4_plus [OF als] by (simp add: mmio_tbl_def add.assoc)
  have ale: "unat ?e mod 4 = 0" by (rule entry_at_aligned4 [OF al(1) idx])
  have zero: "ld32 m4 (?t + 4 * of_nat k) = 0" if k: "k < 1024" for k
  proof -
    let ?a = "?t + 4 * of_nat k"
    have a: "?a = ?s + of_nat (8 + 4 * k)" by (simp add: mmio_tbl_def)
    have ua: "unat ?a = unat ?s + (8 + 4 * k)" unfolding a using lim k by (intro unat_plus32) linarith
    have "in_range ?s 4104 ?a" unfolding a using k by (intro in_range_plus) auto
    then have "?a \<noteq> ?e" using sep page_of_entry_at [OF al(1) idx] by metis
    moreover have "?a \<noteq> ?s" using ua by auto
    moreover have "?a \<noteq> ?s + 4"
    proof -
      have "unat (?s + of_nat 4) = unat ?s + 4" using lim by (intro unat_plus32) linarith
      then show ?thesis using ua by auto
    qed
    ultimately have "ld32 m4 ?a = ld32 m1 ?a"
      using aligned4_index [OF alt, of k] ale al(2) als unfolding m4_def
      by (simp add: ld32_st32_other)
    also have "\<dots> = 0"
      using ld32_store_words_in [of k "replicate 1024 0" ?t m] k alt by (simp add: m1_def)
    finally show ?thesis .
  qed
  have "ld32 m4 ?e = page_of ?t OR (PTE_PRESENT OR PTE_RW)" unfolding m4_def by (rule ld32_st32_same)
  then show thesis using run zero that by blast
qed

lemma mmio_map_fresh:
  assumes pde: "ld32 (mem s) (entry_at (boot_pd L) (pd_index phys)) = 0"
    and none: "first_index (\<lambda>i. mmio_used L (mem s) i \<noteq> 0 \<and> mmio_pd_idx L (mem s) i = pd_index phys) 0 16 = None"
    and slot: "first_index (\<lambda>i. mmio_used L (mem s) i = 0) 0 16 = Some i"
    and ok: "mmio_ok L i"
  defines "t \<equiv> mmio_tbl L i" and "s' \<equiv> snd (paging_map_identity_page L phys s)"
  shows "fst (paging_map_identity_page L phys s)"
    and "page_of t = t \<Longrightarrow> mmu_translate (mem s') (boot_pd L) False w phys = Some phys"
    and "page_of t \<noteq> t \<Longrightarrow> unat t mod 4096 \<le> 4 * unat (pt_index phys) \<Longrightarrow>
      mmu_walk (mem s') (boot_pd L) phys = None"
proof -
  obtain m4 where m4: "mmio_pt_for_pd L (pd_index phys) (mem s) = (Some t, m4)"
    "ld32 m4 (entry_at (boot_pd L) (pd_index phys)) = page_of t OR (PTE_PRESENT OR PTE_RW)"
    "\<And>k. k < 1024 \<Longrightarrow> ld32 m4 (t + 4 * of_nat k) = 0"
    unfolding t_def by (rule mmio_fresh_memory [OF pde none slot ok pd_index_lt]) blast
  let ?e = "entry_at (boot_pd L) (pd_index phys)" and ?k = "unat (pt_index phys)"
  let ?v = "page_of phys OR (PTE_PRESENT OR PTE_RW)" and ?d = "page_of t OR (PTE_PRESENT OR PTE_RW)"
  have run: "paging_map_identity_page L phys s = (True, s\<lparr>mem := st32 m4 (entry_at t (pt_index phys)) ?v\<rparr>)"
    using m4(1) by (simp add: paging_map_identity_page_def code_indices)
  show "fst (paging_map_identity_page L phys s)" by (simp add: run)
  have mem': "mem s' = st32 m4 (entry_at t (pt_index phys)) ?v" by (simp add: s'_def run)
  have al: "page_of (boot_pd L) = boot_pd L" "unat (mmio_slot L i) mod 4 = 0"
    and lim: "unat (mmio_slot L i) + 4104 \<le> 4294967296"
    and sep: "\<And>x. in_range (mmio_slot L i) 4104 x \<Longrightarrow> page_of x \<noteq> boot_pd L"
    using ok mmio_slot_aligned by (auto simp: mmio_ok_def)
  have alt: "unat t mod 4 = 0"
    using aligned4_plus [OF aligned4_plus [OF al(2)]] by (simp add: t_def mmio_tbl_def add.assoc)
  have k: "?k < 1024" by (rule pt_index_lt)
  have a: "entry_at t (pt_index phys) = mmio_slot L i + of_nat (8 + 4 * ?k)"
    by (simp add: entry_at_def t_def mmio_tbl_def)
  have "in_range (mmio_slot L i) 4104 (entry_at t (pt_index phys))"
    unfolding a using k by (intro in_range_plus) auto
  then have ne: "entry_at t (pt_index phys) \<noteq> ?e"
    using sep page_of_entry_at [OF al(1) pd_index_lt] by metis
  have ala: "unat (entry_at t (pt_index phys)) mod 4 = 0"
    using aligned4_index [OF alt, of ?k] by (simp add: entry_at_def)
  have d: "pde_of (mem s') (boot_pd L) (pd_index phys) = ?d"
    using ld32_st32_other [OF ala entry_at_aligned4 [OF al(1) pd_index_lt] ne] m4(2)
    by (simp add: pde_of_def mem')
  note walk = mmu_walk_pde [OF al(1), of "mem s'" phys, unfolded d Let_def table_pde(1)]
  show "mmu_translate (mem s') (boot_pd L) False w phys = Some phys" if t: "page_of t = t"
  proof -
    have "ld32 (mem s') (entry_at (page_of t) (pt_index phys)) = ?v"
      unfolding t mem' by (rule ld32_st32_same)
    then have "mmu_walk (mem s') (boot_pd L) phys = Some (?d, ?v)"
      using walk table_pde(2) [of t] table_pde(2) [of phys] by (simp add: present_def split: if_splits)
    then show ?thesis
      using table_pde(1) [of phys] by (simp add: mmu_translate_def mmu_allows_def page_and_offset)
  qed
  show "mmu_walk (mem s') (boot_pd L) phys = None"
    if unal: "page_of t \<noteq> t" and off: "unat t mod 4096 \<le> 4 * ?k"
  proof -
    let ?o = "unat t mod 4096" and ?h = "entry_at (page_of t) (pt_index phys)"
    have split: "unat t = unat (page_of t) + ?o" by (simp add: unat_page_of)
    have "4 dvd ?o" using alt by (intro dvd_mod) auto
    then obtain q where q: "?o = 4 * q" by blast
    have o0: "?o \<noteq> 0" using unal by (simp add: page_aligned_dvd dvd_eq_mod_eq_0)
    have t: "t = page_of t + of_nat ?o"
      using split by (metis add_right_cancel of_nat_add of_nat_unat ucast_id)
    have h: "?h = t + 4 * of_nat (?k - q)"
    proof -
      have "4 * (of_nat ?k :: u32) = of_nat (4 * (?k - q)) + of_nat (4 * q)"
        using off q by (simp flip: of_nat_add add: of_nat_diff algebra_simps)
      then have "?h = page_of t + of_nat ?o + of_nat (4 * (?k - q))"
        by (simp add: entry_at_def q algebra_simps)
      then show ?thesis using t by simp
    qed
    have ut: "unat (t + of_nat (4 * j)) = unat t + 4 * j" if "j < 1024" for j
    proof -
      have "unat (mmio_slot L i + of_nat (8 + 4 * j)) = unat (mmio_slot L i) + (8 + 4 * j)"
        using that lim by (intro unat_plus32) linarith
      moreover have "unat (mmio_slot L i + of_nat 8) = unat (mmio_slot L i) + 8"
        using lim by (intro unat_plus32) linarith
      ultimately show ?thesis by (simp add: t_def mmio_tbl_def add.assoc)
    qed
    have "unat ?h = unat t + 4 * (?k - q)" using ut [of "?k - q"] k unfolding h by simp
    moreover have "unat (entry_at t (pt_index phys)) = unat t + 4 * ?k"
      using ut [of ?k] k by (simp add: entry_at_def)
    moreover have "?k - q < ?k" using q o0 off by linarith
    ultimately have "unat ?h \<noteq> unat (entry_at t (pt_index phys))" by linarith
    then have "?h \<noteq> entry_at t (pt_index phys)" by metis
    moreover have "unat ?h mod 4 = 0" by (rule entry_at_aligned4 [OF page_of_idem pt_index_lt])
    ultimately have "ld32 (mem s') ?h = ld32 m4 ?h"
      unfolding mem' using ala by (intro ld32_st32_other) auto
    also have "\<dots> = 0" unfolding h using m4(3) k by simp
    finally show ?thesis using walk by (simp add: present_def)
  qed
qed

section \<open>Cloning the kernel's directory\<close>

lemma clone_memory:
  fixes m :: memory
  assumes n: "page_of n = n" and b: "page_of b = b" and ne: "n \<noteq> b"
  defines "m' \<equiv> copy_words m n b 1024"
  shows "page_of t = t \<Longrightarrow> unat i < 1024 \<Longrightarrow>
    ld32 m' (entry_at t i) = (if t = n then ld32 m (entry_at b i) else ld32 m (entry_at t i))"
proof -
  have sep: "\<not> in_range n (4 * 1024) (b + 4 * of_nat i)" if "i < 1024" for i
  proof -
    have "unat (of_nat i :: u32) = i" using that by (intro unat_of_nat32) simp
    then have "page_of (b + 4 * of_nat i) = b"
      using page_of_entry_at [OF b, of "of_nat i"] that by (simp add: entry_at_def)
    then show ?thesis using ne by (simp add: in_page_iff [OF n])
  qed
  have m': "m' = store_words m n (map (\<lambda>i. ld32 m (b + 4 * of_nat i)) [0..<1024])"
    unfolding m'_def by (rule copy_words_store) (use sep page_aligned4 n b in auto)
  assume t: "page_of t = t" "unat i < 1024"
  show "ld32 m' (entry_at t i) = (if t = n then ld32 m (entry_at b i) else ld32 m (entry_at t i))"
    unfolding m' using n t by (subst ld_store_table) (auto simp: entry_at_def)
qed

lemma clone_walk:
  assumes wf: "space_wf (boot_pd L) s" and run: "paging_clone_kernel_pd L s = (n, s')" and nz: "n \<noteq> 0"
  shows "frame_is_free (frames s) n" and "space_wf n s'" and "mmu_walk (mem s') n va = mmu_walk (mem s) (boot_pd L) va"
    and "mmu_walk (mem s') (boot_pd L) va = mmu_walk (mem s) (boot_pd L) va"
    and "frame_is_free (frames s') g \<longleftrightarrow> frame_is_free (frames s) g \<and> g \<noteq> n"
    and "unat i < 1024 \<Longrightarrow> pde_of (mem s') n i = pde_of (mem s) (boot_pd L) i"
proof -
  note D = space_wfD [OF wf]
  obtain p where al: "pmm_alloc_frame (frames s) = (n, p)"
    and s': "s' = s\<lparr>frames := p, mem := copy_words (mem s) n (boot_pd L) 1024\<rparr>"
    using run nz by (auto simp: paging_clone_kernel_pd_def Let_def split: prod.splits if_splits)
  note A = alloc_facts [OF D(1) al nz]
  show "frame_is_free (frames s) n" by (rule A)
  show "frame_is_free (frames s') g \<longleftrightarrow> frame_is_free (frames s) g \<and> g \<noteq> n" by (simp add: s' A)
  have ne: "n \<noteq> boot_pd L" using A(1) D(3) by blast
  note C = clone_memory [OF A(2) D(2) ne, of _ _ "mem s"]
  have mem': "mem s' = copy_words (mem s) n (boot_pd L) 1024" by (simp add: s')
  show pde: "pde_of (mem s') n i = pde_of (mem s) (boot_pd L) i" if "unat i < 1024" for i
    using C [OF A(2) that] ne by (auto simp: pde_of_def mem')
  have pdb: "pde_of (mem s') (boot_pd L) i = pde_of (mem s) (boot_pd L) i" if "unat i < 1024" for i
    using C [OF D(2) that] ne by (auto simp: pde_of_def mem')
  have tab: "page_of (pde_of (mem s) (boot_pd L) i) \<noteq> n"
    if "unat i < 1024" "present (pde_of (mem s) (boot_pd L) i)" for i
    using D(5) [OF that] A(1) by metis
  have same: "ld32 (mem s') (entry_at (page_of (pde_of (mem s) (boot_pd L) (pd_index va))) (pt_index va))
      = ld32 (mem s) (entry_at (page_of (pde_of (mem s) (boot_pd L) (pd_index va))) (pt_index va))"
    if "present (pde_of (mem s) (boot_pd L) (pd_index va))"
    using C [OF page_of_idem pt_index_lt, of "pde_of (mem s) (boot_pd L) (pd_index va)" va]
      tab [OF pd_index_lt that] by (simp add: mem')
  show "mmu_walk (mem s') n va = mmu_walk (mem s) (boot_pd L) va"
    using same by (auto simp: mmu_walk_pde A(2) D(2) pde [OF pd_index_lt] Let_def)
  show "mmu_walk (mem s') (boot_pd L) va = mmu_walk (mem s) (boot_pd L) va"
    using same by (auto simp: mmu_walk_pde D(2) pdb [OF pd_index_lt] Let_def)
  have fr: "frames s' = p" by (simp add: s')
  have "\<not> frame_is_free p n" using A(4) by simp
  moreover have "\<not> frame_is_free p (page_of (pde_of (mem s) (boot_pd L) i))"
    if "unat i < 1024" "present (pde_of (mem s) (boot_pd L) i)" for i
    using D(5) [OF that] A(4) by simp
  ultimately show "space_wf n s'"
    unfolding space_wf_def fr using A(2,3) pde tab D(6) by metis
qed

section \<open>Properties\<close>

text \<open>
  C36: the identity map.  For a machine of less than 512 MiB, \<open>paging_identity_init\<close>
  succeeds, loads the boot directory into CR3 and enables paging; supervisor accesses then
  reach exactly the addresses of frames up to \<open>max_pfn\<close>, each at its own physical address,
  and user-mode accesses reach nothing.
\<close>

theorem paging_identity_init_correct:
  assumes "boot_tables_ok L" and "unat max_pfn < 131072"
  shows "fst (paging_identity_init L max_pfn s)
    \<and> paging_get_cr3 (snd (paging_identity_init L max_pfn s)) = boot_pd L
    \<and> cr0_pg (snd (paging_identity_init L max_pfn s))
    \<and> mmu_translate (mem (snd (paging_identity_init L max_pfn s))) (boot_pd L) False w va
        = (if unat va div 4096 \<le> unat max_pfn then Some va else None)
    \<and> mmu_translate (mem (snd (paging_identity_init L max_pfn s))) (boot_pd L) True w va = None"
proof -
  obtain ok s' where run: "paging_identity_init L max_pfn s = (ok, s')" by (cases "paging_identity_init L max_pfn s")
  note W = identity_walk [OF assms run]
  have pd: "page_of (boot_pd L) = boot_pd L" using assms(1) by (simp add: boot_tables_ok_def)
  show ?thesis
    using W(1) W(2) [of va] table_pde(1,4) [of va] page_and_offset [of va]
    by (simp add: run paging_get_cr3_def pd mmu_translate_def mmu_allows_def)
qed

lemma sample_tables_ok: "boot_tables_ok (sample_layout\<lparr>boot_pt := 0x200000\<rparr>)"
proof -
  have "0x200000 + 4096 * of_nat t \<noteq> (0x101000 :: u32)" if "t < 128" for t
  proof -
    have "unat (0x200000 + of_nat (4096 * t) :: u32) = 0x200000 + 4096 * t"
      using that by (subst unat_plus32) auto
    then have "unat (0x200000 + 4096 * of_nat t :: u32) \<noteq> unat (0x101000 :: u32)" by simp
    then show ?thesis by metis
  qed
  then show ?thesis by (simp add: boot_tables_ok_def sample_layout_def page_aligned_dvd)
qed

theorem paging_identity_init_correct_witness:
  "mmu_translate (mem (snd (paging_identity_init (sample_layout\<lparr>boot_pt := 0x200000\<rparr>) 0x1FF
     \<lparr>io_in = \<lambda>_ _. 0x60, io_reads = 0, io_outs = [], g_serial_lock = 0,
     mem = \<lambda>_. 0, cr3 = 0, cr0_pg = False, frames = sample_pmm\<rparr>)))
     (boot_pd (sample_layout\<lparr>boot_pt := 0x200000\<rparr>)) False True 0x123456 = Some 0x123456"
  using paging_identity_init_correct [OF sample_tables_ok, of "0x1FF"
      "\<lparr>io_in = \<lambda>_ _. 0x60, io_reads = 0, io_outs = [], g_serial_lock = 0,
     mem = \<lambda>_. 0, cr3 = 0, cr0_pg = False, frames = sample_pmm\<rparr>" True "0x123456"]
  by simp

text \<open>
  C13: mapping a page.  In a well-formed address space \<open>paging_map_page\<close> keeps it well formed;
  when it succeeds the hardware walk of the page finds the given frame with the given flags
  and every other page is translated as before; it fails only when no frame is free, and
  then it changes nothing.
\<close>

theorem paging_map_page_correct:
  assumes "space_wf pd s"
  shows "space_wf pd (snd (paging_map_page pd virt phys flags s))
    \<and> (if fst (paging_map_page pd virt phys flags s)
       then maps_page pd virt (new_pte phys flags) (mem s) (mem (snd (paging_map_page pd virt phys flags s)))
       else snd (paging_map_page pd virt phys flags s) = s \<and> (\<forall>g. \<not> frame_is_free (frames s) g))"
  by (rule map_page_cases [OF assms, of virt phys flags]) (use assms in auto)

definition sample_vm :: vm where
  "sample_vm = \<lparr>io_in = \<lambda>_ _. 0x60, io_reads = 0, io_outs = [], g_serial_lock = 0,
     mem = \<lambda>_. 0, cr3 = 0x2000, cr0_pg = True, frames = sample_pmm\<rparr>"

lemma sample_vm_wf: "space_wf 0x2000 sample_vm"
  by (simp add: space_wf_def sample_vm_def sample_pmm_inv pde_of_def ld32_def present_def
      page_aligned_dvd frame_is_free_def frame_free_def)
    (simp add: sample_pmm_def bit_numeral_rec)

theorem paging_map_page_correct_witness:
  "space_wf 0x2000 (snd (paging_map_page 0x2000 0x400000 0x5000 7 sample_vm))"
  using paging_map_page_correct [OF sample_vm_wf] by (rule conjunct1)

text \<open>
  A new page table hides its pages from user mode.  When \<open>paging_map_page\<close> adds a table
  it makes the directory entry present and writable but not user-accessible.  A page mapped
  with all of P, R/W and U/S then passes \<open>paging_user_range_ok\<close>, which looks at the table
  entry only, while every user-mode access of the page faults.
\<close>

theorem paging_map_page_user_fault:
  assumes wf: "space_wf pd s" and "cr3 s = pd"
    and np: "\<not> present (pde_of (mem s) pd (pd_index virt))"
    and flags: "flags AND 7 = 7" and top: "unat virt < 0xFFFFF000"
    and ok: "fst (paging_map_page pd virt phys flags s)"
  shows "paging_user_range_ok virt 1 w (snd (paging_map_page pd virt phys flags s)) = Some True
    \<and> mmu_translate (mem (snd (paging_map_page pd virt phys flags s))) pd True w' virt = None"
proof (cases rule: map_page_cases [OF wf, of virt phys flags])
  case (2 pt)
  let ?s = "snd (paging_map_page pd virt phys flags s)" and ?e = "new_pte phys flags"
  have pd: "page_of pd = pd" by (rule space_wfD(2) [OF wf])
  have bits: "f AND (g AND 7) = g" if "flags AND 7 = 7" "g AND 7 = g" "f = flags" for f g :: u32
  proof -
    have "flags AND (g AND 7) = g AND (flags AND 7)" by (simp only: ac_simps)
    then show ?thesis using that by simp
  qed
  have fl: "?e AND 1 = 1" "?e AND 2 = 2" "?e AND 4 = 4"
    using and_flags [of 1 phys flags] and_flags [of 2 phys flags] and_flags [of 4 phys flags]
      bits [OF flags, of 1] bits [OF flags, of 2] bits [OF flags, of 4] by simp_all
  let ?d = "pt OR (PTE_PRESENT OR PTE_RW)"
  have walk: "mmu_walk (mem ?s) pd virt = Some (?d, ?e)"
    using 2(4,6) fl(1) by (simp add: maps_page_def present_def)
  have "page_of pt = pt" using 2(5) by (simp add: frame_is_free_def)
  then have "?d AND 4 = 0" using table_pde(4) [of pt] by simp
  then have "mmu_translate (mem ?s) pd True w' virt = None"
    by (simp add: mmu_translate_def walk mmu_allows_def)
  moreover have "cr3 ?s = pd"
    using assms(2) by (simp add: paging_map_page_def Let_def split: prod.split)
  then have "page_user_ok (mem ?s) (paging_get_cr3 ?s) w virt"
    using fl by (simp add: page_user_ok_def paging_get_cr3_def pd pte_fetch_mmu walk)
  then have "paging_user_range_ok virt 1 w ?s = Some True"
    using top by (subst user_range_ok_exact) simp_all
  ultimately show ?thesis by blast
qed (use np ok in auto)

lemma sample_vm_map: "fst (paging_map_page 0x2000 0x400000 0x5000 7 sample_vm)"
  using sample_pmm_alloc
  by (simp add: paging_map_page_def Let_def sample_vm_def split_beta ld32_def)

theorem paging_map_page_user_fault_witness:
  "mmu_translate (mem (snd (paging_map_page 0x2000 0x400000 0x5000 7 sample_vm))) 0x2000 True False 0x400000 = None"
  by (rule paging_map_page_user_fault [OF sample_vm_wf _ _ _ _ sample_vm_map, THEN conjunct2])
    (simp_all add: sample_vm_def pde_of_def ld32_def present_def)



text \<open>
  A clone of the kernel's directory is a new well-formed address space in a frame that
  was free, it translates every address as the kernel's directory does, and the kernel's
  own translation and the other free frames are untouched.
\<close>

theorem paging_clone_kernel_pd_correct:
  assumes "space_wf (boot_pd L) s" and "fst (paging_clone_kernel_pd L s) \<noteq> 0"
  defines "n \<equiv> fst (paging_clone_kernel_pd L s)" and "s' \<equiv> snd (paging_clone_kernel_pd L s)"
  shows "frame_is_free (frames s) n \<and> space_wf n s'
    \<and> mmu_walk (mem s') n va = mmu_walk (mem s) (boot_pd L) va
    \<and> mmu_walk (mem s') (boot_pd L) va = mmu_walk (mem s) (boot_pd L) va
    \<and> (frame_is_free (frames s') g \<longleftrightarrow> frame_is_free (frames s) g \<and> g \<noteq> n)"
proof -
  have run: "paging_clone_kernel_pd L s = (n, s')" by (simp add: n_def s'_def)
  show ?thesis using clone_walk [OF assms(1) run] assms(2) by (simp add: n_def)
qed

theorem paging_clone_kernel_pd_correct_witness:
  "frame_is_free (frames sample_vm) (fst (paging_clone_kernel_pd (sample_layout\<lparr>boot_pd := 0x2000\<rparr>) sample_vm))"
proof -
  have "fst (paging_clone_kernel_pd (sample_layout\<lparr>boot_pd := 0x2000\<rparr>) sample_vm) \<noteq> 0"
    using sample_pmm_alloc by (simp add: paging_clone_kernel_pd_def Let_def sample_vm_def split_beta)
  moreover have "space_wf (boot_pd (sample_layout\<lparr>boot_pd := 0x2000\<rparr>)) sample_vm"
    using sample_vm_wf by simp
  ultimately show ?thesis using paging_clone_kernel_pd_correct by blast
qed

text \<open>
  Device pages.  For a device page in a part of the address space without a table,
  \<open>paging_map_identity_page\<close> takes a free static table and reports success.  The page is
  then mapped to itself if that table happens to start at a page boundary; if it does not
  (the type has no such alignment, and at most one of the 16 tables can have it), the
  directory entry points elsewhere and the page is not mapped, whenever its entry lies
  behind the table's offset in its page.
\<close>

theorem paging_map_identity_page_fresh:
  assumes "ld32 (mem s) (entry_at (boot_pd L) (pd_index phys)) = 0"
    and "first_index (\<lambda>i. mmio_used L (mem s) i \<noteq> 0 \<and> mmio_pd_idx L (mem s) i = pd_index phys) 0 16 = None"
    and "first_index (\<lambda>i. mmio_used L (mem s) i = 0) 0 16 = Some i"
    and "mmio_ok L i"
  shows "fst (paging_map_identity_page L phys s)
    \<and> (if page_of (mmio_tbl L i) = mmio_tbl L i
       then mmu_translate (mem (snd (paging_map_identity_page L phys s))) (boot_pd L) False w phys = Some phys
         \<and> (\<forall>j<16. page_of (mmio_tbl L j) = mmio_tbl L j \<longrightarrow> j = i)
       else unat (mmio_tbl L i) mod 4096 \<le> 4 * unat (pt_index phys) \<longrightarrow>
         mmu_walk (mem (snd (paging_map_identity_page L phys s))) (boot_pd L) phys = None)"
proof -
  have "i < 16" using assms(3) by (auto simp: first_index_Some)
  then show ?thesis using mmio_map_fresh [OF assms] mmio_one_aligned by auto
qed

theorem paging_map_identity_page_fresh_witness:
  "mmu_walk (mem (snd (paging_map_identity_page sample_layout 0xFEE00000 sample_vm))) 0x101000 0xFEE00000 = None"
proof -
  have z: "ld32 (mem sample_vm) a = 0" for a by (simp add: sample_vm_def ld32_def)
  have slot: "mmio_slot sample_layout 0 = 0x103000" by (simp add: mmio_slot_def sample_layout_def)
  have "page_of x \<noteq> boot_pd sample_layout" if "in_range 0x103000 4104 x" for x
  proof -
    have "0x103000 \<le> unat x" using that by (simp add: in_range_iff)
    then have "0x103 \<le> unat x div 4096" using div_le_mono [of "0x103000" "unat x" 4096] by simp
    then have "unat (page_of x) \<noteq> 0x101000" by (simp add: unat_page_of)
    then show ?thesis by (auto simp: sample_layout_def)
  qed
  then have ok: "mmio_ok sample_layout 0"
    by (simp add: mmio_ok_def slot) (simp add: sample_layout_def page_aligned_dvd)
  have tbl: "mmio_tbl sample_layout 0 = 0x103008" by (simp add: mmio_tbl_def slot)
  have no: "first_index (\<lambda>i. mmio_used sample_layout (mem sample_vm) i \<noteq> 0
      \<and> mmio_pd_idx sample_layout (mem sample_vm) i = pd_index 0xFEE00000) 0 16 = None"
    and free: "first_index (\<lambda>i. mmio_used sample_layout (mem sample_vm) i = 0) 0 16 = Some 0"
    by (simp_all add: first_index_None first_index_Some mmio_used_def z)
  have "page_of (mmio_tbl sample_layout 0) \<noteq> mmio_tbl sample_layout 0"
    "unat (mmio_tbl sample_layout 0) mod 4096 \<le> 4 * unat (pt_index 0xFEE00000)"
    by (simp_all add: tbl page_aligned_dvd unat_pt_index)
  then show ?thesis
    using paging_map_identity_page_fresh [OF z no free ok] by (simp add: sample_layout_def)
qed

end
