(* ===== verification/Proc.thy ===== *)
theory Proc
  imports Paging
begin

text \<open>
  \<open>kernel/proc.c\<close>: the single process and its heap break.  The state extends the
  paging state with the two static variables; \<open>verve_proc_sys_brk\<close> maps one fresh frame
  per page between the old and the new break.
\<close>

record proc = vm +
  cur_pid :: u32
  cur_pd_phys :: u32
  g_brk :: u32

section \<open>The code\<close>

abbreviation (input) VERVE_USER_HEAP_BASE :: u32 where "VERVE_USER_HEAP_BASE \<equiv> 0x80002000"
abbreviation (input) VERVE_USER_HEAP_CAP :: u32 where "VERVE_USER_HEAP_CAP \<equiv> 0x80400000"
abbreviation (input) PTE_USER_RWU :: u32 where "PTE_USER_RWU \<equiv> 7"

text \<open>\<open>int32_t\<close> results are 32-bit words in two's complement.\<close>

abbreviation (input) ENOMEM_ret :: u32 where "ENOMEM_ret \<equiv> - 12"
abbreviation (input) EINVAL_ret :: u32 where "EINVAL_ret \<equiv> - 22"

definition verve_proc_init_singleton :: "layout \<Rightarrow> 'a proc_scheme \<Rightarrow> 'a proc_scheme" where
  "verve_proc_init_singleton L s =
     (case paging_clone_kernel_pd L s of (pd, s1) \<Rightarrow>
        s1\<lparr>cur_pid := 1, cur_pd_phys := pd, g_brk := VERVE_USER_HEAP_BASE\<rparr>)"

definition verve_proc_current_pid :: "'a proc_scheme \<Rightarrow> u32" where
  "verve_proc_current_pid s = cur_pid s"

definition verve_proc_current_pd_phys :: "'a proc_scheme \<Rightarrow> u32" where
  "verve_proc_current_pd_phys s = cur_pd_phys s"

definition verve_proc_exec_reset_brk :: "'a proc_scheme \<Rightarrow> 'a proc_scheme" where
  "verve_proc_exec_reset_brk s = s\<lparr>g_brk := VERVE_USER_HEAP_BASE\<rparr>"

text \<open>One turn of the loop; \<open>False\<close> is the early return of \<open>-12\<close>.\<close>

definition brk_page :: "u32 \<Rightarrow> u32 \<Rightarrow> 'a proc_scheme \<Rightarrow> bool \<times> 'a proc_scheme" where
  "brk_page pd va s =
     (case pmm_alloc_frame (frames s) of (frame, p) \<Rightarrow>
        let s1 = s\<lparr>frames := p\<rparr>
        in if frame = 0 then (False, s1)
           else case paging_map_page pd va frame PTE_USER_RWU s1 of (ok, s2) \<Rightarrow>
             if \<not> ok then (False, s2\<lparr>frames := pmm_free_frame frame (frames s2)\<rparr>)
             else (True, s2))"

text \<open>
  The loop.  Below the heap's cap \<open>va + VERVE_PAGE_SIZE\<close> does not wrap: the inner test is
  always true and is there for the termination proof only.
\<close>

function brk_pages :: "u32 \<Rightarrow> u32 \<Rightarrow> u32 \<Rightarrow> 'a proc_scheme \<Rightarrow> bool \<times> 'a proc_scheme" where
  "brk_pages pd va addr s =
     (if va < addr then
        (case brk_page pd va s of (ok, s') \<Rightarrow>
           if \<not> ok then (False, s')
           else if va < va + page_size then brk_pages pd (va + page_size) addr s' else (True, s'))
      else (True, s))"
  by pat_completeness auto
termination
  by (relation "measure (\<lambda>(pd, va, addr, s). unat addr - unat va)") (auto simp: word_less_nat_alt)

declare brk_pages.simps [simp del]

definition verve_proc_sys_brk :: "u32 \<Rightarrow> 'a proc_scheme \<Rightarrow> u32 \<times> 'a proc_scheme" where
  "verve_proc_sys_brk addr s =
     (let pd = cur_pd_phys s; cur = g_brk s
      in if pd = 0 then (ENOMEM_ret, s)
      else if addr = 0 then (cur, s)
      else if addr AND (page_size - 1) \<noteq> 0 then (EINVAL_ret, s)
      else if addr < VERVE_USER_HEAP_BASE \<or> addr \<ge> VERVE_USER_HEAP_CAP then (EINVAL_ret, s)
      else if addr < cur then (EINVAL_ret, s)
      else if addr = cur then (cur, s)
      else case brk_pages pd cur addr s of (ok, s') \<Rightarrow>
        if \<not> ok then (ENOMEM_ret, s') else (addr, s'\<lparr>g_brk := addr\<rparr>))"

section \<open>One page\<close>

text \<open>The page of \<open>x\<close> is mapped to frame \<open>f\<close> with the user's flags.\<close>

definition user_page :: "memory \<Rightarrow> u32 \<Rightarrow> u32 \<Rightarrow> u32 \<Rightarrow> bool" where
  "user_page m pd x f \<longleftrightarrow> (\<exists>pde. mmu_walk m pd x = Some (pde, page_of f OR (PTE_USER_RWU AND 4095)))"

lemma user_flags: "(page_of f OR (7 AND 4095)) AND 1 = 1" "(page_of f OR (7 AND 4095)) AND 2 = 2"
  "(page_of f OR (7 AND 4095)) AND 4 = 4"
  using and_flags [of 1 f 7] and_flags [of 2 f 7] and_flags [of 4 f 7] by simp_all

lemma user_page_ok: "page_of pd = pd \<Longrightarrow> user_page m pd x f \<Longrightarrow> page_user_ok m pd w x"
  using user_flags [of f] by (auto simp: user_page_def page_user_ok_def pte_fetch_mmu)

lemma user_page_frame: "user_page m pd x f \<Longrightarrow> user_page m pd x g \<Longrightarrow> page_of f = page_of g"
  unfolding user_page_def by (metis Pair_inject option.inject page_of_or_flags)

lemma space_wf_alloc:
  assumes "space_wf pd s" and "pmm_alloc_frame (frames s) = (f, p)" and "f \<noteq> 0"
  shows "space_wf pd (s\<lparr>frames := p\<rparr>)"
  using assms alloc_facts [OF space_wfD(1) [OF assms(1)] assms(2,3)] unfolding space_wf_def by auto

definition same_spaces :: "u32 \<Rightarrow> u32 \<Rightarrow> nat \<Rightarrow> memory \<Rightarrow> memory \<Rightarrow> bool" where
  "same_spaces pd lo hi m m' \<longleftrightarrow> (\<forall>x. \<not> (unat lo \<le> unat x \<and> unat x < hi) \<longrightarrow> mmu_walk m' pd x = mmu_walk m pd x)"

lemma page_interval:
  assumes "page_of va = va"
  shows "page_of x = page_of va \<longleftrightarrow> unat va \<le> unat x \<and> unat x < unat va + 4096"
proof -
  have "unat va = unat va div 4096 * 4096" by (rule page_frame_number [OF assms])
  moreover have "unat x div 4096 = unat va div 4096 \<longleftrightarrow>
      unat va div 4096 * 4096 \<le> unat x \<and> unat x < unat va div 4096 * 4096 + 4096"
    using div_nat_eqI [of 4096 "unat va div 4096" "unat x"] div_mult_mod_eq [of "unat x" 4096]
      mod_less_divisor [of 4096 "unat x"] by (auto simp: mult.commute)
  ultimately show ?thesis by (simp add: page_of_eq_iff)
qed

lemma brk_page_effect:
  assumes wf: "space_wf pd s" and va: "page_of va = va" and run: "brk_page pd va s = (ok, s')"
  shows "space_wf pd s'" and "g_brk s' = g_brk s" and "cur_pd_phys s' = cur_pd_phys s"
    and "\<And>g. frame_is_free (frames s') g \<Longrightarrow> frame_is_free (frames s) g"
    and "ok \<Longrightarrow> same_spaces pd va (unat va + 4096) (mem s) (mem s')"
    and "ok \<Longrightarrow> \<exists>f. frame_is_free (frames s) f \<and> \<not> frame_is_free (frames s') f
      \<and> (\<forall>x. page_of x = page_of va \<longrightarrow> user_page (mem s') pd x f)"
    and "\<not> ok \<Longrightarrow> mem s' = mem s \<and> (\<exists>f. \<forall>g. frame_is_free (frames s') g \<longrightarrow> g = f)"
proof -
  note D = space_wfD [OF wf]
  obtain f p where al: "pmm_alloc_frame (frames s) = (f, p)" by (cases "pmm_alloc_frame (frames s)")
  let ?s1 = "s\<lparr>frames := p\<rparr>"
  have "space_wf pd s' \<and> g_brk s' = g_brk s \<and> cur_pd_phys s' = cur_pd_phys s
    \<and> (\<forall>g. frame_is_free (frames s') g \<longrightarrow> frame_is_free (frames s) g)
    \<and> (ok \<longrightarrow> same_spaces pd va (unat va + 4096) (mem s) (mem s'))
    \<and> (ok \<longrightarrow> (\<exists>f. frame_is_free (frames s) f \<and> \<not> frame_is_free (frames s') f
      \<and> (\<forall>x. page_of x = page_of va \<longrightarrow> user_page (mem s') pd x f)))
    \<and> (\<not> ok \<longrightarrow> mem s' = mem s \<and> (\<exists>f. \<forall>g. frame_is_free (frames s') g \<longrightarrow> g = f))"
  proof (cases "f = 0")
    case True
    then have "ok = False" "s' = s" using al alloc_none(1) [OF D(1), of p] run by (auto simp: brk_page_def)
    then show ?thesis using True al alloc_none(2) [OF D(1), of p] wf by simp
  next
    case nz: False
    note A = alloc_facts [OF D(1) al nz] and wf1 = space_wf_alloc [OF wf al nz]
    let ?r = "paging_map_page pd va f 7 ?s1"
    have keep: "g_brk (snd ?r) = g_brk s" "cur_pd_phys (snd ?r) = cur_pd_phys s"
      by (simp_all add: paging_map_page_def Let_def split: prod.split)
    have fin: "ok \<and> s' = snd ?r" if "fst ?r"
      using run al nz that by (auto simp: brk_page_def split: prod.splits)
    have pres: "present (page_of f OR (7 AND 4095))" using user_flags(1) [of f] by (simp add: present_def)
    have maps: "same_spaces pd va (unat va + 4096) (mem s) (mem s')
        \<and> (\<forall>x. page_of x = page_of va \<longrightarrow> user_page (mem s') pd x f)"
      if "maps_page pd va (page_of f OR (7 AND 4095)) (mem ?s1) (mem s')"
      using that pres page_interval [OF va] by (auto simp: maps_page_def same_spaces_def user_page_def)
    show ?thesis
    proof (cases rule: map_page_cases [OF wf1, of va f 7])
      case 1
      then show ?thesis using fin maps keep A by auto
    next
      case (2 pt)
      then show ?thesis using fin maps keep A by auto
    next
      case 3
      then have e: "ok = False" "s' = ?s1\<lparr>frames := pmm_free_frame f p\<rparr>"
        using run al nz by (auto simp: brk_page_def)
      have fm: "frame_managed (frames s) f" using A(1) D(1) frames.free_frame by blast
      then have fm': "frame_managed p f"
        using frames.managed_alloc [of "frames s"] al by simp
      have fr: "frame_is_free (pmm_free_frame f p) g \<longleftrightarrow> g = f" for g
        using frames.release_free [OF A(3) fm', of g] 3(2) [of g] by simp
      have "pmm_inv (pmm_free_frame f p)" by (rule frames.inv_release [OF A(3)])
      moreover have "\<not> frame_is_free (frames s) pd" by (rule D(3))
      ultimately have "space_wf pd s'"
        using wf A(1) unfolding space_wf_def e(2) by (auto simp: fr)
      then show ?thesis using e fr A(1) by auto
    qed
  qed
  then show "space_wf pd s'" "g_brk s' = g_brk s" "cur_pd_phys s' = cur_pd_phys s"
    "\<And>g. frame_is_free (frames s') g \<Longrightarrow> frame_is_free (frames s) g"
    "ok \<Longrightarrow> same_spaces pd va (unat va + 4096) (mem s) (mem s')"
    "ok \<Longrightarrow> \<exists>f. frame_is_free (frames s) f \<and> \<not> frame_is_free (frames s') f
      \<and> (\<forall>x. page_of x = page_of va \<longrightarrow> user_page (mem s') pd x f)"
    "\<not> ok \<Longrightarrow> mem s' = mem s \<and> (\<exists>f. \<forall>g. frame_is_free (frames s') g \<longrightarrow> g = f)"
    by blast+
qed

section \<open>The pages of a heap extension\<close>

text \<open>\<open>F\<close> gives every page of \<open>[va, addr)\<close> a frame of its own, taken from the free ones.\<close>

definition backed :: "u32 \<Rightarrow> u32 \<Rightarrow> u32 \<Rightarrow> 'a proc_scheme \<Rightarrow> 'a proc_scheme \<Rightarrow> (u32 \<Rightarrow> u32) \<Rightarrow> bool" where
  "backed pd va addr s s' F \<longleftrightarrow>
     (\<forall>x. va \<le> x \<and> x < addr \<longrightarrow> user_page (mem s') pd x (F x)
        \<and> frame_is_free (frames s) (F x) \<and> \<not> frame_is_free (frames s') (F x))
     \<and> (\<forall>x y. va \<le> x \<and> x < addr \<and> va \<le> y \<and> y < addr \<and> F x = F y \<longrightarrow> page_of x = page_of y)"

lemma brk_next:
  assumes "page_of va = va" "page_of addr = addr" "va < addr"
  shows "unat (va + page_size) = unat va + 4096" "va < va + page_size" "page_of (va + page_size) = va + page_size"
    "va + page_size \<le> addr"
proof -
  note st = frame_step_no_wrap [of va addr] 
  have m: "unat va mod 4096 = 0" "unat addr mod 4096 = 0"
    using assms(1,2) by (simp_all add: page_aligned_dvd)
  show "unat (va + page_size) = unat va + 4096" "va < va + page_size"
    using st [OF m assms(3)] by auto
  show "page_of (va + page_size) = va + page_size" using page_aligned_add [OF assms(1), of 1] by simp
  show "va + page_size \<le> addr" using st [OF m assms(3)] by (simp add: word_le_nat_alt)
qed

lemma brk_pages_effect:
  assumes "space_wf pd s" and "page_of va = va" and "page_of addr = addr" and "va \<le> addr"
    and "brk_pages pd va addr s = (ok, s')"
  shows "space_wf pd s' \<and> g_brk s' = g_brk s \<and> cur_pd_phys s' = cur_pd_phys s
    \<and> (\<forall>g. frame_is_free (frames s') g \<longrightarrow> frame_is_free (frames s) g)
    \<and> same_spaces pd va (unat addr) (mem s) (mem s')
    \<and> (if ok then \<exists>F. backed pd va addr s s' F else \<exists>f. \<forall>g. frame_is_free (frames s') g \<longrightarrow> g = f)"
  using assms
proof (induction pd va addr s arbitrary: s' rule: brk_pages.induct)
  case (1 pd va addr s)
  show ?case
  proof (cases "va < addr")
    case False
    then have "ok" "s' = s" using 1(6) by (auto simp: brk_pages.simps [of pd va])
    moreover have "backed pd va addr s s id" using False unfolding backed_def by (meson le_less_trans)
    ultimately show ?thesis using 1(2) by (auto simp: same_spaces_def)
  next
    case lt: True
    note nx = brk_next [OF 1(3,4) lt]
    obtain k s1 where step: "brk_page pd va s = (k, s1)" by (cases "brk_page pd va s")
    note B = brk_page_effect [OF 1(2,3) step]
    show ?thesis
    proof (cases k)
      case False
      then have "\<not> ok" "s' = s1" using 1(6) lt step by (auto simp: brk_pages.simps [of pd va])
      then show ?thesis using B False by (auto simp: same_spaces_def)
    next
      case True
      then have run: "brk_pages pd (va + page_size) addr s1 = (ok, s')"
        using 1(6) lt step nx(2) by (simp add: brk_pages.simps [of pd va])
      note IH = 1(1) [OF lt step [symmetric] _ nx(2) B(1) nx(3) 1(4) nx(4) run]
      obtain f where f: "frame_is_free (frames s) f" "\<not> frame_is_free (frames s1) f"
        "\<And>x. page_of x = page_of va \<Longrightarrow> user_page (mem s1) pd x f"
        using B(6) [OF True] by blast
      have IH': "space_wf pd s'" "g_brk s' = g_brk s" "cur_pd_phys s' = cur_pd_phys s"
        "\<And>g. frame_is_free (frames s') g \<Longrightarrow> frame_is_free (frames s1) g"
        "same_spaces pd (va + page_size) (unat addr) (mem s1) (mem s')"
        "ok \<Longrightarrow> \<exists>F. backed pd (va + page_size) addr s1 s' F"
        "\<not> ok \<Longrightarrow> \<exists>f. \<forall>g. frame_is_free (frames s') g \<longrightarrow> g = f"
        using IH True B(2,3) by auto
      have "unat va + 4096 \<le> unat addr" using nx(1,4) by (simp add: word_le_nat_alt)
      then have same: "same_spaces pd va (unat addr) (mem s) (mem s')"
        using B(5) [OF True] IH'(5) nx(1) by (auto simp: same_spaces_def)
      have here: "user_page (mem s') pd x f" if "page_of x = page_of va" for x
      proof -
        have "\<not> (unat (va + page_size) \<le> unat x \<and> unat x < unat addr)"
          using that page_interval [OF 1(3), of x] nx(1) by auto
        then show ?thesis using f(3) [OF that] IH'(5) by (simp add: same_spaces_def user_page_def)
      qed
      have "backed pd va addr s s' (\<lambda>x. if page_of x = page_of va then f else F x)"
        if F: "backed pd (va + page_size) addr s1 s' F" for F
      proof -
        have later: "va + page_size \<le> x" if "page_of x \<noteq> page_of va" "va \<le> x" for x
          using that page_interval [OF 1(3), of x] nx(1) by (simp add: word_le_nat_alt)
        have Fx: "user_page (mem s') pd x (F x)" "frame_is_free (frames s1) (F x)" "\<not> frame_is_free (frames s') (F x)"
          if "page_of x \<noteq> page_of va" "va \<le> x" "x < addr" for x
          using F later [OF that(1,2)] that(3) unfolding backed_def by blast+
        have ne: "F x \<noteq> f" if "page_of x \<noteq> page_of va" "va \<le> x" "x < addr" for x
          using Fx(2) [OF that] f(2) by metis
        have inj: "page_of x = page_of y"
          if "page_of x \<noteq> page_of va" "page_of y \<noteq> page_of va" "va \<le> x" "x < addr" "va \<le> y" "y < addr" "F x = F y" for x y
          using F later [OF that(1,3)] later [OF that(2,5)] that(4,6,7) unfolding backed_def by blast
        show ?thesis
          unfolding backed_def
        proof (intro conjI allI impI; (elim conjE)?)
          fix x assume x: "va \<le> x" "x < addr"
          show "user_page (mem s') pd x (if page_of x = page_of va then f else F x)"
            using here [of x] Fx(1) [OF _ x] by simp
          show "frame_is_free (frames s) (if page_of x = page_of va then f else F x)"
            using f(1) B(4) Fx(2) [OF _ x] by simp
          show "\<not> frame_is_free (frames s') (if page_of x = page_of va then f else F x)"
            using f(2) IH'(4) Fx(3) [OF _ x] by auto
        next
          fix x y
          assume "va \<le> x" "x < addr" "va \<le> y" "y < addr"
            "(if page_of x = page_of va then f else F x) = (if page_of y = page_of va then f else F y)"
          then show "page_of x = page_of y" using ne [of x] ne [of y] inj [of x y] by (auto split: if_splits)
        qed
      qed
      then have "ok \<Longrightarrow> \<exists>F. backed pd va addr s s' F" using IH'(6) by blast
      then show ?thesis using IH'(1-4,7) B(4) same by auto
    qed
  qed
qed

section \<open>Properties\<close>

text \<open>The process state between two system calls.\<close>

definition proc_inv :: "'a proc_scheme \<Rightarrow> bool" where
  "proc_inv s \<longleftrightarrow> space_wf (cur_pd_phys s) s \<and> cur_pd_phys s \<noteq> 0 \<and> page_of (g_brk s) = g_brk s
     \<and> VERVE_USER_HEAP_BASE \<le> g_brk s \<and> g_brk s < VERVE_USER_HEAP_CAP
     \<and> (\<forall>x. VERVE_USER_HEAP_BASE \<le> x \<and> x < g_brk s \<longrightarrow> (\<exists>f. user_page (mem s) (cur_pd_phys s) x f))"

definition brk_valid :: "u32 \<Rightarrow> 'a proc_scheme \<Rightarrow> bool" where
  "brk_valid addr s \<longleftrightarrow> page_of addr = addr \<and> g_brk s \<le> addr \<and> VERVE_USER_HEAP_BASE \<le> addr \<and> addr < VERVE_USER_HEAP_CAP"

lemma page_off_zero: "addr AND (page_size - 1) = 0 \<longleftrightarrow> page_of addr = addr"
  using aligned_iff [of addr] by (simp add: page_aligned_dvd dvd_eq_mod_eq_0)

lemma sys_brk_cases:
  assumes I: "proc_inv s"
  obtains (query) "addr = 0" "verve_proc_sys_brk addr s = (g_brk s, s)"
  | (invalid) "addr \<noteq> 0" "\<not> brk_valid addr s" "verve_proc_sys_brk addr s = (EINVAL_ret, s)"
  | (grown) s' where "brk_valid addr s" "brk_pages (cur_pd_phys s) (g_brk s) addr s = (True, s')"
      "verve_proc_sys_brk addr s = (addr, s'\<lparr>g_brk := addr\<rparr>)"
  | (failed) s' where "brk_valid addr s" "brk_pages (cur_pd_phys s) (g_brk s) addr s = (False, s')"
      "verve_proc_sys_brk addr s = (ENOMEM_ret, s')"
proof (cases "addr = 0")
  case True
  then show thesis using I query by (simp add: verve_proc_sys_brk_def proc_inv_def)
next
  case nz: False
  note off = page_off_zero [of addr]
  show thesis
  proof (cases "brk_valid addr s")
    case False
    then have "verve_proc_sys_brk addr s = (EINVAL_ret, s)"
      using nz I off by (auto simp: verve_proc_sys_brk_def proc_inv_def brk_valid_def Let_def not_le not_less)
    then show thesis using nz False invalid by blast
  next
    case v: True
    then have v': "page_of addr = addr" "g_brk s \<le> addr" "VERVE_USER_HEAP_BASE \<le> addr" "addr < VERVE_USER_HEAP_CAP"
      by (auto simp: brk_valid_def)
    have triv: "brk_pages (cur_pd_phys s) addr addr s = (True, s)" by (simp add: brk_pages.simps)
    obtain ok s' where run: "brk_pages (cur_pd_phys s) (g_brk s) addr s = (ok, s')"
      by (cases "brk_pages (cur_pd_phys s) (g_brk s) addr s")
    have r: "verve_proc_sys_brk addr s = (if addr = g_brk s then (g_brk s, s)
        else if \<not> ok then (ENOMEM_ret, s') else (addr, s'\<lparr>g_brk := addr\<rparr>))"
    proof -
      have "\<not> addr < g_brk s" "\<not> addr < VERVE_USER_HEAP_BASE" "\<not> addr \<ge> VERVE_USER_HEAP_CAP"
        using v'(2-4) by (auto simp only: not_less not_le)
      moreover have "addr AND (page_size - 1) = 0" using off v'(1) by blast
      moreover have "cur_pd_phys s \<noteq> 0" using I by (simp add: proc_inv_def)
      ultimately show ?thesis
        unfolding verve_proc_sys_brk_def Let_def using nz run by (simp only: if_False refl simp_thms prod.case)
    qed
    show thesis
    proof (cases "addr = g_brk s")
      case True
      then have "ok" "s' = s" using run triv by auto
      then show thesis using v run r True by (intro grown [of s']) auto
    next
      case False
      then show thesis using v run r grown [of s'] failed [of s'] by (cases ok) auto
    qed
  qed
qed

text \<open>
  C15: \<open>sys_brk\<close>.  It answers 0 with the current break; it refuses with \<open>EINVAL\<close>, changing
  nothing, every address that is not page aligned, lies outside the heap area or below the
  current break; otherwise it either moves the break to the address and backs every new
  page by a frame of its own that was free before, or fails with \<open>ENOMEM\<close> and leaves the
  break where it was.  In every case the invariant holds afterwards and all pages outside
  the extension are translated as before.  A failure leaves at most one frame free: the
  frames mapped before it are not given back.
\<close>

theorem sys_brk_correct:
  assumes I: "proc_inv s"
  shows "proc_inv (snd (verve_proc_sys_brk addr s))
    \<and> (if addr = 0 then verve_proc_sys_brk addr s = (g_brk s, s)
       else if \<not> brk_valid addr s then verve_proc_sys_brk addr s = (EINVAL_ret, s)
       else same_spaces (cur_pd_phys s) (g_brk s) (unat addr) (mem s) (mem (snd (verve_proc_sys_brk addr s)))
         \<and> (fst (verve_proc_sys_brk addr s) = addr \<and> g_brk (snd (verve_proc_sys_brk addr s)) = addr
              \<and> (\<exists>F. backed (cur_pd_phys s) (g_brk s) addr s (snd (verve_proc_sys_brk addr s)) F)
            \<or> fst (verve_proc_sys_brk addr s) = ENOMEM_ret \<and> g_brk (snd (verve_proc_sys_brk addr s)) = g_brk s
              \<and> (\<exists>f. \<forall>g. frame_is_free (frames (snd (verve_proc_sys_brk addr s))) g \<longrightarrow> g = f)))"
proof -
  have I': "space_wf (cur_pd_phys s) s" "page_of (g_brk s) = g_brk s" "VERVE_USER_HEAP_BASE \<le> g_brk s"
    "g_brk s < VERVE_USER_HEAP_CAP" "cur_pd_phys s \<noteq> 0"
    "\<And>x. VERVE_USER_HEAP_BASE \<le> x \<Longrightarrow> x < g_brk s \<Longrightarrow> \<exists>f. user_page (mem s) (cur_pd_phys s) x f"
    using I by (auto simp: proc_inv_def)
  have keep: "\<exists>f. user_page (mem s') (cur_pd_phys s) x f"
    if "same_spaces (cur_pd_phys s) (g_brk s) n (mem s) (mem s')" "VERVE_USER_HEAP_BASE \<le> x" "x < g_brk s"
    for s' :: "'a proc_scheme" and n x
    using that I'(6) [OF that(2,3)] by (auto simp: same_spaces_def user_page_def word_less_nat_alt)
  show ?thesis
  proof (cases rule: sys_brk_cases [OF I, of addr])
    case 1
    then show ?thesis using I by simp
  next
    case 2
    then show ?thesis using I by simp
  next
    case (3 s')
    have v: "page_of addr = addr" "g_brk s \<le> addr" "VERVE_USER_HEAP_BASE \<le> addr" "addr < VERVE_USER_HEAP_CAP" "addr \<noteq> 0"
      using 3(1) by (auto simp: brk_valid_def)
    note B = brk_pages_effect [OF I'(1,2) v(1,2) 3(2), simplified]
    then obtain F where F: "backed (cur_pd_phys s) (g_brk s) addr s s' F" by blast
    have same: "same_spaces (cur_pd_phys s) (g_brk s) (unat addr) (mem s) (mem s')"
      and pd: "cur_pd_phys s' = cur_pd_phys s" and wf: "space_wf (cur_pd_phys s) s'" using B by auto
    have "\<exists>f. user_page (mem s') (cur_pd_phys s) x f" if "VERVE_USER_HEAP_BASE \<le> x" "x < addr" for x
      using keep [OF same that(1)] F that(2) unfolding backed_def by (meson not_le)
    moreover have "space_wf (cur_pd_phys s) (s'\<lparr>g_brk := addr\<rparr>)"
      by (rule space_wf_cong [OF wf]) simp_all
    ultimately have "proc_inv (s'\<lparr>g_brk := addr\<rparr>)" using v I'(5) by (simp add: proc_inv_def pd)
    moreover have "backed (cur_pd_phys s) (g_brk s) addr s (s'\<lparr>g_brk := addr\<rparr>) F"
      using F by (simp add: backed_def)
    ultimately show ?thesis using 3(1,3) v(5) same by auto
  next
    case (4 s')
    have v: "page_of addr = addr" "g_brk s \<le> addr" "addr \<noteq> 0"
      using 4(1) by (auto simp: brk_valid_def)
    note B = brk_pages_effect [OF I'(1,2) v(1,2) 4(2), simplified]
    then have "proc_inv s'" using keep [of "unat addr" s'] I'(2-5) by (simp add: proc_inv_def)
    then show ?thesis using 4(1,3) v(3) B by auto
  qed
qed

definition sample_proc :: proc where
  "sample_proc = \<lparr>io_in = \<lambda>_ _. 0x60, io_reads = 0, io_outs = [], g_serial_lock = 0,
     mem = \<lambda>_. 0, cr3 = 0x2000, cr0_pg = True, frames = sample_pmm,
     cur_pid = 1, cur_pd_phys = 0x2000, g_brk = 0x80002000\<rparr>"

lemma sample_proc_wf: "space_wf 0x2000 sample_proc"
  using sample_vm_wf by (simp add: space_wf_def sample_vm_def sample_proc_def)

lemma sample_proc_inv: "proc_inv sample_proc"
  using sample_proc_wf
  by (auto simp: proc_inv_def page_aligned_dvd) (simp_all add: sample_proc_def)

theorem sys_brk_correct_witness:
  "verve_proc_sys_brk 0x80003010 sample_proc = (- 22, sample_proc)"
  using sys_brk_correct [OF sample_proc_inv, of "0x80003010"]
  by (simp add: brk_valid_def page_aligned_dvd)

end
