(* ===== verification/User_Memory.thy ===== *)
theory User_Memory
  imports Proc
begin

text \<open>
  How kernel code reads and writes user addresses after \<open>paging_user_range_ok\<close>: a plain
  load or store that the memory management unit translates with supervisor rights.  An
  address without a mapping faults; the fault handler halts the machine, so the access does
  not return (\<open>None\<close>).  The contract between the range check and the accesses is a locale.
\<close>

definition vtranslate :: "'a vm_scheme \<Rightarrow> u32 \<Rightarrow> u32 option" where
  "vtranslate s va = (if cr0_pg s then mmu_translate (mem s) (cr3 s) False False va else Some va)"

definition vload :: "'a vm_scheme \<Rightarrow> u32 \<Rightarrow> u8 option" where
  "vload s va = map_option (mem s) (vtranslate s va)"

definition vstore :: "u32 \<Rightarrow> u8 \<Rightarrow> 'a vm_scheme \<Rightarrow> 'a vm_scheme option" where
  "vstore va v s = map_option (\<lambda>pa. s\<lparr>mem := (mem s)(pa := v)\<rparr>) (vtranslate s va)"

text \<open>\<open>for (i = 0; i < n; ++i) *(va + i) = c_i;\<close> and the reading counterpart.\<close>

fun store_user :: "u32 \<Rightarrow> u8 list \<Rightarrow> 'a vm_scheme \<Rightarrow> 'a vm_scheme option" where
  "store_user va [] s = Some s"
| "store_user va (c # cs) s = Option.bind (vstore va c s) (store_user (va + 1) cs)"

section \<open>What a user may reach\<close>

text \<open>
  Isolation: the user's pages are none of the frames that hold the directory and tables of
  the address space.
\<close>

definition user_isolated :: "'a vm_scheme \<Rightarrow> bool" where
  "user_isolated s \<longleftrightarrow> (\<forall>va pde pte. mmu_walk (mem s) (page_of (cr3 s)) va = Some (pde, pte) \<longrightarrow> pte AND PTE_US \<noteq> 0 \<longrightarrow>
     page_of pte \<noteq> page_of (cr3 s)
     \<and> (\<forall>i. unat i < 1024 \<longrightarrow> present (pde_of (mem s) (page_of (cr3 s)) i) \<longrightarrow>
          page_of pte \<noteq> page_of (pde_of (mem s) (page_of (cr3 s)) i)))"

lemma mmu_walk_cr3: "mmu_walk m cr va = mmu_walk m (page_of cr) va"
  by (simp add: mmu_walk_def)

lemma page_off_of_byte: "page_of (page_of f OR (va AND 4095)) = page_of f"
  using page_of_or_flags [of f va] by simp

lemma ld32_upd_other_page:
  assumes "page_of pa \<noteq> t" and "page_of t = t" and "unat i < 1024"
  shows "ld32 (m(pa := v)) (entry_at t i) = ld32 m (entry_at t i)"
proof (rule ld32_same_outside)
  show "(m(pa := v)) x = m x" if "\<not> in_range (page_of pa) (4 * 1024) x" for x
    using that by (auto simp: in_page_iff)
  show "\<not> in_range (page_of pa) (4 * 1024) (entry_at t i)"
    using assms by (simp add: in_page_iff page_of_entry_at)
qed (use assms in \<open>simp_all add: entry_at_aligned4 page_aligned4\<close>)

text \<open>Storing into a user page changes no translation.\<close>

lemma user_store_walk:
  assumes iso: "user_isolated s" and w: "mmu_walk (mem s) (page_of (cr3 s)) va = Some (pde, pte)"
    and us: "pte AND PTE_US \<noteq> 0" and pa: "page_of pa = page_of pte"
  shows "mmu_walk ((mem s)(pa := v)) (page_of (cr3 s)) x = mmu_walk (mem s) (page_of (cr3 s)) x"
    and "unat i < 1024 \<Longrightarrow> pde_of ((mem s)(pa := v)) (page_of (cr3 s)) i = pde_of (mem s) (page_of (cr3 s)) i"
proof -
  let ?pd = "page_of (cr3 s)"
  have sep: "page_of pa \<noteq> ?pd"
    "\<And>i. unat i < 1024 \<Longrightarrow> present (pde_of (mem s) ?pd i) \<Longrightarrow> page_of pa \<noteq> page_of (pde_of (mem s) ?pd i)"
    using iso w us pa unfolding user_isolated_def by metis+
  show pde: "pde_of ((mem s)(pa := v)) ?pd i = pde_of (mem s) ?pd i" if "unat i < 1024" for i
    unfolding pde_of_def by (rule ld32_upd_other_page [OF sep(1) page_of_idem that])
  have "ld32 ((mem s)(pa := v)) (entry_at (page_of (pde_of (mem s) ?pd (pd_index x))) (pt_index x))
      = ld32 (mem s) (entry_at (page_of (pde_of (mem s) ?pd (pd_index x))) (pt_index x))"
    if "present (pde_of (mem s) ?pd (pd_index x))"
    by (rule ld32_upd_other_page [OF sep(2) [OF pd_index_lt that] page_of_idem pt_index_lt])
  then show "mmu_walk ((mem s)(pa := v)) ?pd x = mmu_walk (mem s) ?pd x"
    by (auto simp: mmu_walk_pde pde [OF pd_index_lt] Let_def)
qed

lemma user_ok_walk:
  assumes "page_user_ok (mem s) (paging_get_cr3 s) w va"
  obtains pde pte where "mmu_walk (mem s) (page_of (cr3 s)) va = Some (pde, pte)" "pte AND PTE_US \<noteq> 0"
    "mmu_translate (mem s) (cr3 s) False b va = Some (page_of pte OR (va AND 4095))"
proof -
  have "pte_fetch_pd (mem s) (page_of (cr3 s)) va = map_option snd (mmu_walk (mem s) (page_of (cr3 s)) va)"
    by (rule pte_fetch_mmu) simp
  then obtain pde pte where w: "mmu_walk (mem s) (page_of (cr3 s)) va = Some (pde, pte)" "pte AND PTE_US \<noteq> 0"
    using assms by (auto simp: page_user_ok_def paging_get_cr3_def split: option.splits)
  then show thesis
    by (intro that [OF w]) (simp add: mmu_translate_def mmu_walk_cr3 [of _ "cr3 s"] mmu_allows_def)
qed

section \<open>The contract of the range check\<close>

text \<open>
  \<open>check\<close> accepts a range only when every byte of it can then be loaded or stored without
  a fault; a store changes the one byte it translates to and keeps all translations, so the
  rest of the range stays accessible.
\<close>

locale user_access =
  fixes check :: "u32 \<Rightarrow> u32 \<Rightarrow> bool \<Rightarrow> 's \<Rightarrow> bool option"
    and trans :: "'s \<Rightarrow> u32 \<Rightarrow> u32 option"
    and load :: "'s \<Rightarrow> u32 \<Rightarrow> u8 option"
    and store :: "u32 \<Rightarrow> u8 \<Rightarrow> 's \<Rightarrow> 's option"
    and good :: "'s \<Rightarrow> bool"
    and user :: "'s \<Rightarrow> bool \<Rightarrow> u32 \<Rightarrow> bool"
  assumes check_user: "good s \<Longrightarrow> check va n w s = Some True \<Longrightarrow> i < unat n \<Longrightarrow> user s w (va + of_nat i)"
    and user_weak: "user s w va \<Longrightarrow> user s False va"
    and user_trans: "good s \<Longrightarrow> user s False va \<Longrightarrow> \<exists>pa. trans s va = Some pa"
    and store_ok: "good s \<Longrightarrow> user s False va \<Longrightarrow> \<exists>s'. store va v s = Some s'"
    and store_good: "good s \<Longrightarrow> user s False va \<Longrightarrow> store va v s = Some s' \<Longrightarrow> good s' \<and> user s' = user s \<and> trans s' = trans s"
    and load_store: "good s \<Longrightarrow> user s False va \<Longrightarrow> store va v s = Some s' \<Longrightarrow> trans s x = Some pa \<Longrightarrow>
      load s' x = (if trans s x = trans s va then Some v else load s x)"
begin

lemma check_load_ok: "good s \<Longrightarrow> check va n w s = Some True \<Longrightarrow> i < unat n \<Longrightarrow> \<exists>pa. trans s (va + of_nat i) = Some pa"
  using check_user user_weak user_trans by blast

text \<open>A sequence of stores to distinct places is read back as written.\<close>

fun stores :: "u32 \<Rightarrow> u8 list \<Rightarrow> 's \<Rightarrow> 's option" where
  "stores va [] s = Some s"
| "stores va (c # cs) s = Option.bind (store va c s) (stores (va + 1) cs)"

lemma stores_ok:
  "good s \<Longrightarrow> (\<And>i. i < length cs \<Longrightarrow> user s False (va + of_nat i)) \<Longrightarrow>
     \<exists>s'. stores va cs s = Some s' \<and> good s' \<and> user s' = user s \<and> trans s' = trans s
       \<and> (\<forall>x pa. trans s x = Some pa \<longrightarrow> (\<forall>i<length cs. trans s (va + of_nat i) \<noteq> trans s x) \<longrightarrow> load s' x = load s x)"
proof (induction cs arbitrary: va s)
  case Nil
  then show ?case by simp
next
  case (Cons c cs)
  have u: "user s False va" using Cons.prems(2) [of 0] by simp
  obtain s1 where s1: "store va c s = Some s1" using store_ok [OF Cons.prems(1) u] by blast
  note G = store_good [OF Cons.prems(1) u s1]
  have "user s1 False (va + 1 + of_nat i)" if "i < length cs" for i
    using Cons.prems(2) [of "Suc i"] that G by (simp add: algebra_simps)
  from Cons.IH [OF _ this] G obtain s' where s': "stores (va + 1) cs s1 = Some s'" "good s'"
    "user s' = user s" "trans s' = trans s"
    "\<And>x pa. trans s x = Some pa \<Longrightarrow> \<forall>i<length cs. trans s (va + 1 + of_nat i) \<noteq> trans s x \<Longrightarrow> load s' x = load s1 x"
    by auto
  have "load s' x = load s x" if "trans s x = Some pa" "\<forall>i<length (c # cs). trans s (va + of_nat i) \<noteq> trans s x" for x pa
  proof -
    have "\<forall>i<length cs. trans s (va + 1 + of_nat i) \<noteq> trans s x"
      using that(2) by (auto dest: spec [of _ "Suc _"] simp: algebra_simps)
    then have "load s' x = load s1 x" using s'(5) that(1) by blast
    moreover have "trans s va \<noteq> trans s x" using that(2) by (auto dest: spec [of _ 0])
    ultimately show ?thesis using load_store [OF Cons.prems(1) u s1 that(1)] by auto
  qed
  then show ?case using s1 s' by auto
qed

lemma stores_read:
  assumes "good s" "\<And>i. i < length cs \<Longrightarrow> user s False (va + of_nat i)"
    and "\<And>i j. i < length cs \<Longrightarrow> j < length cs \<Longrightarrow> trans s (va + of_nat i) = trans s (va + of_nat j) \<Longrightarrow> i = j"
    and "stores va cs s = Some s'" and "k < length cs"
  shows "load s' (va + of_nat k) = Some (cs ! k)"
  using assms
proof (induction cs arbitrary: va s k)
  case Nil
  then show ?case by simp
next
  case (Cons c cs)
  have u: "user s False va" using Cons.prems(2) [of 0] by simp
  obtain s1 where s1: "store va c s = Some s1" "stores (va + 1) cs s1 = Some s'"
    using Cons.prems(4) by (auto split: option.splits simp: bind_eq_Some_conv)
  note G = store_good [OF Cons.prems(1) u s1(1)]
  have us: "user s1 False (va + 1 + of_nat i)" if "i < length cs" for i
    using Cons.prems(2) [of "Suc i"] that G by (simp add: algebra_simps)
  have inj: "i = j" if "i < length cs" "j < length cs"
    "trans s1 (va + 1 + of_nat i) = trans s1 (va + 1 + of_nat j)" for i j
    using Cons.prems(3) [of "Suc i" "Suc j"] that G by (simp add: algebra_simps)
  show ?case
  proof (cases k)
    case 0
    obtain pa where pa: "trans s va = Some pa" using user_trans [OF Cons.prems(1) u] by blast
    have ne: "\<forall>i<length cs. trans s1 (va + 1 + of_nat i) \<noteq> trans s1 va"
      using Cons.prems(3) [of "Suc _" 0] G by (auto simp: algebra_simps)
    obtain s'' where "stores (va + 1) cs s1 = Some s''"
      "\<forall>x pa. trans s1 x = Some pa \<longrightarrow> (\<forall>i<length cs. trans s1 (va + 1 + of_nat i) \<noteq> trans s1 x) \<longrightarrow> load s'' x = load s1 x"
      using stores_ok [of s1 cs "va + 1"] us G by blast
    then have "load s' va = load s1 va" using s1(2) ne pa G by auto
    then show ?thesis using load_store [OF Cons.prems(1) u s1(1) pa] 0 by simp
  next
    case (Suc l)
    then have "load s' (va + 1 + of_nat l) = Some (cs ! l)"
      using Cons.IH [OF _ us inj s1(2)] G Cons.prems(5) by simp
    then show ?thesis using Suc by (simp add: algebra_simps)
  qed
qed

end

text \<open>The contract holds of the paging code and the memory management unit.\<close>

definition user_good :: "'a vm_scheme \<Rightarrow> bool" where
  "user_good s \<longleftrightarrow> cr0_pg s \<and> user_isolated s \<and> (\<exists>x. \<not> page_user_ok (mem s) (paging_get_cr3 s) False x)"

interpretation umem: user_access paging_user_range_ok vtranslate vload vstore user_good
  "\<lambda>s. page_user_ok (mem s) (paging_get_cr3 s)"
proof unfold_locales
  fix s :: "'a vm_scheme" and va n w i
  have weak: "page_user_ok m pd w va \<Longrightarrow> page_user_ok m pd False va" for m pd va
    by (auto simp: page_user_ok_def split: option.splits)
  show "page_user_ok (mem s) (paging_get_cr3 s) False va" if "page_user_ok (mem s) (paging_get_cr3 s) w va"
    using that by (rule weak)
  assume g: "user_good s"
  show "page_user_ok (mem s) (paging_get_cr3 s) w (va + of_nat i)"
    if c: "paging_user_range_ok va n w s = Some True" "i < unat n"
  proof -
    obtain x where "\<not> page_user_ok (mem s) (paging_get_cr3 s) w x" using g weak by (auto simp: user_good_def)
    then have "n = 0 \<or> (\<forall>i<unat n. page_user_ok (mem s) (paging_get_cr3 s) w (va + of_nat i))"
      using user_range_exact [of s w x va n] c(1) by auto
    then show ?thesis using c(2) by auto
  qed
  assume u: "page_user_ok (mem s) (paging_get_cr3 s) False va"
  obtain pde pte where W: "mmu_walk (mem s) (page_of (cr3 s)) va = Some (pde, pte)" "pte AND PTE_US \<noteq> 0"
    "mmu_translate (mem s) (cr3 s) False False va = Some (page_of pte OR (va AND 4095))"
    by (rule user_ok_walk [OF u])
  let ?pa = "page_of pte OR (va AND 4095)"
  have t: "vtranslate s va = Some ?pa" using g W(3) by (simp add: vtranslate_def user_good_def)
  then show "\<exists>pa. vtranslate s va = Some pa" "\<exists>s'. vstore va v s = Some s'" for v
    by (auto simp: vstore_def)
  have iso: "user_isolated s" using g by (simp add: user_good_def)
  note S = user_store_walk [OF iso W(1,2) page_off_of_byte]
  show "user_good s' \<and> page_user_ok (mem s') (paging_get_cr3 s')
      = page_user_ok (mem s) (paging_get_cr3 s) \<and> vtranslate s' = vtranslate s"
    if st: "vstore va v s = Some s'" for v s'
  proof -
    have s': "s' = s\<lparr>mem := (mem s)(?pa := v)\<rparr>" using st t by (simp add: vstore_def)
    have p: "page_user_ok (mem s') (paging_get_cr3 s') = page_user_ok (mem s) (paging_get_cr3 s)"
      by (simp add: s' fun_eq_iff page_user_ok_def paging_get_cr3_def pte_fetch_mmu S(1))
    have tr: "vtranslate s' = vtranslate s"
      by (simp add: s' fun_eq_iff vtranslate_def mmu_translate_def mmu_walk_cr3 [of _ "cr3 s"] S(1))
    have "user_isolated s'"
      using iso unfolding user_isolated_def by (simp add: s' S(1) S(2) cong: imp_cong)
    then show ?thesis using g p tr s' by (simp add: user_good_def)
  qed
  show "vload s' x = (if vtranslate s x = vtranslate s va then Some v else vload s x)"
    if st: "vstore va v s = Some s'" and x: "vtranslate s x = Some pa" for v s' x pa
  proof -
    have s': "s' = s\<lparr>mem := (mem s)(?pa := v)\<rparr>" using st t by (simp add: vstore_def)
    have tr: "vtranslate s' x = vtranslate s x"
      by (simp add: s' vtranslate_def mmu_translate_def mmu_walk_cr3 [of _ "cr3 s"] S(1))
    show ?thesis using x t by (simp add: vload_def tr) (simp add: s')
  qed
qed

section \<open>A sample user page\<close>

text \<open>
  For the examples: a directory at \<open>0x2000\<close> whose entry 512 points to the table at \<open>0x4000\<close>,
  which maps the page \<open>0x80000000\<close> to the frame \<open>0x5000\<close> with all user rights; the frame
  starts with the bytes \<open>bs\<close>.
\<close>

definition sample_user_mem :: "u8 list \<Rightarrow> memory" where
  "sample_user_mem bs =
     store_bytes (st32 (st32 (\<lambda>_. 0) (entry_at 0x2000 512) 0x4007) (entry_at 0x4000 0) 0x5007) 0x5000 bs"

lemma sample_pages: "page_of 0x2000 = 0x2000" "page_of 0x4000 = 0x4000" "page_of 0x5000 = 0x5000"
  "page_of 0x4007 = 0x4000" "page_of 0x5007 = 0x5000"
  by (simp_all add: page_of_def)

lemma sample_user_entry:
  assumes "length bs \<le> 4096" and "unat j < 1024" and "page_of t = t" and "t \<noteq> 0x5000"
  shows "ld32 (sample_user_mem bs) (entry_at t j)
    = (if t = 0x2000 \<and> j = 512 then 0x4007 else if t = 0x4000 \<and> j = 0 then 0x5007 else 0)"
proof -
  let ?m = "st32 (st32 (\<lambda>_. 0) (entry_at 0x2000 512) 0x4007) (entry_at 0x4000 0) 0x5007"
  have "ld32 (sample_user_mem bs) (entry_at t j) = ld32 ?m (entry_at t j)"
    unfolding sample_user_mem_def
  proof (rule ld32_same_outside)
    show "store_bytes ?m 0x5000 bs x = ?m x" if "\<not> in_range 0x5000 (4 * 1024) x" for x
      using that assms(1) in_range_mono [of "0x5000" "length bs" x "4 * 1024"]
      by (intro store_bytes_out) auto
    show "\<not> in_range 0x5000 (4 * 1024) (entry_at t j)"
      using assms sample_pages by (simp add: in_page_iff page_of_entry_at)
  qed (use assms in \<open>simp_all add: entry_at_aligned4\<close>)
  also have "\<dots> = (if t = 0x2000 \<and> j = 512 then 0x4007 else if t = 0x4000 \<and> j = 0 then 0x5007 else 0)"
    using assms by (auto simp: ld_st_entry sample_pages) (simp_all add: ld32_def)
  finally show ?thesis .
qed

lemma sample_user_walk:
  assumes "length bs \<le> 4096"
  shows "mmu_walk (sample_user_mem bs) 0x2000 va = (if page_of va = 0x80000000 then Some (0x4007, 0x5007) else None)"
proof -
  have pde: "pde_of (sample_user_mem bs) 0x2000 i = (if i = 512 then 0x4007 else 0)" if "unat i < 1024" for i
    using sample_user_entry [OF assms that sample_pages(1)] by (simp add: pde_of_def)
  have base: "pd_index 0x80000000 = 512" "pt_index 0x80000000 = 0" "page_of 0x80000000 = 0x80000000"
    by (simp_all add: pd_index_def pt_index_def page_of_def)
  have pte: "ld32 (sample_user_mem bs) (entry_at 0x4000 (pt_index va)) = (if pt_index va = 0 then 0x5007 else 0)"
    using sample_user_entry [OF assms pt_index_lt sample_pages(2)] by simp
  have "page_of va = 0x80000000 \<longleftrightarrow> pd_index va = 512 \<and> pt_index va = 0"
    using page_indices [of va "0x80000000"] base by simp
  then show ?thesis
    using pte by (auto simp: mmu_walk_pde [OF sample_pages(1)] pde [OF pd_index_lt] Let_def present_def sample_pages)
qed

definition sample_user :: "u8 list \<Rightarrow> proc" where
  "sample_user bs = sample_proc\<lparr>mem := sample_user_mem bs\<rparr>"

lemma sample_user_good:
  assumes "length bs \<le> 4096" and "mem s = sample_user_mem bs" and "cr3 s = 0x2000" and "cr0_pg s"
  shows "user_good s"
proof -
  have pde: "pde_of (sample_user_mem bs) 0x2000 i = (if i = 512 then 0x4007 else 0)" if "unat i < 1024" for i
    using sample_user_entry [OF assms(1) that sample_pages(1)] by (simp add: pde_of_def)
  have "user_isolated s"
    by (auto simp: user_isolated_def assms sample_pages sample_user_walk pde present_def split: if_splits)
  moreover have "\<not> page_user_ok (mem s) (paging_get_cr3 s) False 0"
    by (simp add: page_user_ok_def paging_get_cr3_def assms(2-) sample_pages pte_fetch_mmu sample_user_walk [OF assms(1)]
      page_of_def)
  ultimately show ?thesis using assms(4) by (auto simp: user_good_def)
qed

lemma sample_user_ok:
  assumes "length bs \<le> 4096" and "mem s = sample_user_mem bs" and "cr3 s = 0x2000" and "cr0_pg s"
  shows "page_user_ok (mem s) (paging_get_cr3 s) w va \<longleftrightarrow> page_of va = 0x80000000"
    and "vtranslate s va = (if page_of va = 0x80000000 then Some (0x5000 OR (va AND 4095)) else None)"
  by (simp_all add: page_user_ok_def paging_get_cr3_def assms(2-) sample_pages pte_fetch_mmu
      sample_user_walk [OF assms(1)] vtranslate_def mmu_translate_def mmu_allows_def)

lemma page_plus: "page_of b = b \<Longrightarrow> i < 4096 \<Longrightarrow> page_of (b + of_nat i) = b"
  using in_range_plus [of i 4096 b] by (simp add: in_page_iff)

lemma page_off_plus:
  assumes "page_of b = b" and "i < 4096"
  shows "(b + of_nat i) AND 4095 = of_nat i"
proof -
  have d: "4096 dvd unat b" using assms(1) by (simp add: page_aligned_dvd)
  have "unat b \<le> 4294963200" using page_aligned_top [OF assms(1)] by (simp add: word_le_nat_alt)
  then have "unat (b + of_nat i) = unat b + i" using assms(2) by (intro unat_plus32) linarith
  then have "unat ((b + of_nat i) AND 4095) = i" using d assms(2) by (simp add: unat_page_off mod_add_eq [symmetric])
  moreover have "unat (of_nat i :: u32) = i" using assms(2) by (intro unat_of_nat32) linarith
  ultimately show ?thesis by (simp only: word_unat_eq_iff)
qed

lemma sample_user_load:
  assumes "length bs \<le> 4096" and "mem s = sample_user_mem bs" and "cr3 s = 0x2000" and "cr0_pg s" and "i < length bs"
  shows "vload s (0x80000000 + of_nat i) = Some (bs ! i)"
proof -
  have lt: "i < 4096" using assms by simp
  have b: "page_of 0x80000000 = 0x80000000" by (simp add: page_of_def)
  have "0x5000 OR (of_nat i :: u32) = 0x5000 + of_nat i"
    using page_and_offset [of "0x5000 + of_nat i"] page_plus [OF sample_pages(3) lt] page_off_plus [OF sample_pages(3) lt] by simp
  then have "vtranslate s (0x80000000 + of_nat i) = Some (0x5000 + of_nat i)"
    using sample_user_ok(2) [OF assms(1-4), of "0x80000000 + of_nat i"] page_plus [OF b lt] page_off_plus [OF b lt] by simp
  moreover have "sample_user_mem bs (0x5000 + of_nat i) = bs ! i"
    unfolding sample_user_mem_def using assms(1,5) by (intro store_bytes_in) auto
  ultimately show ?thesis by (simp add: vload_def assms(2))
qed

end
