(* ===== verification/Fd_Interface.thy ===== *)
theory Fd_Interface
  imports Prelude
begin

text \<open>
  The interface between the file system and the programs that use it: a table of
  descriptors, each with the bytes it still has to deliver (\<open>rest s fd\<close>, \<open>None\<close> for a
  descriptor that is not open), a read that fills a user buffer and a close.  A program
  that reads one descriptor into any sequence of good buffers gets the file's bytes in
  order, none lost and none twice, whatever it does with other descriptors in between.
\<close>

locale fd_table =
  fixes inv :: "'s \<Rightarrow> bool"
    and rest :: "'s \<Rightarrow> u32 \<Rightarrow> u8 list option"
    and buf_ok :: "'s \<Rightarrow> u32 \<Rightarrow> u32 \<Rightarrow> bool"
    and load :: "'s \<Rightarrow> u32 \<Rightarrow> u8 option"
    and rd :: "u32 \<Rightarrow> u32 \<Rightarrow> u32 \<Rightarrow> 's \<Rightarrow> (u32 \<times> 's) option"
    and cls :: "u32 \<Rightarrow> 's \<Rightarrow> 's"
  assumes rd_ok: "inv s \<Longrightarrow> rest s fd = Some bs \<Longrightarrow> buf_ok s buf n \<Longrightarrow>
      \<exists>r s'. rd fd buf n s = Some (r, s') \<and> unat r = min (unat n) (length bs) \<and> inv s'
        \<and> rest s' = (rest s)(fd \<mapsto> drop (unat n) bs) \<and> buf_ok s' = buf_ok s
        \<and> (\<forall>i<unat r. load s' (buf + of_nat i) = Some (bs ! i))"
    and cls_ok: "inv s \<Longrightarrow> inv (cls fd s) \<and> rest (cls fd s) = (rest s)(fd := None) \<and> buf_ok (cls fd s) = buf_ok s"
begin

text \<open>
  One turn of a program: a read of descriptor \<open>fd\<close>, after which it looks at its buffer, or
  the close of another one.
\<close>

fun session :: "u32 \<Rightarrow> ((u32 \<times> u32) + u32) list \<Rightarrow> 's \<Rightarrow> (u8 list \<times> 's) option" where
  "session fd [] s = Some ([], s)"
| "session fd (Inl (buf, n) # xs) s =
     (case rd fd buf n s of None \<Rightarrow> None
      | Some (r, s1) \<Rightarrow> map_option (\<lambda>(cs, s2). (map (\<lambda>i. the (load s1 (buf + of_nat i))) [0..<unat r] @ cs, s2))
          (session fd xs s1))"
| "session fd (Inr g # xs) s = session fd xs (cls g s)"

definition asked :: "((u32 \<times> u32) + u32) list \<Rightarrow> nat" where
  "asked xs = sum_list (map (\<lambda>x. case x of Inl (b, n) \<Rightarrow> unat n | Inr g \<Rightarrow> 0) xs)"

definition fine :: "u32 \<Rightarrow> 's \<Rightarrow> ((u32 \<times> u32) + u32) list \<Rightarrow> bool" where
  "fine fd s xs \<longleftrightarrow> (\<forall>x\<in>set xs. case x of Inl (b, n) \<Rightarrow> buf_ok s b n | Inr g \<Rightarrow> g \<noteq> fd)"

lemma session_stream:
  assumes "inv s" and "rest s fd = Some bs" and "fine fd s xs"
  shows "\<exists>s'. session fd xs s = Some (take (asked xs) bs, s') \<and> inv s' \<and> rest s' fd = Some (drop (asked xs) bs)"
  using assms
proof (induction xs arbitrary: s bs)
  case Nil
  then show ?case by (simp add: asked_def)
next
  case (Cons x xs)
  show ?case
  proof (cases x)
    case (Inl p)
    then obtain b n where p: "x = Inl (b, n)" by (cases p) simp
    then have "buf_ok s b n" using Cons.prems(3) by (simp add: fine_def)
    from rd_ok [OF Cons.prems(1,2) this] obtain r s1 where
      R: "rd fd b n s = Some (r, s1)" "unat r = min (unat n) (length bs)" "inv s1"
        "rest s1 = (rest s)(fd \<mapsto> drop (unat n) bs)" "buf_ok s1 = buf_ok s"
        "\<forall>i<unat r. load s1 (b + of_nat i) = Some (bs ! i)" by blast
    have "fine fd s1 xs" using Cons.prems(3) unfolding fine_def R(5) by simp
    then obtain s' where s': "session fd xs s1 = Some (take (asked xs) (drop (unat n) bs), s')" "inv s'"
      "rest s' fd = Some (drop (asked xs) (drop (unat n) bs))"
      using Cons.IH [of s1 "drop (unat n) bs"] R by auto
    have "map (\<lambda>i. the (load s1 (b + of_nat i))) [0..<unat r] = take (unat n) bs"
      using R(2,6) by (intro nth_equalityI) auto
    moreover have "asked (x # xs) = unat n + asked xs" by (simp add: asked_def p)
    moreover have "take (unat n + asked xs) bs = take (unat n) bs @ take (asked xs) (drop (unat n) bs)"
      "drop (unat n + asked xs) bs = drop (asked xs) (drop (unat n) bs)"
      by (rule take_add) (simp add: add.commute)
    ultimately show ?thesis using s' R(1) by (simp add: p del: drop_drop)
  next
    case (Inr g)
    then have "g \<noteq> fd" using Cons.prems(3) by (simp add: fine_def)
    moreover have "fine fd (cls g s) xs"
      using Cons.prems(3) unfolding fine_def cls_ok [OF Cons.prems(1), of g, THEN conjunct2, THEN conjunct2] by simp
    ultimately show ?thesis
      using Cons.IH [of "cls g s" bs] cls_ok [OF Cons.prems(1), of g] Cons.prems(2) Inr
      by (simp add: asked_def)
  qed
qed

end

end
