(* ===== verification/Vfs_Ram.thy ===== *)
theory Vfs_Ram
  imports User_Memory Fd_Interface
begin

text \<open>
  \<open>kernel/vfs_ram.c\<close>: the read-only file system with its two built-in files and the table of
  open files.  The state extends the process state with the table.  Functions that touch
  user memory return \<open>None\<close> when an access faults or a range check does not return;
  \<open>strcmp_v\<close> and the copy loops return \<open>None\<close> when they would read or write outside an
  object or read a byte of the path buffer that was never written.
\<close>

record ufd =
  used :: u8
  vfidx :: u8
  pos :: u32

record vfs_ent =
  ent_path :: "u8 list"
  ent_data :: "u8 list"
  ent_len :: u32

record kern = proc +
  g_ufd :: "ufd list"

section \<open>The files\<close>

definition s_hello_data :: "u8 list" where
  "s_hello_data = cstr ''Hello from VerveOS ramfs (vfs_ram.c).'' @ [13, 10, 0]"

definition s_exit_bin :: "u8 list" where
  "s_exit_bin = [0xB8, 0x03, 0x00, 0x00, 0x00, 0x31, 0xDB, 0xCD, 0x80]"

definition g_vfs_files :: "vfs_ent list" where
  "g_vfs_files =
     [\<lparr>ent_path = cstr ''/hello.txt'' @ [0], ent_data = s_hello_data, ent_len = of_nat (length s_hello_data) - 1\<rparr>,
      \<lparr>ent_path = cstr ''/exit.bin'' @ [0], ent_data = s_exit_bin, ent_len = of_nat (length s_exit_bin)\<rparr>]"

abbreviation (input) VFS_MAX_PATH :: nat where "VFS_MAX_PATH \<equiv> 96"
abbreviation (input) VFS_MAX_UFD :: nat where "VFS_MAX_UFD \<equiv> 12"
abbreviation (input) VFS_FD_BASE :: u32 where "VFS_FD_BASE \<equiv> 3"
abbreviation (input) ENOENT_ret :: u32 where "ENOENT_ret \<equiv> - 2"
abbreviation (input) EBADF_ret :: u32 where "EBADF_ret \<equiv> - 9"
abbreviation (input) EFAULT_ret :: u32 where "EFAULT_ret \<equiv> - 14"
abbreviation (input) EMFILE_ret :: u32 where "EMFILE_ret \<equiv> - 24"

section \<open>The code\<close>

fun strcmp_v :: "u8 list \<Rightarrow> u8 list \<Rightarrow> int option" where
  "strcmp_v (a # as) (b # bs) = (if a \<noteq> 0 \<and> a = b then strcmp_v as bs else Some (uint a - uint b))"
| "strcmp_v as bs = None"

text \<open>The path buffer is the list of the bytes written to it so far.\<close>

fun copy_path :: "u32 \<Rightarrow> nat \<Rightarrow> nat \<Rightarrow> u8 list \<Rightarrow> 'a vm_scheme \<Rightarrow> (int \<times> u8 list) option" where
  "copy_path uva i 0 out s = Some (0, out @ [0])"
| "copy_path uva i (Suc left) out s =
     (case paging_user_range_ok (uva + of_nat i) 1 False s of None \<Rightarrow> None
      | Some ok \<Rightarrow>
          if \<not> ok then Some (- 1, out)
          else case vload s (uva + of_nat i) of None \<Rightarrow> None
            | Some c \<Rightarrow> if c = 0 then Some (0, out @ [c]) else copy_path uva (i + 1) left (out @ [c]) s)"

definition copy_user_path :: "u32 \<Rightarrow> nat \<Rightarrow> 'a vm_scheme \<Rightarrow> (int \<times> u8 list) option" where
  "copy_user_path uva outsz s =
     (if outsz = 0 then Some (- 1, []) else copy_path uva 0 (outsz - 1) [] s)"

fun find_ent :: "u8 list \<Rightarrow> vfs_ent list \<Rightarrow> u32 \<Rightarrow> u32 option" where
  "find_ent path [] i = Some (- 1)"
| "find_ent path (e # es) i =
     (case strcmp_v path (ent_path e) of None \<Rightarrow> None
      | Some d \<Rightarrow> if d = 0 then Some i else find_ent path es (i + 1))"

definition vfs_find :: "u8 list \<Rightarrow> u32 option" where
  "vfs_find path = find_ent path g_vfs_files 0"

definition verve_vfs_get_file_k :: "u8 list \<Rightarrow> (u32 \<times> (u8 list \<times> u32) option) option" where
  "verve_vfs_get_file_k path =
     (case vfs_find path of None \<Rightarrow> None
      | Some ix \<Rightarrow>
          if sint ix < 0 then Some (ENOENT_ret, None)
          else let fe = g_vfs_files ! unat ix in Some (0, Some (ent_data fe, ent_len fe)))"

definition ufd_alloc :: "u8 \<Rightarrow> 'a kern_scheme \<Rightarrow> u32 \<times> 'a kern_scheme" where
  "ufd_alloc vf s =
     (case first_index (\<lambda>k. used (g_ufd s ! k) = 0) 0 VFS_MAX_UFD of
        None \<Rightarrow> (EMFILE_ret, s)
      | Some k \<Rightarrow> (VFS_FD_BASE + of_nat k,
          s\<lparr>g_ufd := (g_ufd s)[k := (g_ufd s ! k)\<lparr>used := 1, vfidx := vf, pos := 0\<rparr>]\<rparr>))"

definition verve_vfs_init :: "'a kern_scheme \<Rightarrow> 'a kern_scheme option" where
  "verve_vfs_init s =
     (let s1 = s\<lparr>g_ufd := map (\<lambda>i. (g_ufd s ! i)\<lparr>used := 0, vfidx := 0, pos := 0\<rparr>) [0..<VFS_MAX_UFD]\<rparr>
      in Option.bind (serial_puts (cstr ''[VerveOS] vfs_ram: '') s1) (\<lambda>s2.
         Option.bind (serial_put_u64_hex (of_nat (length g_vfs_files)) s2) (\<lambda>s3.
         serial_puts (cstr '' static file(s)'' @ [13, 10]) s3)))"

text \<open>The slot of an open descriptor; \<open>int32_t\<close> comparisons are signed.\<close>

definition vfs_get_ufd :: "u32 \<Rightarrow> 'a kern_scheme \<Rightarrow> nat option" where
  "vfs_get_ufd fd s =
     (if sint fd < sint VFS_FD_BASE then None
      else let slot = fd - VFS_FD_BASE
        in if sint slot < 0 \<or> sint slot \<ge> int VFS_MAX_UFD then None
           else if used (g_ufd s ! unat slot) = 0 then None
           else Some (unat slot))"

definition verve_vfs_open_u :: "u32 \<Rightarrow> 'a kern_scheme \<Rightarrow> (u32 \<times> 'a kern_scheme) option" where
  "verve_vfs_open_u path_va s =
     (case copy_user_path path_va VFS_MAX_PATH s of None \<Rightarrow> None
      | Some (cop, kpath) \<Rightarrow>
          if cop \<noteq> 0 then Some (EFAULT_ret, s)
          else case vfs_find kpath of None \<Rightarrow> None
            | Some vfid \<Rightarrow> if sint vfid < 0 then Some (ENOENT_ret, s) else Some (ufd_alloc (ucast vfid) s))"

text \<open>\<open>for (i = 0; i < n; ++i) *(buf_va + i) = fe->data[p + i];\<close>\<close>

fun copy_out :: "u32 \<Rightarrow> u8 list \<Rightarrow> u32 \<Rightarrow> u32 \<Rightarrow> nat \<Rightarrow> 'a vm_scheme \<Rightarrow> 'a vm_scheme option" where
  "copy_out buf_va data p i 0 s = Some s"
| "copy_out buf_va data p i (Suc left) s =
     (if unat (p + i) < length data
      then Option.bind (vstore (buf_va + i) (data ! unat (p + i)) s) (copy_out buf_va data p (i + 1) left)
      else None)"

definition verve_vfs_read_u :: "u32 \<Rightarrow> u32 \<Rightarrow> u32 \<Rightarrow> 'a kern_scheme \<Rightarrow> (u32 \<times> 'a kern_scheme) option" where
  "verve_vfs_read_u fd buf_va len s =
     (case vfs_get_ufd fd s of None \<Rightarrow> Some (EBADF_ret, s)
      | Some slot \<Rightarrow>
          let u = g_ufd s ! slot; fe = g_vfs_files ! unat (vfidx u)
          in if len = 0 then Some (0, s)
             else let len' = (if len > 4096 then 4096 else len)
               in case paging_user_range_ok buf_va len' True s of None \<Rightarrow> None
                  | Some ok \<Rightarrow>
                      if \<not> ok then Some (EFAULT_ret, s)
                      else if pos u \<ge> ent_len fe then Some (0, s)
                      else let want = ent_len fe - pos u;
                               got = (if want > len' then len' else want);
                               p = pos u;
                               s1 = s\<lparr>g_ufd := (g_ufd s)[slot := u\<lparr>pos := p + got\<rparr>]\<rparr>
                           in map_option (\<lambda>s2. (got, s2)) (copy_out buf_va (ent_data fe) p 0 (unat got) s1))"

definition verve_vfs_close_u :: "u32 \<Rightarrow> 'a kern_scheme \<Rightarrow> 'a kern_scheme" where
  "verve_vfs_close_u fd s =
     (if sint fd < sint VFS_FD_BASE then s
      else case vfs_get_ufd fd s of None \<Rightarrow> s
        | Some slot \<Rightarrow> s\<lparr>g_ufd := (g_ufd s)[slot := (g_ufd s ! slot)\<lparr>used := 0\<rparr>]\<rparr>)"

text \<open>The kernel's own variants.\<close>

definition vfs_open_k :: "u8 list \<Rightarrow> 'a kern_scheme \<Rightarrow> (u32 \<times> 'a kern_scheme) option" where
  "vfs_open_k path s =
     (case vfs_find path of None \<Rightarrow> None
      | Some vfid \<Rightarrow> if sint vfid < 0 then Some (ENOENT_ret, s) else Some (ufd_alloc (ucast vfid) s))"

fun copy_k :: "u8 list \<Rightarrow> u8 list \<Rightarrow> u32 \<Rightarrow> nat \<Rightarrow> nat \<Rightarrow> u8 list option" where
  "copy_k kbuf data p i 0 = Some kbuf"
| "copy_k kbuf data p i (Suc left) =
     (if unat (p + of_nat i) < length data \<and> i < length kbuf
      then copy_k (kbuf[i := data ! unat (p + of_nat i)]) data p (i + 1) left
      else None)"

definition vfs_read_k :: "u32 \<Rightarrow> u8 list \<Rightarrow> u32 \<Rightarrow> 'a kern_scheme \<Rightarrow> (u32 \<times> u8 list \<times> 'a kern_scheme) option" where
  "vfs_read_k fd kbuf len s =
     (case vfs_get_ufd fd s of None \<Rightarrow> Some (EBADF_ret, kbuf, s)
      | Some slot \<Rightarrow>
          let u = g_ufd s ! slot; fe = g_vfs_files ! unat (vfidx u)
          in if len = 0 \<or> pos u \<ge> ent_len fe then Some (0, kbuf, s)
             else let want = ent_len fe - pos u;
                      got = (if want > len then len else want);
                      p = pos u;
                      s1 = s\<lparr>g_ufd := (g_ufd s)[slot := u\<lparr>pos := p + got\<rparr>]\<rparr>
                  in map_option (\<lambda>b. (got, b, s1)) (copy_k kbuf (ent_data fe) p 0 (unat got)))"

text \<open>\<open>junk\<close> is what the automatic array \<open>buf\<close> of 48 bytes holds on entry.\<close>

definition verve_vfs_selftest :: "u8 list \<Rightarrow> 'a kern_scheme \<Rightarrow> 'a kern_scheme option" where
  "verve_vfs_selftest junk s =
     Option.bind (vfs_open_k (cstr ''/hello.txt'' @ [0]) s) (\<lambda>(fd, s1).
       if sint fd < 0 then serial_puts (cstr ''[VerveOS] vfs selftest: open failed'' @ [13, 10]) s1
       else Option.bind (vfs_read_k fd junk (48 - 1) s1) (\<lambda>(n, buf, s2).
         if sint n \<le> 0 then
           map_option (verve_vfs_close_u fd)
             (serial_puts (cstr ''[VerveOS] vfs selftest: read failed'' @ [13, 10]) s2)
         else let buf' = buf[if n < 48 then unat n else 47 := 0]
           in Option.bind (serial_puts (cstr ''[VerveOS] vfs selftest read: '') s2) (\<lambda>s3.
              map_option (verve_vfs_close_u fd) (serial_puts (takeWhile (\<lambda>c. c \<noteq> 0) buf') s3))))"

section \<open>Names\<close>

lemma strcmp_cstr:
  assumes "0 \<notin> set p" and "0 \<notin> set q"
  shows "\<exists>d. strcmp_v (p @ 0 # x) (q @ 0 # y) = Some d \<and> (d = 0 \<longleftrightarrow> p = q)"
  using assms
proof (induction p arbitrary: q)
  case Nil
  then show ?case by (cases q) (auto simp: word_uint_eq_iff)
next
  case (Cons a p)
  show ?case
  proof (cases q)
    case Nil
    then show ?thesis using Cons.prems by (auto simp: word_uint_eq_iff)
  next
    case (Cons b r)
    then show ?thesis using Cons.prems Cons.IH [of r] by (auto simp: word_uint_eq_iff)
  qed
qed

definition hello_name :: "u8 list" where "hello_name = cstr ''/hello.txt''"
definition exit_name :: "u8 list" where "exit_name = cstr ''/exit.bin''"

definition file_of :: "u8 list \<Rightarrow> u32 option" where
  "file_of p = (if p = hello_name then Some 0 else if p = exit_name then Some 1 else None)"

lemma names: "0 \<notin> set hello_name" "0 \<notin> set exit_name" "hello_name \<noteq> exit_name"
  by (simp_all add: hello_name_def exit_name_def cstr_def)

lemma vfs_find_cstr:
  assumes "0 \<notin> set p"
  shows "vfs_find (p @ 0 # x) = Some (case file_of p of None \<Rightarrow> - 1 | Some i \<Rightarrow> i)"
proof -
  obtain d e where "strcmp_v (p @ 0 # x) (hello_name @ [0]) = Some d" "d = 0 \<longleftrightarrow> p = hello_name"
    "strcmp_v (p @ 0 # x) (exit_name @ [0]) = Some e" "e = 0 \<longleftrightarrow> p = exit_name"
    using strcmp_cstr [OF assms names(1), of x "[]"] strcmp_cstr [OF assms names(2), of x "[]"] by auto
  then show ?thesis
    by (simp add: vfs_find_def g_vfs_files_def file_of_def flip: hello_name_def exit_name_def)
qed

lemma find_ix_sign: "sint (- 1 :: u32) < 0" "\<not> sint (0 :: u32) < 0" "\<not> sint (1 :: u32) < 0"
  by simp_all

section \<open>Descriptors\<close>

lemma vfs_get_ufd_iff:
  "vfs_get_ufd fd s = Some k \<longleftrightarrow> k < 12 \<and> fd = 3 + of_nat k \<and> used (g_ufd s ! k) \<noteq> 0"
proof -
  have A: "unat (fd - 3) < 12 \<and> fd = 3 + of_nat (unat (fd - 3))" if "0 \<le> sint (fd - 3)" "sint (fd - 3) < 12"
  proof -
    have "uint (fd - 3) = sint (fd - 3)"
      using that by (simp only: uint_sint) (rule take_bit_int_eq_self, simp_all)
    then have "int (unat (fd - 3)) < 12" using that(2) by simp
    then have "unat (fd - 3) < 12" by linarith
    then show ?thesis by simp
  qed
  have B: "\<not> sint fd < 3 \<and> 0 \<le> sint (fd - 3) \<and> sint (fd - 3) < 12 \<and> unat (fd - 3) = k"
    if "k < 12" "fd = 3 + of_nat k"
  proof -
    have "k = 0 \<or> k = 1 \<or> k = 2 \<or> k = 3 \<or> k = 4 \<or> k = 5 \<or> k = 6 \<or> k = 7 \<or> k = 8 \<or> k = 9 \<or> k = 10 \<or> k = 11"
      using that(1) by presburger
    then show ?thesis using that(2) by (elim disjE) simp_all
  qed
  show ?thesis
    using A B by (auto simp: vfs_get_ufd_def Let_def not_le)
qed

lemma slot_eq: "k < 12 \<Longrightarrow> j < 12 \<Longrightarrow> (of_nat k :: u32) = of_nat j \<longleftrightarrow> k = j"
  by (rule of_nat_eq_iff32) simp_all

text \<open>The table between two calls: 12 slots, every open one within its file.\<close>

definition vfs_inv :: "'a kern_scheme \<Rightarrow> bool" where
  "vfs_inv s \<longleftrightarrow> length (g_ufd s) = 12
     \<and> (\<forall>k<12. used (g_ufd s ! k) \<noteq> 0 \<longrightarrow> unat (vfidx (g_ufd s ! k)) < 2
          \<and> pos (g_ufd s ! k) \<le> ent_len (g_vfs_files ! unat (vfidx (g_ufd s ! k))))"

definition file_bytes :: "nat \<Rightarrow> u8 list" where
  "file_bytes i = take (unat (ent_len (g_vfs_files ! i))) (ent_data (g_vfs_files ! i))"

definition slot_rest :: "ufd \<Rightarrow> u8 list" where
  "slot_rest u = drop (unat (pos u)) (file_bytes (unat (vfidx u)))"

definition fd_rest :: "'a kern_scheme \<Rightarrow> u32 \<Rightarrow> u8 list option" where
  "fd_rest s fd = (case vfs_get_ufd fd s of None \<Rightarrow> None | Some k \<Rightarrow> Some (slot_rest (g_ufd s ! k)))"

lemma fd_rest_iff: "fd_rest s fd = Some bs \<longleftrightarrow>
    (\<exists>k<12. fd = 3 + of_nat k \<and> used (g_ufd s ! k) \<noteq> 0 \<and> bs = slot_rest (g_ufd s ! k))"
proof (cases "vfs_get_ufd fd s")
  case None
  then have "\<not> (\<exists>k<12. fd = 3 + of_nat k \<and> used (g_ufd s ! k) \<noteq> 0)"
    using vfs_get_ufd_iff [of fd s] by (metis option.discI)
  then show ?thesis using None by (auto simp: fd_rest_def)
next
  case (Some k)
  then have k: "k < 12" "fd = 3 + of_nat k" "used (g_ufd s ! k) \<noteq> 0" by (auto simp: vfs_get_ufd_iff)
  have "fd_rest s fd = Some (slot_rest (g_ufd s ! k))" using Some by (simp add: fd_rest_def)
  then show ?thesis using k by (auto simp: slot_eq)
qed

lemma file_lens: "unat (ent_len (g_vfs_files ! 0)) = 39" "length (ent_data (g_vfs_files ! 0)) = 40"
  "unat (ent_len (g_vfs_files ! 1)) = 9" "length (ent_data (g_vfs_files ! 1)) = 9"
  by (simp_all add: g_vfs_files_def s_hello_data_def s_exit_bin_def cstr_def)

lemma vfs_get_ufd_cong: "g_ufd s' = g_ufd s \<Longrightarrow> vfs_get_ufd fd s' = vfs_get_ufd fd s"
  unfolding vfs_get_ufd_def by (simp only:)

lemma fd_rest_cong:
  assumes "g_ufd s' = g_ufd s"
  shows "fd_rest s' = fd_rest s"
  unfolding fun_eq_iff fd_rest_def vfs_get_ufd_cong [OF assms] assms by simp

lemma two_files:
  assumes "unat (i :: u8) < 2"
  shows "unat (ent_len (g_vfs_files ! unat i)) = length (file_bytes (unat i))
    \<and> unat (ent_len (g_vfs_files ! unat i)) \<le> length (ent_data (g_vfs_files ! unat i))"
proof -
  have "unat i = 0 \<or> unat i = 1" using assms by linarith
  then show ?thesis using file_lens by (auto simp: file_bytes_def)
qed

lemma data_small:
  assumes "unat (i :: u8) < 2"
  shows "length (ent_data (g_vfs_files ! unat i)) \<le> 40"
proof -
  consider "unat i = 0" | "unat i = 1" using assms by linarith
  then show ?thesis
  proof cases
    case 1
    show ?thesis unfolding 1 file_lens by simp
  next
    case 2
    show ?thesis unfolding 2 file_lens by simp
  qed
qed

text \<open>Changing one slot changes one descriptor.\<close>

lemma fd_rest_upd:
  assumes "length (g_ufd s) = 12" and "k < 12" and "used u \<noteq> 0"
  shows "fd_rest (s\<lparr>g_ufd := (g_ufd s)[k := u]\<rparr>) = (fd_rest s)(3 + of_nat k \<mapsto> slot_rest u)"
proof (rule ext)
  fix fd
  have "(fd_rest (s\<lparr>g_ufd := (g_ufd s)[k := u]\<rparr>) fd = Some bs) = (((fd_rest s)(3 + of_nat k \<mapsto> slot_rest u)) fd = Some bs)" for bs
    using assms by (auto simp: fd_rest_iff nth_list_update slot_eq)
  then show "fd_rest (s\<lparr>g_ufd := (g_ufd s)[k := u]\<rparr>) fd = ((fd_rest s)(3 + of_nat k \<mapsto> slot_rest u)) fd"
    by (metis not_None_eq)
qed

lemma fd_rest_close:
  assumes "length (g_ufd s) = 12" and "k < 12" and "used u = 0"
  shows "fd_rest (s\<lparr>g_ufd := (g_ufd s)[k := u]\<rparr>) = (fd_rest s)(3 + of_nat k := None)"
proof (rule ext)
  fix fd
  have "(fd_rest (s\<lparr>g_ufd := (g_ufd s)[k := u]\<rparr>) fd = Some bs) = (((fd_rest s)(3 + of_nat k := None)) fd = Some bs)" for bs
    using assms by (auto simp: fd_rest_iff nth_list_update slot_eq)
  then show "fd_rest (s\<lparr>g_ufd := (g_ufd s)[k := u]\<rparr>) fd = ((fd_rest s)(3 + of_nat k := None)) fd"
    by (metis not_None_eq)
qed

lemma vfs_inv_upd:
  assumes "vfs_inv s" and "used u \<noteq> 0 \<Longrightarrow> unat (vfidx u) < 2 \<and> pos u \<le> ent_len (g_vfs_files ! unat (vfidx u))"
  shows "vfs_inv (s\<lparr>g_ufd := (g_ufd s)[k := u]\<rparr>)"
  using assms by (cases "k < 12") (auto simp: vfs_inv_def nth_list_update)

lemma close_effect:
  assumes "vfs_inv s"
  shows "vfs_inv (verve_vfs_close_u fd s)" "fd_rest (verve_vfs_close_u fd s) = (fd_rest s)(fd := None)"
proof -
  show "vfs_inv (verve_vfs_close_u fd s)"
    using assms by (auto simp: verve_vfs_close_u_def intro!: vfs_inv_upd split: option.splits)
  show "fd_rest (verve_vfs_close_u fd s) = (fd_rest s)(fd := None)"
  proof (cases "vfs_get_ufd fd s")
    case None
    then have "fd_rest s fd = None" by (simp add: fd_rest_def)
    then show ?thesis using None by (auto simp: verve_vfs_close_u_def)
  next
    case (Some k)
    then have k: "k < 12" "fd = 3 + of_nat k" by (auto simp: vfs_get_ufd_iff)
    moreover have "\<not> sint fd < sint VFS_FD_BASE" using Some by (auto simp: vfs_get_ufd_def split: if_splits)
    ultimately show ?thesis
      using Some fd_rest_close [of s k "(g_ufd s ! k)\<lparr>used := 0\<rparr>"] assms
      by (simp add: verve_vfs_close_u_def vfs_inv_def)
  qed
qed

lemma alloc_effect:
  assumes "vfs_inv s" and "unat vf < 2"
  obtains (full) "ufd_alloc vf s = (EMFILE_ret, s)" "\<And>k. k < 12 \<Longrightarrow> fd_rest s (3 + of_nat k) \<noteq> None"
  | (slot) k s' where "ufd_alloc vf s = (3 + of_nat k, s')" "k < 12" "fd_rest s (3 + of_nat k) = None"
      "\<And>j. j < k \<Longrightarrow> fd_rest s (3 + of_nat j) \<noteq> None" "vfs_inv s'"
      "fd_rest s' = (fd_rest s)(3 + of_nat k \<mapsto> file_bytes (unat vf))" "s' = s\<lparr>g_ufd := g_ufd s'\<rparr>"
proof (cases "first_index (\<lambda>k. used (g_ufd s ! k) = 0) 0 12")
  case None
  then have "used (g_ufd s ! k) \<noteq> 0" if "k < 12" for k using that by (auto simp: first_index_None)
  then have "fd_rest s (3 + of_nat k) \<noteq> None" if "k < 12" for k
    using that fd_rest_iff [of s "3 + of_nat k"] by blast
  then show thesis using None full by (simp add: ufd_alloc_def)
next
  case (Some k)
  then have k: "k < 12" "used (g_ufd s ! k) = 0" "\<And>j. j < k \<Longrightarrow> used (g_ufd s ! j) \<noteq> 0"
    by (auto simp: first_index_Some)
  let ?u = "(g_ufd s ! k)\<lparr>used := 1, vfidx := vf, pos := 0\<rparr>"
  let ?s = "s\<lparr>g_ufd := (g_ufd s)[k := ?u]\<rparr>"
  have "fd_rest s (3 + of_nat k) = None"
  proof (rule ccontr)
    assume "fd_rest s (3 + of_nat k) \<noteq> None"
    then obtain bs where "fd_rest s (3 + of_nat k) = Some bs" by blast
    then show False using k(1,2) by (auto simp: fd_rest_iff slot_eq)
  qed
  moreover have "fd_rest s (3 + of_nat j) \<noteq> None" if "j < k" for j
  proof -
    have "j < 12" using that k(1) by simp
    then have "fd_rest s (3 + of_nat j) = Some (slot_rest (g_ufd s ! j))"
      using k(3) [OF that] unfolding fd_rest_iff by blast
    then show ?thesis by simp
  qed
  moreover have "fd_rest ?s = (fd_rest s)(3 + of_nat k \<mapsto> file_bytes (unat vf))"
    using fd_rest_upd [of s k ?u] assms k(1) by (simp add: vfs_inv_def slot_rest_def)
  moreover have "vfs_inv ?s" using assms by (intro vfs_inv_upd) simp_all
  ultimately show thesis using Some k(1) by (intro slot [of k ?s]) (simp_all add: ufd_alloc_def)
qed

section \<open>Copies to and from user memory\<close>

lemma copy_out_stores:
  fixes s :: "'a vm_scheme"
  assumes "unat p + i + n \<le> length data" and "length data < 4294967296"
  shows "copy_out buf data p (of_nat i) n s = umem.stores (buf + of_nat i) (take n (drop (unat p + i) data)) s"
  using assms
proof (induction n arbitrary: i s)
  case 0
  then show ?case by simp
next
  case (Suc n)
  have "unat (p + of_nat i) = unat p + i" using Suc.prems by (intro unat_plus32) linarith
  moreover have "take (Suc n) (drop (unat p + i) data) = data ! (unat p + i) # take n (drop (unat p + Suc i) data)"
    using Suc.prems by (simp add: Cons_nth_drop_Suc [symmetric])
  moreover have "copy_out buf data p (of_nat i + 1) n s' = umem.stores (buf + of_nat i + 1) (take n (drop (unat p + Suc i) data)) s'"
    for s' :: "'a vm_scheme"
    using Suc.IH [of "Suc i" s'] Suc.prems by (simp add: algebra_simps)
  ultimately show ?case using Suc.prems by (cases "vstore (buf + of_nat i) (data ! (unat p + i)) s") simp_all
qed

lemma copy_out_mem: "copy_out buf data p i n s = Some s' \<Longrightarrow> s' = s\<lparr>mem := mem s'\<rparr>"
proof (induction n arbitrary: i s)
  case 0
  then show ?case by simp
next
  case (Suc n)
  then obtain s1 where s1: "vstore (buf + i) (data ! unat (p + i)) s = Some s1" "copy_out buf data p (i + 1) n s1 = Some s'"
    by (auto split: if_splits simp: bind_eq_Some_conv)
  have "s' = s1\<lparr>mem := mem s'\<rparr>" using Suc.IH [OF s1(2)] .
  moreover have "s1 = s\<lparr>mem := mem s1\<rparr>" using s1(1) by (auto simp: vstore_def)
  ultimately show ?case by (metis vm.surjective vm.update_convs(1))
qed

text \<open>A user buffer: accepted by the check, and no two of its bytes share a physical byte.\<close>

definition user_buf :: "'a vm_scheme \<Rightarrow> u32 \<Rightarrow> u32 \<Rightarrow> bool" where
  "user_buf s buf n \<longleftrightarrow> unat n \<le> 4096 \<and> paging_user_range_ok buf n True s = Some True
     \<and> (\<forall>i<unat n. \<forall>j<unat n. vtranslate s (buf + of_nat i) = vtranslate s (buf + of_nat j) \<longrightarrow> i = j)"

lemma ufd_frame [frame_simps]: "user_good (s\<lparr>g_ufd := x\<rparr>) = user_good s" "vtranslate (s\<lparr>g_ufd := x\<rparr>) = vtranslate s"
  "vload (s\<lparr>g_ufd := x\<rparr>) = vload s" "paging_get_cr3 (s\<lparr>g_ufd := x\<rparr>) = paging_get_cr3 s"
  by (simp_all add: user_good_def user_isolated_def paging_get_cr3_def vtranslate_def vload_def fun_eq_iff)

lemma ufd_range [frame_simps]: "paging_user_range_ok a n w (s\<lparr>g_ufd := x\<rparr>) = paging_user_range_ok a n w s"
  by (rule user_range_cong) simp_all

lemma ufd_buf [frame_simps]: "user_buf (s\<lparr>g_ufd := x\<rparr>) = user_buf s"
  by (simp add: user_buf_def fun_eq_iff ufd_range ufd_frame)

lemma user_good_some:
  assumes "user_good s"
  obtains x where "\<not> page_user_ok (mem s) (paging_get_cr3 s) w x"
proof -
  obtain x where "\<not> page_user_ok (mem s) (paging_get_cr3 s) False x" using assms by (auto simp: user_good_def)
  then have "\<not> page_user_ok (mem s) (paging_get_cr3 s) w x" by (auto simp: page_user_ok_def split: option.splits)
  then show thesis by (rule that)
qed

lemma range_answer: "user_good s \<Longrightarrow> paging_user_range_ok va n w s = Some (n = 0 \<or> unat va + unat n \<le> 0xFFFFF000
    \<and> (\<forall>i<unat n. page_user_ok (mem s) (paging_get_cr3 s) w (va + of_nat i)))"
  by (rule user_good_some [of s w], assumption) (rule user_range_exact)

text \<open>A buffer that holds for \<open>n\<close> bytes holds for fewer.\<close>

lemma range_shorter:
  assumes "user_good s" and "paging_user_range_ok va n w s = Some True" and "k \<le> n" and "i < unat k"
  shows "page_user_ok (mem s) (paging_get_cr3 s) w (va + of_nat i)"
  using assms range_answer [OF assms(1), of va n w] by (auto simp: word_le_nat_alt)

lemma copy_out_effect:
  assumes g: "user_good s" and u: "paging_user_range_ok buf n True s = Some True" and "k \<le> unat n"
    and d: "unat p + k \<le> length data" "length data < 4294967296"
  shows "\<exists>s'. copy_out buf data p 0 k s = Some s' \<and> user_good s' \<and> vtranslate s' = vtranslate s
    \<and> page_user_ok (mem s') (paging_get_cr3 s') = page_user_ok (mem s) (paging_get_cr3 s)
    \<and> (\<forall>x pa. vtranslate s x = Some pa \<longrightarrow> (\<forall>i<k. vtranslate s (buf + of_nat i) \<noteq> vtranslate s x) \<longrightarrow> vload s' x = vload s x)
    \<and> (user_buf s buf n \<longrightarrow> (\<forall>i<k. vload s' (buf + of_nat i) = Some (data ! (unat p + i))))"
proof -
  let ?bs = "take k (drop (unat p) data)"
  have l: "length ?bs = k" using d by simp
  have us: "page_user_ok (mem s) (paging_get_cr3 s) False (buf + of_nat i)" if "i < length ?bs" for i
    using umem.user_weak [OF umem.check_user [OF g u, of i]] that l assms(3) by simp
  have eq: "copy_out buf data p 0 k s = umem.stores buf ?bs s"
    using copy_out_stores [of p 0 k data buf s] d by simp
  obtain s' where s': "umem.stores buf ?bs s = Some s'" "user_good s'" "vtranslate s' = vtranslate s"
    "page_user_ok (mem s') (paging_get_cr3 s') = page_user_ok (mem s) (paging_get_cr3 s)"
    "\<forall>x pa. vtranslate s x = Some pa \<longrightarrow> (\<forall>i<length ?bs. vtranslate s (buf + of_nat i) \<noteq> vtranslate s x) \<longrightarrow> vload s' x = vload s x"
    using umem.stores_ok [OF g us] by blast
  have "vload s' (buf + of_nat i) = Some (data ! (unat p + i))" if b: "user_buf s buf n" and i: "i < k" for i
  proof -
    have "vload s' (buf + of_nat i) = Some (?bs ! i)"
      using b assms(3) l i by (intro umem.stores_read [OF g us _ s'(1)]) (auto simp: user_buf_def)
    then show ?thesis using i d by simp
  qed
  then show ?thesis using s' eq l by (intro exI [of _ s']) simp
qed

section \<open>Reading\<close>

definition clip :: "u32 \<Rightarrow> u32" where
  "clip len = (if len > 4096 then 4096 else len)"

lemma unat_clip: "unat (clip len) = min (unat len) 4096"
  by (simp add: clip_def word_less_nat_alt)

text \<open>The step of the file position, seen through \<open>fd_rest\<close>.\<close>

lemma advance:
  assumes I: "vfs_inv s" and k: "k < 12" "used (g_ufd s ! k) \<noteq> 0"
    and u: "u = g_ufd s ! k" and got: "unat got \<le> length (slot_rest u)"
  defines "s1 \<equiv> s\<lparr>g_ufd := (g_ufd s)[k := u\<lparr>pos := pos u + got\<rparr>]\<rparr>"
  shows "vfs_inv s1" and "fd_rest s1 = (fd_rest s)(3 + of_nat k \<mapsto> drop (unat got) (slot_rest u))"
    and "unat (pos u) + unat got \<le> length (ent_data (g_vfs_files ! unat (vfidx u)))"
    and "length (ent_data (g_vfs_files ! unat (vfidx u))) < 4294967296"
    and "i < unat got \<Longrightarrow> ent_data (g_vfs_files ! unat (vfidx u)) ! (unat (pos u) + i) = slot_rest u ! i"
proof -
  have v: "unat (vfidx u) < 2" "pos u \<le> ent_len (g_vfs_files ! unat (vfidx u))"
    using I k u by (auto simp: vfs_inv_def)
  note F = two_files [OF v(1)]
  have lr: "length (slot_rest u) = length (file_bytes (unat (vfidx u))) - unat (pos u)" by (simp add: slot_rest_def)
  have le: "unat (pos u) + unat got \<le> unat (ent_len (g_vfs_files ! unat (vfidx u)))"
    using got lr F v(2) by (simp add: word_le_nat_alt) 
  have sum: "unat (pos u + got) = unat (pos u) + unat got"
    using le unat_lt32 [of "ent_len (g_vfs_files ! unat (vfidx u))"] by (intro unat_add32) linarith
  show "vfs_inv s1"
    unfolding s1_def using I v(1) le by (intro vfs_inv_upd) (simp_all add: word_le_nat_alt sum)
  have "slot_rest (u\<lparr>pos := pos u + got\<rparr>) = drop (unat got) (slot_rest u)"
    by (simp add: slot_rest_def sum [unfolded add.commute [of "pos u"]] sum add.commute)
  moreover have "used (u\<lparr>pos := pos u + got\<rparr>) \<noteq> 0" "length (g_ufd s) = 12" using k u I by (simp_all add: vfs_inv_def)
  ultimately show "fd_rest s1 = (fd_rest s)(3 + of_nat k \<mapsto> drop (unat got) (slot_rest u))"
    using fd_rest_upd [of s k "u\<lparr>pos := pos u + got\<rparr>", OF _ k(1)] unfolding s1_def by metis
  show "unat (pos u) + unat got \<le> length (ent_data (g_vfs_files ! unat (vfidx u)))"
    using le F by linarith
  show "length (ent_data (g_vfs_files ! unat (vfidx u))) < 4294967296"
    using data_small [OF v(1)] by linarith
  show "ent_data (g_vfs_files ! unat (vfidx u)) ! (unat (pos u) + i) = slot_rest u ! i" if "i < unat got"
  proof -
    have "unat (pos u) + i < unat (ent_len (g_vfs_files ! unat (vfidx u)))" using that le by linarith
    then show ?thesis using F unfolding slot_rest_def file_bytes_def by (subst nth_drop) simp_all
  qed
qed

lemma want_length:
  assumes "vfs_inv s" and "k < 12" and "used (g_ufd s ! k) \<noteq> 0" and "u = g_ufd s ! k"
  defines "len \<equiv> ent_len (g_vfs_files ! unat (vfidx u))"
  shows "pos u \<ge> len \<longleftrightarrow> slot_rest u = []" and "unat (len - pos u) = length (slot_rest u)"
proof -
  have v: "unat (vfidx u) < 2" "pos u \<le> len" using assms by (auto simp: vfs_inv_def)
  note F = two_files [OF v(1), folded len_def]
  then show "unat (len - pos u) = length (slot_rest u)" using v(2) by (simp add: unat_minus slot_rest_def)
  show "pos u \<ge> len \<longleftrightarrow> slot_rest u = []" using F by (auto simp: slot_rest_def word_le_nat_alt)
qed

lemma read_effect:
  assumes I: "vfs_inv s" and g: "user_good s" and r: "fd_rest s fd = Some bs"
    and len: "len \<noteq> 0" and ok: "paging_user_range_ok buf (clip len) True s = Some True"
  shows "\<exists>got s'. verve_vfs_read_u fd buf len s = Some (got, s') \<and> unat got = min (unat (clip len)) (length bs)
    \<and> vfs_inv s' \<and> user_good s' \<and> fd_rest s' = (fd_rest s)(fd \<mapsto> drop (unat (clip len)) bs)
    \<and> s' = s\<lparr>mem := mem s', g_ufd := g_ufd s'\<rparr> \<and> vtranslate s' = vtranslate s
    \<and> page_user_ok (mem s') (paging_get_cr3 s') = page_user_ok (mem s) (paging_get_cr3 s)
    \<and> (\<forall>x pa. vtranslate s x = Some pa \<longrightarrow> (\<forall>i<unat got. vtranslate s (buf + of_nat i) \<noteq> vtranslate s x) \<longrightarrow> vload s' x = vload s x)
    \<and> (user_buf s buf (clip len) \<longrightarrow> (\<forall>i<unat got. vload s' (buf + of_nat i) = Some (bs ! i)))"
proof -
  obtain k where k: "k < 12" "fd = 3 + of_nat k" "used (g_ufd s ! k) \<noteq> 0" "bs = slot_rest (g_ufd s ! k)"
    using r by (auto simp: fd_rest_iff)
  let ?u = "g_ufd s ! k"
  let ?fe = "g_vfs_files ! unat (vfidx ?u)"
  have slot: "vfs_get_ufd fd s = Some k" using k by (simp add: vfs_get_ufd_iff)
  note W = want_length [OF I k(1,3) refl]
  show ?thesis
  proof (cases "bs = []")
    case True
    then have "verve_vfs_read_u fd buf len s = Some (0, s)"
      using slot len ok W(1) k(4) unfolding verve_vfs_read_u_def clip_def [symmetric] by (simp add: Let_def)
    moreover have "(fd_rest s)(fd \<mapsto> []) = fd_rest s" using r True by auto
    ultimately show ?thesis using True I g by (intro exI [of _ 0] exI [of _ s]) simp
  next
    case False
    define want where "want = ent_len ?fe - pos ?u"
    define got where "got = (if want > clip len then clip len else want)"
    have got: "unat got = min (unat (clip len)) (length bs)"
      using W(2) k(4) by (simp add: word_less_nat_alt got_def want_def)
    then have gl: "unat got \<le> length (slot_rest ?u)" "unat got \<le> unat (clip len)" using k(4) by simp_all
    define s1 where "s1 = s\<lparr>g_ufd := (g_ufd s)[k := ?u\<lparr>pos := pos ?u + got\<rparr>]\<rparr>"
    note A = advance [OF I k(1,3) refl gl(1), folded s1_def]
    have run: "verve_vfs_read_u fd buf len s = map_option (\<lambda>s2. (got, s2)) (copy_out buf (ent_data ?fe) (pos ?u) 0 (unat got) s1)"
      using slot len ok W(1) k(4) False unfolding verve_vfs_read_u_def clip_def [symmetric]
      by (simp add: Let_def got_def want_def s1_def)
    have eqs: "user_good s1 = user_good s" "paging_user_range_ok buf (clip len) True s1 = paging_user_range_ok buf (clip len) True s"
      "vtranslate s1 = vtranslate s" "vload s1 = vload s" "user_buf s1 = user_buf s" "paging_get_cr3 s1 = paging_get_cr3 s"
      "mem s1 = mem s"
      by (simp_all only: s1_def frame_simps) simp
    have "user_good s1" "paging_user_range_ok buf (clip len) True s1 = Some True" using g ok eqs by simp_all
    from copy_out_effect [OF this gl(2) A(3,4), unfolded eqs] obtain s' where
      C: "copy_out buf (ent_data ?fe) (pos ?u) 0 (unat got) s1 = Some s'" "user_good s'" "vtranslate s' = vtranslate s"
        "page_user_ok (mem s') (paging_get_cr3 s') = page_user_ok (mem s) (paging_get_cr3 s)"
        "\<forall>x pa. vtranslate s x = Some pa \<longrightarrow> (\<forall>i<unat got. vtranslate s (buf + of_nat i) \<noteq> vtranslate s x) \<longrightarrow> vload s' x = vload s x"
        "user_buf s buf (clip len) \<longrightarrow> (\<forall>i<unat got. vload s' (buf + of_nat i) = Some (ent_data ?fe ! (unat (pos ?u) + i)))"
      by blast
    have m: "s' = s1\<lparr>mem := mem s'\<rparr>" by (rule copy_out_mem [OF C(1)])
    have m1: "vfs_inv s'" using A(1) by (subst m) (simp add: vfs_inv_def)
    have "fd_rest s' = fd_rest s1"
      by (rule fd_rest_cong) (subst m, simp)
    moreover have "drop (unat got) bs = drop (unat (clip len)) bs" using got by (cases "unat (clip len) \<le> length bs") auto
    ultimately have m2: "fd_rest s' = (fd_rest s)(fd \<mapsto> drop (unat (clip len)) bs)"
      using A(2) k(2,4) by simp
    have "s1 = s\<lparr>g_ufd := g_ufd s1\<rparr>" by (simp add: s1_def)
    then have m3: "s' = s\<lparr>mem := mem s', g_ufd := g_ufd s'\<rparr>" using m by (metis kern.surjective kern.select_convs(1) kern.update_convs(1) vm.update_convs(1))
    have bytes: "\<forall>i<unat got. vload s' (buf + of_nat i) = Some (bs ! i)" if "user_buf s buf (clip len)"
      using C(6) that A(5) k(4) by simp
    show ?thesis
      using run C got m1 m2 m3 bytes by (intro exI [of _ got] exI [of _ s'] conjI) simp_all
  qed
qed

lemma read_other:
  assumes "user_good s"
  shows "fd_rest s fd = None \<Longrightarrow> verve_vfs_read_u fd buf len s = Some (EBADF_ret, s)"
    and "fd_rest s fd = Some bs \<Longrightarrow> len = 0 \<Longrightarrow> verve_vfs_read_u fd buf len s = Some (0, s)"
    and "fd_rest s fd = Some bs \<Longrightarrow> len \<noteq> 0 \<Longrightarrow> paging_user_range_ok buf (clip len) True s \<noteq> Some True
      \<Longrightarrow> verve_vfs_read_u fd buf len s = Some (EFAULT_ret, s)"
  using range_answer [OF assms, of buf "clip len" True] unfolding verve_vfs_read_u_def clip_def [symmetric]
  by (auto simp: fd_rest_def Let_def split: option.splits)

section \<open>Paths\<close>

text \<open>
  The path a program passes: the bytes up to the first zero, at most 95 of them; \<open>None\<close>
  when a byte it cannot read comes first.
\<close>

definition user_readable :: "'a vm_scheme \<Rightarrow> u32 \<Rightarrow> bool" where
  "user_readable s va \<longleftrightarrow> paging_user_range_ok va 1 False s = Some True"

definition user_byte :: "'a vm_scheme \<Rightarrow> u32 \<Rightarrow> u8" where
  "user_byte s va = the (vload s va)"

definition path_stop :: "'a vm_scheme \<Rightarrow> u32 \<Rightarrow> nat \<Rightarrow> bool" where
  "path_stop s va i \<longleftrightarrow> \<not> user_readable s (va + of_nat i) \<or> user_byte s (va + of_nat i) = 0"

definition user_path :: "'a vm_scheme \<Rightarrow> u32 \<Rightarrow> u8 list option" where
  "user_path s va =
     (case first_index (path_stop s va) 0 95 of
        None \<Rightarrow> Some (map (\<lambda>i. user_byte s (va + of_nat i)) [0..<95])
      | Some n \<Rightarrow> if user_readable s (va + of_nat n) then Some (map (\<lambda>i. user_byte s (va + of_nat i)) [0..<n])
                 else None)"

lemma readable_load:
  assumes "user_good s" and "user_readable s va"
  shows "vload s va = Some (user_byte s va)"
proof -
  have "page_user_ok (mem s) (paging_get_cr3 s) False va"
    using umem.check_user [OF assms(1), of va 1 False 0] assms(2) by (simp add: user_readable_def)
  then obtain pa where "vtranslate s va = Some pa" using umem.user_trans [OF assms(1)] by blast
  then show ?thesis by (simp add: vload_def user_byte_def)
qed

lemma copy_path_effect:
  assumes g: "user_good s"
  shows "copy_path va i left (map (\<lambda>j. user_byte s (va + of_nat j)) [0..<i]) s =
    Some (case first_index (path_stop s va) i (i + left) of
        None \<Rightarrow> (0, map (\<lambda>j. user_byte s (va + of_nat j)) [0..<i + left] @ [0])
      | Some n \<Rightarrow> if user_readable s (va + of_nat n)
          then (0, map (\<lambda>j. user_byte s (va + of_nat j)) [0..<n] @ [0])
          else (- 1, map (\<lambda>j. user_byte s (va + of_nat j)) [0..<n]))"
proof (induction left arbitrary: i)
  case 0
  then show ?case by (simp add: first_index.simps)
next
  case (Suc left)
  note ans = range_answer [OF g, of "va + of_nat i" 1 False]
  show ?case
  proof (cases "path_stop s va i")
    case True
    then show ?thesis
      using ans readable_load [OF g, of "va + of_nat i"]
      by (auto simp: first_index.simps [of _ i] path_stop_def user_readable_def)
  next
    case False
    then have r: "user_readable s (va + of_nat i)" "user_byte s (va + of_nat i) \<noteq> 0" by (auto simp: path_stop_def)
    have "map (\<lambda>j. user_byte s (va + of_nat j)) [0..<i] @ [user_byte s (va + of_nat i)]
        = map (\<lambda>j. user_byte s (va + of_nat j)) [0..<Suc i]" by simp
    moreover have "Suc i + left = i + Suc left" by simp
    ultimately have "copy_path va i (Suc left) (map (\<lambda>j. user_byte s (va + of_nat j)) [0..<i]) s
        = copy_path va (Suc i) left (map (\<lambda>j. user_byte s (va + of_nat j)) [0..<Suc i]) s"
      using r readable_load [OF g r(1)] by (simp add: user_readable_def)
    moreover have "first_index (path_stop s va) i (i + Suc left) = first_index (path_stop s va) (Suc i) (i + Suc left)"
      using False by (simp add: first_index.simps [of _ i])
    ultimately show ?thesis using Suc.IH [of "Suc i"] \<open>Suc i + left = i + Suc left\<close> by (simp only:)
  qed
qed

lemma copy_user_path_effect:
  assumes "user_good s"
  shows "\<exists>out. copy_user_path va 96 s = Some (if user_path s va = None then - 1 else 0, out)
    \<and> (\<forall>p. user_path s va = Some p \<longrightarrow> out = p @ [0] \<and> 0 \<notin> set p)"
proof (cases "first_index (path_stop s va) 0 95")
  case None
  then have "user_byte s (va + of_nat i) \<noteq> 0" if "i < 95" for i
    using that by (auto simp: first_index_None path_stop_def)
  then show ?thesis
    using copy_path_effect [OF assms, of va 0 95] None
    by (auto simp: copy_user_path_def user_path_def)
next
  case (Some n)
  then have "user_byte s (va + of_nat i) \<noteq> 0" if "i < n" for i
    using that by (auto simp: first_index_Some path_stop_def)
  then show ?thesis
    using copy_path_effect [OF assms, of va 0 95] Some
    by (auto simp: copy_user_path_def user_path_def)
qed

lemma open_file:
  "file_of p = Some i \<Longrightarrow> unat (ucast i :: u8) < 2" "file_of p = Some i \<Longrightarrow> \<not> sint i < 0"
  by (auto simp: file_of_def split: if_splits)

lemma open_u_effect:
  assumes "user_good s"
  shows "verve_vfs_open_u va s = Some (case user_path s va of None \<Rightarrow> (EFAULT_ret, s)
     | Some p \<Rightarrow> case file_of p of None \<Rightarrow> (ENOENT_ret, s) | Some i \<Rightarrow> ufd_alloc (ucast i) s)"
proof -
  obtain out where O: "copy_user_path va 96 s = Some (if user_path s va = None then - 1 else 0, out)"
    "\<forall>p. user_path s va = Some p \<longrightarrow> out = p @ [0] \<and> 0 \<notin> set p"
    using copy_user_path_effect [OF assms] by blast
  show ?thesis
  proof (cases "user_path s va")
    case None
    then show ?thesis using O(1) by (simp add: verve_vfs_open_u_def)
  next
    case (Some p)
    then have "vfs_find out = Some (case file_of p of None \<Rightarrow> - 1 | Some i \<Rightarrow> i)"
      using O(2) vfs_find_cstr [of p "[]"] by simp
    then show ?thesis
      using O(1) Some open_file [of p] by (simp add: verve_vfs_open_u_def split: option.split)
  qed
qed

section \<open>The contract of the descriptor table\<close>

definition vfs_good :: "'a kern_scheme \<Rightarrow> bool" where
  "vfs_good s \<longleftrightarrow> vfs_inv s \<and> user_good s"

lemma clip_small: "unat n \<le> 4096 \<Longrightarrow> clip n = n"
  by (simp add: clip_def word_less_nat_alt)

lemma user_buf_cong:
  assumes "user_good s" "user_good s'" "vtranslate s' = vtranslate s"
    and "page_user_ok (mem s') (paging_get_cr3 s') = page_user_ok (mem s) (paging_get_cr3 s)"
  shows "user_buf s' = user_buf s"
  by (simp add: fun_eq_iff user_buf_def range_answer [OF assms(1)] range_answer [OF assms(2)] assms(3,4))

interpretation fdt: fd_table vfs_good fd_rest user_buf vload verve_vfs_read_u verve_vfs_close_u
proof unfold_locales
  fix s :: "'a kern_scheme" and fd bs buf n
  assume g: "vfs_good s" and r: "fd_rest s fd = Some bs" and b: "user_buf s buf n"
  have s: "vfs_inv s" "user_good s" using g by (simp_all add: vfs_good_def)
  have c: "clip n = n" "paging_user_range_ok buf n True s = Some True" using b by (simp_all add: user_buf_def clip_small)
  show "\<exists>r s'. verve_vfs_read_u fd buf n s = Some (r, s') \<and> unat r = min (unat n) (length bs) \<and> vfs_good s'
      \<and> fd_rest s' = (fd_rest s)(fd \<mapsto> drop (unat n) bs) \<and> user_buf s' = user_buf s
      \<and> (\<forall>i<unat r. vload s' (buf + of_nat i) = Some (bs ! i))"
  proof (cases "n = 0")
    case True
    then show ?thesis using read_other(2) [OF s(2) r True, of buf] g r
      by (intro exI [of _ 0] exI [of _ s]) (auto simp: fun_eq_iff)
  next
    case False
    from read_effect [OF s r False, of buf] c obtain got s' where
      R: "verve_vfs_read_u fd buf n s = Some (got, s')" "unat got = min (unat n) (length bs)"
        "vfs_inv s'" "user_good s'" "fd_rest s' = (fd_rest s)(fd \<mapsto> drop (unat n) bs)" "vtranslate s' = vtranslate s"
        "page_user_ok (mem s') (paging_get_cr3 s') = page_user_ok (mem s) (paging_get_cr3 s)"
        "user_buf s buf n \<longrightarrow> (\<forall>i<unat got. vload s' (buf + of_nat i) = Some (bs ! i))"
      by auto
    then show ?thesis
      using b user_buf_cong [OF s(2) R(4,6,7)] by (intro exI [of _ got] exI [of _ s']) (simp add: vfs_good_def)
  qed
next
  fix s :: "'a kern_scheme" and fd
  assume g: "vfs_good s"
  have "verve_vfs_close_u fd s = s\<lparr>g_ufd := g_ufd (verve_vfs_close_u fd s)\<rparr>"
    by (auto simp: verve_vfs_close_u_def split: option.splits)
  then have "user_good (verve_vfs_close_u fd s) = user_good s" "user_buf (verve_vfs_close_u fd s) = user_buf s"
    using ufd_frame(1) ufd_buf by metis+
  then show "vfs_good (verve_vfs_close_u fd s) \<and> fd_rest (verve_vfs_close_u fd s) = (fd_rest s)(fd := None)
      \<and> user_buf (verve_vfs_close_u fd s) = user_buf s"
    using close_effect [of s fd] g by (simp add: vfs_good_def)
qed

section \<open>Properties\<close>

text \<open>
  C25: \<open>open\<close>.  The call returns.  A path with a byte the program may not read before its
  end is refused with \<open>EFAULT\<close>, an unknown name with \<open>ENOENT\<close>, a full table with \<open>EMFILE\<close>,
  all without any change; otherwise the lowest free descriptor is opened at the start of
  the named file and nothing else changes.
\<close>

theorem vfs_open_correct:
  assumes "vfs_good s"
  shows "\<exists>r s'. verve_vfs_open_u va s = Some (r, s') \<and> vfs_good s' \<and> s' = s\<lparr>g_ufd := g_ufd s'\<rparr>
    \<and> (case Option.bind (user_path s va) (\<lambda>p. Some (file_of p)) of
         None \<Rightarrow> r = EFAULT_ret \<and> s' = s
       | Some None \<Rightarrow> r = ENOENT_ret \<and> s' = s
       | Some (Some i) \<Rightarrow>
           if \<forall>k<12. fd_rest s (3 + of_nat k) \<noteq> None then r = EMFILE_ret \<and> s' = s
           else \<exists>k<12. r = 3 + of_nat k \<and> fd_rest s r = None \<and> (\<forall>j<k. fd_rest s (3 + of_nat j) \<noteq> None)
                  \<and> fd_rest s' = (fd_rest s)(r \<mapsto> file_bytes (unat i)))"
proof -
  have g: "vfs_inv s" "user_good s" using assms by (simp_all add: vfs_good_def)
  note O = open_u_effect [OF g(2), of va]
  show ?thesis
  proof (cases "Option.bind (user_path s va) (\<lambda>p. Some (file_of p))")
    case None
    then show ?thesis using O assms by (cases "user_path s va") simp_all
  next
    case (Some fo)
    then obtain p where p: "user_path s va = Some p" "file_of p = fo" by (auto simp: bind_eq_Some_conv)
    show ?thesis
    proof (cases fo)
      case None
      then show ?thesis using O assms p by simp
    next
      case i: (Some i)
      have u: "unat (ucast i :: u8) = unat i" using p i by (auto simp: file_of_def split: if_splits)
      from alloc_effect [OF g(1) open_file(1) [OF p(2) [unfolded i]]] show ?thesis
      proof cases
        case 1
        then show ?thesis using 1 O assms p i by simp
      next
        case (2 k s')
        have "user_good s'" using 2(7) g(2) ufd_frame(1) by metis
        then show ?thesis using O p i 2 u
          by (intro exI [of _ "3 + of_nat k"] exI [of _ s']) (auto simp: vfs_good_def)
      qed
    qed
  qed
qed

text \<open>
  C26: \<open>read\<close>.  The call returns.  It answers \<open>EBADF\<close> for a closed descriptor and \<open>EFAULT\<close>
  for a buffer the program may not write, both without any change; otherwise it delivers
  the next bytes of the file, as many as asked for but at most 4096 and at most what is
  left, moves the descriptor past them and changes no byte outside the buffer.
\<close>

theorem vfs_read_correct:
  assumes "vfs_good s"
  shows "\<exists>r s'. verve_vfs_read_u fd buf len s = Some (r, s') \<and> vfs_good s'
    \<and> (case fd_rest s fd of None \<Rightarrow> r = EBADF_ret \<and> s' = s
       | Some bs \<Rightarrow>
           if len = 0 then r = 0 \<and> s' = s
           else if paging_user_range_ok buf (clip len) True s \<noteq> Some True then r = EFAULT_ret \<and> s' = s
           else unat r = min (min (unat len) 4096) (length bs)
             \<and> fd_rest s' = (fd_rest s)(fd \<mapsto> drop (unat r) bs)
             \<and> s' = s\<lparr>mem := mem s', g_ufd := g_ufd s'\<rparr>
             \<and> (\<forall>x pa. vtranslate s x = Some pa \<longrightarrow> (\<forall>i<unat r. vtranslate s (buf + of_nat i) \<noteq> vtranslate s x) \<longrightarrow> vload s' x = vload s x)
             \<and> (user_buf s buf (clip len) \<longrightarrow> (\<forall>i<unat r. vload s' (buf + of_nat i) = Some (bs ! i))))"
proof -
  have g: "vfs_inv s" "user_good s" using assms by (simp_all add: vfs_good_def)
  show ?thesis
  proof (cases "fd_rest s fd")
    case None
    then show ?thesis using read_other(1) [OF g(2)] assms by simp
  next
    case (Some bs)
    consider "len = 0" | "len \<noteq> 0" "paging_user_range_ok buf (clip len) True s \<noteq> Some True"
      | "len \<noteq> 0" "paging_user_range_ok buf (clip len) True s = Some True" by blast
    then show ?thesis
    proof cases
      case 1
      then show ?thesis using read_other(2) [OF g(2) Some 1] Some assms by simp
    next
      case 2
      then show ?thesis using read_other(3) [OF g(2) Some 2] Some assms by simp
    next
      case 3
      from read_effect [OF g Some 3] obtain got s' where
        R: "verve_vfs_read_u fd buf len s = Some (got, s')" "unat got = min (unat (clip len)) (length bs)"
        "vfs_inv s'" "user_good s'" "fd_rest s' = (fd_rest s)(fd \<mapsto> drop (unat (clip len)) bs)"
        "s' = s\<lparr>mem := mem s', g_ufd := g_ufd s'\<rparr>"
        "\<forall>x pa. vtranslate s x = Some pa \<longrightarrow> (\<forall>i<unat got. vtranslate s (buf + of_nat i) \<noteq> vtranslate s x) \<longrightarrow> vload s' x = vload s x"
        "user_buf s buf (clip len) \<longrightarrow> (\<forall>i<unat got. vload s' (buf + of_nat i) = Some (bs ! i))"
        by blast
      have "drop (unat (clip len)) bs = drop (unat got) bs"
        using R(2) by (cases "unat (clip len) \<le> length bs") auto
      then show ?thesis using R 3 Some unat_clip [of len]
        by (intro exI [of _ got] exI [of _ s'] conjI) (simp_all add: vfs_good_def)
    qed
  qed
qed

text \<open>
  C10: a descriptor is a stream.  A program that reads one descriptor into any sequence of
  good buffers, closing other descriptors in between, sees the file's remaining bytes in
  order: what its buffers hold after each read, put together, is the prefix of the length
  asked for, and the descriptor stands right behind it.
\<close>

theorem vfs_reads_stream:
  assumes "vfs_good s" and "fd_rest s fd = Some bs" and "fdt.fine fd s xs"
  shows "\<exists>s'. fdt.session fd xs s = Some (take (fdt.asked xs) bs, s')
    \<and> vfs_good s' \<and> fd_rest s' fd = Some (drop (fdt.asked xs) bs)"
  by (rule fdt.session_stream [OF assms])

text \<open>A program whose page holds the path \<open>/hello.txt\<close>, with no file open.\<close>

definition sample_kern :: kern where
  "sample_kern = \<lparr>io_in = \<lambda>_ _. 0x60, io_reads = 0, io_outs = [], g_serial_lock = 0,
     mem = sample_user_mem (hello_name @ [0]), cr3 = 0x2000, cr0_pg = True, frames = sample_pmm,
     cur_pid = 1, cur_pd_phys = 0x2000, g_brk = 0x80002000,
     g_ufd = replicate 12 \<lparr>used = 0, vfidx = 0, pos = 0\<rparr>\<rparr>"

lemma sample_kern_facts: "length (hello_name @ [0]) \<le> 4096" "mem sample_kern = sample_user_mem (hello_name @ [0])"
  "cr3 sample_kern = 0x2000" "cr0_pg sample_kern"
  by (simp_all add: sample_kern_def hello_name_def cstr_def)

lemma sample_kern_good: "vfs_good sample_kern"
  using sample_user_good [OF sample_kern_facts]
  by (simp add: vfs_good_def vfs_inv_def) (simp add: sample_kern_def)

lemma sample_kern_closed: "fd_rest sample_kern fd = None"
proof (rule ccontr)
  assume "fd_rest sample_kern fd \<noteq> None"
  then show False by (auto simp: fd_rest_iff sample_kern_def)
qed

lemma user_path_cstr:
  assumes "0 \<notin> set p" and "length p < 95"
    and "\<And>i. i \<le> length p \<Longrightarrow> user_readable s (va + of_nat i) \<and> user_byte s (va + of_nat i) = (p @ [0]) ! i"
  shows "user_path s va = Some p"
proof -
  have "first_index (path_stop s va) 0 95 = Some (length p)"
    using assms by (auto simp: first_index_Some path_stop_def nth_append dest: nth_mem)
  moreover have "map (\<lambda>i. user_byte s (va + of_nat i)) [0..<length p] = p"
    using assms(3) by (intro nth_equalityI) (auto simp: nth_append)
  ultimately show ?thesis using assms(3) [of "length p"] by (simp add: user_path_def)
qed

lemma sample_kern_path: "user_path sample_kern 0x80000000 = Some hello_name"
proof (rule user_path_cstr)
  have len: "length hello_name = 10" by (simp add: hello_name_def cstr_def)
  then show "length hello_name < 95" by simp
  show "0 \<notin> set hello_name" by (rule names)
  fix i assume i: "i \<le> length hello_name"
  have "vload sample_kern (0x80000000 + of_nat i) = Some ((hello_name @ [0]) ! i)"
    using i by (intro sample_user_load [OF sample_kern_facts]) simp
  moreover have "user_good sample_kern" using sample_kern_good by (simp add: vfs_good_def)
  moreover have "page_of (0x80000000 + of_nat i) = 0x80000000" using i len by (intro page_plus) (simp_all add: page_of_def)
  moreover have "unat (0x80000000 + of_nat i :: u32) = 0x80000000 + i" using i len by (subst unat_plus32) simp_all
  ultimately show "user_readable sample_kern (0x80000000 + of_nat i) \<and> user_byte sample_kern (0x80000000 + of_nat i) = (hello_name @ [0]) ! i"
    using i len by (simp add: user_readable_def user_byte_def range_answer sample_user_ok(1) [OF sample_kern_facts])
qed

theorem vfs_open_correct_witness:
  "\<exists>s'. verve_vfs_open_u 0x80000000 sample_kern = Some (3, s') \<and> fd_rest s' 3 = Some (file_bytes 0)"
proof -
  have path: "Option.bind (user_path sample_kern 0x80000000) (\<lambda>p. Some (file_of p)) = Some (Some 0)"
    by (simp add: sample_kern_path file_of_def)
  have nf: "\<not> (\<forall>k<(12::nat). fd_rest sample_kern (3 + of_nat k) \<noteq> None)"
    by (auto simp: sample_kern_closed intro: exI [of _ 0])
  have none: "(fd_rest sample_kern (3 + of_nat j) \<noteq> None) = False" for j by (simp add: sample_kern_closed)
  from vfs_open_correct [OF sample_kern_good, of "0x80000000", unfolded path option.case if_not_P [OF nf]]
  obtain r s' k where O: "verve_vfs_open_u 0x80000000 sample_kern = Some (r, s')" "r = 3 + of_nat k"
    "\<forall>j<k. fd_rest sample_kern (3 + of_nat j) \<noteq> None" "fd_rest s' = (fd_rest sample_kern)(r \<mapsto> file_bytes (unat (0 :: u32)))"
    by blast
  then have "k = 0" using none by auto
  then show ?thesis using O by simp
qed

text \<open>The same program with the file open at its start.\<close>

definition sample_open :: kern where
  "sample_open = sample_kern\<lparr>g_ufd := \<lparr>used = 1, vfidx = 0, pos = 0\<rparr> # replicate 11 \<lparr>used = 0, vfidx = 0, pos = 0\<rparr>\<rparr>"

lemma sample_open_good: "vfs_good sample_open"
  using sample_kern_good
  by (auto simp: vfs_good_def sample_open_def ufd_frame vfs_inv_def nth_Cons split: nat.split)

lemma sample_open_rest: "fd_rest sample_open 3 = Some (file_bytes 0)"
  by (auto simp: fd_rest_iff sample_open_def slot_rest_def intro: exI [of _ 0])

lemma sample_open_buf: "user_buf sample_open 0x80000100 20"
proof -
  have f: "mem sample_open = sample_user_mem (hello_name @ [0])" "cr3 sample_open = 0x2000" "cr0_pg sample_open"
    by (simp_all add: sample_open_def sample_kern_def)
  note ok = sample_user_ok [OF sample_kern_facts(1) f]
  have b: "page_of (0x80000000 :: u32) = 0x80000000" by (simp add: page_of_def)
  have pg: "page_of (0x80000100 + of_nat i) = 0x80000000 \<and> (0x80000100 + of_nat i) AND 4095 = (of_nat (256 + i) :: u32)" if "i < 20" for i
    using page_plus [OF b, of "256 + i"] page_off_plus [OF b, of "256 + i"] that by simp
  have g: "user_good sample_open" using sample_open_good by (simp add: vfs_good_def)
  have tr: "vtranslate sample_open (0x80000100 + of_nat i) = Some (0x5000 + of_nat (256 + i))" if "i < 20" for i
    using ok(2) [of "0x80000100 + of_nat i"] pg [OF that] page_and_offset [of "0x5000 + of_nat (256 + i)"]
      page_plus [OF sample_pages(3), of "256 + i"] page_off_plus [OF sample_pages(3), of "256 + i"] that by simp
  have "paging_user_range_ok 0x80000100 20 True sample_open = Some True"
    using pg by (simp add: range_answer [OF g] ok(1))
  moreover have "i = j" if "i < 20" "j < 20"
    "vtranslate sample_open (0x80000100 + of_nat i) = vtranslate sample_open (0x80000100 + of_nat j)" for i j
    using that(3) tr [OF that(1)] tr [OF that(2)] of_nat_eq_iff32 [of "256 + i" "256 + j"] that(1,2) by simp
  ultimately show ?thesis by (simp add: user_buf_def)
qed

theorem vfs_read_correct_witness:
  "\<exists>s'. verve_vfs_read_u 3 0x80000100 20 sample_open = Some (20, s')
     \<and> fd_rest s' 3 = Some (drop 20 (file_bytes 0)) \<and> vload s' 0x80000100 = Some 72"
proof -
  have ok: "paging_user_range_ok 0x80000100 (clip 20) True sample_open = Some True" "user_buf sample_open 0x80000100 (clip 20)"
    using sample_open_buf by (simp_all add: user_buf_def clip_def)
  have len: "length (file_bytes 0) = 39" using file_lens by (simp add: file_bytes_def)
  have nz: "\<not> (20 :: u32) = 0" by simp
  have nb: "\<not> paging_user_range_ok 0x80000100 (clip 20) True sample_open \<noteq> Some True" using ok(1) by simp
  from vfs_read_correct [OF sample_open_good, of 3 "0x80000100" 20, unfolded sample_open_rest option.case if_not_P [OF nz] if_not_P [OF nb]]
  obtain r s' where R: "verve_vfs_read_u 3 0x80000100 20 sample_open = Some (r, s')"
    "unat r = min (min (unat (20 :: u32)) 4096) (length (file_bytes 0))"
    "fd_rest s' = (fd_rest sample_open)(3 \<mapsto> drop (unat r) (file_bytes 0))"
    "\<forall>i<unat r. vload s' (0x80000100 + of_nat i) = Some (file_bytes 0 ! i)"
    using ok(2) by blast
  have R2: "unat r = 20" using R(2) len by simp
  have "r = 20" using R2 by (simp add: word_unat_eq_iff)
  moreover have "vload s' 0x80000100 = Some (file_bytes 0 ! 0)" using spec [OF R(4), of 0] R2 by simp
  moreover have "file_bytes 0 ! 0 = 72"
    using file_lens by (simp add: file_bytes_def) (simp add: g_vfs_files_def s_hello_data_def cstr_def)
  ultimately show ?thesis using R R2 by simp
qed

theorem vfs_reads_stream_witness:
  "\<exists>s'. fdt.session 3 [Inl (0x80000100, 20), Inr 4, Inl (0x80000100, 20)] sample_open = Some (file_bytes 0, s')"
proof -
  have "fdt.fine 3 sample_open [Inl (0x80000100, 20), Inr 4, Inl (0x80000100, 20)]"
    using sample_open_buf by (simp add: fdt.fine_def)
  from vfs_reads_stream [OF sample_open_good sample_open_rest this] obtain s' where
    "fdt.session 3 [Inl (0x80000100, 20), Inr 4, Inl (0x80000100, 20)] sample_open
      = Some (take (fdt.asked [Inl (0x80000100, 20), Inr 4, Inl (0x80000100, 20)]) (file_bytes 0), s')" by blast
  moreover have "length (file_bytes 0) = 39" using file_lens by (simp add: file_bytes_def)
  ultimately show ?thesis by (simp add: fdt.asked_def)
qed

end
