(* ===== verification/Pic_Pit.thy ===== *)
theory Pic_Pit
  imports Ports
begin

text \<open>
  \<open>arch/i386/pic.c\<close> and \<open>arch/i386/pit.c\<close>: the two 8259 interrupt controllers and the 8254
  timer, driven through the I/O ports.
\<close>

section \<open>The code\<close>

abbreviation (input) PIC1_CMD :: u16 where "PIC1_CMD \<equiv> 0x20"
abbreviation (input) PIC1_DATA :: u16 where "PIC1_DATA \<equiv> 0x21"
abbreviation (input) PIC2_CMD :: u16 where "PIC2_CMD \<equiv> 0xA0"
abbreviation (input) PIC2_DATA :: u16 where "PIC2_DATA \<equiv> 0xA1"

definition pic_wait :: "'a io_scheme \<Rightarrow> 'a io_scheme" where
  "pic_wait s = snd (verve_inb PIC1_CMD s)"

definition pic_init :: "u8 \<Rightarrow> u8 \<Rightarrow> 'a io_scheme \<Rightarrow> 'a io_scheme" where
  "pic_init master slave s =
     (let s1 = pic_wait (verve_outb PIC1_CMD 0x11 s);
          s2 = pic_wait (verve_outb PIC2_CMD 0x11 s1);
          s3 = pic_wait (verve_outb PIC1_DATA master s2);
          s4 = pic_wait (verve_outb PIC2_DATA slave s3);
          s5 = pic_wait (verve_outb PIC1_DATA 4 s4);
          s6 = pic_wait (verve_outb PIC2_DATA 2 s5);
          s7 = pic_wait (verve_outb PIC1_DATA 1 s6);
          s8 = pic_wait (verve_outb PIC2_DATA 1 s7)
      in verve_outb PIC2_DATA 0xFF (verve_outb PIC1_DATA 0xFF s8))"

definition pic_irq_mask_all :: "'a io_scheme \<Rightarrow> 'a io_scheme" where
  "pic_irq_mask_all s = verve_outb PIC2_DATA 0xFF (verve_outb PIC1_DATA 0xFF s)"

text \<open>\<open>1u << shift\<close> is an \<open>int\<close>-sized shift whose complement is cut to a byte.\<close>

definition pic_irq_unmask :: "u8 \<Rightarrow> 'a io_scheme \<Rightarrow> 'a io_scheme" where
  "pic_irq_unmask irq_line s =
     (let port = (if irq_line < 8 then PIC1_DATA else PIC2_DATA);
          shift = (if irq_line < 8 then irq_line else irq_line - 8)
      in case verve_inb port s of (val, s1) \<Rightarrow>
           verve_outb port (val AND ucast (NOT (push_bit (unat shift) (1 :: u32)))) s1)"

definition pic_send_eoi :: "u8 \<Rightarrow> 'a io_scheme \<Rightarrow> 'a io_scheme" where
  "pic_send_eoi irq_line s =
     verve_outb PIC1_CMD 0x20 (if irq_line \<ge> 8 then verve_outb PIC2_CMD 0x20 s else s)"

text \<open>A division by zero faults and the fault handler halts: \<open>None\<close>.\<close>

definition pit_divisor :: "u32 \<Rightarrow> u32" where
  "pit_divisor hz =
     (let d0 = 1193182 div hz;
          d1 = (if d0 > 65535 then 65535 else d0)
      in if d1 < 2 then 2 else d1)"

definition pit_set_frequency_hz :: "u32 \<Rightarrow> 'a io_scheme \<Rightarrow> 'a io_scheme option" where
  "pit_set_frequency_hz hz s =
     (if hz = 0 then None
      else let divisor = pit_divisor hz; s1 = verve_outb 0x43 0x36 s;
               s2 = verve_outb 0x40 (ucast (divisor AND 0xFF)) s1
           in Some (verve_outb 0x40 (ucast (drop_bit 8 divisor AND 0xFF)) s2))"

section \<open>The devices\<close>

text \<open>
  What the documentation says an 8259 does with a sequence of command and data bytes: ICW1
  starts initialisation, the next three data bytes are the vector base, the cascade
  wiring and the mode, every later data byte is the interrupt mask.  Command \<open>0x20\<close> ends
  the interrupt in service.
\<close>

record i8259 =
  icw_left :: nat
  vec_base :: u8
  imr :: u8
  eois :: nat

definition i8259_cmd :: "u8 \<Rightarrow> i8259 \<Rightarrow> i8259" where
  "i8259_cmd v d = (if v AND 0x10 \<noteq> 0 then d\<lparr>icw_left := 3, imr := 0\<rparr>
     else if v = 0x20 then d\<lparr>eois := Suc (eois d)\<rparr> else d)"

definition i8259_data :: "u8 \<Rightarrow> i8259 \<Rightarrow> i8259" where
  "i8259_data v d = (if icw_left d = 3 then d\<lparr>icw_left := 2, vec_base := v AND 0xF8\<rparr>
     else if icw_left d > 0 then d\<lparr>icw_left := icw_left d - 1\<rparr> else d\<lparr>imr := v\<rparr>)"

fun i8259_run :: "u16 \<Rightarrow> (u16 \<times> u8) list \<Rightarrow> i8259 \<Rightarrow> i8259" where
  "i8259_run base [] d = d"
| "i8259_run base ((p, v) # es) d =
     i8259_run base es (if p = base then i8259_cmd v d else if p = base + 1 then i8259_data v d else d)"

lemma i8259_run_append: "i8259_run base (es @ fs) d = i8259_run base fs (i8259_run base es d)"
  by (induction es arbitrary: d) auto

text \<open>The bytes an operation appends to the trace.\<close>

definition written :: "'a io_scheme \<Rightarrow> 'a io_scheme \<Rightarrow> (u16 \<times> u8) list" where
  "written s s' = drop (length (io_outs s)) (io_outs s')"

lemma pic_wait_outs [simp]: "io_outs (pic_wait s) = io_outs s"
  by (simp add: pic_wait_def)

lemma pic_init_written: "written s (pic_init master slave s) =
    [(PIC1_CMD, 0x11), (PIC2_CMD, 0x11), (PIC1_DATA, master), (PIC2_DATA, slave), (PIC1_DATA, 4), (PIC2_DATA, 2),
     (PIC1_DATA, 1), (PIC2_DATA, 1), (PIC1_DATA, 0xFF), (PIC2_DATA, 0xFF)]"
  by (simp add: written_def pic_init_def Let_def)

section \<open>Properties\<close>

text \<open>
  \<open>pic_init\<close> leaves both controllers initialised with the given vector bases and every
  line masked; \<open>pic_irq_unmask\<close> of one of the 16 lines writes, to the controller of that
  line, its mask with the line's bit cleared and all others kept; \<open>pic_send_eoi\<close> ends the
  interrupt at the master, and at the slave exactly for the lines wired to it.
\<close>

theorem pic_programs_controllers:
  "(let d = i8259_run PIC1_CMD (written s (pic_init master slave s)) d1
    in icw_left d = 0 \<and> vec_base d = master AND 0xF8 \<and> imr d = 0xFF)
   \<and> (let d = i8259_run PIC2_CMD (written s (pic_init master slave s)) d2
      in icw_left d = 0 \<and> vec_base d = slave AND 0xF8 \<and> imr d = 0xFF)
   \<and> (\<forall>k\<in>{0..<16::nat}. \<exists>v. written s (pic_irq_unmask (of_nat k) s) = [(if k < 8 then PIC1_DATA else PIC2_DATA, v)]
        \<and> (\<forall>b. bit v b \<longleftrightarrow> bit (io_in s (io_reads s) (if k < 8 then PIC1_DATA else PIC2_DATA)) b \<and> b \<noteq> k mod 8))
   \<and> (\<forall>k\<in>{0..<16::nat}. eois (i8259_run PIC1_CMD (written s (pic_send_eoi (of_nat k) s)) d1) = Suc (eois d1)
        \<and> eois (i8259_run PIC2_CMD (written s (pic_send_eoi (of_nat k) s)) d2) = (if k < 8 then eois d2 else Suc (eois d2)))"
proof (intro conjI ballI)
  show "let d = i8259_run PIC1_CMD (written s (pic_init master slave s)) d1
    in icw_left d = 0 \<and> vec_base d = master AND 0xF8 \<and> imr d = 0xFF"
    and "let d = i8259_run PIC2_CMD (written s (pic_init master slave s)) d2
      in icw_left d = 0 \<and> vec_base d = slave AND 0xF8 \<and> imr d = 0xFF"
    by (simp_all add: pic_init_written i8259_cmd_def i8259_data_def)
next
  fix k :: nat assume "k \<in> {0..<16}"
  then have k: "k < 16" by simp
  then have u: "unat (of_nat k :: u8) = k" by (simp add: unat_of_nat)
  then have lt: "(of_nat k :: u8) < 8 \<longleftrightarrow> k < 8" by (simp add: word_less_nat_alt)
  have m: "unat (if (of_nat k :: u8) < 8 then of_nat k else of_nat k - 8 :: u8) = k mod 8"
    using k u lt by (auto simp: unat_sub_if_size word_size mod_if)
  let ?p = "if k < 8 then PIC1_DATA else PIC2_DATA"
  let ?v = "io_in s (io_reads s) ?p AND ucast (NOT (push_bit (k mod 8) (1 :: u32)))"
  have "written s (pic_irq_unmask (of_nat k) s) = [(?p, ?v)]"
    unfolding pic_irq_unmask_def Let_def m by (simp add: lt written_def verve_inb_def)
  moreover have "bit ?v b \<longleftrightarrow> bit (io_in s (io_reads s) ?p) b \<and> b \<noteq> k mod 8" for b
    by (auto simp: bit_simps dest: bit_imp_le_length)
  ultimately show "\<exists>v. written s (pic_irq_unmask (of_nat k) s) = [(?p, v)]
      \<and> (\<forall>b. bit v b \<longleftrightarrow> bit (io_in s (io_reads s) ?p) b \<and> b \<noteq> k mod 8)" by blast
  have le: "(of_nat k :: u8) \<ge> 8 \<longleftrightarrow> \<not> k < 8" by (simp add: word_le_nat_alt u not_less)
  show "eois (i8259_run PIC1_CMD (written s (pic_send_eoi (of_nat k) s)) d1) = Suc (eois d1)"
    and "eois (i8259_run PIC2_CMD (written s (pic_send_eoi (of_nat k) s)) d2) = (if k < 8 then eois d2 else Suc (eois d2))"
    by (simp_all add: pic_send_eoi_def written_def le i8259_cmd_def)
qed

definition sample_io :: io where
  "sample_io = \<lparr>io_in = \<lambda>_ _. 0xFF, io_reads = 0, io_outs = []\<rparr>"

theorem pic_programs_controllers_witness:
  "\<exists>v. written sample_io (pic_irq_unmask 10 sample_io) = [(PIC2_DATA, v)] \<and> \<not> bit v 2 \<and> bit v 3"
proof -
  have "(10 :: nat) \<in> {0..<16}" by simp
  from bspec [OF pic_programs_controllers [of sample_io 0 0 undefined undefined, THEN conjunct2, THEN conjunct2, THEN conjunct1] this]
  obtain v where "written sample_io (pic_irq_unmask (of_nat 10) sample_io) = [(PIC2_DATA, v)]"
    "\<forall>b. bit v b \<longleftrightarrow> bit (0xFF :: u8) b \<and> b \<noteq> 2" by (auto simp: sample_io_def)
  then show ?thesis by (auto simp: bit_numeral_rec)
qed

text \<open>
  For every nonzero frequency the timer is programmed with mode 3 and a divisor between
  2 and 65535, sent low byte first so that the two bytes put together are the divisor; it
  is \<open>1193182 / hz\<close> whenever that fits.
\<close>

theorem pit_divisor_programmed:
  assumes "hz \<noteq> 0"
  shows "\<exists>s' lo hi. pit_set_frequency_hz hz s = Some s' \<and> written s s' = [(0x43, 0x36), (0x40, lo), (0x40, hi)]
    \<and> unat lo + 256 * unat hi = unat (pit_divisor hz) \<and> 2 \<le> unat (pit_divisor hz) \<and> unat (pit_divisor hz) \<le> 65535
    \<and> (19 \<le> unat hz \<and> unat hz \<le> 596591 \<longrightarrow> unat (pit_divisor hz) = 1193182 div unat hz)"
proof -
  let ?d = "pit_divisor hz"
  have div: "unat (1193182 div hz) = 1193182 div unat hz" by (simp add: unat_div)
  have d: "unat ?d = max 2 (min 65535 (1193182 div unat hz))"
    by (auto simp: pit_divisor_def Let_def word_less_nat_alt div)
  have m: "(0xFF :: u32) = mask 8" by (simp add: mask_eq_exp_minus_1)
  have lo: "unat (ucast (?d AND 0xFF) :: u8) = unat ?d mod 256"
    by (simp only: unat_ucast_u32_u8 m unat_and_mask) simp
  have hi: "unat (ucast (drop_bit 8 ?d AND 0xFF) :: u8) = unat ?d div 256"
    using d by (simp only: unat_ucast_u32_u8 m unat_and_mask unat_shiftr) simp
  have "19 \<le> unat hz \<and> unat hz \<le> 596591 \<longrightarrow> unat ?d = 1193182 div unat hz"
  proof
    assume h: "19 \<le> unat hz \<and> unat hz \<le> 596591"
    have "2 * unat hz \<le> 1193182" using h by simp
    then have "2 \<le> 1193182 div unat hz" using h by (simp add: less_eq_div_iff_mult_less_eq)
    moreover have "1193182 div unat hz \<le> 1193182 div 19" using h by (intro div_le_mono2) auto
    ultimately show "unat ?d = 1193182 div unat hz" using d by simp
  qed
  moreover have "pit_set_frequency_hz hz s = Some (verve_outb 0x40 (ucast (drop_bit 8 ?d AND 0xFF))
      (verve_outb 0x40 (ucast (?d AND 0xFF)) (verve_outb 0x43 0x36 s)))"
    using assms by (simp add: pit_set_frequency_hz_def Let_def)
  ultimately show ?thesis using lo hi d by (auto simp: written_def)
qed

theorem pit_divisor_programmed_witness:
  "unat (pit_divisor 100) = 11931 \<and> (\<exists>s'. pit_set_frequency_hz 100 sample_io = Some s')"
  using pit_divisor_programmed [of 100 sample_io] by auto

end
