(* ===== verification/Lapic.thy ===== *)
theory Lapic
  imports Vfs_Ram
begin

text \<open>
  \<open>arch/i386/lapic.c\<close>: the local APIC of the CPU that runs the code.  The device is the
  environment: \<open>lapic_id_reg\<close> is its read-only ID register, \<open>mmio_in n a\<close> the word the
  \<open>n\<close>-th other memory-mapped read returns when it reads address \<open>a\<close>, \<open>mmio_outs\<close> the trace
  of all words written.  Addresses are the ones the code uses.
\<close>

record dev = kern +
  lapic_id_reg :: u32
  mmio_in :: "nat \<Rightarrow> u32 \<Rightarrow> u32"
  mmio_reads :: nat
  mmio_outs :: "(u32 \<times> u32) list"
  apic_base_msr :: "u32 \<times> u32"

section \<open>The code\<close>

abbreviation (input) LAPIC_DEFAULT_BASE :: u32 where "LAPIC_DEFAULT_BASE \<equiv> 0xFEE00000"
abbreviation (input) LAPIC_ID :: u32 where "LAPIC_ID \<equiv> 0x20"
abbreviation (input) LAPIC_SVR :: u32 where "LAPIC_SVR \<equiv> 0xF0"
abbreviation (input) LAPIC_EOI :: u32 where "LAPIC_EOI \<equiv> 0xB0"
abbreviation (input) LAPIC_ICRLO :: u32 where "LAPIC_ICRLO \<equiv> 0x300"
abbreviation (input) LAPIC_ICRHI :: u32 where "LAPIC_ICRHI \<equiv> 0x310"
abbreviation (input) LAPIC_DIVCONF :: u32 where "LAPIC_DIVCONF \<equiv> 0x3E0"
abbreviation (input) LAPIC_TIMER_ICR :: u32 where "LAPIC_TIMER_ICR \<equiv> 0x380"
abbreviation (input) LAPIC_LVT_TIMER :: u32 where "LAPIC_LVT_TIMER \<equiv> 0x320"
abbreviation (input) APIC_BASE_EN :: u32 where "APIC_BASE_EN \<equiv> 0x800"
abbreviation (input) ICR_DELIVS :: u32 where "ICR_DELIVS \<equiv> 0x1000"

definition mmio_write :: "u32 \<Rightarrow> u32 \<Rightarrow> 'a dev_scheme \<Rightarrow> 'a dev_scheme" where
  "mmio_write a v s = s\<lparr>mmio_outs := mmio_outs s @ [(a, v)]\<rparr>"

definition mmio_read :: "u32 \<Rightarrow> 'a dev_scheme \<Rightarrow> u32 \<times> 'a dev_scheme" where
  "mmio_read a s = (mmio_in s (mmio_reads s) a, s\<lparr>mmio_reads := Suc (mmio_reads s)\<rparr>)"

definition mmio_w32 :: "u32 \<Rightarrow> u32 \<Rightarrow> 'a dev_scheme \<Rightarrow> 'a dev_scheme" where
  "mmio_w32 off v s = mmio_write (LAPIC_DEFAULT_BASE + off) v s"

definition mmio_r32 :: "u32 \<Rightarrow> 'a dev_scheme \<Rightarrow> u32 \<times> 'a dev_scheme" where
  "mmio_r32 off s = (if off = LAPIC_ID then (lapic_id_reg s, s) else mmio_read (LAPIC_DEFAULT_BASE + off) s)"

definition lapic_msr_enable :: "'a dev_scheme \<Rightarrow> 'a dev_scheme" where
  "lapic_msr_enable s =
     (let lo = fst (apic_base_msr s); hi = snd (apic_base_msr s)
      in s\<lparr>apic_base_msr := (lo OR APIC_BASE_EN, hi)\<rparr>)"

definition lapic_mmio_map :: "layout \<Rightarrow> 'a dev_scheme \<Rightarrow> 'a dev_scheme" where
  "lapic_mmio_map L s = snd (paging_map_identity_page L LAPIC_DEFAULT_BASE s)"

definition lapic_software_enable :: "'a dev_scheme \<Rightarrow> 'a dev_scheme" where
  "lapic_software_enable s =
     (case mmio_r32 LAPIC_SVR s of (v, s1) \<Rightarrow>
        mmio_w32 LAPIC_SVR (((v AND 0xFFFFFE00) OR 0x1FF) OR 0x100) s1)"

definition lapic_eoi :: "'a dev_scheme \<Rightarrow> 'a dev_scheme" where
  "lapic_eoi s = mmio_w32 LAPIC_EOI 0 s"

text \<open>The read of the ID register has no effect.\<close>

definition lapic_id :: "'a dev_scheme \<Rightarrow> u8" where
  "lapic_id s = ucast (drop_bit 24 (fst (mmio_r32 LAPIC_ID s)))"

text \<open>The wait for the delivery status bit; \<open>None\<close> when it never clears.\<close>

partial_function (option) lapic_icr_wait :: "'a dev_scheme \<Rightarrow> 'a dev_scheme option" where
  "lapic_icr_wait s =
     (case mmio_r32 LAPIC_ICRLO s of (v, s1) \<Rightarrow> if v AND ICR_DELIVS \<noteq> 0 then lapic_icr_wait s1 else Some s1)"

definition lapic_send_init :: "u8 \<Rightarrow> 'a dev_scheme \<Rightarrow> 'a dev_scheme option" where
  "lapic_send_init apic_id s =
     lapic_icr_wait (mmio_w32 LAPIC_ICRLO 0x4500 (mmio_w32 LAPIC_ICRHI (push_bit 24 (ucast apic_id)) s))"

definition lapic_send_sipi :: "u8 \<Rightarrow> u8 \<Rightarrow> 'a dev_scheme \<Rightarrow> 'a dev_scheme option" where
  "lapic_send_sipi apic_id vector s =
     lapic_icr_wait (mmio_w32 LAPIC_ICRLO (0x600 OR ucast vector)
       (mmio_w32 LAPIC_ICRHI (push_bit 24 (ucast apic_id)) s))"

definition lapic_bsp_early_init :: "layout \<Rightarrow> 'a dev_scheme \<Rightarrow> 'a dev_scheme" where
  "lapic_bsp_early_init L s = lapic_software_enable (lapic_msr_enable (lapic_mmio_map L s))"

definition lapic_timer_periodic :: "u8 \<Rightarrow> u32 \<Rightarrow> u8 \<Rightarrow> 'a dev_scheme \<Rightarrow> 'a dev_scheme" where
  "lapic_timer_periodic vector initial_count divide_reg s =
     mmio_w32 LAPIC_LVT_TIMER (0x20000 OR ucast vector)
       (mmio_w32 LAPIC_TIMER_ICR initial_count
         (mmio_w32 LAPIC_DIVCONF (ucast divide_reg)
           (mmio_w32 LAPIC_LVT_TIMER (0x10000 OR ucast vector) s)))"

section \<open>Waiting for delivery\<close>

text \<open>The APIC delivers every message at some time: what the code relies on to return.\<close>

definition icr_live :: "'a dev_scheme \<Rightarrow> bool" where
  "icr_live s \<longleftrightarrow> (\<forall>n. \<exists>k\<ge>n. mmio_in s k 0xFEE00300 AND ICR_DELIVS = 0)"

lemma icr_wait_step:
  "lapic_icr_wait s = (if mmio_in s (mmio_reads s) 0xFEE00300 AND ICR_DELIVS \<noteq> 0
     then lapic_icr_wait (s\<lparr>mmio_reads := Suc (mmio_reads s)\<rparr>) else Some (s\<lparr>mmio_reads := Suc (mmio_reads s)\<rparr>))"
  by (subst lapic_icr_wait.simps) (simp add: mmio_r32_def mmio_read_def)

lemma lapic_icr_wait_upto:
  assumes "mmio_in s k 0xFEE00300 AND ICR_DELIVS = 0" and "mmio_reads s \<le> k"
  shows "\<exists>n. lapic_icr_wait s = Some (s\<lparr>mmio_reads := n\<rparr>)"
  using assms
proof (induction "k - mmio_reads s" arbitrary: s)
  case 0
  then have "mmio_in s (mmio_reads s) 0xFEE00300 AND ICR_DELIVS = 0" by (metis diff_is_0_eq le_antisym)
  then have "lapic_icr_wait s = Some (s\<lparr>mmio_reads := Suc (mmio_reads s)\<rparr>)" by (simp add: icr_wait_step)
  then show ?case by blast
next
  case (Suc d)
  show ?case
  proof (cases "mmio_in s (mmio_reads s) 0xFEE00300 AND ICR_DELIVS = 0")
    case False
    have "\<exists>n. lapic_icr_wait (s\<lparr>mmio_reads := Suc (mmio_reads s)\<rparr>)
        = Some (s\<lparr>mmio_reads := Suc (mmio_reads s)\<rparr>\<lparr>mmio_reads := n\<rparr>)"
      using Suc.hyps(2) Suc.prems by (intro Suc.hyps(1)) auto
    then show ?thesis using False icr_wait_step [of s] by simp
  next
    case True
    then have "lapic_icr_wait s = Some (s\<lparr>mmio_reads := Suc (mmio_reads s)\<rparr>)" by (simp add: icr_wait_step)
    then show ?thesis by blast
  qed
qed

lemma lapic_icr_wait_live: "icr_live s \<Longrightarrow> \<exists>n. lapic_icr_wait s = Some (s\<lparr>mmio_reads := n\<rparr>)"
  using lapic_icr_wait_upto by (metis icr_live_def)

lemma icr_live_frame [simp]: "icr_live (s\<lparr>mmio_reads := n\<rparr>) = icr_live s" "icr_live (s\<lparr>mmio_outs := es\<rparr>) = icr_live s"
  by (simp_all add: icr_live_def)

text \<open>The two words of the interrupt command register that send one message.\<close>

definition icr_words :: "u8 \<Rightarrow> u32 \<Rightarrow> (u32 \<times> u32) list" where
  "icr_words dst cmd = [(0xFEE00310, push_bit 24 (ucast dst)), (0xFEE00300, cmd)]"

lemma lapic_send_live:
  assumes "icr_live s"
  shows "\<exists>n. lapic_send_init a s = Some (s\<lparr>mmio_outs := mmio_outs s @ icr_words a 0x4500, mmio_reads := n\<rparr>)"
    and "\<exists>n. lapic_send_sipi a v s = Some (s\<lparr>mmio_outs := mmio_outs s @ icr_words a (0x600 OR ucast v), mmio_reads := n\<rparr>)"
proof -
  have "\<exists>n. lapic_icr_wait (s\<lparr>mmio_outs := es\<rparr>) = Some (s\<lparr>mmio_outs := es, mmio_reads := n\<rparr>)" for es
    using lapic_icr_wait_live [of "s\<lparr>mmio_outs := es\<rparr>"] assms by simp
  then show "\<exists>n. lapic_send_init a s = Some (s\<lparr>mmio_outs := mmio_outs s @ icr_words a 0x4500, mmio_reads := n\<rparr>)"
    "\<exists>n. lapic_send_sipi a v s = Some (s\<lparr>mmio_outs := mmio_outs s @ icr_words a (0x600 OR ucast v), mmio_reads := n\<rparr>)"
    by (simp_all add: lapic_send_init_def lapic_send_sipi_def mmio_w32_def mmio_write_def icr_words_def)
qed

end
