(* ===== verification/Acpi.thy ===== *)
theory Acpi
  imports Lapic
begin

text \<open>
  \<open>kernel/acpi_hw.c\<close> and \<open>kernel/acpi_smp.c\<close>: finding the MADT from the RSDP of the boot
  information and collecting the CPUs, the I/O APIC and the routing of IRQ 0 from it.
  Tables are bytes of the flat memory, which the kernel reaches through its identity
  mapping; the copy of the RSDP is a list of bytes.
\<close>

record acpi = dev +
  g_cpu_apic_ids :: "u8 list"
  g_cpu_count :: u32
  g_ioapic_phys :: u32
  g_ioapic_gsi_base :: u32
  g_irq0_gsi :: u32
  g_ioapic_id :: u8
  g_has_ioapic :: bool
  g_hw_inited :: bool

section \<open>The code\<close>

abbreviation (input) MAX_CPUS_HW :: u32 where "MAX_CPUS_HW \<equiv> 32"
abbreviation (input) ACPI_HDR :: u32 where "ACPI_HDR \<equiv> 36"

fun acpi_sum_loop :: "memory \<Rightarrow> u32 \<Rightarrow> nat \<Rightarrow> u32 \<Rightarrow> u32" where
  "acpi_sum_loop m p 0 s = s"
| "acpi_sum_loop m p (Suc n) s = acpi_sum_loop m (p + 1) n (s + ucast (m p))"

definition acpi_sum :: "memory \<Rightarrow> u32 \<Rightarrow> u32 \<Rightarrow> u8" where
  "acpi_sum m p len = ucast (acpi_sum_loop m p (unat len) 0 AND 0xFF)"

definition acpi_ok :: "memory \<Rightarrow> u32 \<Rightarrow> u32 \<Rightarrow> bool" where
  "acpi_ok m p len \<longleftrightarrow> acpi_sum m p len = 0"

text \<open>The local buffer as memory from address 0 on; the code reads its filled part only.\<close>

definition buf_mem :: "u8 list \<Rightarrow> memory" where
  "buf_mem b a = (if unat a < length b then b ! unat a else 0)"

definition RSDP_SIG :: "u8 list" where
  "RSDP_SIG = cstr ''RSD PTR ''"

definition rsdp_parse :: "u8 list \<Rightarrow> (u32 \<times> u64 \<times> bool) option" where
  "rsdp_parse rsdp =
     (if length rsdp < 20 then None
      else if \<exists>i\<in>set [0..<8]. rsdp ! i \<noteq> RSDP_SIG ! i then None
      else if \<not> acpi_ok (buf_mem rsdp) 0 20 then None
      else let rsdt = ld32 (buf_mem rsdp) 16
        in if length rsdp \<ge> 36 \<and> rsdp ! 15 \<ge> 2 then
             (let xl = ld64 (buf_mem rsdp) 24 in if xl \<noteq> 0 then Some (rsdt, xl, True) else Some (rsdt, 0, False))
           else Some (rsdt, 0, False))"

definition hdr_length :: "memory \<Rightarrow> u32 \<Rightarrow> u32" where
  "hdr_length m t = ld32 m (t + 4)"

definition tbl_ok :: "memory \<Rightarrow> u32 \<Rightarrow> u32 \<Rightarrow> bool" where
  "tbl_ok m t scan_len \<longleftrightarrow>
     (if scan_len < ACPI_HDR then False
      else if hdr_length m t < ACPI_HDR \<or> hdr_length m t > scan_len then False
      else acpi_ok m t (hdr_length m t))"

text \<open>One entry of the MADT at \<open>off\<close>, of type \<open>etyp\<close> and length \<open>elen\<close>.\<close>

definition madt_entry :: "u32 \<Rightarrow> u32 \<Rightarrow> u8 \<Rightarrow> u8 \<Rightarrow> u32 \<Rightarrow> 'a acpi_scheme \<Rightarrow> u32 \<times> 'a acpi_scheme" where
  "madt_entry m off etyp elen ncpu s =
     (if etyp = 0 \<and> elen \<ge> 8 then
        (let fl = ld32 (mem s) (m + off + 4)
         in if fl AND 1 \<noteq> 0 \<and> ncpu < MAX_CPUS_HW
            then (ncpu + 1, s\<lparr>g_cpu_apic_ids := (g_cpu_apic_ids s)[unat ncpu := mem s (m + (off + 3))]\<rparr>)
            else (ncpu, s))
      else if etyp = 1 \<and> elen \<ge> 12 \<and> \<not> g_has_ioapic s then
        (ncpu, s\<lparr>g_ioapic_id := mem s (m + (off + 2)), g_ioapic_phys := ld32 (mem s) (m + off + 4),
           g_ioapic_gsi_base := ld32 (mem s) (m + off + 8), g_has_ioapic := True\<rparr>)
      else if etyp = 2 \<and> elen \<ge> 16 then
        (let src_irq = mem s (m + (off + 8))
         in if src_irq = 0 then (ncpu, s\<lparr>g_irq0_gsi := ld32 (mem s) (m + off + 12)\<rparr>) else (ncpu, s))
      else (ncpu, s))"

text \<open>The loop; \<open>off + 2\<close> and \<open>off + elen\<close> are 32-bit sums, so near 4 GiB it may not end.\<close>

partial_function (option) madt_loop ::
    "u32 \<Rightarrow> u32 \<Rightarrow> u32 \<Rightarrow> u32 \<Rightarrow> 'a acpi_scheme \<Rightarrow> (bool \<times> u32 \<times> 'a acpi_scheme) option" where
  "madt_loop m mlen off ncpu s =
     (if off + 2 \<le> mlen then
        let etyp = mem s (m + off); elen = mem s (m + (off + 1))
        in if elen < 2 \<or> off + ucast elen > mlen then Some (False, ncpu, s)
           else (case madt_entry m off etyp elen ncpu s of (ncpu', s') \<Rightarrow>
                   madt_loop m mlen (off + ucast elen) ncpu' s')
      else Some (True, ncpu, s))"

definition madt_collect :: "u32 \<Rightarrow> u32 \<Rightarrow> 'a acpi_scheme \<Rightarrow> (bool \<times> 'a acpi_scheme) option" where
  "madt_collect m mlen s =
     (if mlen < 44 then Some (False, s)
      else map_option (\<lambda>(ok, ncpu, s'). if ok then (True, s'\<lparr>g_cpu_count := ncpu\<rparr>) else (False, s'))
             (madt_loop m mlen 44 0 (s\<lparr>g_irq0_gsi := 0, g_has_ioapic := False\<rparr>)))"

definition is_madt :: "memory \<Rightarrow> u32 \<Rightarrow> bool" where
  "is_madt m st \<longleftrightarrow> m st = 65 \<and> m (st + 1) = 80 \<and> m (st + 2) = 73 \<and> m (st + 3) = 67"

text \<open>The loops over the table pointers of the XSDT and of the RSDT.\<close>

fun scan_xsdt :: "u32 \<Rightarrow> u32 \<Rightarrow> nat \<Rightarrow> 'a acpi_scheme \<Rightarrow> (bool \<times> 'a acpi_scheme) option" where
  "scan_xsdt tbl i 0 s = Some (False, s)"
| "scan_xsdt tbl i (Suc n) s =
     (let tp = ld64 (mem s) (tbl + ACPI_HDR + i * 8)
      in if tp = 0 then scan_xsdt tbl (i + 1) n s
         else if tp > 0xFFFFFFFF then scan_xsdt tbl (i + 1) n s
         else let st = ucast tp
           in if \<not> tbl_ok (mem s) st (hdr_length (mem s) st) then scan_xsdt tbl (i + 1) n s
              else if is_madt (mem s) st then madt_collect st (hdr_length (mem s) st) s
              else scan_xsdt tbl (i + 1) n s)"

fun scan_rsdt :: "u32 \<Rightarrow> u32 \<Rightarrow> nat \<Rightarrow> 'a acpi_scheme \<Rightarrow> (bool \<times> 'a acpi_scheme) option" where
  "scan_rsdt tbl i 0 s = Some (False, s)"
| "scan_rsdt tbl i (Suc n) s =
     (let tp = ld32 (mem s) (tbl + ACPI_HDR + i * 4)
      in if tp = 0 then scan_rsdt tbl (i + 1) n s
         else if \<not> tbl_ok (mem s) tp (hdr_length (mem s) tp) then scan_rsdt tbl (i + 1) n s
         else if is_madt (mem s) tp then madt_collect tp (hdr_length (mem s) tp) s
         else scan_rsdt tbl (i + 1) n s)"

definition scan_root :: "bool \<Rightarrow> u64 \<Rightarrow> 'a acpi_scheme \<Rightarrow> (bool \<times> 'a acpi_scheme) option" where
  "scan_root xsdt root_phys s =
     (let tbl = ucast root_phys
      in if \<not> tbl_ok (mem s) tbl (hdr_length (mem s) tbl) then Some (False, s)
         else let body = hdr_length (mem s) tbl - ACPI_HDR
           in if xsdt then scan_xsdt tbl 0 (unat (body div 8)) s else scan_rsdt tbl 0 (unat (body div 4)) s)"

definition crlf :: "u8 list" where "crlf = [13, 10]"

text \<open>The label \<open>ok\<close>.\<close>

definition acpi_hw_ok :: "'a acpi_scheme \<Rightarrow> (bool \<times> 'a acpi_scheme) option" where
  "acpi_hw_ok s =
     (let s1 = s\<lparr>g_hw_inited := True\<rparr>
      in Option.bind (serial_puts (cstr ''[VerveOS] acpi_hw: MADT cpus='') s1) (\<lambda>s2.
         Option.bind (serial_put_u64_hex (ucast (g_cpu_count s2)) s2) (\<lambda>s3.
         Option.bind (serial_puts (cstr '' ioapic='') s3) (\<lambda>s4.
         Option.bind (serial_put_u64_hex (if g_has_ioapic s4 then 1 else 0) s4) (\<lambda>s5.
         Option.bind (serial_puts (cstr '' irq0_gsi='') s5) (\<lambda>s6.
         Option.bind (serial_put_u64_hex (ucast (g_irq0_gsi s6)) s6) (\<lambda>s7.
         map_option (\<lambda>s8. (True, s8)) (serial_puts crlf s7))))))))"

definition acpi_hw_rsdt :: "u32 \<Rightarrow> 'a acpi_scheme \<Rightarrow> (bool \<times> 'a acpi_scheme) option" where
  "acpi_hw_rsdt rsdt_phys s =
     Option.bind (if rsdt_phys \<noteq> 0 then scan_root False (ucast rsdt_phys) s else Some (False, s)) (\<lambda>(ok, s1).
       if ok then acpi_hw_ok s1
       else map_option (\<lambda>s2. (False, s2)) (serial_puts (cstr ''[VerveOS] acpi_hw: no valid MADT found'' @ crlf) s1))"

definition acpi_hw_init :: "u32 \<Rightarrow> 'a acpi_scheme \<Rightarrow> (bool \<times> 'a acpi_scheme) option" where
  "acpi_hw_init info s =
     (if g_hw_inited s then Some (True, s)
      else case mb2_find_rsdp_payload (mem s) info 128 of None \<Rightarrow> Some (False, s)
      | Some rsdp_buf \<Rightarrow>
          (case rsdp_parse rsdp_buf of None \<Rightarrow> Some (False, s)
           | Some (rsdt_phys, xsdt_phys, uses_xsdt) \<Rightarrow>
               if uses_xsdt \<and> xsdt_phys \<noteq> 0 \<and> xsdt_phys \<le> 0xFFFFFFFF then
                 Option.bind (scan_root True xsdt_phys s) (\<lambda>(ok, s1).
                   if ok then acpi_hw_ok s1 else acpi_hw_rsdt rsdt_phys s1)
               else acpi_hw_rsdt rsdt_phys s))"

definition acpi_hw_cpu_count :: "'a acpi_scheme \<Rightarrow> u32" where
  "acpi_hw_cpu_count s = g_cpu_count s"

text \<open>\<open>out\<close> is the caller's array; the loop stops at its bound or the collected CPUs.\<close>

fun copy_ids :: "u8 list \<Rightarrow> u8 list \<Rightarrow> nat \<Rightarrow> nat \<Rightarrow> u8 list" where
  "copy_ids ids out i 0 = out"
| "copy_ids ids out i (Suc n) = copy_ids ids (out[i := ids ! i]) (Suc i) n"

definition acpi_hw_copy_apic_ids :: "u8 list \<Rightarrow> u32 \<Rightarrow> 'a acpi_scheme \<Rightarrow> u8 list" where
  "acpi_hw_copy_apic_ids out max_ids s =
     (if max_ids = 0 then out
      else let n = (if g_cpu_count s > max_ids then max_ids else g_cpu_count s)
        in copy_ids (g_cpu_apic_ids s) out 0 (unat n))"

definition acpi_hw_has_ioapic :: "'a acpi_scheme \<Rightarrow> bool" where "acpi_hw_has_ioapic s = g_has_ioapic s"
definition acpi_hw_ioapic_phys :: "'a acpi_scheme \<Rightarrow> u32" where "acpi_hw_ioapic_phys s = g_ioapic_phys s"
definition acpi_hw_ioapic_gsi_base :: "'a acpi_scheme \<Rightarrow> u32" where "acpi_hw_ioapic_gsi_base s = g_ioapic_gsi_base s"
definition acpi_hw_irq0_gsi :: "'a acpi_scheme \<Rightarrow> u32" where "acpi_hw_irq0_gsi s = g_irq0_gsi s"

text \<open>\<open>kernel/acpi_smp.c\<close>; \<open>None\<close> for the null pointer.\<close>

definition acpi_collect_cpu_apic_ids ::
    "u32 \<Rightarrow> u8 list option \<Rightarrow> u32 \<Rightarrow> 'a acpi_scheme \<Rightarrow> (u32 \<times> u8 list option \<times> 'a acpi_scheme) option" where
  "acpi_collect_cpu_apic_ids info outp max_ids s =
     (case outp of None \<Rightarrow> Some (0, None, s)
      | Some out \<Rightarrow>
          if max_ids = 0 then Some (0, Some out, s)
          else Option.bind (acpi_hw_init info s) (\<lambda>(ok, s1).
            if \<not> ok then Some (0, Some out, s1)
            else let n = acpi_hw_cpu_count s1
              in if n = 0 then Some (0, Some out, s1)
                 else let c = (if n > max_ids then max_ids else n)
                   in Some (c, Some (acpi_hw_copy_apic_ids out c s1), s1)))"

section \<open>The MADT of the ACPI specification\<close>

text \<open>The entries the specification defines for the parts the code collects, and their bytes.\<close>

datatype madt_item =
    Local_Apic u8 u8 u32
  | Io_Apic u8 u8 u32 u32
  | Source_Override u8 u8 u32 u8 u8
  | Other_Entry u8 "u8 list"

fun item_bytes :: "madt_item \<Rightarrow> u8 list" where
  "item_bytes (Local_Apic uid aid fl) = [0, 8, uid, aid] @ le32 fl"
| "item_bytes (Io_Apic aid rsv addr gsi) = [1, 12, aid, rsv] @ le32 addr @ le32 gsi"
| "item_bytes (Source_Override bus src gsi f0 f1) = [2, 10, bus, src] @ le32 gsi @ [f0, f1]"
| "item_bytes (Other_Entry t bs) = t # of_nat (length bs + 2) # bs"

fun item_ok :: "madt_item \<Rightarrow> bool" where
  "item_ok (Other_Entry t bs) \<longleftrightarrow> 2 < t \<and> length bs + 2 < 256"
| "item_ok it \<longleftrightarrow> True"

text \<open>What one entry contributes.\<close>

fun absorb :: "madt_item \<Rightarrow> u32 \<times> 'a acpi_scheme \<Rightarrow> u32 \<times> 'a acpi_scheme" where
  "absorb (Local_Apic uid aid fl) (n, s) =
     (if fl AND 1 \<noteq> 0 \<and> n < 32 then (n + 1, s\<lparr>g_cpu_apic_ids := (g_cpu_apic_ids s)[unat n := aid]\<rparr>) else (n, s))"
| "absorb (Io_Apic aid rsv addr gsi) (n, s) =
     (if g_has_ioapic s then (n, s)
      else (n, s\<lparr>g_ioapic_id := aid, g_ioapic_phys := addr, g_ioapic_gsi_base := gsi, g_has_ioapic := True\<rparr>))"
| "absorb it (n, s) = (n, s)"

lemma absorb_mem: "mem (snd (absorb it ns)) = mem (snd ns)"
  by (cases ns; cases it) auto

lemma holds_le32: "holds m a (le32 v @ bs) \<longleftrightarrow> ld32 m a = v \<and> holds m (a + 4) bs"
  by (simp add: holds_append holds_ld32)

lemma entry_absorb:
  assumes "item_ok it" and "holds (mem s) (m + off) (item_bytes it)"
  shows "madt_entry m off (mem s (m + off)) (mem s (m + (off + 1))) n s = absorb it (n, s)"
    and "unat (mem s (m + (off + 1))) = length (item_bytes it)" and "2 \<le> length (item_bytes it)"
proof -
  have *: "madt_entry m off (mem s (m + off)) (mem s (m + (off + 1))) n s = absorb it (n, s)
    \<and> unat (mem s (m + (off + 1))) = length (item_bytes it) \<and> 2 \<le> length (item_bytes it)"
  proof (cases it)
    case (Local_Apic uid aid fl)
    then have "mem s (m + off) = 0" "mem s (m + (off + 1)) = 8" "mem s (m + (off + 3)) = aid" "ld32 (mem s) (m + off + 4) = fl"
      using assms(2) by (simp_all add: holds_Cons holds_ld32 add.assoc)
    then show ?thesis using Local_Apic by (simp add: madt_entry_def Let_def)
  next
    case (Io_Apic aid rsv addr gsi)
    then have "mem s (m + off) = 1" "mem s (m + (off + 1)) = 12" "mem s (m + (off + 2)) = aid"
      "ld32 (mem s) (m + off + 4) = addr" "ld32 (mem s) (m + off + 8) = gsi"
      using assms(2) by (simp_all add: holds_Cons holds_le32 holds_ld32 add.assoc)
    then show ?thesis using Io_Apic by (simp add: madt_entry_def Let_def)
  next
    case (Source_Override bus src gsi f0 f1)
    then have "mem s (m + off) = 2" "mem s (m + (off + 1)) = 10"
      using assms(2) by (simp_all add: holds_Cons add.assoc)
    then show ?thesis using Source_Override by (simp add: madt_entry_def Let_def)
  next
    case (Other_Entry t bs)
    then have b: "2 < t" "length bs + 2 < 256" using assms(1) by simp_all
    have "unat (of_nat (length bs + 2) :: u8) = length bs + 2"
      using b(2) by (simp only: unat_of_nat) simp
    moreover have "mem s (m + off) = t" "mem s (m + (off + 1)) = of_nat (length bs + 2)"
      using assms(2) Other_Entry by (simp_all add: holds_Cons add.assoc)
    moreover have "\<not> t = 0" "\<not> t = 1" "\<not> t = 2" using b(1) by auto
    ultimately show ?thesis using Other_Entry by (simp add: madt_entry_def del: of_nat_add)
  qed
  then show "madt_entry m off (mem s (m + off)) (mem s (m + (off + 1))) n s = absorb it (n, s)"
    "unat (mem s (m + (off + 1))) = length (item_bytes it)" "2 \<le> length (item_bytes it)" by auto
qed

lemma madt_loop_items:
  assumes "\<forall>it\<in>set items. item_ok it" and "holds (mem s) (m + off) (concat (map item_bytes items))"
    and "unat off + length (concat (map item_bytes items)) = unat mlen" and "unat mlen + 2 < 4294967296"
  shows "madt_loop m mlen off n s = Some (True, fold absorb items (n, s))"
  using assms
proof (induction items arbitrary: off n s)
  case Nil
  have "unat (off + 2) = unat off + 2" using Nil unat_plus32 [of off 2] by simp
  then have "\<not> off + 2 \<le> mlen" using Nil by (simp add: word_le_nat_alt)
  then show ?case by (subst madt_loop.simps) simp
next
  case (Cons it items)
  let ?etyp = "mem s (m + off)" and ?elen = "mem s (m + (off + 1))"
  have h: "holds (mem s) (m + off) (item_bytes it)"
    "holds (mem s) (m + off + of_nat (length (item_bytes it))) (concat (map item_bytes items))"
    using Cons.prems(2) by (simp_all add: holds_append)
  note E = entry_absorb [OF _ h(1)]
  have ok: "item_ok it" using Cons.prems(1) by simp
  have l: "unat off + length (item_bytes it) \<le> unat mlen" "unat off + 2 \<le> unat mlen"
    using Cons.prems(3) E(3) [OF ok] by simp_all
  have "unat (off + 2) = unat off + 2" using Cons.prems(4) l unat_plus32 [of off 2] by simp
  then have g: "off + 2 \<le> mlen" using l by (simp add: word_le_nat_alt)
  have elen: "unat ?elen = length (item_bytes it)" using E(2) [OF ok] .
  have w: "off + ucast ?elen = off + of_nat (length (item_bytes it))"
    by (simp add: elen [symmetric])
  have sum: "unat (off + ucast ?elen) = unat off + length (item_bytes it)"
    unfolding w using Cons.prems(4) l by (intro unat_plus32) simp
  have ng: "\<not> (?elen < 2 \<or> off + ucast ?elen > mlen)"
    using E(3) [OF ok] l(1) by (simp add: word_less_nat_alt sum elen)
  obtain n' s' where a: "absorb it (n, s) = (n', s')" by fastforce
  have m': "mem s' = mem s" using absorb_mem [of it "(n, s)"] a by simp
  have "madt_loop m mlen off n s = madt_loop m mlen (off + ucast ?elen) n' s'"
    using g ng E(1) [OF ok, of n] a by (subst madt_loop.simps) (simp add: Let_def)
  also have "\<dots> = Some (True, fold absorb items (n', s'))"
    using Cons.prems h(2) sum by (intro Cons.IH) (simp_all add: m' w add.assoc)
  finally show ?case using a by simp
qed

text \<open>The contributions of all entries.\<close>

fun enabled_ids :: "madt_item list \<Rightarrow> u8 list" where
  "enabled_ids [] = []"
| "enabled_ids (Local_Apic uid aid fl # items) = (if fl AND 1 \<noteq> 0 then aid # enabled_ids items else enabled_ids items)"
| "enabled_ids (it # items) = enabled_ids items"

fun io_apics :: "madt_item list \<Rightarrow> (u8 \<times> u32 \<times> u32) list" where
  "io_apics [] = []"
| "io_apics (Io_Apic aid rsv addr gsi # items) = (aid, addr, gsi) # io_apics items"
| "io_apics (it # items) = io_apics items"

lemma absorb_all:
  fixes items :: "madt_item list"
  assumes "length (g_cpu_apic_ids s) = 32" and "unat n \<le> 32"
  defines "r \<equiv> fold absorb items (n, s)"
  shows "unat (fst r) = min 32 (unat n + length (enabled_ids items)) \<and> length (g_cpu_apic_ids (snd r)) = 32
    \<and> take (min 32 (unat n + length (enabled_ids items))) (g_cpu_apic_ids (snd r)) = take 32 (take (unat n) (g_cpu_apic_ids s) @ enabled_ids items)
    \<and> g_irq0_gsi (snd r) = g_irq0_gsi s
    \<and> g_has_ioapic (snd r) = (g_has_ioapic s \<or> io_apics items \<noteq> [])
    \<and> (\<not> g_has_ioapic s \<longrightarrow> io_apics items \<noteq> [] \<longrightarrow>
         (g_ioapic_id (snd r), g_ioapic_phys (snd r), g_ioapic_gsi_base (snd r)) = hd (io_apics items))
    \<and> (g_has_ioapic s \<longrightarrow>
         (g_ioapic_id (snd r), g_ioapic_phys (snd r), g_ioapic_gsi_base (snd r)) = (g_ioapic_id s, g_ioapic_phys s, g_ioapic_gsi_base s))"
  using assms(1,2) unfolding r_def
proof (induction items arbitrary: n s)
  case Nil
  then show ?case by simp
next
  case (Cons it items)
  show ?case
  proof (cases it)
    case (Local_Apic uid aid fl)
    then have io: "io_apics (it # items) = io_apics items" by simp
    show ?thesis
    proof (cases "fl AND 1 \<noteq> 0")
      case False
      then show ?thesis using Cons Local_Apic io by simp
    next
      case en: True
      then have ids: "enabled_ids (it # items) = aid # enabled_ids items" using Local_Apic by simp
      show ?thesis
      proof (cases "n < 32")
        case False
        then have "unat n = 32" using Cons.prems by (simp add: word_less_nat_alt)
        then show ?thesis using Cons.IH [OF Cons.prems] Local_Apic io ids False Cons.prems by simp
      next
        case True
        let ?s = "s\<lparr>g_cpu_apic_ids := (g_cpu_apic_ids s)[unat n := aid]\<rparr>"
        have lt: "unat n < 32" using True by (simp add: word_less_nat_alt)
        then have u: "unat (n + 1) = unat n + 1" using unat_plus32 [of n 1] by simp
        have t: "take (Suc (unat n)) ((g_cpu_apic_ids s)[unat n := aid]) = take (unat n) (g_cpu_apic_ids s) @ [aid]"
          using lt Cons.prems by (simp add: take_Suc_conv_app_nth)
        have "fold absorb (it # items) (n, s) = fold absorb items (n + 1, ?s)"
          using Local_Apic en True by simp
        then show ?thesis
          using Cons.IH [of ?s "n + 1"] Cons.prems lt u t ids io by simp
      qed
    qed
  next
    case (Io_Apic aid rsv addr gsi)
    then have "enabled_ids (it # items) = enabled_ids items" "io_apics (it # items) = (aid, addr, gsi) # io_apics items"
      by simp_all
    then show ?thesis
      using Cons.IH [of s n] Cons.IH [of "s\<lparr>g_ioapic_id := aid, g_ioapic_phys := addr, g_ioapic_gsi_base := gsi, g_has_ioapic := True\<rparr>" n]
        Cons.prems Io_Apic by simp
  next
    case (Source_Override bus src gsi f0 f1)
    then show ?thesis using Cons by simp
  next
    case (Other_Entry t bs)
    then show ?thesis using Cons by simp
  qed
qed

section \<open>Any table\<close>

text \<open>The fields the MADT walk may change.\<close>

definition madt_frame :: "'a acpi_scheme \<Rightarrow> 'a acpi_scheme \<Rightarrow> bool" where
  "madt_frame s s' \<longleftrightarrow> (\<exists>ids ph gb ir ii io. s' = s\<lparr>g_cpu_apic_ids := ids, g_ioapic_phys := ph,
     g_ioapic_gsi_base := gb, g_irq0_gsi := ir, g_ioapic_id := ii, g_has_ioapic := io\<rparr>)"

lemma madt_frame_refl: "madt_frame s s"
  unfolding madt_frame_def
  by (intro exI [of _ "g_cpu_apic_ids s"] exI [of _ "g_ioapic_phys s"] exI [of _ "g_ioapic_gsi_base s"]
      exI [of _ "g_irq0_gsi s"] exI [of _ "g_ioapic_id s"] exI [of _ "g_has_ioapic s"]) simp

lemma madt_frame_ids: "madt_frame s (s\<lparr>g_cpu_apic_ids := x\<rparr>)"
  unfolding madt_frame_def
  by (intro exI [of _ x] exI [of _ "g_ioapic_phys s"] exI [of _ "g_ioapic_gsi_base s"]
      exI [of _ "g_irq0_gsi s"] exI [of _ "g_ioapic_id s"] exI [of _ "g_has_ioapic s"]) simp

lemma madt_frame_ioapic: "madt_frame s (s\<lparr>g_ioapic_id := x, g_ioapic_phys := y, g_ioapic_gsi_base := z, g_has_ioapic := w\<rparr>)"
  unfolding madt_frame_def
  by (intro exI [of _ "g_cpu_apic_ids s"] exI [of _ y] exI [of _ z] exI [of _ "g_irq0_gsi s"] exI [of _ x] exI [of _ w]) simp

lemma madt_frame_irq0: "madt_frame s (s\<lparr>g_irq0_gsi := x\<rparr>)"
  unfolding madt_frame_def
  by (intro exI [of _ "g_cpu_apic_ids s"] exI [of _ "g_ioapic_phys s"] exI [of _ "g_ioapic_gsi_base s"]
      exI [of _ x] exI [of _ "g_ioapic_id s"] exI [of _ "g_has_ioapic s"]) simp

lemma madt_frame_trans: "madt_frame s s1 \<Longrightarrow> madt_frame s1 s2 \<Longrightarrow> madt_frame s s2"
  unfolding madt_frame_def by (elim exE) (simp, blast)

lemma madt_frame_mem: "madt_frame s s' \<Longrightarrow> mem s' = mem s"
  by (auto simp: madt_frame_def)

lemma madt_entry_facts:
  assumes "length (g_cpu_apic_ids s) = 32" and "unat n \<le> 32" and "madt_entry m off etyp elen n s = (n', s')"
  shows "length (g_cpu_apic_ids s') = 32 \<and> unat n' \<le> 32 \<and> madt_frame s s'"
proof -
  have "unat (n + 1) = unat n + 1" using assms(2) unat_plus32 [of n 1] by simp
  moreover have "n < 32 \<Longrightarrow> unat n < 32" by (simp add: word_less_nat_alt)
  ultimately show ?thesis
    using assms madt_frame_refl madt_frame_ids madt_frame_ioapic madt_frame_irq0
    by (auto simp: madt_entry_def Let_def split: if_splits)
qed

lemma madt_next:
  fixes off mlen :: u32
  assumes "\<not> (elen < 2 \<or> off + ucast elen > mlen)" and "unat off \<le> unat mlen" and "unat mlen + 256 \<le> 4294967296"
  shows "unat (off + ucast (elen :: u8)) = unat off + unat elen" and "unat off + unat elen \<le> unat mlen" and "2 \<le> unat elen"
proof -
  show s: "unat (off + ucast elen) = unat off + unat elen"
    using assms(2,3) unat_lt8 [of elen] unat_add32 [of off "ucast elen"] by simp
  show "unat off + unat elen \<le> unat mlen" "2 \<le> unat elen"
    using assms(1) s by (auto simp: word_less_nat_alt not_less)
qed

lemma madt_loop_total:
  assumes "length (g_cpu_apic_ids s) = 32" and "unat n \<le> 32" and "unat off \<le> unat mlen" and "unat mlen + 256 \<le> 4294967296"
  shows "\<exists>ok n' s'. madt_loop m mlen off n s = Some (ok, n', s') \<and> length (g_cpu_apic_ids s') = 32 \<and> unat n' \<le> 32
    \<and> madt_frame s s'"
  using assms
proof (induction "unat mlen - unat off" arbitrary: off n s rule: less_induct)
  case less
  let ?etyp = "mem s (m + off)" and ?elen = "mem s (m + (off + 1))"
  show ?case
  proof (cases "off + 2 \<le> mlen \<and> \<not> (?elen < 2 \<or> off + ucast ?elen > mlen)")
    case False
    then show ?thesis using less.prems madt_frame_refl by (subst madt_loop.simps) (auto simp: Let_def)
  next
    case True
    then have ng: "\<not> (?elen < 2 \<or> off + ucast ?elen > mlen)" and g: "off + 2 \<le> mlen" by auto
    note N = madt_next [OF ng less.prems(3,4)]
    obtain n' s' where e: "madt_entry m off ?etyp ?elen n s = (n', s')" by fastforce
    note F = madt_entry_facts [OF less.prems(1,2) e]
    have run: "madt_loop m mlen off n s = madt_loop m mlen (off + ucast ?elen) n' s'"
      using g ng e by (subst madt_loop.simps) (simp add: Let_def)
    obtain ok n2 s2 where "madt_loop m mlen (off + ucast ?elen) n' s' = Some (ok, n2, s2)"
      "length (g_cpu_apic_ids s2) = 32" "unat n2 \<le> 32" "madt_frame s' s2"
    proof -
      have "unat mlen - unat (off + ucast ?elen) < unat mlen - unat off" using N by linarith
      from less.hyps [OF this, of s' n'] F N(1,2) less.prems(4) show ?thesis using that by auto
    qed
    then show ?thesis using run F madt_frame_trans by metis
  qed
qed

text \<open>The walk reads only the table.\<close>

lemma madt_entry_reads:
  fixes mlen off :: u32 and elen :: u8 and s :: "'a acpi_scheme"
  assumes "same_on m (unat mlen) (mem s) mm" and "unat off + unat elen \<le> unat mlen"
  shows "madt_entry m off etyp elen n (s\<lparr>mem := mm\<rparr>) = apsnd (\<lambda>s'. s'\<lparr>mem := mm\<rparr>) (madt_entry m off etyp elen n s)"
proof -
  have n: "unat mlen \<le> 4294967296" using unat_lt32 [of mlen] by simp
  have a: "m + (off + of_nat k) = m + of_nat (unat off + k)" for k by simp
  have b: "mm (m + (off + of_nat k)) = mem s (m + (off + of_nat k))" if "k < unat elen" for k
    using same_on_off [OF assms(1), of "unat off + k"] that assms(2) n unfolding a by simp
  have w: "ld32 mm (m + (off + of_nat k)) = ld32 (mem s) (m + (off + of_nat k))" if "k + 4 \<le> unat elen" for k
    using ld32_same_on [OF assms(1), of "unat off + k"] that assms(2) n unfolding a by simp
  consider "etyp = 0 \<and> elen \<ge> 8" | "etyp = 1 \<and> elen \<ge> 12" | "etyp = 2 \<and> elen \<ge> 16"
    | "\<not> (etyp = 0 \<and> elen \<ge> 8)" "\<not> (etyp = 1 \<and> elen \<ge> 12)" "\<not> (etyp = 2 \<and> elen \<ge> 16)" by blast
  then show ?thesis
  proof cases
    case 1
    then have "8 \<le> unat elen" by (simp add: word_le_nat_alt)
    then have "mm (m + (off + 3)) = mem s (m + (off + 3))" "ld32 mm (m + off + 4) = ld32 (mem s) (m + off + 4)"
      using b [of 3] w [of 4] by (simp_all add: add.assoc)
    then show ?thesis using 1 by (simp add: madt_entry_def Let_def)
  next
    case 2
    then have "12 \<le> unat elen" by (simp add: word_le_nat_alt)
    then have "mm (m + (off + 2)) = mem s (m + (off + 2))" "ld32 mm (m + off + 4) = ld32 (mem s) (m + off + 4)"
      "ld32 mm (m + off + 8) = ld32 (mem s) (m + off + 8)"
      using b [of 2] w [of 4] w [of 8] by (simp_all add: add.assoc)
    then show ?thesis using 2 by (simp add: madt_entry_def Let_def)
  next
    case 3
    then have "16 \<le> unat elen" by (simp add: word_le_nat_alt)
    then have "mm (m + (off + 8)) = mem s (m + (off + 8))" "ld32 mm (m + off + 12) = ld32 (mem s) (m + off + 12)"
      using b [of 8] w [of 12] by (simp_all add: add.assoc)
    then show ?thesis using 3 by (simp add: madt_entry_def Let_def)
  next
    case 4
    have "madt_entry m off etyp elen n t = (n, t)" for t :: "'a acpi_scheme"
    proof -
      have "(etyp = 0 \<and> elen \<ge> 8) = False" "(etyp = 1 \<and> elen \<ge> 12 \<and> \<not> g_has_ioapic t) = False"
        "(etyp = 2 \<and> elen \<ge> 16) = False" using 4 by blast+
      then show ?thesis by (simp only: madt_entry_def if_False)
    qed
    then show ?thesis by simp
  qed
qed

lemma madt_loop_reads:
  assumes "same_on m (unat mlen) (mem s) mm" and "unat off \<le> unat mlen" and "unat mlen + 256 \<le> 4294967296"
    and "length (g_cpu_apic_ids s) = 32" and "unat n \<le> 32"
  shows "madt_loop m mlen off n (s\<lparr>mem := mm\<rparr>) = map_option (apsnd (apsnd (\<lambda>s'. s'\<lparr>mem := mm\<rparr>))) (madt_loop m mlen off n s)"
  using assms
proof (induction "unat mlen - unat off" arbitrary: off n s rule: less_induct)
  case less
  let ?etyp = "mem s (m + off)" and ?elen = "mem s (m + (off + 1))"
  show ?case
  proof (cases "off + 2 \<le> mlen")
    case False
    then show ?thesis by (subst (1 2) madt_loop.simps) simp
  next
    case g: True
    have "unat (off + 2) = unat off + 2" using less.prems(2,3) unat_plus32 [of off 2] by simp
    then have o2: "unat off + 2 \<le> unat mlen" using g by (simp add: word_le_nat_alt)
    have n: "unat mlen \<le> 4294967296" using unat_lt32 [of mlen] by simp
    have same: "mm (m + off) = ?etyp" "mm (m + (off + 1)) = ?elen"
      using same_on_off [OF less.prems(1), of "unat off"] same_on_off [OF less.prems(1), of "unat off + 1"] o2 n
      by (simp_all add: algebra_simps)
    show ?thesis
    proof (cases "?elen < 2 \<or> off + ucast ?elen > mlen")
      case True
      then show ?thesis using g same by (subst (1 2) madt_loop.simps) (simp add: Let_def)
    next
      case ng: False
      note N = madt_next [OF ng less.prems(2,3)]
      obtain n' s' where e: "madt_entry m off ?etyp ?elen n s = (n', s')" by fastforce
      note F = madt_entry_facts [OF less.prems(4,5) e]
      have m': "mem s' = mem s" using F madt_frame_mem by blast
      have e': "madt_entry m off ?etyp ?elen n (s\<lparr>mem := mm\<rparr>) = (n', s'\<lparr>mem := mm\<rparr>)"
        using madt_entry_reads [OF less.prems(1) N(2)] e by simp
      have "madt_loop m mlen (off + ucast ?elen) n' (s'\<lparr>mem := mm\<rparr>)
          = map_option (apsnd (apsnd (\<lambda>s'. s'\<lparr>mem := mm\<rparr>))) (madt_loop m mlen (off + ucast ?elen) n' s')"
      proof -
        have "unat mlen - unat (off + ucast ?elen) < unat mlen - unat off" using N by linarith
        then show ?thesis using N F less.prems m' by (intro less.hyps) simp_all
      qed
      then show ?thesis using g ng e e' same by (subst (1 2) madt_loop.simps) (simp add: Let_def)
    qed
  qed
qed

section \<open>Properties\<close>

definition madt_fresh :: "'a acpi_scheme \<Rightarrow> 'a acpi_scheme" where
  "madt_fresh s = s\<lparr>g_irq0_gsi := 0, g_has_ioapic := False\<rparr>"

text \<open>
  C16: a MADT as the ACPI specification lays it out.  The walk returns; it collects the APIC
  ids of the enabled CPUs in table order, the first 32 of them, and the first I/O APIC with
  its address and interrupt base.  The interrupt of IRQ 0 stays 0 whatever source overrides
  the table has: the code looks for them in entries of 16 bytes, the specification's have
  10, so the usual routing of the timer to input 2 is never seen.
\<close>

theorem madt_collect_items:
  assumes "holds (mem s) m (hdr @ concat (map item_bytes items))" and "length hdr = 44"
    and "unat mlen = 44 + length (concat (map item_bytes items))" and "unat mlen + 2 < 4294967296"
    and "\<forall>it\<in>set items. item_ok it" and "length (g_cpu_apic_ids s) = 32"
  shows "\<exists>s'. madt_collect m mlen s = Some (True, s')
    \<and> unat (g_cpu_count s') = min 32 (length (enabled_ids items))
    \<and> take (unat (g_cpu_count s')) (g_cpu_apic_ids s') = take 32 (enabled_ids items)
    \<and> g_has_ioapic s' = (io_apics items \<noteq> [])
    \<and> (io_apics items \<noteq> [] \<longrightarrow> (g_ioapic_id s', g_ioapic_phys s', g_ioapic_gsi_base s') = hd (io_apics items))
    \<and> g_irq0_gsi s' = 0"
proof -
  let ?s = "s\<lparr>g_irq0_gsi := 0, g_has_ioapic := False\<rparr>"
  let ?r = "fold absorb items (0, ?s)"
  have "holds (mem ?s) (m + 44) (concat (map item_bytes items))"
    using assms(1,2) by (simp add: holds_append)
  then have run: "madt_loop m mlen 44 0 ?s = Some (True, ?r)"
    using assms(3-5) by (intro madt_loop_items) simp_all
  have "\<not> mlen < 44" using assms(3) by (simp add: word_less_nat_alt)
  then have "madt_collect m mlen s = Some (True, (snd ?r)\<lparr>g_cpu_count := fst ?r\<rparr>)"
    using run by (simp add: madt_collect_def case_prod_beta)
  then show ?thesis using absorb_all [of ?s 0 items] assms(6) by simp
qed

definition sample_acpi :: acpi where
  "sample_acpi = \<lparr>io_in = \<lambda>_ _. 0x60, io_reads = 0, io_outs = [], g_serial_lock = 0,
     mem = \<lambda>_. 0, cr3 = 0x2000, cr0_pg = True, frames = sample_pmm,
     cur_pid = 1, cur_pd_phys = 0x2000, g_brk = 0x80002000, g_ufd = [],
     lapic_id_reg = 0, mmio_in = \<lambda>_ _. 0, mmio_reads = 0, mmio_outs = [], apic_base_msr = (0, 0),
     g_cpu_apic_ids = replicate 32 0, g_cpu_count = 0, g_ioapic_phys = 0, g_ioapic_gsi_base = 0,
     g_irq0_gsi = 0, g_ioapic_id = 0, g_has_ioapic = False, g_hw_inited = False\<rparr>"

definition sample_items :: "madt_item list" where
  "sample_items = [Local_Apic 0 5 1, Local_Apic 1 6 0, Local_Apic 2 7 1, Io_Apic 0 0 0xFEC00000 0, Source_Override 0 0 2 0 0]"

theorem madt_collect_items_witness:
  "\<exists>s'. madt_collect 0x1000 90 (sample_acpi\<lparr>mem := store_bytes (\<lambda>_. 0) 0x1000 (replicate 44 0 @ concat (map item_bytes sample_items))\<rparr>)
      = Some (True, s') \<and> take 2 (g_cpu_apic_ids s') = [5, 7] \<and> g_ioapic_phys s' = 0xFEC00000 \<and> g_irq0_gsi s' = 0"
proof -
  let ?bs = "replicate 44 0 @ concat (map item_bytes sample_items)"
  let ?s = "sample_acpi\<lparr>mem := store_bytes (\<lambda>_. 0) 0x1000 ?bs\<rparr>"
  have len: "length (concat (map item_bytes sample_items)) = 46" by (simp add: sample_items_def)
  have ids: "enabled_ids sample_items = [5, 7]" "io_apics sample_items = [(0, 0xFEC00000, 0)]"
    by (simp_all add: sample_items_def)
  have h: "holds (mem ?s) 0x1000 ?bs" using len by (simp add: holds_store_bytes)
  have p: "length (replicate 44 (0 :: u8)) = 44" "unat (90 :: u32) = 44 + length (concat (map item_bytes sample_items))"
    "unat (90 :: u32) + 2 < 4294967296" "\<forall>it\<in>set sample_items. item_ok it" "length (g_cpu_apic_ids ?s) = 32"
    using len by (simp_all add: sample_acpi_def) (simp add: sample_items_def)
  from madt_collect_items [OF h p] obtain s' where
    "madt_collect 0x1000 90 ?s = Some (True, s')" "unat (g_cpu_count s') = 2"
    "take (unat (g_cpu_count s')) (g_cpu_apic_ids s') = [5, 7]" "g_ioapic_phys s' = 0xFEC00000" "g_irq0_gsi s' = 0"
    by (auto simp: ids numeral_2_eq_2)
  then show ?thesis by auto
qed

text \<open>
  C30: any MADT, well formed or not.  For every memory content and every table shorter than
  4 GiB less 256 bytes the walk returns, never writes outside the array of 32 ids, changes
  nothing but the collected data, and its result depends on the bytes of the table only.
\<close>

theorem madt_collect_bounded:
  assumes "unat mlen + 256 \<le> 4294967296" and "length (g_cpu_apic_ids s) = 32" and "unat (g_cpu_count s) \<le> 32"
  shows "\<exists>ok s'. madt_collect m mlen s = Some (ok, s') \<and> length (g_cpu_apic_ids s') = 32 \<and> unat (g_cpu_count s') \<le> 32
    \<and> mem s' = mem s \<and> frames s' = frames s \<and> io_outs s' = io_outs s
    \<and> (\<forall>mm. same_on m (unat mlen) (mem s) mm \<longrightarrow> madt_collect m mlen (s\<lparr>mem := mm\<rparr>) = Some (ok, s'\<lparr>mem := mm\<rparr>))"
proof (cases "mlen < 44")
  case True
  then show ?thesis using assms by (intro exI [of _ False] exI [of _ s]) (simp add: madt_collect_def)
next
  case False
  then have ml: "44 \<le> unat mlen" by (simp add: word_less_nat_alt)
  let ?s = "s\<lparr>g_irq0_gsi := 0, g_has_ioapic := False\<rparr>"
  obtain ok n' s' where L: "madt_loop m mlen 44 0 ?s = Some (ok, n', s')" "length (g_cpu_apic_ids s') = 32"
    "unat n' \<le> 32" "madt_frame ?s s'"
    using madt_loop_total [of ?s 0 44 mlen m] assms ml by auto
  let ?r = "if ok then s'\<lparr>g_cpu_count := n'\<rparr> else s'"
  have run: "madt_collect m mlen s = Some (ok, ?r)"
    using False L(1) by (simp add: madt_collect_def)
  have fr: "mem s' = mem s \<and> frames s' = frames s \<and> io_outs s' = io_outs s \<and> g_cpu_count s' = g_cpu_count s"
    using L(4) by (auto simp: madt_frame_def)
  have "madt_collect m mlen (s\<lparr>mem := mm\<rparr>) = Some (ok, ?r\<lparr>mem := mm\<rparr>)" if "same_on m (unat mlen) (mem s) mm" for mm
  proof -
    have "madt_loop m mlen 44 0 (?s\<lparr>mem := mm\<rparr>) = Some (ok, n', s'\<lparr>mem := mm\<rparr>)"
      using madt_loop_reads [of m mlen ?s mm 44 0] that assms ml L(1) by simp
    moreover have "s\<lparr>mem := mm\<rparr>\<lparr>g_irq0_gsi := 0, g_has_ioapic := False\<rparr> = ?s\<lparr>mem := mm\<rparr>"
      "s'\<lparr>mem := mm, g_cpu_count := n'\<rparr> = s'\<lparr>g_cpu_count := n', mem := mm\<rparr>" by simp_all
    ultimately show ?thesis using False by (simp only: madt_collect_def if_False option.map prod.case) simp
  qed
  then show ?thesis using run L(2,3) fr assms(3) by (intro exI [of _ ok] exI [of _ ?r]) auto
qed

theorem madt_collect_bounded_witness:
  "\<exists>ok s'. madt_collect 0x1000 60 (sample_acpi\<lparr>mem := \<lambda>_. 0\<rparr>) = Some (ok, s') \<and> unat (g_cpu_count s') \<le> 32"
  using madt_collect_bounded [of 60 "sample_acpi\<lparr>mem := \<lambda>_. 0\<rparr>" "0x1000"] by (auto simp: sample_acpi_def)

text \<open>
  The boot loader's ACPI tag decides.  Until \<open>acpi_hw_init\<close> has succeeded once it can
  succeed only when the RSDP payload in the boot information has a length that is a
  multiple of eight and at least 24; with the payloads of the two versions of the
  specification, 20 and 36 bytes, it fails and changes nothing.
\<close>

theorem acpi_init_needs_padded_rsdp:
  assumes "\<not> g_hw_inited s" and "acpi_hw_init info s = Some (True, s')"
  shows "\<exists>buf. mb2_find_rsdp_payload (mem s) info 128 = Some buf \<and> length buf mod 8 = 0 \<and> 24 \<le> length buf
    \<and> take 8 buf = RSDP_SIG"
proof -
  obtain buf r where b: "mb2_find_rsdp_payload (mem s) info 128 = Some buf" "rsdp_parse buf = Some r"
    using assms by (auto simp: acpi_hw_init_def split: option.splits)
  then obtain ty pl where t: "find_acpi_tag (mem s) info ty = Some (pl, length buf)"
    by (auto simp: mb2_find_rsdp_payload_def usable_payload_def split: option.splits if_splits)
  have m: "length buf mod 8 = 0" using find_acpi_tag_size [OF t] by simp
  have l: "20 \<le> length buf" and sig: "\<forall>i\<in>set [0..<8]. buf ! i = RSDP_SIG ! i"
    using b(2) by (auto simp: rsdp_parse_def split: if_splits)
  have "take 8 buf = RSDP_SIG"
  proof (rule nth_equalityI)
    show len: "length (take 8 buf) = length RSDP_SIG" using l by (simp add: RSDP_SIG_def cstr_def)
    show "take 8 buf ! i = RSDP_SIG ! i" if "i < length (take 8 buf)" for i
    proof -
      have i: "i < 8" using that by simp
      then have "i \<in> set [0..<8]" by simp
      then have "buf ! i = RSDP_SIG ! i" using sig by blast
      then show ?thesis using i by (simp only: nth_take)
    qed
  qed
  moreover have "24 \<le> length buf"
  proof -
    obtain k where k: "length buf = 8 * k" using m by auto
    then show ?thesis using l by simp
  qed
  ultimately show ?thesis using b(1) m by (intro exI [of _ buf] conjI)
qed

lemma acpi_hw_ok_returns:
  assumes "con_ok s"
  shows "returns (acpi_hw_ok s) (\<lambda>(ok, s'). ok \<and> g_hw_inited s' \<and> g_cpu_count s' = g_cpu_count s \<and> g_cpu_apic_ids s' = g_cpu_apic_ids s)"
proof -
  have "con_ok (s\<lparr>g_hw_inited := True\<rparr>)" using assms by (simp add: con_ok_def uart_live_def)
  then show ?thesis
    unfolding acpi_hw_ok_def Let_def
    by (intro returns_intros) (auto simp: prints_def)
qed

text \<open>
  A complete set of tables: the boot information at \<open>0x1000\<close> with an RSDP payload of 24
  bytes, the RSDT at \<open>0x2000\<close> with one pointer to the MADT at \<open>0x3000\<close>, which has no entries.
\<close>

definition sample_tables :: memory where
  "sample_tables = (\<lambda>_. 0)(0x1000 := 48, 0x1008 := 14, 0x100C := 32,
     0x1010 := 82, 0x1011 := 83, 0x1012 := 68, 0x1013 := 32, 0x1014 := 80, 0x1015 := 84, 0x1016 := 82, 0x1017 := 32,
     0x1018 := 193, 0x1021 := 0x20, 0x102C := 8,
     0x2004 := 40, 0x2009 := 168, 0x2025 := 0x30,
     0x3000 := 65, 0x3001 := 80, 0x3002 := 73, 0x3003 := 67, 0x3004 := 44, 0x3009 := 183)"

definition sample_rsdp :: "u8 list" where
  "sample_rsdp = [82, 83, 68, 32, 80, 84, 82, 32, 193, 0, 0, 0, 0, 0, 0, 0, 0, 0x20, 0, 0, 0, 0, 0, 0]"

lemma sample_payload: "mb2_find_rsdp_payload sample_tables 0x1000 128 = Some sample_rsdp"
  by code_simp

lemma sample_parse: "rsdp_parse sample_rsdp = Some (0x2000, 0, False)"
  by code_simp

lemma sample_tbl_ok: "tbl_ok sample_tables 0x2000 40" "tbl_ok sample_tables 0x3000 44"
  by code_simp+

lemma sample_words: "hdr_length sample_tables 0x2000 = 40" "hdr_length sample_tables 0x3000 = 44"
  "ld32 sample_tables 0x2024 = 0x3000" "is_madt sample_tables 0x3000"
  by code_simp+

theorem acpi_init_needs_padded_rsdp_witness:
  "\<exists>s'. acpi_hw_init 0x1000 (sample_acpi\<lparr>mem := sample_tables\<rparr>) = Some (True, s') \<and> length sample_rsdp mod 8 = 0"
proof -
  let ?s = "sample_acpi\<lparr>mem := sample_tables\<rparr>"
  have m: "mem ?s = sample_tables" "\<not> g_hw_inited ?s" by (simp_all add: sample_acpi_def)
  obtain ok s1 where M: "madt_collect 0x3000 44 ?s = Some (ok, s1)" "ok" "con_ok s1"
  proof -
    have loop: "madt_loop m 44 44 0 t = Some (True, 0, t)" for m and t :: acpi by (subst madt_loop.simps) simp
    have live: "uart_live t" if "io_in t = (\<lambda>_ _. 0x60)" for t :: acpi using that by (auto simp: uart_live_def)
    show thesis
      by (rule that [of True "?s\<lparr>g_irq0_gsi := 0, g_has_ioapic := False, g_cpu_count := 0\<rparr>"])
        (simp_all add: madt_collect_def loop con_ok_def live, simp_all add: sample_acpi_def live)
  qed
  have "scan_rsdt 0x2000 0 (Suc 0) ?s = Some (True, s1)"
    using M m sample_tbl_ok sample_words by (simp add: Let_def)
  moreover have "unat ((hdr_length sample_tables 0x2000 - ACPI_HDR) div 4) = Suc 0" by (simp add: sample_words)
  ultimately have "scan_root False (ucast (0x2000 :: u32)) ?s = Some (True, s1)"
    using m sample_tbl_ok sample_words by (simp add: scan_root_def)
  then have "acpi_hw_init 0x1000 ?s = acpi_hw_ok s1"
    using m by (simp add: acpi_hw_init_def sample_payload sample_parse acpi_hw_rsdt_def)
  then obtain s' where i: "acpi_hw_init 0x1000 ?s = Some (True, s')"
    using acpi_hw_ok_returns [OF M(3)] by (auto simp: returns_def)
  from acpi_init_needs_padded_rsdp [OF m(2) i] show ?thesis using i by (auto simp: m sample_payload)
qed

end
