(* ===== verification/Apic_Map.thy ===== *)
theory Apic_Map
  imports Acpi
begin

text \<open>
  The part of \<open>kernel/smp.c\<close> that numbers the CPUs: the table from local APIC ids to logical
  indices and \<open>smp_cpu_index\<close>, by which all per-CPU data is addressed.
\<close>

record mp = acpi +
  g_cpus_online :: u32
  g_apic_to_logical :: "u8 list"

abbreviation (input) MAX_APIC :: u32 where "MAX_APIC \<equiv> 32"

text \<open>\<open>for (i = 0; i < n; ++i) g_apic_to_logical[ids[i]] = (uint8_t)i;\<close>\<close>

fun number_ids :: "u8 list \<Rightarrow> nat \<Rightarrow> nat \<Rightarrow> u8 list \<Rightarrow> u8 list" where
  "number_ids ids i 0 tab = tab"
| "number_ids ids i (Suc n) tab = number_ids ids (Suc i) n (tab[unat (ids ! i) := of_nat i])"

text \<open>\<open>junk\<close> is what the automatic array \<open>ids\<close> of 32 bytes holds on entry.\<close>

definition smp_bootstrap_apic_map :: "u8 list \<Rightarrow> 'a mp_scheme \<Rightarrow> 'a mp_scheme" where
  "smp_bootstrap_apic_map junk s =
     (let tab = replicate 256 0xFF; n = acpi_hw_cpu_count s;
          (ids, n') = (if n = 0 then (junk[0 := lapic_id s], 1)
             else let n1 = (if n > MAX_APIC then MAX_APIC else n) in (acpi_hw_copy_apic_ids junk n1 s, n1))
      in s\<lparr>g_apic_to_logical := number_ids ids 0 (unat n') tab\<rparr>)"

definition smp_cpu_index :: "'a mp_scheme \<Rightarrow> u32" where
  "smp_cpu_index s =
     (let ix = g_apic_to_logical s ! unat (lapic_id s) in if ix = 0xFF then 0 else ucast ix)"

section \<open>Copying and numbering\<close>

lemma copy_ids_take:
  assumes "i + n \<le> length ids" and "i + n \<le> length out"
  shows "copy_ids ids out i n = take i out @ take n (drop i ids) @ drop (i + n) out"
  using assms
proof (induction n arbitrary: i out)
  case 0
  then show ?case by simp
next
  case (Suc n)
  have "copy_ids ids out i (Suc n) = copy_ids ids (out[i := ids ! i]) (Suc i) n" by simp
  also have "\<dots> = take (Suc i) (out[i := ids ! i]) @ take n (drop (Suc i) ids) @ drop (Suc i + n) (out[i := ids ! i])"
    using Suc.prems by (intro Suc.IH) auto
  also have "take (Suc i) (out[i := ids ! i]) = take i out @ [ids ! i]"
    using Suc.prems by (simp add: take_Suc_conv_app_nth)
  also have "drop (Suc i + n) (out[i := ids ! i]) = drop (i + Suc n) out" by simp
  finally have "copy_ids ids out i (Suc n) = take i out @ (ids ! i # take n (drop (Suc i) ids)) @ drop (i + Suc n) out"
    by simp
  also have "ids ! i # take n (drop (Suc i) ids) = take (Suc n) (drop i ids)"
    using Suc.prems by (simp add: Cons_nth_drop_Suc [symmetric])
  finally show ?case .
qed

lemma number_ids_other:
  "j \<notin> unat ` set (take n (drop i ids)) \<Longrightarrow> i + n \<le> length ids \<Longrightarrow> number_ids ids i n tab ! j = tab ! j"
proof (induction n arbitrary: i tab)
  case 0
  then show ?case by simp
next
  case (Suc n)
  have "take (Suc n) (drop i ids) = ids ! i # take n (drop (Suc i) ids)"
    using Suc.prems by (simp add: Cons_nth_drop_Suc [symmetric])
  then show ?case using Suc by auto
qed

lemma number_ids_at:
  assumes "distinct ids" and "length tab = 256" and "i \<le> k" and "k < i + n" and "i + n \<le> length ids"
  shows "number_ids ids i n tab ! unat (ids ! k) = of_nat k"
  using assms
proof (induction n arbitrary: i tab)
  case 0
  then show ?case by simp
next
  case (Suc n)
  show ?case
  proof (cases "i = k")
    case True
    have lt: "unat (ids ! k) < 256" by (rule unat_lt8)
    have "ids ! k \<notin> set (take n (drop (Suc i) ids))"
    proof
      assume "ids ! k \<in> set (take n (drop (Suc i) ids))"
      then obtain m where "m < n" "Suc i + m < length ids" "ids ! k = ids ! (Suc i + m)"
        by (auto simp: in_set_conv_nth)
      then show False using Suc.prems True by (simp add: nth_eq_iff_index_eq)
    qed
    then have "unat (ids ! k) \<notin> unat ` set (take n (drop (Suc i) ids))"
      using word_unat_eq_iff by (metis imageE)
    then show ?thesis using Suc.prems True lt number_ids_other [of "unat (ids ! k)" n "Suc i" ids] by simp
  next
    case False
    then show ?thesis using Suc.prems by (simp) (intro Suc.IH, simp_all)
  qed
qed

lemma number_ids_length [simp]: "length (number_ids ids i n tab) = length tab"
  by (induction n arbitrary: i tab) auto

text \<open>The CPUs the table is built from.\<close>

definition cpu_list :: "'a acpi_scheme \<Rightarrow> u8 list" where
  "cpu_list s = (if g_cpu_count s = 0 then [lapic_id s] else take (min 32 (unat (g_cpu_count s))) (g_cpu_apic_ids s))"

lemma bootstrap_table:
  assumes "length junk = 32" and "length (g_cpu_apic_ids s) = 32" and "unat (g_cpu_count s) \<le> 32"
  shows "\<exists>ids. g_apic_to_logical (smp_bootstrap_apic_map junk s) = number_ids ids 0 (length (cpu_list s)) (replicate 256 0xFF)
    \<and> take (length (cpu_list s)) ids = cpu_list s \<and> length (cpu_list s) \<le> length ids"
proof (cases "g_cpu_count s = 0")
  case True
  then show ?thesis using assms(1)
    by (intro exI [of _ "junk[0 := lapic_id s]"])
      (cases junk, simp_all add: smp_bootstrap_apic_map_def acpi_hw_cpu_count_def cpu_list_def)
next
  case False
  let ?n = "g_cpu_count s"
  have "\<not> ?n > 32" using assms(3) by (simp add: word_less_nat_alt)
  moreover have "acpi_hw_copy_apic_ids junk ?n s = take (unat ?n) (g_cpu_apic_ids s) @ drop (unat ?n) junk"
    using False assms copy_ids_take [of 0 "unat ?n" "g_cpu_apic_ids s" junk] by (simp add: acpi_hw_copy_apic_ids_def)
  ultimately show ?thesis using False assms
    by (intro exI [of _ "take (unat ?n) (g_cpu_apic_ids s) @ drop (unat ?n) junk"])
      (simp add: smp_bootstrap_apic_map_def acpi_hw_cpu_count_def cpu_list_def min_def Let_def)
qed

lemma index_of_cpu:
  assumes "length junk = 32" and "length (g_cpu_apic_ids s) = 32" and "unat (g_cpu_count s) \<le> 32"
    and "distinct (cpu_list s)"
  shows "i < length (cpu_list s) \<Longrightarrow> ucast (drop_bit 24 r) = cpu_list s ! i \<Longrightarrow>
      smp_cpu_index ((smp_bootstrap_apic_map junk s)\<lparr>lapic_id_reg := r\<rparr>) = of_nat i"
    and "ucast (drop_bit 24 r) \<notin> set (cpu_list s) \<Longrightarrow>
      smp_cpu_index ((smp_bootstrap_apic_map junk s)\<lparr>lapic_id_reg := r\<rparr>) = 0"
proof -
  let ?s = "(smp_bootstrap_apic_map junk s)\<lparr>lapic_id_reg := r\<rparr>" and ?a = "ucast (drop_bit 24 r) :: u8"
  let ?n = "length (cpu_list s)"
  obtain ids where T: "g_apic_to_logical ?s = number_ids ids 0 ?n (replicate 256 0xFF)"
    "take ?n ids = cpu_list s" "?n \<le> length ids"
    using bootstrap_table [OF assms(1-3)] by auto
  have id: "lapic_id ?s = ?a" by (simp add: lapic_id_def mmio_r32_def)
  have n32: "?n \<le> 32" using assms(2,3) by (simp add: cpu_list_def)
  have tk: "number_ids ids i k t = number_ids (take n ids) i k t" if "i + k \<le> n" for i k t n
    using that by (induction k arbitrary: i t) auto
  have T': "g_apic_to_logical ?s = number_ids (cpu_list s) 0 ?n (replicate 256 0xFF)"
    using T tk [of 0 ?n ?n] by simp
  show "smp_cpu_index ?s = of_nat i" if i: "i < ?n" "?a = cpu_list s ! i"
  proof -
    have at: "g_apic_to_logical ?s ! unat ?a = of_nat i"
      using number_ids_at [OF assms(4), of "replicate 256 0xFF" 0 i ?n] i T' by simp
    have u: "unat (of_nat i :: u8) = i" using i(1) n32 by (simp add: unat_of_nat)
    have "(of_nat i :: u8) \<noteq> 0xFF"
    proof
      assume "(of_nat i :: u8) = 0xFF"
      then have "unat (of_nat i :: u8) = 255" by simp
      then show False using u i(1) n32 by linarith
    qed
    moreover have "(ucast (of_nat i :: u8) :: u32) = of_nat i"
      using of_nat_unat [of "of_nat i :: u8"] u by metis
    ultimately show ?thesis unfolding smp_cpu_index_def Let_def id at by (simp only: if_False)
  qed
  show "smp_cpu_index ?s = 0" if "?a \<notin> set (cpu_list s)"
  proof -
    have "unat ?a \<notin> unat ` set (take ?n (drop 0 (cpu_list s)))"
      using that word_unat_eq_iff by (metis imageE drop0 take_all order_refl)
    then have "g_apic_to_logical ?s ! unat ?a = 0xFF"
      using number_ids_other [of "unat ?a" ?n 0 "cpu_list s" "replicate 256 0xFF"] T' unat_lt8 [of ?a] by simp
    then show ?thesis using id by (simp add: smp_cpu_index_def)
  qed
qed

section \<open>Properties\<close>

text \<open>
  The CPUs are numbered.  After \<open>smp_bootstrap_apic_map\<close> the code that runs on the
  \<open>i\<close>-th collected CPU computes the index \<open>i\<close>, so different CPUs use different per-CPU data,
  and a CPU that was not collected computes the boot CPU's index 0.
\<close>

theorem smp_cpu_index_numbers:
  assumes "length junk = 32" and "length (g_cpu_apic_ids s) = 32" and "unat (g_cpu_count s) \<le> 32"
    and "distinct (cpu_list s)"
  shows "(\<forall>i<length (cpu_list s). smp_cpu_index ((smp_bootstrap_apic_map junk s)\<lparr>lapic_id_reg := push_bit 24 (ucast (cpu_list s ! i))\<rparr>) = of_nat i)
    \<and> (\<forall>r. ucast (drop_bit 24 r) \<notin> set (cpu_list s) \<longrightarrow>
         smp_cpu_index ((smp_bootstrap_apic_map junk s)\<lparr>lapic_id_reg := r\<rparr>) = 0)"
proof (intro conjI allI impI)
  fix i assume i: "i < length (cpu_list s)"
  have "ucast (drop_bit 24 (push_bit 24 (ucast (cpu_list s ! i) :: u32))) = cpu_list s ! i"
    by (rule bit_word_eqI) (auto simp: bit_simps)
  then show "smp_cpu_index ((smp_bootstrap_apic_map junk s)\<lparr>lapic_id_reg := push_bit 24 (ucast (cpu_list s ! i))\<rparr>) = of_nat i"
    using index_of_cpu(1) [OF assms i, of "push_bit 24 (ucast (cpu_list s ! i))"] by simp
next
  fix r :: u32 assume "ucast (drop_bit 24 r) \<notin> set (cpu_list s)"
  then show "smp_cpu_index ((smp_bootstrap_apic_map junk s)\<lparr>lapic_id_reg := r\<rparr>) = 0"
    using index_of_cpu(2) [OF assms] by simp
qed

text \<open>The state after the ACPI walk has found three CPUs.\<close>

definition sample_mp :: mp where
  "sample_mp = \<lparr>io_in = \<lambda>_ _. 0x60, io_reads = 0, io_outs = [], g_serial_lock = 0,
     mem = \<lambda>_. 0, cr3 = 0x2000, cr0_pg = True, frames = sample_pmm,
     cur_pid = 1, cur_pd_phys = 0x2000, g_brk = 0x80002000, g_ufd = [],
     lapic_id_reg = 0x5000000, mmio_in = \<lambda>_ _. 0, mmio_reads = 0, mmio_outs = [], apic_base_msr = (0, 0),
     g_cpu_apic_ids = [5, 7, 2] @ replicate 29 0, g_cpu_count = 3, g_ioapic_phys = 0, g_ioapic_gsi_base = 0,
     g_irq0_gsi = 0, g_ioapic_id = 0, g_has_ioapic = False, g_hw_inited = True,
     g_cpus_online = 1, g_apic_to_logical = []\<rparr>"

theorem smp_cpu_index_numbers_witness:
  "smp_cpu_index ((smp_bootstrap_apic_map (replicate 32 0) sample_mp)\<lparr>lapic_id_reg := push_bit 24 2\<rparr>) = 2"
proof -
  have cl: "cpu_list sample_mp = [5, 7, 2]" by (simp add: cpu_list_def sample_mp_def)
  have p: "length (replicate 32 (0 :: u8)) = 32" "length (g_cpu_apic_ids sample_mp) = 32"
    "unat (g_cpu_count sample_mp) \<le> 32" "distinct (cpu_list sample_mp)"
    by (simp_all add: cl) (simp_all add: sample_mp_def)
  from smp_cpu_index_numbers [OF p, THEN conjunct1, THEN spec, of 2] show ?thesis by (simp add: cl)
qed

end
