(* ===== verification/Fifo_Interface.thy ===== *)
theory Fifo_Interface
  imports Prelude
begin

text \<open>
  The contract of a bounded queue between an interrupt handler and the code it defers work
  to: elements come out in order, a push on a full queue is counted and leaves the queue
  as it is.  So a burst keeps its oldest elements and counts the others.
\<close>

locale bounded_fifo =
  fixes contents :: "'s \<Rightarrow> 'c list"
    and enc :: "'e \<Rightarrow> 'c"
    and lost :: "'s \<Rightarrow> u32"
    and push :: "'e \<Rightarrow> 's \<Rightarrow> 's"
    and cap :: nat
    and ok :: "'s \<Rightarrow> bool"
  assumes push_room: "ok s \<Longrightarrow> length (contents s) < cap \<Longrightarrow> contents (push e s) = contents s @ [enc e] \<and> lost (push e s) = lost s"
    and push_full: "ok s \<Longrightarrow> \<not> length (contents s) < cap \<Longrightarrow> contents (push e s) = contents s \<and> lost (push e s) = lost s + 1"
    and push_ok: "ok s \<Longrightarrow> ok (push e s)"
    and bounded: "ok s \<Longrightarrow> length (contents s) \<le> cap"
begin

text \<open>The queue holds the oldest \<open>cap\<close> of the elements pushed so far and has counted the others.\<close>

definition keeps :: "'c list \<Rightarrow> 's \<Rightarrow> bool" where
  "keeps xs s \<longleftrightarrow> ok s \<and> contents s = take cap xs \<and> lost s = of_nat (length xs - cap)"

lemma keeps_push: "keeps xs s \<Longrightarrow> keeps (xs @ [enc e]) (push e s)"
  using push_room [of s e] push_full [of s e] push_ok [of s e]
  by (cases "length xs < cap") (auto simp: keeps_def Suc_diff_le not_less)

lemma keeps_burst: "keeps xs s \<Longrightarrow> keeps (xs @ map enc es) (fold push es s)"
proof (induction es arbitrary: xs s)
  case (Cons e es)
  from Cons.IH [OF keeps_push [OF Cons.prems]] show ?case by simp
qed simp

end

end
