(* ===== verification/Sched.thy ===== *)
theory Sched
  imports Apic_Map Fifo_Interface
begin

text \<open>
  \<open>kernel/sched.c\<close>: the timer tick, the per-CPU ring through which the interrupt handler
  defers quantum expiries to thread context, and the preemption counter.  Arrays indexed by
  the CPU are functions; \<open>sched_cpu_ix\<close> keeps the index below 32.  \<open>if_flag\<close> is the interrupt
  flag of the CPU that runs the code.
\<close>

record sch = mp +
  g_tick :: "u32 \<Rightarrow> u64"
  g_need_resched :: "u32 \<Rightarrow> u32"
  g_defer_ring :: "u32 \<Rightarrow> u32 \<Rightarrow> u32"
  g_defer_w :: "u32 \<Rightarrow> u32"
  g_defer_r :: "u32 \<Rightarrow> u32"
  g_defer_overflow :: "u32 \<Rightarrow> u32"
  g_preempt_disable_depth :: u32
  if_flag :: bool

section \<open>The code\<close>

abbreviation (input) PREEMPT_INTERVAL_TICKS :: u64 where "PREEMPT_INTERVAL_TICKS \<equiv> 5"
abbreviation (input) SCHED_DEFER_CAP :: u32 where "SCHED_DEFER_CAP \<equiv> 16"
abbreviation (input) SCHED_MAX_CPU :: u32 where "SCHED_MAX_CPU \<equiv> 32"

definition sched_cpu_ix :: "'a mp_scheme \<Rightarrow> u32" where
  "sched_cpu_ix s = (let c = smp_cpu_index s in if c \<ge> SCHED_MAX_CPU then 0 else c)"

definition defer_push_tick :: "u32 \<Rightarrow> u64 \<Rightarrow> 'a sch_scheme \<Rightarrow> 'a sch_scheme" where
  "defer_push_tick cpu tick s =
     (let w = g_defer_w s cpu; r = g_defer_r s cpu; nxt = (w + 1) mod SCHED_DEFER_CAP
      in if nxt = r then s\<lparr>g_defer_overflow := (g_defer_overflow s)(cpu := g_defer_overflow s cpu + 1)\<rparr>
         else s\<lparr>g_defer_ring := (g_defer_ring s)(cpu := (g_defer_ring s cpu)(w := ucast (tick AND 0xFFFFFFFF))),
                g_defer_w := (g_defer_w s)(cpu := nxt)\<rparr>)"

text \<open>The loop over \<open>i < SCHED_MAX_CPU\<close> sets the whole of the five arrays.\<close>

definition sched_init :: "'a sch_scheme \<Rightarrow> 'a sch_scheme" where
  "sched_init s = s\<lparr>g_tick := \<lambda>i. if i < SCHED_MAX_CPU then 0 else g_tick s i,
     g_need_resched := \<lambda>i. if i < SCHED_MAX_CPU then 0 else g_need_resched s i,
     g_defer_w := \<lambda>i. if i < SCHED_MAX_CPU then 0 else g_defer_w s i,
     g_defer_r := \<lambda>i. if i < SCHED_MAX_CPU then 0 else g_defer_r s i,
     g_defer_overflow := \<lambda>i. if i < SCHED_MAX_CPU then 0 else g_defer_overflow s i,
     g_preempt_disable_depth := 0\<rparr>"

definition sched_timer_tick :: "'a sch_scheme \<Rightarrow> 'a sch_scheme option" where
  "sched_timer_tick s =
     (let cpu = sched_cpu_ix s;
          t = g_tick s cpu + 1;
          s1 = s\<lparr>g_tick := (g_tick s)(cpu := t)\<rparr>
      in map_option
           (\<lambda>s2. if t mod PREEMPT_INTERVAL_TICKS = 0
                 then defer_push_tick cpu t (s2\<lparr>g_need_resched := (g_need_resched s2)(cpu := 1)\<rparr>) else s2)
           (if t \<le> 5 \<and> cpu = 0
            then Option.bind (serial_puts (cstr ''[VerveOS] sched: timer tick '') s1) (\<lambda>s2.
                 Option.bind (serial_put_u64_hex t s2) (\<lambda>s3. serial_puts crlf s3))
            else Some s1))"

text \<open>The drain loop: the number of entries drained and the last of them.\<close>

partial_function (option) drain_loop ::
    "u32 \<Rightarrow> u32 \<Rightarrow> u32 \<Rightarrow> 'a sch_scheme \<Rightarrow> (u32 \<times> u32 \<times> 'a sch_scheme) option" where
  "drain_loop cpu drained last_tick s =
     (if g_defer_r s cpu \<noteq> g_defer_w s cpu then
        let r = g_defer_r s cpu; v = g_defer_ring s cpu r
        in drain_loop cpu (drained + 1) v (s\<lparr>g_defer_r := (g_defer_r s)(cpu := (r + 1) mod SCHED_DEFER_CAP)\<rparr>)
      else Some (drained, last_tick, s))"

definition sched_process_deferred :: "'a sch_scheme \<Rightarrow> (u32 \<times> 'a sch_scheme) option" where
  "sched_process_deferred s =
     (let cpu = sched_cpu_ix s; flags = if_flag s
      in case drain_loop cpu 0 0 (s\<lparr>if_flag := False\<rparr>) of None \<Rightarrow> None
         | Some (drained, last_tick, s1) \<Rightarrow>
             let ovf = g_defer_overflow s1 cpu;
                 s2 = s1\<lparr>g_defer_overflow := (g_defer_overflow s1)(cpu := 0), if_flag := flags\<rparr>
             in if drained = 0 \<and> ovf = 0 then Some (0, s2)
                else Option.bind (serial_puts (cstr ''[VerveOS] sched: deferred ring drained='') s2) (\<lambda>s3.
                     Option.bind (serial_put_u64_hex (ucast drained) s3) (\<lambda>s4.
                     Option.bind (if drained \<noteq> 0
                        then Option.bind (serial_puts (cstr '' last_tick='') s4) (serial_put_u64_hex (ucast last_tick))
                        else Some s4) (\<lambda>s5.
                     Option.bind (if ovf \<noteq> 0
                        then Option.bind (serial_puts (cstr '' dropped='') s5) (serial_put_u64_hex (ucast ovf))
                        else Some s5) (\<lambda>s6.
                     map_option (\<lambda>s7. (drained, s7))
                       (serial_puts (cstr '' (cpu_switch stays out of IRQ)'' @ crlf) s6))))))"

definition sched_tick_count :: "'a sch_scheme \<Rightarrow> u64" where
  "sched_tick_count s = g_tick s (sched_cpu_ix s)"

definition sched_need_resched :: "'a sch_scheme \<Rightarrow> u32" where
  "sched_need_resched s = g_need_resched s (sched_cpu_ix s)"

definition sched_clear_resched :: "'a sch_scheme \<Rightarrow> 'a sch_scheme" where
  "sched_clear_resched s = s\<lparr>g_need_resched := (g_need_resched s)(sched_cpu_ix s := 0)\<rparr>"

definition sched_preempt_disable :: "'a sch_scheme \<Rightarrow> 'a sch_scheme" where
  "sched_preempt_disable s = s\<lparr>g_preempt_disable_depth := g_preempt_disable_depth s + 1\<rparr>"

definition sched_preempt_enable :: "'a sch_scheme \<Rightarrow> 'a sch_scheme" where
  "sched_preempt_enable s =
     (if sint (g_preempt_disable_depth s) > 0
      then s\<lparr>g_preempt_disable_depth := g_preempt_disable_depth s - 1\<rparr> else s)"

definition sched_preempt_disabled :: "'a sch_scheme \<Rightarrow> bool" where
  "sched_preempt_disabled s \<longleftrightarrow> g_preempt_disable_depth s \<noteq> 0"

section \<open>The ring as a queue\<close>

lemma sched_cpu_ix_lt: "sched_cpu_ix s < 32"
  by (auto simp: sched_cpu_ix_def Let_def not_le)

definition ring_ok :: "u32 \<Rightarrow> 'a sch_scheme \<Rightarrow> bool" where
  "ring_ok c s \<longleftrightarrow> unat (g_defer_w s c) < 16 \<and> unat (g_defer_r s c) < 16"

definition ring_len :: "'a sch_scheme \<Rightarrow> u32 \<Rightarrow> nat" where
  "ring_len s c = (unat (g_defer_w s c) + 16 - unat (g_defer_r s c)) mod 16"

definition ring_q :: "'a sch_scheme \<Rightarrow> u32 \<Rightarrow> u32 list" where
  "ring_q s c = map (\<lambda>i. g_defer_ring s c (of_nat ((unat (g_defer_r s c) + i) mod 16))) [0..<ring_len s c]"

lemma length_ring_q [simp]: "length (ring_q s c) = ring_len s c"
  by (simp add: ring_q_def)

lemma ring_next: "unat w < 16 \<Longrightarrow> unat ((w + 1) mod 16 :: u32) = (unat w + 1) mod 16"
  using unat_plus32 [of w 1] by (simp add: unat_mod)

lemma mod16_small: "x < 32 \<Longrightarrow> x mod 16 = (if x < 16 then x else x - 16)" for x :: nat
  by (simp add: mod_if)

lemma ring_arith:
  fixes W R :: nat
  assumes "W < 16" and "R < 16"
  shows "(W + 1) mod 16 = R \<longleftrightarrow> (W + 16 - R) mod 16 = 15"
    and "(W + 16 - R) mod 16 < 15 \<Longrightarrow> ((W + 1) mod 16 + 16 - R) mod 16 = Suc ((W + 16 - R) mod 16)"
    and "(R + (W + 16 - R) mod 16) mod 16 = W"
    and "i < (W + 16 - R) mod 16 \<Longrightarrow> (R + i) mod 16 \<noteq> W"
    and "R \<noteq> W \<longleftrightarrow> (W + 16 - R) mod 16 \<noteq> 0"
    and "R \<noteq> W \<Longrightarrow> (W + 16 - R) mod 16 = Suc ((W + 16 - (R + 1) mod 16) mod 16)"
proof -
  have len: "(V + 16 - U) mod 16 = (if U \<le> V then V - U else V + 16 - U)" if "V < 16" "U < 16" for U V :: nat
  proof (cases "U \<le> V")
    case True
    then have "V + 16 - U = (V - U) + 16" by linarith
    moreover have "V - U < 16" using that by linarith
    ultimately show ?thesis using True by (metis mod_add_self2 mod_less)
  next
    case False
    then show ?thesis using that by simp
  qed
  have nx: "(V + 1) mod 16 = (if V = 15 then 0 else V + 1)" if "V < 16" for V :: nat
    using that mod16_small [of "V + 1"] by simp
  have nx_lt: "(V + 1) mod 16 < 16" for V :: nat by simp
  show "(W + 1) mod 16 = R \<longleftrightarrow> (W + 16 - R) mod 16 = 15"
    unfolding nx [OF assms(1)] len [OF assms] using assms by (cases "W = 15"; cases "R \<le> W") (simp; linarith)+
  show "((W + 1) mod 16 + 16 - R) mod 16 = Suc ((W + 16 - R) mod 16)" if "(W + 16 - R) mod 16 < 15"
    using that unfolding len [OF nx_lt assms(2)] unfolding nx [OF assms(1)] len [OF assms] using assms
    by (simp split: if_splits; arith)
  show "(R + (W + 16 - R) mod 16) mod 16 = W"
  proof (cases "R \<le> W")
    case True
    then show ?thesis unfolding len [OF assms] using assms(1) by simp
  next
    case False
    then have "R + (W + 16 - R) = W + 16" using assms(2) by linarith
    then show ?thesis unfolding len [OF assms] using False assms(1) by simp
  qed
  show "(R + i) mod 16 \<noteq> W" if "i < (W + 16 - R) mod 16"
  proof -
    have "R + i < 32" using that assms(2) by (simp add: mod_less_divisor trans_less_add1 less_trans [OF that])
    then show ?thesis
      using that mod16_small [of "R + i"] unfolding len [OF assms] using assms
      by (cases "R \<le> W"; cases "R + i < 16") (simp; linarith)+
  qed
  show "R \<noteq> W \<longleftrightarrow> (W + 16 - R) mod 16 \<noteq> 0"
    unfolding len [OF assms] using assms by (cases "R \<le> W") (simp; linarith)+
  show "(W + 16 - R) mod 16 = Suc ((W + 16 - (R + 1) mod 16) mod 16)" if "R \<noteq> W"
    using that unfolding len [OF assms(1) nx_lt] unfolding nx [OF assms(2)] len [OF assms] using assms
    by (simp split: if_splits; arith)
qed

lemma push_effect:
  assumes "ring_ok c s"
  shows "ring_ok c (defer_push_tick c t s)"
    and "ring_len s c < 15 \<Longrightarrow> ring_q (defer_push_tick c t s) c = ring_q s c @ [ucast (t AND 0xFFFFFFFF)]
      \<and> g_defer_overflow (defer_push_tick c t s) = g_defer_overflow s"
    and "\<not> ring_len s c < 15 \<Longrightarrow> ring_q (defer_push_tick c t s) c = ring_q s c
      \<and> g_defer_overflow (defer_push_tick c t s) = (g_defer_overflow s)(c := g_defer_overflow s c + 1)"
    and "ring_len s c \<le> 15"
proof -
  let ?W = "unat (g_defer_w s c)" and ?R = "unat (g_defer_r s c)"
  have lt: "?W < 16" "?R < 16" using assms by (simp_all add: ring_ok_def)
  note A = ring_arith [OF lt] and nx = ring_next [OF lt(1)]
  have full: "(g_defer_w s c + 1) mod 16 = g_defer_r s c \<longleftrightarrow> ring_len s c = 15"
    using A(1) nx by (simp add: word_unat_eq_iff ring_len_def)
  show le: "ring_len s c \<le> 15" by (simp add: ring_len_def)
  show "ring_ok c (defer_push_tick c t s)"
    using assms nx by (auto simp: ring_ok_def defer_push_tick_def Let_def)
  show "ring_q (defer_push_tick c t s) c = ring_q s c @ [ucast (t AND 0xFFFFFFFF)]
      \<and> g_defer_overflow (defer_push_tick c t s) = g_defer_overflow s" if room: "ring_len s c < 15"
  proof -
    let ?s = "defer_push_tick c t s" and ?v = "ucast (t AND 0xFFFFFFFF) :: u32"
    have s': "?s = s\<lparr>g_defer_ring := (g_defer_ring s)(c := (g_defer_ring s c)(g_defer_w s c := ?v)),
        g_defer_w := (g_defer_w s)(c := (g_defer_w s c + 1) mod 16)\<rparr>"
      using full room by (simp add: defer_push_tick_def Let_def)
    have len: "ring_len ?s c = Suc (ring_len s c)"
      using A(2) room nx by (simp add: s' ring_len_def)
    have W: "(of_nat ?W :: u32) = g_defer_w s c" by simp
    have old: "g_defer_ring ?s c (of_nat ((?R + i) mod 16)) = g_defer_ring s c (of_nat ((?R + i) mod 16))" if "i < ring_len s c" for i
    proof -
      have "(?R + i) mod 16 \<noteq> ?W" using A(4) that by (simp add: ring_len_def)
      then have "(of_nat ((?R + i) mod 16) :: u32) \<noteq> of_nat ?W"
        using lt of_nat_eq_iff32 [of "(?R + i) mod 16" ?W] by simp
      then show ?thesis by (simp add: s')
    qed
    have new: "g_defer_ring ?s c (of_nat ((?R + ring_len s c) mod 16)) = ?v"
      using A(3) by (simp add: s' ring_len_def)
    have "ring_q ?s c = map (\<lambda>i. g_defer_ring ?s c (of_nat ((?R + i) mod 16))) [0..<Suc (ring_len s c)]"
      unfolding ring_q_def len by (simp add: s')
    also have "\<dots> = ring_q s c @ [?v]" using old new by (simp add: ring_q_def)
    finally show ?thesis by (simp add: s')
  qed
  show "ring_q (defer_push_tick c t s) c = ring_q s c
      \<and> g_defer_overflow (defer_push_tick c t s) = (g_defer_overflow s)(c := g_defer_overflow s c + 1)"
    if "\<not> ring_len s c < 15"
    using that le full by (simp add: defer_push_tick_def Let_def ring_q_def ring_len_def)
qed

interpretation dq: bounded_fifo "\<lambda>s. ring_q s c" "\<lambda>t. ucast (t AND 0xFFFFFFFF)" "\<lambda>s. g_defer_overflow s c" "defer_push_tick c" 15 "ring_ok c" for c
  by unfold_locales (simp_all add: push_effect)

section \<open>Draining\<close>

lemma drain_loop_effect:
  assumes "ring_ok c s"
  shows "drain_loop c d l s = Some (d + of_nat (ring_len s c), if ring_q s c = [] then l else last (ring_q s c),
    s\<lparr>g_defer_r := (g_defer_r s)(c := g_defer_w s c)\<rparr>)"
  using assms
proof (induction "ring_len s c" arbitrary: s d l)
  case 0
  have "unat (g_defer_r s c) = unat (g_defer_w s c)"
    using 0 ring_arith(5) [of "unat (g_defer_w s c)" "unat (g_defer_r s c)"] by (simp add: ring_ok_def ring_len_def)
  then have "g_defer_r s c = g_defer_w s c" by (simp add: word_unat_eq_iff)
  moreover have "s = s\<lparr>g_defer_r := (g_defer_r s)(c := g_defer_r s c)\<rparr>" by simp
  ultimately show ?case using 0 by (subst drain_loop.simps) (simp add: ring_q_def)
next
  case (Suc n)
  let ?W = "unat (g_defer_w s c)" and ?R = "unat (g_defer_r s c)"
  let ?s = "s\<lparr>g_defer_r := (g_defer_r s)(c := (g_defer_r s c + 1) mod 16)\<rparr>"
  have lt: "?W < 16" "?R < 16" using Suc.prems by (simp_all add: ring_ok_def)
  have ne: "?R \<noteq> ?W" using Suc.hyps(2) ring_arith(5) [OF lt] by (simp add: ring_len_def)
  have nx: "unat ((g_defer_r s c + 1) mod 16) = (?R + 1) mod 16" by (rule ring_next [OF lt(2)])
  have len: "n = ring_len ?s c"
    using Suc.hyps(2) ring_arith(6) [OF lt ne] nx by (simp add: ring_len_def)
  have ok: "ring_ok c ?s" using Suc.prems nx by (simp add: ring_ok_def)
  have idx: "(Suc ?R mod 16 + i) mod 16 = Suc (?R + i) mod 16" for i
    using mod_add_left_eq [of "Suc ?R" 16 i] by simp
  have q: "ring_q s c = g_defer_ring s c (g_defer_r s c) # ring_q ?s c"
  proof -
    have "ring_q s c = map (\<lambda>i. g_defer_ring s c (of_nat ((?R + i) mod 16))) [0..<Suc n]"
      by (simp add: ring_q_def Suc.hyps(2) [symmetric] del: upt_Suc)
    also have "\<dots> = g_defer_ring s c (of_nat (?R mod 16)) # map (\<lambda>i. g_defer_ring s c (of_nat ((?R + Suc i) mod 16))) [0..<n]"
      by (simp add: map_upt_Suc del: upt_Suc)
    also have "map (\<lambda>i. g_defer_ring s c (of_nat ((?R + Suc i) mod 16))) [0..<n] = ring_q ?s c"
      unfolding ring_q_def len [symmetric] by (simp add: nx idx)
    finally show ?thesis using lt by simp
  qed
  have "drain_loop c d l s = drain_loop c (d + 1) (g_defer_ring s c (g_defer_r s c)) ?s"
    using ne by (subst drain_loop.simps) (auto simp: Let_def)
  also have "\<dots> = Some (d + 1 + of_nat (ring_len ?s c),
      if ring_q ?s c = [] then g_defer_ring s c (g_defer_r s c) else last (ring_q ?s c),
      ?s\<lparr>g_defer_r := (g_defer_r ?s)(c := g_defer_w ?s c)\<rparr>)"
    using Suc.hyps(1) [OF len ok] by simp
  finally have "drain_loop c d l s = Some (d + (1 + of_nat (ring_len ?s c)), last (ring_q s c), s\<lparr>g_defer_r := (g_defer_r s)(c := g_defer_w s c)\<rparr>)"
    using q by (simp add: add.assoc)
  moreover have "(of_nat (ring_len s c) :: u32) = 1 + of_nat (ring_len ?s c)"
    using len Suc.hyps(2) by (metis of_nat_Suc)
  ultimately show ?case using q by simp
qed

text \<open>The message a drain prints.\<close>

definition drain_msg :: "u32 \<Rightarrow> u32 \<Rightarrow> u32 \<Rightarrow> u8 list" where
  "drain_msg drained lastt ovf =
     (if drained = 0 \<and> ovf = 0 then []
      else cstr ''[VerveOS] sched: deferred ring drained='' @ hex_buf (ucast drained)
        @ (if drained \<noteq> 0 then cstr '' last_tick='' @ hex_buf (ucast lastt) else [])
        @ (if ovf \<noteq> 0 then cstr '' dropped='' @ hex_buf (ucast ovf) else [])
        @ cstr '' (cpu_switch stays out of IRQ)'' @ crlf)"

definition drained_state :: "u32 \<Rightarrow> 'a sch_scheme \<Rightarrow> 'a sch_scheme" where
  "drained_state c s = s\<lparr>g_defer_r := (g_defer_r s)(c := g_defer_w s c), g_defer_overflow := (g_defer_overflow s)(c := 0)\<rparr>"

lemma con_ok_frame:
  assumes "io_in s' = io_in s" and "io_reads s' = io_reads s" and "g_serial_lock s' = g_serial_lock s"
  shows "con_ok s' = con_ok s"
  using assms by (simp add: con_ok_def uart_live_def)

lemma ring_len_lt: "ring_len s c < 16"
  by (simp add: ring_len_def)

lemma drained_count: "unat (of_nat (ring_len s c) :: u32) = ring_len s c" "(of_nat (ring_len s c) :: u32) = 0 \<longleftrightarrow> ring_len s c = 0"
proof -
  show u: "unat (of_nat (ring_len s c) :: u32) = ring_len s c" using ring_len_lt [of s c] by (intro unat_of_nat32) simp
  show "(of_nat (ring_len s c) :: u32) = 0 \<longleftrightarrow> ring_len s c = 0" by (simp only: word_unat_eq_iff u unat_0)
qed

lemma returns_print_if:
  assumes "con_ok s" and "\<And>s'. prints s (if b then a @ hex_buf v else []) s' \<Longrightarrow> con_ok s' \<Longrightarrow> Q s'"
  shows "returns (if b then Option.bind (serial_puts a s) (serial_put_u64_hex v) else Some s) Q"
proof (cases b)
  case True
  have "returns (Option.bind (serial_puts a s) (serial_put_u64_hex v)) Q"
    using assms True by (intro returns_intros) (auto dest: prints_trans)
  then show ?thesis using True by simp
next
  case False
  then show ?thesis using assms by simp
qed

lemma process_deferred_returns:
  assumes "ring_ok (sched_cpu_ix s) s" and "con_ok s"
  shows "returns (sched_process_deferred s) (\<lambda>(d, s'). unat d = ring_len s (sched_cpu_ix s)
    \<and> prints (drained_state (sched_cpu_ix s) s)
        (drain_msg d (if ring_q s (sched_cpu_ix s) = [] then 0 else last (ring_q s (sched_cpu_ix s)))
          (g_defer_overflow s (sched_cpu_ix s))) s')"
proof -
  define c where "c = sched_cpu_ix s"
  define l where "l = (if ring_q s c = [] then 0 else last (ring_q s c))"
  define d where "d = (of_nat (ring_len s c) :: u32)"
  have ok: "ring_ok c (s\<lparr>if_flag := False\<rparr>)" using assms(1) by (simp add: ring_ok_def c_def)
  have q: "ring_q (s\<lparr>if_flag := False\<rparr>) c = ring_q s c" "ring_len (s\<lparr>if_flag := False\<rparr>) c = ring_len s c"
    by (simp_all add: ring_q_def ring_len_def)
  define s1 where "s1 = s\<lparr>if_flag := False, g_defer_r := (g_defer_r s)(c := g_defer_w s c)\<rparr>"
  have loop: "drain_loop c 0 0 (s\<lparr>if_flag := False\<rparr>) = Some (d, l, s1)"
    using drain_loop_effect [OF ok, of 0 0] by (simp add: q l_def d_def s1_def)
  define s2 where "s2 = drained_state c s"
  have s2: "s1\<lparr>g_defer_overflow := (g_defer_overflow s1)(c := 0), if_flag := if_flag s\<rparr> = s2"
    by (simp add: s1_def s2_def drained_state_def)
  have ovf: "g_defer_overflow s1 c = g_defer_overflow s c" by (simp add: s1_def)
  note run0 = sched_process_deferred_def [of s, folded c_def, unfolded Let_def loop option.case prod.case ovf s2]
  have con: "con_ok s2" using assms(2) by (simp add: s2_def drained_state_def con_ok_def uart_live_def)
  have "returns (sched_process_deferred s) (\<lambda>(e, s'). e = d \<and> prints s2 (drain_msg d l (g_defer_overflow s c)) s')"
  proof (cases "d = 0 \<and> g_defer_overflow s c = 0")
    case True
    then show ?thesis
      unfolding run0 if_P [OF True] by (simp add: drain_msg_def)
  next
    case False
    let ?o = "g_defer_overflow s c"
    have msg: "drain_msg d l ?o = cstr ''[VerveOS] sched: deferred ring drained='' @ hex_buf (ucast d)
        @ (if d \<noteq> 0 then cstr '' last_tick='' @ hex_buf (ucast l) else [])
        @ (if ?o \<noteq> 0 then cstr '' dropped='' @ hex_buf (ucast ?o) else [])
        @ cstr '' (cpu_switch stays out of IRQ)'' @ crlf"
      unfolding drain_msg_def if_not_P [OF False] ..
    have run: "sched_process_deferred s =
        Option.bind (serial_puts (cstr ''[VerveOS] sched: deferred ring drained='') s2) (\<lambda>s3.
        Option.bind (serial_put_u64_hex (ucast d) s3) (\<lambda>s4.
        Option.bind (if d \<noteq> 0
           then Option.bind (serial_puts (cstr '' last_tick='') s4) (serial_put_u64_hex (ucast l)) else Some s4) (\<lambda>s5.
        Option.bind (if ?o \<noteq> 0
           then Option.bind (serial_puts (cstr '' dropped='') s5) (serial_put_u64_hex (ucast ?o)) else Some s5) (\<lambda>s6.
        map_option (\<lambda>s7. (d, s7)) (serial_puts (cstr '' (cpu_switch stays out of IRQ)'' @ crlf) s6)))))"
      unfolding run0 if_not_P [OF False] ..
    show ?thesis
      unfolding run msg
    proof (intro returns_bind returns_map returns_puts returns_hex returns_print_if con, assumption+)
      fix s3 s4 s5 s6 s7
      assume "prints s2 (cstr ''[VerveOS] sched: deferred ring drained='') s3" "prints s3 (hex_buf (ucast d)) s4"
        "prints s4 (if d \<noteq> 0 then cstr '' last_tick='' @ hex_buf (ucast l) else []) s5"
        "prints s5 (if ?o \<noteq> 0 then cstr '' dropped='' @ hex_buf (ucast ?o) else []) s6"
        "prints s6 (cstr '' (cpu_switch stays out of IRQ)'' @ crlf) s7"
      from prints_trans [OF this(1) prints_trans [OF this(2) prints_trans [OF this(3) prints_trans [OF this(4,5)]]]]
      show "case (d, s7) of (e, s') \<Rightarrow> e = d \<and> prints s2 (cstr ''[VerveOS] sched: deferred ring drained='' @ hex_buf (ucast d)
        @ (if d \<noteq> 0 then cstr '' last_tick='' @ hex_buf (ucast l) else [])
        @ (if ?o \<noteq> 0 then cstr '' dropped='' @ hex_buf (ucast ?o) else [])
        @ cstr '' (cpu_switch stays out of IRQ)'' @ crlf) s'" by simp
    qed
  qed
  then show ?thesis by (rule returns_mono) (auto simp: c_def s2_def d_def l_def drained_count)
qed

section \<open>The tick\<close>

text \<open>The effect of a tick apart from the message, and the message.\<close>

definition ticked :: "'a sch_scheme \<Rightarrow> 'a sch_scheme" where
  "ticked s = (let c = sched_cpu_ix s; t = g_tick s c + 1; s1 = s\<lparr>g_tick := (g_tick s)(c := t)\<rparr>
     in if t mod 5 = 0 then defer_push_tick c t (s1\<lparr>g_need_resched := (g_need_resched s1)(c := 1)\<rparr>) else s1)"

definition tick_msg :: "'a sch_scheme \<Rightarrow> u8 list" where
  "tick_msg s = (let c = sched_cpu_ix s; t = g_tick s c + 1
     in if t \<le> 5 \<and> c = 0 then cstr ''[VerveOS] sched: timer tick '' @ hex_buf t @ crlf else [])"

lemma push_io:
  "defer_push_tick c t (s\<lparr>io_reads := n, io_outs := xs\<rparr>) = (defer_push_tick c t s)\<lparr>io_reads := n, io_outs := xs\<rparr>"
  by (simp add: defer_push_tick_def Let_def)

lemma push_frame [frame_simps]:
  "io_outs (defer_push_tick c t s) = io_outs s" "io_in (defer_push_tick c t s) = io_in s"
  "g_serial_lock (defer_push_tick c t s) = g_serial_lock s"
  "g_tick (defer_push_tick c t s) = g_tick s" "g_need_resched (defer_push_tick c t s) = g_need_resched s"
  "sched_cpu_ix (defer_push_tick c t s) = sched_cpu_ix s"
  by (simp_all add: defer_push_tick_def sched_cpu_ix_def smp_cpu_index_def lapic_id_def mmio_r32_def Let_def)

lemma prints_ticked:
  assumes "prints (s\<lparr>g_tick := (g_tick s)(c := t)\<rparr>) m s2" and "c = sched_cpu_ix s" and "t = g_tick s c + 1"
  shows "prints (ticked s) m
    (if t mod 5 = 0 then defer_push_tick c t (s2\<lparr>g_need_resched := (g_need_resched s2)(c := 1)\<rparr>) else s2)"
proof -
  let ?s1 = "s\<lparr>g_tick := (g_tick s)(c := t)\<rparr>"
  obtain n where s2: "s2 = ?s1\<lparr>io_reads := n, io_outs := io_outs s @ map (\<lambda>c. (COM1_DATA, c)) m\<rparr>"
    using assms(1) by (auto simp: prints_def)
  let ?r = "?s1\<lparr>g_need_resched := (g_need_resched s)(c := 1)\<rparr>"
  have comm: "s2\<lparr>g_need_resched := (g_need_resched s2)(c := 1)\<rparr>
      = ?r\<lparr>io_reads := n, io_outs := io_outs s @ map (\<lambda>c. (COM1_DATA, c)) m\<rparr>"
    by (simp add: s2)
  show ?thesis
  proof (cases "t mod 5 = 0")
    case True
    have "ticked s = defer_push_tick c t ?r"
      using True assms(2,3) by (simp add: ticked_def Let_def)
    moreover have "io_outs (defer_push_tick c t ?r) = io_outs s" by (simp add: push_frame)
    ultimately show ?thesis
      unfolding if_P [OF True] comm push_io prints_def by (intro exI [of _ n]) simp
  next
    case False
    have "ticked s = ?s1" using False assms(2,3) by (simp add: ticked_def Let_def)
    then show ?thesis unfolding if_not_P [OF False] using assms(1) by simp
  qed
qed

lemma tick_returns:
  assumes "con_ok s" and "\<And>s'. prints (ticked s) (tick_msg s) s' \<Longrightarrow> con_ok s' \<Longrightarrow> Q s'"
  shows "returns (sched_timer_tick s) Q"
proof -
  define c where "c = sched_cpu_ix s"
  define t where "t = g_tick s c + 1"
  define s1 where "s1 = s\<lparr>g_tick := (g_tick s)(c := t)\<rparr>"
  have con: "con_ok s1" using assms(1) by (simp add: s1_def con_ok_def uart_live_def)
  have conT: "con_ok (ticked s)"
    using assms(1) by (simp add: ticked_def Let_def push_frame con_ok_def uart_live_def)
  let ?f = "\<lambda>s2. if t mod 5 = 0 then defer_push_tick c t (s2\<lparr>g_need_resched := (g_need_resched s2)(c := 1)\<rparr>) else s2"
  have Q: "Q (?f s2)" if "prints s1 (tick_msg s) s2" for s2
  proof -
    have "prints (ticked s) (tick_msg s) (?f s2)"
      using prints_ticked [of s c t "tick_msg s" s2] that by (simp add: s1_def c_def t_def)
    then show ?thesis using assms(2) con_ok_prints conT by blast
  qed
  note code = sched_timer_tick_def [of s, folded c_def, unfolded Let_def, folded t_def, folded s1_def]
  show ?thesis
  proof (cases "t \<le> 5 \<and> c = 0")
    case True
    have msg: "tick_msg s = cstr ''[VerveOS] sched: timer tick '' @ hex_buf t @ crlf"
      unfolding tick_msg_def Let_def c_def [symmetric] t_def [symmetric] if_P [OF True] ..
    show ?thesis
      unfolding code if_P [OF True]
      by (intro returns_map returns_bind returns_puts returns_hex con; assumption?)
        (rule Q, unfold msg, blast intro: prints_trans)
  next
    case False
    then have "tick_msg s = []" by (auto simp: tick_msg_def Let_def c_def t_def)
    then show ?thesis using Q [of s1] unfolding code if_not_P [OF False] by simp
  qed
qed

text \<open>Reading the scheduler's state after a message.\<close>

lemma prints_sched:
  assumes "prints s m s'"
  shows "g_tick s' = g_tick s" "ring_q s' = ring_q s" "ring_len s' = ring_len s" "g_defer_overflow s' = g_defer_overflow s"
    "ring_ok c s' = ring_ok c s" "g_need_resched s' = g_need_resched s" "sched_cpu_ix s' = sched_cpu_ix s"
    "if_flag s' = if_flag s" "g_preempt_disable_depth s' = g_preempt_disable_depth s"
  using assms
  by (auto simp: prints_def ring_q_def ring_len_def ring_ok_def sched_cpu_ix_def smp_cpu_index_def lapic_id_def mmio_r32_def fun_eq_iff Let_def)


section \<open>Properties\<close>


definition sample_sch :: sch where
  "sample_sch = \<lparr>io_in = \<lambda>_ _. 0x60, io_reads = 0, io_outs = [], g_serial_lock = 0,
     mem = \<lambda>_. 0, cr3 = 0x2000, cr0_pg = True, frames = sample_pmm,
     cur_pid = 1, cur_pd_phys = 0x2000, g_brk = 0x80002000, g_ufd = [],
     lapic_id_reg = 0x5000000, mmio_in = \<lambda>_ _. 0, mmio_reads = 0, mmio_outs = [], apic_base_msr = (0, 0),
     g_cpu_apic_ids = [5, 7, 2] @ replicate 29 0, g_cpu_count = 3, g_ioapic_phys = 0, g_ioapic_gsi_base = 0,
     g_irq0_gsi = 0, g_ioapic_id = 0, g_has_ioapic = False, g_hw_inited = True,
     g_cpus_online = 1, g_apic_to_logical = replicate 256 0xFF,
     g_tick = \<lambda>_. 0, g_need_resched = \<lambda>_. 0, g_defer_ring = \<lambda>_ _. 0, g_defer_w = \<lambda>_. 0, g_defer_r = \<lambda>_. 0,
     g_defer_overflow = \<lambda>_. 0, g_preempt_disable_depth = 0, if_flag = True\<rparr>"

lemma sample_sch_ok: "con_ok sample_sch" "ring_ok c sample_sch"
  by (auto simp: con_ok_def uart_live_def ring_ok_def sample_sch_def)


text \<open>The ticks of one CPU in a row.\<close>

primrec ticks :: "nat \<Rightarrow> 'a sch_scheme \<Rightarrow> 'a sch_scheme option" where
  "ticks 0 s = Some s"
| "ticks (Suc n) s = Option.bind (ticks n s) sched_timer_tick"

text \<open>The quantum expiries among the first \<open>n\<close> ticks, as the ring records them.\<close>

definition quanta :: "nat \<Rightarrow> u32 list" where
  "quanta n = map (\<lambda>i. of_nat (5 * Suc i)) [0..<n div 5]"

lemma tick_mod5: "n < 4294967296 \<Longrightarrow> (of_nat n :: u64) mod 5 = 0 \<longleftrightarrow> n mod 5 = 0"
  using unat_of_nat64 [of n] by (simp add: word_unat_eq_iff unat_mod)

lemma length_quanta [simp]: "length (quanta n) = n div 5"
  by (simp add: quanta_def)

lemma quanta_Suc:
  "quanta (Suc n) = (if Suc n mod 5 = 0 then quanta n @ [of_nat (Suc n)] else quanta n)"
proof (cases "Suc n mod 5 = 0")
  case True
  then have d5: "Suc n div 5 = Suc (n div 5)" by (simp add: div_Suc)
  have "Suc n = 5 * Suc (n div 5)" using True d5 by (metis mult_div_mod_eq add_0_right)
  then have eq: "(of_nat (Suc n) :: u32) = of_nat (5 * Suc (n div 5))" by (rule arg_cong)
  show ?thesis unfolding if_P [OF True] eq unfolding quanta_def d5 by simp
next
  case False
  then show ?thesis by (simp add: quanta_def div_Suc)
qed

lemma tick_low: "n < 4294967296 \<Longrightarrow> ucast ((of_nat n :: u64) AND 0xFFFFFFFF) = (of_nat n :: u32)"
proof -
  assume n: "n < 4294967296"
  have m: "(0xFFFFFFFF :: u64) = mask 32" by (simp add: mask_eq_exp_minus_1)
  have "unat (ucast ((of_nat n :: u64) AND 0xFFFFFFFF) :: u32) = unat (of_nat n :: u32)"
    unfolding unat_ucast_u64_u32 m unat_and_mask unat_of_nat32 [OF n] using n unat_of_nat64 [of n] by simp
  then show ?thesis by (simp only: word_unat_eq_iff)
qed

lemma ticked_keeps:
  assumes "g_tick s (sched_cpu_ix s) = of_nat n" and "Suc n < 4294967296"
    and "dq.keeps (sched_cpu_ix s) (quanta n) s"
  shows "dq.keeps (sched_cpu_ix s) (quanta (Suc n)) (ticked s)"
proof -
  let ?c = "sched_cpu_ix s" and ?t = "of_nat (Suc n) :: u64"
  let ?s1 = "s\<lparr>g_tick := (g_tick s)(?c := ?t)\<rparr>"
  have t: "g_tick s ?c + 1 = ?t" using assms(1) by (simp add: add.commute)
  note k = assms(3) [unfolded dq.keeps_def]
  have same: "dq.keeps ?c (quanta n) (?s1\<lparr>g_need_resched := r\<rparr>)" for r
    using k unfolding dq.keeps_def by (simp add: ring_ok_def ring_q_def ring_len_def)
  have same1: "dq.keeps ?c (quanta n) ?s1"
    using k unfolding dq.keeps_def by (simp add: ring_ok_def ring_q_def ring_len_def)
  show ?thesis
  proof (cases "Suc n mod 5 = 0")
    case True
    then show ?thesis
      using dq.keeps_push [OF same, of ?t] tick_mod5 [OF assms(2)] tick_low [OF assms(2)]
      unfolding ticked_def Let_def t quanta_Suc by simp
  next
    case False
    then show ?thesis
      using same1 tick_mod5 [OF assms(2)] unfolding ticked_def Let_def t quanta_Suc by simp
  qed
qed

lemma sched_cpu_ix_upd [frame_simps]:
  "sched_cpu_ix (s\<lparr>g_tick := x\<rparr>) = sched_cpu_ix s" "sched_cpu_ix (s\<lparr>g_need_resched := y\<rparr>) = sched_cpu_ix s"
  by (simp_all add: sched_cpu_ix_def smp_cpu_index_def lapic_id_def mmio_r32_def)

lemma ticked_reads:
  "g_tick (ticked s) = (g_tick s)(sched_cpu_ix s := g_tick s (sched_cpu_ix s) + 1)"
  "sched_cpu_ix (ticked s) = sched_cpu_ix s"
  "g_need_resched (ticked s) = (if (g_tick s (sched_cpu_ix s) + 1) mod 5 = 0
     then (g_need_resched s)(sched_cpu_ix s := 1) else g_need_resched s)"
  by (simp_all add: ticked_def Let_def frame_simps)

text \<open>
  The timer.  After \<open>sched_init\<close>, \<open>n\<close> ticks of a CPU return; the tick counter is \<open>n\<close>, a
  reschedule is pending exactly when a quantum of 5 ticks has passed, the ring holds the ticks
  of the oldest 15 expiries in order, and the expiries that found it full are counted.
\<close>

theorem sched_ticks_correct:
  assumes "con_ok s" and "n < 4294967296"
  shows "\<exists>s'. ticks n (sched_init s) = Some s' \<and> sched_cpu_ix s' = sched_cpu_ix s
    \<and> g_tick s' (sched_cpu_ix s) = of_nat n
    \<and> g_need_resched s' (sched_cpu_ix s) = (if n < 5 then 0 else 1)
    \<and> ring_q s' (sched_cpu_ix s) = take 15 (quanta n)
    \<and> g_defer_overflow s' (sched_cpu_ix s) = of_nat (n div 5 - 15)"
proof -
  let ?c = "sched_cpu_ix s"
  have c: "?c < 32" by (rule sched_cpu_ix_lt)
  have "returns (ticks n (sched_init s)) (\<lambda>s'. con_ok s' \<and> sched_cpu_ix s' = ?c \<and> g_tick s' ?c = of_nat n
      \<and> g_need_resched s' ?c = (if n < 5 then 0 else 1) \<and> dq.keeps ?c (quanta n) s')"
    using assms(2)
  proof (induction n)
    case 0
    have "sched_cpu_ix (sched_init s) = ?c"
      by (simp add: sched_init_def sched_cpu_ix_def smp_cpu_index_def lapic_id_def mmio_r32_def)
    moreover have "dq.keeps ?c (quanta 0) (sched_init s)"
      unfolding dq.keeps_def using c by (simp add: quanta_def ring_q_def ring_len_def ring_ok_def sched_init_def)
    ultimately show ?case
      using assms(1) c by (simp add: sched_init_def con_ok_def uart_live_def)
  next
    case (Suc n)
    have n: "n < 4294967296" using Suc.prems by simp
    have step: "returns (sched_timer_tick s1) (\<lambda>s'. con_ok s' \<and> sched_cpu_ix s' = ?c \<and> g_tick s' ?c = of_nat (Suc n)
      \<and> g_need_resched s' ?c = (if Suc n < 5 then 0 else 1) \<and> dq.keeps ?c (quanta (Suc n)) s')"
      if s1: "con_ok s1" "sched_cpu_ix s1 = ?c" "g_tick s1 ?c = of_nat n"
        "g_need_resched s1 ?c = (if n < 5 then 0 else 1)" "dq.keeps ?c (quanta n) s1" for s1
    proof (rule tick_returns [OF s1(1)])
      fix s' assume p: "prints (ticked s1) (tick_msg s1) s'" and con: "con_ok s'"
      have t: "g_tick s1 ?c + 1 = of_nat (Suc n)" using s1(3) by (simp add: add.commute)
      have "dq.keeps ?c (quanta (Suc n)) (ticked s1)"
        using ticked_keeps [of s1 n] s1 Suc.prems by simp
      then have "dq.keeps ?c (quanta (Suc n)) s'" by (simp add: dq.keeps_def prints_sched [OF p])
      moreover have "g_need_resched s' ?c = (if Suc n < 5 then 0 else 1)"
        using s1 t tick_mod5 [OF Suc.prems] unfolding prints_sched [OF p] ticked_reads
        by (cases "n < 4"; cases "n = 4") (auto simp del: of_nat_Suc)
      ultimately show "con_ok s' \<and> sched_cpu_ix s' = ?c \<and> g_tick s' ?c = of_nat (Suc n)
          \<and> g_need_resched s' ?c = (if Suc n < 5 then 0 else 1) \<and> dq.keeps ?c (quanta (Suc n)) s'"
        using con s1(2,3) t by (simp add: prints_sched [OF p] ticked_reads del: of_nat_Suc)
    qed
    show ?case
      unfolding ticks.simps by (rule returns_bind, rule returns_mono [OF Suc.IH [OF n]]) (use step in blast)
  qed
  then show ?thesis by (auto simp: returns_def dq.keeps_def)
qed

theorem sched_ticks_correct_witness:
  "\<exists>s'. ticks 100 (sched_init sample_sch) = Some s'
    \<and> ring_q s' (sched_cpu_ix sample_sch) = [5, 10, 15, 20, 25, 30, 35, 40, 45, 50, 55, 60, 65, 70, 75]
    \<and> g_defer_overflow s' (sched_cpu_ix sample_sch) = 5"
  using sched_ticks_correct [OF sample_sch_ok(1), of 100] by (auto simp: quanta_def upt_rec)

section \<open>Ticks and drains of several CPUs\<close>

text \<open>
  What happens to the scheduler's state: another CPU runs the code next (it reads another
  LAPIC id), a timer interrupt, a drain from thread context.  \<open>t c\<close> counts the ticks of CPU
  \<open>c\<close> and \<open>d c\<close> the expiries its drains have delivered or reported as dropped.
\<close>

inductive sched_run :: "'a sch_scheme \<Rightarrow> (u32 \<Rightarrow> nat) \<Rightarrow> (u32 \<Rightarrow> nat) \<Rightarrow> 'a sch_scheme \<Rightarrow> bool" for s0 where
  start: "sched_run s0 (\<lambda>_. 0) (\<lambda>_. 0) (sched_init s0)"
| cpu: "sched_run s0 t d s \<Longrightarrow> sched_run s0 t d (s\<lparr>lapic_id_reg := i\<rparr>)"
| tick: "sched_run s0 t d s \<Longrightarrow> sched_timer_tick s = Some s' \<Longrightarrow>
    sched_run s0 (t(sched_cpu_ix s := Suc (t (sched_cpu_ix s)))) d s'"
| drain: "sched_run s0 t d s \<Longrightarrow> sched_process_deferred s = Some (n, s') \<Longrightarrow>
    sched_run s0 t (d(sched_cpu_ix s := d (sched_cpu_ix s) + unat n + unat (g_defer_overflow s (sched_cpu_ix s)))) s'"

definition acct :: "(u32 \<Rightarrow> nat) \<Rightarrow> (u32 \<Rightarrow> nat) \<Rightarrow> 'a sch_scheme \<Rightarrow> u32 \<Rightarrow> bool" where
  "acct t d s c \<longleftrightarrow> ring_ok c s \<and> g_tick s c = of_nat (t c)
     \<and> t c div 5 = d c + ring_len s c + unat (g_defer_overflow s c)"

lemma push_other:
  assumes "c' \<noteq> c"
  shows "ring_len (defer_push_tick c t s) c' = ring_len s c'" "ring_ok c' (defer_push_tick c t s) = ring_ok c' s"
    "g_defer_overflow (defer_push_tick c t s) c' = g_defer_overflow s c'"
  using assms by (simp_all add: defer_push_tick_def Let_def ring_len_def ring_ok_def)

lemma ring_upd:
  "ring_len (s\<lparr>g_tick := x\<rparr>) = ring_len s" "ring_ok c (s\<lparr>g_tick := x\<rparr>) = ring_ok c s"
  "ring_len (s\<lparr>g_need_resched := y\<rparr>) = ring_len s" "ring_ok c (s\<lparr>g_need_resched := y\<rparr>) = ring_ok c s"
  by (simp_all add: ring_len_def ring_ok_def fun_eq_iff)

lemma acct_upd:
  "acct t d (s\<lparr>lapic_id_reg := i\<rparr>) c = acct t d s c"
  "acct t d (s\<lparr>g_need_resched := r\<rparr>) c = acct t d s c"
  by (simp_all add: acct_def ring_ok_def ring_len_def)

lemma acct_prints: "prints s m s' \<Longrightarrow> acct t d s' c = acct t d s c"
  by (simp add: acct_def prints_sched)

lemma acct_push:
  assumes "ring_ok c s" and "k = d + ring_len s c + unat (g_defer_overflow s c)" and "k < 4294967295"
  shows "ring_ok c (defer_push_tick c v s)
    \<and> Suc k = d + ring_len (defer_push_tick c v s) c + unat (g_defer_overflow (defer_push_tick c v s) c)"
proof (cases "ring_len s c < 15")
  case True
  have "length (ring_q (defer_push_tick c v s) c) = Suc (length (ring_q s c))"
    using push_effect(2) [OF assms(1) True, of v] by simp
  then have "ring_len (defer_push_tick c v s) c = Suc (ring_len s c)" unfolding length_ring_q .
  then show ?thesis using assms push_effect(1) [OF assms(1)] push_effect(2) [OF assms(1) True, of v] by simp
next
  case False
  have "length (ring_q (defer_push_tick c v s) c) = length (ring_q s c)"
    using push_effect(3) [OF assms(1) False, of v] by simp
  then have "ring_len (defer_push_tick c v s) c = ring_len s c" unfolding length_ring_q .
  moreover have "unat (g_defer_overflow s c + 1) = Suc (unat (g_defer_overflow s c))"
    using assms unat_plus32 [of "g_defer_overflow s c" 1] by simp
  ultimately show ?thesis using assms push_effect(1) [OF assms(1)] push_effect(3) [OF assms(1) False, of v] by simp
qed

lemma acct_ticked:
  assumes "acct t d s c" and bound: "(t(sched_cpu_ix s := Suc (t (sched_cpu_ix s)))) c < 4294967296"
  shows "acct (t(sched_cpu_ix s := Suc (t (sched_cpu_ix s)))) d (ticked s) c"
proof (cases "c = sched_cpu_ix s")
  case False
  then show ?thesis
    using assms(1) by (simp add: acct_def ticked_def Let_def ring_upd push_frame push_other [OF False])
next
  case True
  note c = this
  have lt: "Suc (t c) < 4294967296" using bound c by simp
  let ?t = "of_nat (Suc (t c)) :: u64"
  have t: "g_tick s c + 1 = ?t" using assms(1) by (simp add: acct_def add.commute)
  let ?s = "s\<lparr>g_tick := (g_tick s)(c := ?t)\<rparr>"
  show ?thesis
  proof (cases "Suc (t c) mod 5 = 0")
    case False
    then have "ticked s = ?s"
      using tick_mod5 [OF lt] unfolding ticked_def Let_def c [symmetric] t by (simp del: of_nat_Suc)
    moreover have "Suc (t c) div 5 = t c div 5" using False by (simp add: div_Suc)
    ultimately show ?thesis using assms(1) c by (simp add: acct_def ring_ok_def ring_len_def)
  next
    case True
    let ?r = "?s\<lparr>g_need_resched := (g_need_resched s)(c := 1)\<rparr>"
    have T: "ticked s = defer_push_tick c ?t ?r"
      using True tick_mod5 [OF lt] unfolding ticked_def Let_def c [symmetric] t by (simp del: of_nat_Suc)
    have "Suc (t c) div 5 = Suc (t c div 5)" using True by (simp add: div_Suc)
    moreover have "ring_ok c ?r" "t c div 5 = d c + ring_len ?r c + unat (g_defer_overflow ?r c)"
      using assms(1) by (simp_all add: acct_def ring_ok_def ring_len_def)
    ultimately show ?thesis
      using acct_push [of c ?r "t c div 5" "d c" ?t] lt c [symmetric] by (simp add: acct_def T push_frame)
  qed
qed

lemma acct_drained:
  assumes "acct t d s c"
  shows "acct t (d(k := d k + ring_len s k + unat (g_defer_overflow s k))) (drained_state k s) c"
  using assms by (cases "c = k") (auto simp: acct_def drained_state_def ring_ok_def ring_len_def)

lemma ring_ok_ticked: "ring_ok c s \<Longrightarrow> ring_ok c (ticked s)"
  by (cases "c = sched_cpu_ix s") (auto simp: ticked_def Let_def ring_upd push_effect(1) push_other(2))

lemma ring_ok_drained: "ring_ok c s \<Longrightarrow> ring_ok c (drained_state k s)"
  by (auto simp: drained_state_def ring_ok_def)

lemma con_ok_drained: "con_ok (drained_state c s) = con_ok s"
  by (simp add: drained_state_def con_ok_def uart_live_def)

lemma con_ok_ticked: "con_ok (ticked s) = con_ok s"
  by (simp add: ticked_def Let_def push_frame con_ok_def uart_live_def)

text \<open>
  C3: no expiry is lost silently.  However the ticks and the drains of the CPUs interleave,
  the ticks of a CPU make one expiry for every five, and every one of them has been
  delivered by a drain, is waiting in the ring, or is counted as dropped (up to 2^32 ticks).
\<close>

theorem sched_accounts_for_expiries:
  assumes "sched_run s0 t d s" and "con_ok s0" and "c < 32" and "t c < 4294967296"
  shows "g_tick s c = of_nat (t c)
    \<and> t c div 5 = d c + length (ring_q s c) + unat (g_defer_overflow s c)
    \<and> length (ring_q s c) \<le> 15"
proof -
  have "con_ok s \<and> (\<forall>c. c < 32 \<longrightarrow> ring_ok c s \<and> (t c < 4294967296 \<longrightarrow> acct t d s c))"
    using assms(1)
  proof induction
    case start
    show ?case using assms(2) by (simp add: acct_def sched_init_def ring_ok_def ring_len_def con_ok_def uart_live_def)
  next
    case (cpu t d s i)
    then show ?case by (simp add: acct_upd con_ok_def uart_live_def ring_ok_def)
  next
    case (tick t d s s')
    have con: "con_ok s" using tick.IH by blast
    have p: "prints (ticked s) (tick_msg s) s'" "con_ok s'"
      using tick_returns [OF con, of "\<lambda>s'. prints (ticked s) (tick_msg s) s' \<and> con_ok s'"] tick.hyps(2)
      by (simp_all add: returns_def)
    show ?case
    proof (intro conjI allI impI p(2))
      fix c :: u32 assume c: "c < 32"
      show "ring_ok c s'" using tick.IH c ring_ok_ticked prints_sched(5) [OF p(1)] by blast
      assume t: "(t(sched_cpu_ix s := Suc (t (sched_cpu_ix s)))) c < 4294967296"
      have "acct (t(sched_cpu_ix s := Suc (t (sched_cpu_ix s)))) d (ticked s) c"
        using tick.IH c t by (intro acct_ticked [OF _ t]) (auto split: if_splits)
      then show "acct (t(sched_cpu_ix s := Suc (t (sched_cpu_ix s)))) d s' c" using acct_prints [OF p(1)] by blast
    qed
  next
    case (drain t d s n s')
    have con: "con_ok s" using drain.IH by blast
    have "ring_ok (sched_cpu_ix s) s" using drain.IH sched_cpu_ix_lt by blast
    from process_deferred_returns [OF this con] drain.hyps(2)
    obtain m where n: "unat n = ring_len s (sched_cpu_ix s)" and p: "prints (drained_state (sched_cpu_ix s) s) m s'"
      by (auto simp: returns_def)
    let ?d = "d(sched_cpu_ix s := d (sched_cpu_ix s) + unat n + unat (g_defer_overflow s (sched_cpu_ix s)))"
    show ?case
    proof (intro conjI allI impI)
      show "con_ok s'" using con con_ok_prints [OF p] by (simp add: con_ok_drained)
      fix c :: u32 assume c: "c < 32"
      show "ring_ok c s'" using drain.IH c prints_sched(5) [OF p] ring_ok_drained by blast
      assume "t c < 4294967296"
      then have "acct t ?d (drained_state (sched_cpu_ix s) s) c"
        unfolding n using drain.IH c by (intro acct_drained) blast
      then show "acct t ?d s' c" using acct_prints [OF p] by blast
    qed
  qed
  then show ?thesis using assms(3,4) by (simp add: acct_def ring_len_def)
qed

text \<open>One tick on the boot CPU.\<close>

theorem sched_accounts_for_expiries_witness:
  "\<exists>s. sched_run sample_sch (\<lambda>c. if c = 0 then 1 else 0) (\<lambda>_. 0) s \<and> 1 div 5 = length (ring_q s 0) + unat (g_defer_overflow s 0)"
proof -
  have c: "sched_cpu_ix (sched_init sample_sch) = 0" by code_simp
  have "con_ok (sched_init sample_sch)" using sample_sch_ok(1) by (simp add: sched_init_def con_ok_def uart_live_def)
  from tick_returns [OF this, of "\<lambda>_. True"] obtain s where s: "sched_timer_tick (sched_init sample_sch) = Some s"
    by (auto simp: returns_def)
  have "sched_run sample_sch ((\<lambda>_. 0)(0 := 1)) (\<lambda>_. 0) s"
    using sched_run.tick [OF sched_run.start s] unfolding c by simp
  moreover have "(\<lambda>c :: u32. if c = 0 then 1 else 0) = ((\<lambda>_. 0)(0 := 1 :: nat))" by (simp add: fun_eq_iff)
  ultimately have run: "sched_run sample_sch (\<lambda>c. if c = 0 then 1 else 0) (\<lambda>_. 0) s" by simp
  from sched_accounts_for_expiries [OF run sample_sch_ok(1), of 0] run show ?thesis by auto
qed

end
