(* ===== verification/Ring_Interface.thy ===== *)
theory Ring_Interface
  imports Prelude
begin

text \<open>
  Circular lists whose links live in the nodes.  The client reads and writes one link; a
  write changes that link only.  From this law follow the insertion after the head, the
  removal, and the view of the ring from any of its nodes.
\<close>

locale node_links =
  fixes get :: "'st \<Rightarrow> 'n \<Rightarrow> 'n option"
    and put :: "'n \<Rightarrow> 'n option \<Rightarrow> 'st \<Rightarrow> 'st"
  assumes get_put: "get (put p v st) q = (if q = p then v else get st q)"
begin

text \<open>From \<open>a\<close> the links lead through \<open>xs\<close> to \<open>z\<close>.\<close>

primrec links :: "'st \<Rightarrow> 'n \<Rightarrow> 'n list \<Rightarrow> 'n \<Rightarrow> bool" where
  "links st a [] z \<longleftrightarrow> get st a = Some z"
| "links st a (x # xs) z \<longleftrightarrow> get st a = Some x \<and> links st x xs z"

definition ring :: "'st \<Rightarrow> 'n \<Rightarrow> 'n list \<Rightarrow> bool" where
  "ring st h xs \<longleftrightarrow> links st h xs h \<and> distinct (h # xs)"

lemma links_append: "links st a (xs @ y # ys) z \<longleftrightarrow> links st a xs y \<and> links st y ys z"
  by (induction xs arbitrary: a) auto

lemma links_cong: "(\<And>p. p \<in> set (a # xs) \<Longrightarrow> get st' p = get st p) \<Longrightarrow> links st' a xs z = links st a xs z"
  by (induction xs arbitrary: a) auto

lemma ring_cong: "(\<And>p. p \<in> set (h # xs) \<Longrightarrow> get st' p = get st p) \<Longrightarrow> ring st' h xs = ring st h xs"
  unfolding ring_def using links_cong by blast

lemma ring_insert:
  assumes "ring st h xs" and "t \<notin> set (h # xs)"
  shows "ring (put h (Some t) (put t (get st h) st)) h (t # xs)"
proof (cases xs)
  case Nil
  then show ?thesis using assms by (simp add: ring_def get_put)
next
  case (Cons y ys)
  have "links (put h (Some t) (put t (get st h) st)) y ys h = links st y ys h"
    using assms Cons by (intro links_cong) (auto simp: get_put ring_def)
  then show ?thesis using assms Cons by (auto simp: ring_def get_put)
qed

lemma ring_remove:
  assumes "ring st h (xs @ t # ys)"
  shows "ring (put t None (put (last (h # xs)) (get st t) st)) h (xs @ ys)"
proof -
  let ?p = "last (h # xs)" and ?st = "put t None (put (last (h # xs)) (get st t) st)"
  have d: "distinct (h # xs @ t # ys)" and l: "links st h xs t" "links st t ys h"
    using assms by (auto simp: ring_def links_append)
  have p: "?p \<in> set (h # xs)" by simp
  have tail: "links ?st ?p ys h"
  proof (cases ys)
    case Nil
    then show ?thesis using l p d by (auto simp: get_put)
  next
    case (Cons y zs)
    have "links ?st y zs h = links st y zs h"
      using d p Cons by (intro links_cong) (auto simp: get_put)
    then show ?thesis using l p d Cons by (auto simp: get_put)
  qed
  have "links ?st h (xs @ ys) h"
  proof (cases xs rule: rev_cases)
    case Nil
    then show ?thesis using tail by simp
  next
    case (snoc us q)
    have "links ?st h us q = links st h us q"
      using d snoc by (intro links_cong) (auto simp: get_put)
    then show ?thesis using tail l(1) snoc by (simp add: links_append)
  qed
  then show ?thesis using d by (auto simp: ring_def)
qed

lemma ring_rotate:
  assumes "ring st h xs" and "h # xs = as @ c # bs"
  shows "ring st c (bs @ as)"
proof (cases as)
  case Nil
  then show ?thesis using assms by simp
next
  case (Cons a us)
  then have "a = h" "xs = us @ c # bs" using assms(2) by auto
  then show ?thesis using assms(1) Cons by (auto simp: ring_def links_append)
qed

end

end
