(* ===== verification/Threads.thy ===== *)
theory Threads
  imports Sched Kheap Ring_Interface
begin

text \<open>
  \<open>kernel/thread.c\<close> and \<open>arch/i386/context.S\<close>: the thread pool, the circular run queue that
  starts at \<open>main_thread\<close>, the claim of a thread by a CPU (\<open>sched_token\<close>), and the context
  switch.  A \<open>struct thread *\<close> is a \<open>tref option\<close>, \<open>None\<close> the null pointer; following a null
  pointer is undefined behaviour in C and the value \<open>None\<close> of the operation.  Stacks are bytes
  of the flat memory.
\<close>

datatype tref = Main_thread | Pool nat

datatype thread_state = THREAD_UNUSED | THREAD_RUNNABLE | THREAD_ZOMBIE

record thread =
  esp :: u32
  nxt :: "tref option"
  fn_ptr :: u32
  tstate :: thread_state
  kstack :: u32
  affinity_cpu :: u32
  sched_token :: u32

record thr = sch +
  g_kheap :: kheap
  threads :: "tref \<Rightarrow> thread"
  g_current :: "u32 \<Rightarrow> tref option"
  g_idle_for_cpu :: "u32 \<Rightarrow> tref option"
  g_thread_rq_lock :: u32
  g_yield_from :: "tref option"

text \<open>The addresses the linker gives to the functions whose address the code takes.\<close>

record text_syms =
  at_ap_idle_fn :: u32
  at_thread_trampoline :: u32
  at_worker_a :: u32
  at_worker_b :: u32

section \<open>The code\<close>

abbreviation (input) MAX_THREADS :: nat where "MAX_THREADS \<equiv> 64"
abbreviation (input) MAX_SMP_CPU :: u32 where "MAX_SMP_CPU \<equiv> 32"
abbreviation (input) STACK_SIZE :: u32 where "STACK_SIZE \<equiv> 4096"
abbreviation (input) AFF_ANY :: u32 where "AFF_ANY \<equiv> 0xFFFFFFFF"
abbreviation (input) NO_TOKEN :: u32 where "NO_TOKEN \<equiv> 0xFFFFFFFF"

definition set_thread :: "tref \<Rightarrow> (thread \<Rightarrow> thread) \<Rightarrow> 'a thr_scheme \<Rightarrow> 'a thr_scheme" where
  "set_thread t f s = s\<lparr>threads := (threads s)(t := f (threads s t))\<rparr>"

text \<open>\<open>kmalloc\<close> and \<open>kfree\<close> on the kernel's memory.\<close>

definition kmalloc_s :: "layout \<Rightarrow> u32 \<Rightarrow> 'a thr_scheme \<Rightarrow> (u32 \<times> 'a thr_scheme) option" where
  "kmalloc_s L n s = map_option (\<lambda>(p, m, h). (p, s\<lparr>mem := m, g_kheap := h\<rparr>)) (kmalloc L n (mem s, g_kheap s))"

definition kfree_s :: "layout \<Rightarrow> u32 \<Rightarrow> 'a thr_scheme \<Rightarrow> 'a thr_scheme" where
  "kfree_s L p s = (case kfree L p (mem s, g_kheap s) of (m, h) \<Rightarrow> s\<lparr>mem := m, g_kheap := h\<rparr>)"

definition rq_lock :: "'a thr_scheme \<Rightarrow> 'a thr_scheme option" where
  "rq_lock s = map_option (\<lambda>l. s\<lparr>g_thread_rq_lock := l\<rparr>) (verve_spin_lock (g_thread_rq_lock s))"

definition rq_unlock :: "'a thr_scheme \<Rightarrow> 'a thr_scheme" where
  "rq_unlock s = s\<lparr>g_thread_rq_lock := verve_spin_unlock (g_thread_rq_lock s)\<rparr>"

definition thread_current_slot :: "'a thr_scheme \<Rightarrow> tref option" where
  "thread_current_slot s = (let ix = smp_cpu_index s in g_current s (if ix \<ge> MAX_SMP_CPU then 0 else ix))"

definition thread_set_current_slot :: "u32 \<Rightarrow> tref option \<Rightarrow> 'a thr_scheme \<Rightarrow> 'a thr_scheme" where
  "thread_set_current_slot ix t s = (if ix < MAX_SMP_CPU then s\<lparr>g_current := (g_current s)(ix := t)\<rparr> else s)"

text \<open>The walk of \<open>unlink_thread\<close>; \<open>p\<close> is the thread whose successor is looked at.\<close>

partial_function (option) unlink_loop :: "tref \<Rightarrow> tref \<Rightarrow> (tref \<Rightarrow> thread) \<Rightarrow> (tref \<Rightarrow> thread) option" where
  "unlink_loop t p ts =
     (if nxt (ts p) = Some t then
        let ts1 = ts(p := (ts p)\<lparr>nxt := nxt (ts t)\<rparr>) in Some (ts1(t := (ts1 t)\<lparr>nxt := None\<rparr>))
      else case nxt (ts p) of None \<Rightarrow> None
         | Some q \<Rightarrow> if q \<noteq> Main_thread then unlink_loop t q ts else Some ts)"

definition unlink_thread :: "tref \<Rightarrow> 'a thr_scheme \<Rightarrow> 'a thr_scheme option" where
  "unlink_thread t s = map_option (\<lambda>ts. s\<lparr>threads := ts\<rparr>) (unlink_loop t Main_thread (threads s))"

definition thread_reap_yield_from :: "layout \<Rightarrow> 'a thr_scheme \<Rightarrow> 'a thr_scheme option" where
  "thread_reap_yield_from L s =
     (let s1 = s\<lparr>g_yield_from := None\<rparr>
      in case g_yield_from s of None \<Rightarrow> Some s1
         | Some z \<Rightarrow>
             if z = Main_thread then Some s1
             else if tstate (threads s z) \<noteq> THREAD_ZOMBIE \<or> kstack (threads s z) = 0 then Some s1
             else let stk = kstack (threads s z)
               in Option.bind (rq_lock s1) (\<lambda>s2.
                  map_option (\<lambda>s3. kfree_s L stk (rq_unlock (set_thread z (\<lambda>t. t\<lparr>tstate := THREAD_UNUSED, kstack := 0\<rparr>) s3)))
                    (unlink_thread z s2)))"

definition enqueue_thread :: "tref \<Rightarrow> 'a thr_scheme \<Rightarrow> 'a thr_scheme option" where
  "enqueue_thread t s =
     map_option (\<lambda>s1. rq_unlock (set_thread Main_thread (\<lambda>h. h\<lparr>nxt := Some t\<rparr>)
         (set_thread t (\<lambda>x. x\<lparr>nxt := nxt (threads s1 Main_thread)\<rparr>) s1)))
       (rq_lock s)"

text \<open>
  The search of \<open>pick_next\<close>: \<open>t\<close> is the thread looked at.  The compare-and-swap succeeds exactly
  when the token is free, because the caller holds the lock that every claim is made under.
\<close>

partial_function (option) pick_loop ::
    "u32 \<Rightarrow> tref \<Rightarrow> tref option \<Rightarrow> (tref \<Rightarrow> thread) \<Rightarrow> (tref \<times> (tref \<Rightarrow> thread)) option" where
  "pick_loop me cur p ts =
     (case p of None \<Rightarrow> None
      | Some t \<Rightarrow>
          if t = cur then Some (cur, ts)
          else if tstate (ts t) = THREAD_RUNNABLE then
            (if affinity_cpu (ts t) \<noteq> AFF_ANY \<and> affinity_cpu (ts t) \<noteq> me then pick_loop me cur (nxt (ts t)) ts
             else if sched_token (ts t) = NO_TOKEN then Some (t, ts(t := (ts t)\<lparr>sched_token := me\<rparr>))
             else pick_loop me cur (nxt (ts t)) ts)
          else pick_loop me cur (nxt (ts t)) ts)"

definition pick_next :: "tref \<Rightarrow> 'a thr_scheme \<Rightarrow> (tref \<times> 'a thr_scheme) option" where
  "pick_next cur s =
     map_option (\<lambda>(t, ts). (t, s\<lparr>threads := ts\<rparr>)) (pick_loop (smp_cpu_index s) cur (nxt (threads s cur)) (threads s))"

definition thread_alloc_slot :: "'a thr_scheme \<Rightarrow> tref option" where
  "thread_alloc_slot s = map_option Pool (first_index (\<lambda>i. tstate (threads s (Pool i)) = THREAD_UNUSED) 0 MAX_THREADS)"

definition setup_initial_stack :: "text_syms \<Rightarrow> tref \<Rightarrow> 'a thr_scheme \<Rightarrow> 'a thr_scheme" where
  "setup_initial_stack T t s =
     (let sp = kstack (threads s t) + STACK_SIZE - 20;
          m = st32 (st32 (st32 (st32 (st32 (mem s) sp 0) (sp + 4) 0) (sp + 8) 0) (sp + 12) 0) (sp + 16) (at_thread_trampoline T)
      in set_thread t (\<lambda>x. x\<lparr>esp := sp\<rparr>) (s\<lparr>mem := m\<rparr>))"


text \<open>The tables \<open>thread_subsystem_early_init\<close> starts from, then its loop over the idle threads.\<close>

definition blank_thread :: thread where
  "blank_thread = \<lparr>esp = 0, nxt = None, fn_ptr = 0, tstate = THREAD_UNUSED, kstack = 0, affinity_cpu = AFF_ANY,
     sched_token = NO_TOKEN\<rparr>"

definition boot_thread :: thread where
  "boot_thread = \<lparr>esp = 0, nxt = Some Main_thread, fn_ptr = 0, tstate = THREAD_RUNNABLE, kstack = 0, affinity_cpu = 0,
     sched_token = 0\<rparr>"

definition thread_tables :: "'a thr_scheme \<Rightarrow> 'a thr_scheme" where
  "thread_tables s = s\<lparr>
     threads := \<lambda>t. case t of Main_thread \<Rightarrow> boot_thread | Pool i \<Rightarrow> if i < MAX_THREADS then blank_thread else threads s (Pool i),
     g_current := \<lambda>k. if k = 0 then Some Main_thread else if k < MAX_SMP_CPU then None else g_current s k,
     g_idle_for_cpu := \<lambda>k. if k < MAX_SMP_CPU then None else g_idle_for_cpu s k\<rparr>"

fun idle_loop :: "layout \<Rightarrow> text_syms \<Rightarrow> u32 list \<Rightarrow> 'a thr_scheme \<Rightarrow> 'a thr_scheme option" where
  "idle_loop L T [] s = Some s"
| "idle_loop L T (k # ks) s =
     (case thread_alloc_slot s of
        None \<Rightarrow> serial_puts (cstr ''[VerveOS] thread: idle pool full'' @ crlf) s
      | Some t \<Rightarrow> Option.bind (kmalloc_s L STACK_SIZE s) (\<lambda>(p, s1).
          let s2 = set_thread t (\<lambda>x. x\<lparr>kstack := p\<rparr>) s1
          in if p = 0 then
               map_option (set_thread t (\<lambda>x. x\<lparr>tstate := THREAD_UNUSED\<rparr>))
                 (serial_puts (cstr ''[VerveOS] thread: kmalloc idle stack failed'' @ crlf) s2)
             else
               let s3 = setup_initial_stack T t (set_thread t (\<lambda>x. x\<lparr>fn_ptr := at_ap_idle_fn T,
                     tstate := THREAD_RUNNABLE, affinity_cpu := k, sched_token := NO_TOKEN\<rparr>) s2)
               in Option.bind (enqueue_thread t (s3\<lparr>g_idle_for_cpu := (g_idle_for_cpu s3)(k := Some t)\<rparr>))
                    (idle_loop L T ks)))"

definition thread_subsystem_early_init :: "layout \<Rightarrow> text_syms \<Rightarrow> u32 \<Rightarrow> 'a thr_scheme \<Rightarrow> 'a thr_scheme option" where
  "thread_subsystem_early_init L T logical_cpus s =
     (let lim = (if logical_cpus = 0 then 1 else logical_cpus);
          lim = (if lim > MAX_SMP_CPU then MAX_SMP_CPU else lim)
      in Option.bind (idle_loop L T (map of_nat [1..<unat lim]) (thread_tables s)) (\<lambda>s1.
         Option.bind (serial_puts (cstr ''[VerveOS] thread: subsystem early init logical_cpus='') s1) (\<lambda>s2.
         Option.bind (serial_put_u64_hex (ucast lim) s2) (serial_puts crlf))))"

definition thread_system_init :: "layout \<Rightarrow> text_syms \<Rightarrow> 'a thr_scheme \<Rightarrow> 'a thr_scheme option" where
  "thread_system_init L T s = thread_subsystem_early_init L T 1 s"

definition thread_spawn :: "layout \<Rightarrow> text_syms \<Rightarrow> u32 \<Rightarrow> 'a thr_scheme \<Rightarrow> 'a thr_scheme option" where
  "thread_spawn L T f s =
     (case thread_alloc_slot s of
        None \<Rightarrow> serial_puts (cstr ''[VerveOS] thread_spawn: failed (null or pool full)'' @ crlf) s
      | Some t \<Rightarrow>
          if f = 0 then serial_puts (cstr ''[VerveOS] thread_spawn: failed (null or pool full)'' @ crlf) s
          else Option.bind (kmalloc_s L STACK_SIZE s) (\<lambda>(p, s1).
            let s2 = set_thread t (\<lambda>x. x\<lparr>kstack := p\<rparr>) s1
            in if p = 0 then serial_puts (cstr ''[VerveOS] thread_spawn: kmalloc(kernel stack) failed'' @ crlf) s2
               else enqueue_thread t (setup_initial_stack T t (set_thread t (\<lambda>x. x\<lparr>fn_ptr := f,
                     tstate := THREAD_RUNNABLE, affinity_cpu := AFF_ANY, sched_token := NO_TOKEN\<rparr>) s2))))"

section \<open>The context switch\<close>

text \<open>
  \<open>cpu_switch\<close> on the registers it touches.  On entry \<open>r_esp\<close> points to the return address
  (\<open>call\<close> has pushed it) and \<open>r_eip\<close> is inside \<open>cpu_switch\<close>; the result is the stack pointer
  stored for the old thread, the registers after \<open>ret\<close>, and the memory.
\<close>

record cpu_regs =
  r_esp :: u32
  r_ebp :: u32
  r_ebx :: u32
  r_esi :: u32
  r_edi :: u32
  r_eip :: u32

definition cpu_switch :: "u32 \<Rightarrow> cpu_regs \<Rightarrow> memory \<Rightarrow> u32 \<times> cpu_regs \<times> memory" where
  "cpu_switch new_sp r m =
     (let m1 = st32 m (r_esp r - 4) (r_ebp r); m2 = st32 m1 (r_esp r - 8) (r_ebx r);
          m3 = st32 m2 (r_esp r - 12) (r_esi r); m4 = st32 m3 (r_esp r - 16) (r_edi r)
      in (r_esp r - 16,
          \<lparr>r_esp = new_sp + 20, r_ebp = ld32 m4 (new_sp + 12), r_ebx = ld32 m4 (new_sp + 8), r_esi = ld32 m4 (new_sp + 4),
           r_edi = ld32 m4 new_sp, r_eip = ld32 m4 (new_sp + 16)\<rparr>, m4))"

section \<open>Yielding\<close>

text \<open>
  \<open>sched_yield\<close> up to \<open>cpu_switch\<close>: \<open>None\<close> in the result when the thread keeps the CPU, otherwise
  the old and the next thread.
\<close>

definition sched_yield_enter :: "'a thr_scheme \<Rightarrow> ((tref \<times> tref) option \<times> 'a thr_scheme) option" where
  "sched_yield_enter s =
     Option.bind (rq_lock (s\<lparr>if_flag := False\<rparr>)) (\<lambda>s1.
       let cpu_ix = smp_cpu_index s1
       in case g_current s1 cpu_ix of None \<Rightarrow> None
          | Some old \<Rightarrow> map_option (\<lambda>(nx, s2).
              if nx = old then (None, (rq_unlock s2)\<lparr>if_flag := if_flag s\<rparr>)
              else let s3 = (if tstate (threads s2 old) = THREAD_RUNNABLE
                             then set_thread old (\<lambda>t. t\<lparr>sched_token := NO_TOKEN\<rparr>) s2 else s2)
                   in (Some (old, nx), rq_unlock (s3\<lparr>g_current := (g_current s3)(cpu_ix := Some nx), g_yield_from := Some old\<rparr>)))
              (pick_next old s1))"

text \<open>
  The whole of \<open>sched_yield\<close> as its caller sees it.  \<open>away old nx\<close> is what happens between the
  call of \<open>cpu_switch\<close> and its return: the switch, and the run of the other threads until one
  of them switches back.
\<close>

definition sched_yield_leave :: "layout \<Rightarrow> bool \<Rightarrow> 'a thr_scheme \<Rightarrow> 'a thr_scheme option" where
  "sched_yield_leave L flags s = map_option (\<lambda>s1. s1\<lparr>if_flag := flags\<rparr>) (thread_reap_yield_from L s)"

definition sched_yield ::
    "layout \<Rightarrow> (tref \<Rightarrow> tref \<Rightarrow> 'a thr_scheme \<Rightarrow> 'a thr_scheme option) \<Rightarrow> 'a thr_scheme \<Rightarrow> 'a thr_scheme option" where
  "sched_yield L away s =
     (if sched_preempt_disabled s then Some s
      else case sched_yield_enter s of None \<Rightarrow> None
         | Some (None, s1) \<Rightarrow> Some s1
         | Some (Some (old, nx), s1) \<Rightarrow> Option.bind (away old nx s1) (sched_yield_leave L (if_flag s)))"

definition schedule ::
    "layout \<Rightarrow> (tref \<Rightarrow> tref \<Rightarrow> 'a thr_scheme \<Rightarrow> 'a thr_scheme option) \<Rightarrow> 'a thr_scheme \<Rightarrow> 'a thr_scheme option" where
  "schedule L away s = (if sched_preempt_disabled s then Some s else sched_yield L away s)"

definition sched_checkpoint ::
    "layout \<Rightarrow> (tref \<Rightarrow> tref \<Rightarrow> 'a thr_scheme \<Rightarrow> 'a thr_scheme option) \<Rightarrow> 'a thr_scheme \<Rightarrow> 'a thr_scheme option" where
  "sched_checkpoint L away s =
     Option.bind (sched_process_deferred s) (\<lambda>(drained, s1).
     Option.bind (if drained \<noteq> 0 \<and> \<not> sched_preempt_disabled s1
                  then map_option sched_clear_resched (schedule L away s1) else Some s1) (\<lambda>s2.
       if sched_need_resched s2 = 0 \<or> sched_preempt_disabled s2 then Some s2
       else map_option sched_clear_resched (sched_yield L away s2)))"

text \<open>Loops that never end: \<open>while (1) sched_yield ();\<close> and the two idle loops.\<close>

partial_function (option) yield_forever ::
    "layout \<Rightarrow> (tref \<Rightarrow> tref \<Rightarrow> 'a thr_scheme \<Rightarrow> 'a thr_scheme option) \<Rightarrow> 'a thr_scheme \<Rightarrow> 'a thr_scheme option" where
  "yield_forever L away s = Option.bind (sched_yield L away s) (yield_forever L away)"

partial_function (option) ap_idle_fn ::
    "layout \<Rightarrow> (tref \<Rightarrow> tref \<Rightarrow> 'a thr_scheme \<Rightarrow> 'a thr_scheme option) \<Rightarrow> 'a thr_scheme \<Rightarrow> 'a thr_scheme option" where
  "ap_idle_fn L away s = Option.bind (sched_checkpoint L away s) (ap_idle_fn L away)"

partial_function (option) ap_online_loop ::
    "layout \<Rightarrow> (tref \<Rightarrow> tref \<Rightarrow> 'a thr_scheme \<Rightarrow> 'a thr_scheme option) \<Rightarrow> 'a thr_scheme \<Rightarrow> 'a thr_scheme option" where
  "ap_online_loop L away s =
     Option.bind (sched_checkpoint L away s) (\<lambda>s1. Option.bind (sched_yield L away s1) (ap_online_loop L away))"

text \<open>\<open>call f\<close> is the run of the function at address \<open>f\<close>.\<close>

definition thread_exit :: "(u32 \<Rightarrow> 'a thr_scheme \<Rightarrow> 'a thr_scheme option) \<Rightarrow> 'a thr_scheme \<Rightarrow> 'a thr_scheme option" where
  "thread_exit call s =
     (case thread_current_slot s of None \<Rightarrow> Some s
      | Some self \<Rightarrow>
          if self = Main_thread then Some s
          else Option.bind (if fn_ptr (threads s self) \<noteq> 0 then call (fn_ptr (threads s self)) s else Some s) (\<lambda>s1.
            map_option (\<lambda>s2. rq_unlock (set_thread self (\<lambda>t. t\<lparr>tstate := THREAD_ZOMBIE\<rparr>) s2)) (rq_lock s1)))"

definition thread_trampoline ::
    "layout \<Rightarrow> (u32 \<Rightarrow> 'a thr_scheme \<Rightarrow> 'a thr_scheme option) \<Rightarrow> (tref \<Rightarrow> tref \<Rightarrow> 'a thr_scheme \<Rightarrow> 'a thr_scheme option)
     \<Rightarrow> 'a thr_scheme \<Rightarrow> 'a thr_scheme option" where
  "thread_trampoline L call away s = Option.bind (thread_exit call s) (yield_forever L away)"

text \<open>\<open>thread_ap_online\<close> before its loop: the boolean says that the loop is entered.\<close>

definition thread_ap_claim :: "'a thr_scheme \<Rightarrow> (bool \<times> 'a thr_scheme) option" where
  "thread_ap_claim s =
     (let ix = smp_cpu_index s
      in if ix = 0 \<or> ix \<ge> MAX_SMP_CPU then Some (False, s)
         else case g_idle_for_cpu s ix of None \<Rightarrow> Some (False, s)
            | Some t \<Rightarrow>
                Option.bind (serial_puts (cstr ''[VerveOS] thread: AP sched online cpu='')
                  (set_thread t (\<lambda>x. x\<lparr>sched_token := ix\<rparr>) (thread_set_current_slot ix (Some t) s))) (\<lambda>s1.
                Option.bind (serial_put_u64_hex (ucast ix) s1) (\<lambda>s2.
                map_option (\<lambda>s3. (True, s3\<lparr>if_flag := True\<rparr>)) (serial_puts crlf s2))))"

definition thread_ap_online ::
    "layout \<Rightarrow> (tref \<Rightarrow> tref \<Rightarrow> 'a thr_scheme \<Rightarrow> 'a thr_scheme option) \<Rightarrow> 'a thr_scheme \<Rightarrow> 'a thr_scheme option" where
  "thread_ap_online L away s =
     Option.bind (thread_ap_claim s) (\<lambda>(loop, s1). if loop then ap_online_loop L away s1 else Some s1)"

section \<open>The demonstration\<close>

fun work :: "layout \<Rightarrow> (tref \<Rightarrow> tref \<Rightarrow> 'a thr_scheme \<Rightarrow> 'a thr_scheme option) \<Rightarrow> string \<Rightarrow> bool \<Rightarrow> nat list
    \<Rightarrow> 'a thr_scheme \<Rightarrow> 'a thr_scheme option" where
  "work L away name crit [] s = Some s"
| "work L away name crit (i # is) s =
     Option.bind (if crit \<and> i = 0 then
         Option.bind (serial_puts (cstr ''[VerveOS] thread A critical begin (preempt disabled)'' @ crlf) (sched_preempt_disable s)) (\<lambda>s1.
         map_option sched_preempt_enable (serial_puts (cstr ''[VerveOS] thread A critical end'' @ crlf) s1))
       else Some s) (\<lambda>s2.
     Option.bind (serial_puts (cstr (''[VerveOS] thread '' @ name @ '' work '')) s2) (\<lambda>s3.
     Option.bind (serial_put_u64_hex (of_nat i) s3) (\<lambda>s4.
     Option.bind (serial_puts crlf s4) (\<lambda>s5.
     Option.bind (sched_checkpoint L away s5) (work L away name crit is)))))"

definition worker_a :: "layout \<Rightarrow> (tref \<Rightarrow> tref \<Rightarrow> 'a thr_scheme \<Rightarrow> 'a thr_scheme option) \<Rightarrow> 'a thr_scheme \<Rightarrow> 'a thr_scheme option" where
  "worker_a L away s =
     Option.bind (serial_puts (cstr ''[VerveOS] thread A start (will checkpoint on timer quantum)'' @ crlf) s) (\<lambda>s1.
     Option.bind (work L away ''A'' True [0..<6] s1) (serial_puts (cstr ''[VerveOS] thread A end'' @ crlf)))"

definition worker_b :: "layout \<Rightarrow> (tref \<Rightarrow> tref \<Rightarrow> 'a thr_scheme \<Rightarrow> 'a thr_scheme option) \<Rightarrow> 'a thr_scheme \<Rightarrow> 'a thr_scheme option" where
  "worker_b L away s =
     Option.bind (serial_puts (cstr ''[VerveOS] thread B start (will checkpoint on timer quantum)'' @ crlf) s) (\<lambda>s1.
     Option.bind (work L away ''B'' False [0..<6] s1) (serial_puts (cstr ''[VerveOS] thread B end'' @ crlf)))"

primrec demo_rounds :: "layout \<Rightarrow> (tref \<Rightarrow> tref \<Rightarrow> 'a thr_scheme \<Rightarrow> 'a thr_scheme option) \<Rightarrow> nat
    \<Rightarrow> 'a thr_scheme \<Rightarrow> 'a thr_scheme option" where
  "demo_rounds L away 0 s = Some s"
| "demo_rounds L away (Suc n) s =
     Option.bind (sched_yield L away s) (\<lambda>s1. Option.bind (sched_checkpoint L away s1) (demo_rounds L away n))"

definition thread_demo_run :: "layout \<Rightarrow> text_syms \<Rightarrow> (tref \<Rightarrow> tref \<Rightarrow> 'a thr_scheme \<Rightarrow> 'a thr_scheme option)
    \<Rightarrow> 'a thr_scheme \<Rightarrow> 'a thr_scheme option" where
  "thread_demo_run L T away s =
     Option.bind (serial_puts (cstr ''[VerveOS] coop threads: spawning A,B (LAPIC timer sets need_resched)'' @ crlf) s) (\<lambda>s1.
     Option.bind (serial_puts (cstr ''[VerveOS] thread: SMP affinity + sched_token claim'' @ crlf) s1) (\<lambda>s2.
     Option.bind (thread_spawn L T (at_worker_a T) s2) (\<lambda>s3.
     Option.bind (thread_spawn L T (at_worker_b T) s3) (\<lambda>s4.
     Option.bind (serial_puts (cstr ''[VerveOS] main: round-robin + timer checkpoints'' @ crlf) s4) (\<lambda>s5.
     Option.bind (demo_rounds L away 48 s5)
       (serial_puts (cstr ''[VerveOS] coop demo: main returns to idle'' @ crlf)))))))"

end
