(* ===== verification/Run_Queue.thy ===== *)
theory Run_Queue
  imports Threads
begin

text \<open>
  The run queue of \<open>kernel/thread.c\<close>: the ring of the threads in use, what the operations do
  to it, who may run where, and the order in which the threads of a CPU take turns.
\<close>

section \<open>The ring\<close>

interpretation tq: node_links "\<lambda>ts t. nxt (ts t)" "\<lambda>p v ts. ts(p := (ts p)\<lparr>nxt := v\<rparr>)"
  by unfold_locales simp

definition rq_inv :: "'a thr_scheme \<Rightarrow> tref list \<Rightarrow> bool" where
  "rq_inv s xs \<longleftrightarrow> tq.ring (threads s) Main_thread xs
     \<and> set xs = {Pool i |i. i < 64 \<and> tstate (threads s (Pool i)) \<noteq> THREAD_UNUSED} \<and> g_thread_rq_lock s = 0"

definition eligible :: "u32 \<Rightarrow> (tref \<Rightarrow> thread) \<Rightarrow> tref \<Rightarrow> bool" where
  "eligible me ts t \<longleftrightarrow> tstate (ts t) = THREAD_RUNNABLE
     \<and> (affinity_cpu (ts t) = AFF_ANY \<or> affinity_cpu (ts t) = me) \<and> sched_token (ts t) = NO_TOKEN"

definition claim :: "u32 \<Rightarrow> tref \<Rightarrow> (tref \<Rightarrow> thread) \<Rightarrow> tref \<Rightarrow> thread" where
  "claim me t ts = ts(t := (ts t)\<lparr>sched_token := me\<rparr>)"

lemma pick_loop_step:
  "y \<noteq> cur \<Longrightarrow> pick_loop me cur (Some y) ts
     = (if eligible me ts y then Some (y, claim me y ts) else pick_loop me cur (nxt (ts y)) ts)"
  by (subst pick_loop.simps) (simp add: eligible_def claim_def)

lemma pick_loop_links:
  "tq.links ts a ys cur \<Longrightarrow> cur \<notin> set ys \<Longrightarrow>
   pick_loop me cur (nxt (ts a)) ts = Some (case find (eligible me ts) ys of None \<Rightarrow> (cur, ts) | Some t \<Rightarrow> (t, claim me t ts))"
proof (induction ys arbitrary: a)
  case Nil
  then show ?case by (subst pick_loop.simps) simp
next
  case (Cons y ys)
  then have "y \<noteq> cur" "nxt (ts a) = Some y" by auto
  then show ?case using Cons pick_loop_step [of y cur me ts] by (cases "eligible me ts y") simp_all
qed

lemma pick_next_ring:
  assumes "tq.ring (threads s) Main_thread xs" and "Main_thread # xs = as @ cur # bs"
  shows "pick_next cur s = Some (case find (eligible (smp_cpu_index s) (threads s)) (bs @ as) of
      None \<Rightarrow> (cur, s) | Some t \<Rightarrow> (t, s\<lparr>threads := claim (smp_cpu_index s) t (threads s)\<rparr>))"
proof -
  have "tq.ring (threads s) cur (bs @ as)" by (rule tq.ring_rotate [OF assms])
  then have "tq.links (threads s) cur (bs @ as) cur" "cur \<notin> set (bs @ as)"
    unfolding tq.ring_def by auto
  from pick_loop_links [OF this] show ?thesis by (simp add: pick_next_def split: option.split)
qed

lemma unlink_loop_links:
  assumes "tq.links ts p (xs @ [t]) z" and "t \<notin> set xs" and "Main_thread \<notin> set xs"
  shows "unlink_loop t p ts = Some ((ts(last (p # xs) := (ts (last (p # xs)))\<lparr>nxt := nxt (ts t)\<rparr>))
    (t := ((ts(last (p # xs) := (ts (last (p # xs)))\<lparr>nxt := nxt (ts t)\<rparr>)) t)\<lparr>nxt := None\<rparr>))"
  using assms
proof (induction xs arbitrary: p)
  case Nil
  then show ?case by (subst unlink_loop.simps) (simp add: Let_def)
next
  case (Cons x xs)
  then show ?case by (subst unlink_loop.simps) (auto simp: Let_def)
qed

lemma alloc_slot_Some:
  "thread_alloc_slot s = Some t \<Longrightarrow> \<exists>i < 64. t = Pool i \<and> tstate (threads s t) = THREAD_UNUSED
     \<and> (\<forall>j < i. tstate (threads s (Pool j)) \<noteq> THREAD_UNUSED)"
  by (auto simp: thread_alloc_slot_def first_index_Some)

lemma alloc_slot_None:
  "thread_alloc_slot s = None \<longleftrightarrow> (\<forall>i < 64. tstate (threads s (Pool i)) \<noteq> THREAD_UNUSED)"
  by (auto simp: thread_alloc_slot_def first_index_None)

section \<open>The operations on the ring\<close>

lemma cpu_index_upd [frame_simps]:
  "smp_cpu_index (s\<lparr>if_flag := b\<rparr>) = smp_cpu_index s" "smp_cpu_index (s\<lparr>g_thread_rq_lock := l\<rparr>) = smp_cpu_index s"
  "smp_cpu_index (s\<lparr>threads := ts\<rparr>) = smp_cpu_index s" "smp_cpu_index (s\<lparr>g_current := cu\<rparr>) = smp_cpu_index s"
  "smp_cpu_index (s\<lparr>g_yield_from := y\<rparr>) = smp_cpu_index s"
  by (simp_all add: smp_cpu_index_def lapic_id_def mmio_r32_def)

lemma rq_lock_free: "g_thread_rq_lock s = 0 \<Longrightarrow> rq_lock s = Some (s\<lparr>g_thread_rq_lock := 1\<rparr>)"
  by (simp add: rq_lock_def)

lemma rq_inv_cong:
  assumes "rq_inv s xs" and "\<And>t. nxt (threads s' t) = nxt (threads s t)"
    and "\<And>t. (tstate (threads s' t) = THREAD_UNUSED) = (tstate (threads s t) = THREAD_UNUSED)"
    and "g_thread_rq_lock s' = 0"
  shows "rq_inv s' xs"
proof -
  have "tq.ring (threads s') Main_thread xs = tq.ring (threads s) Main_thread xs"
    by (rule tq.ring_cong) (simp add: assms(2))
  then show ?thesis using assms by (simp add: rq_inv_def)
qed

lemma rq_invD:
  assumes "rq_inv s xs"
  shows "tq.ring (threads s) Main_thread xs" "g_thread_rq_lock s = 0" "distinct (Main_thread # xs)"
    "Pool i \<in> set xs \<longleftrightarrow> i < 64 \<and> tstate (threads s (Pool i)) \<noteq> THREAD_UNUSED"
  using assms by (auto simp: rq_inv_def tq.ring_def)

text \<open>Yielding: \<open>release\<close> gives up the claim of the thread that leaves.\<close>

definition release :: "tref \<Rightarrow> (tref \<Rightarrow> thread) \<Rightarrow> tref \<Rightarrow> thread" where
  "release t ts = (if tstate (ts t) = THREAD_RUNNABLE then ts(t := (ts t)\<lparr>sched_token := NO_TOKEN\<rparr>) else ts)"

definition switched :: "u32 \<Rightarrow> tref \<Rightarrow> tref \<Rightarrow> 'a thr_scheme \<Rightarrow> 'a thr_scheme" where
  "switched me old nx s = s\<lparr>if_flag := False, threads := release old (claim me nx (threads s)),
     g_current := (g_current s)(me := Some nx), g_yield_from := Some old\<rparr>"

definition next_thread :: "u32 \<Rightarrow> (tref \<Rightarrow> thread) \<Rightarrow> tref list \<Rightarrow> tref option" where
  "next_thread me ts order = find (eligible me ts) order"

lemma yield_enter_effect:
  assumes "rq_inv s xs" and "g_current s (smp_cpu_index s) = Some cur" and "Main_thread # xs = as @ cur # bs"
  shows "sched_yield_enter s = Some (case next_thread (smp_cpu_index s) (threads s) (bs @ as) of
      None \<Rightarrow> (None, s) | Some nx \<Rightarrow> (Some (cur, nx), switched (smp_cpu_index s) cur nx s))"
proof -
  let ?me = "smp_cpu_index s" and ?s1 = "s\<lparr>if_flag := False, g_thread_rq_lock := 1\<rparr>"
  have lock: "g_thread_rq_lock s = 0" and ring: "tq.ring (threads ?s1) Main_thread xs"
    using rq_invD [OF assms(1)] by simp_all
  have l: "rq_lock (s\<lparr>if_flag := False\<rparr>) = Some ?s1" using lock by (simp add: rq_lock_free)
  have me: "smp_cpu_index ?s1 = ?me" by (simp add: frame_simps)
  have cur: "g_current ?s1 ?me = Some cur" using assms(2) by simp
  have same: "s\<lparr>g_thread_rq_lock := 0\<rparr> = s" using lock by simp
  note enter = sched_yield_enter_def [of s, unfolded l Let_def me]
  have ne: "nx \<noteq> cur" if "find (eligible ?me (threads s)) (bs @ as) = Some nx" for nx
  proof -
    have "nx \<in> set (bs @ as)" using that by (metis find_Some_iff nth_mem)
    moreover have "cur \<notin> set (bs @ as)" using rq_invD(3) [OF assms(1)] unfolding assms(3) by auto
    ultimately show ?thesis by blast
  qed
  show ?thesis
  proof (cases "find (eligible ?me (threads s)) (bs @ as)")
    case None
    then show ?thesis
      using pick_next_ring [OF ring assms(3)] unfolding enter next_thread_def
      by (simp add: me cur assms(2) rq_unlock_def verve_spin_unlock_def same)
  next
    case (Some nx)
    then show ?thesis
      using pick_next_ring [OF ring assms(3)] ne [OF Some] unfolding enter next_thread_def
      by (simp add: me cur assms(2) rq_unlock_def verve_spin_unlock_def switched_def release_def set_thread_def same lock)
  qed
qed

lemma release_claim_simps [simp]:
  "nxt (release old (claim me nx ts) t) = nxt (ts t)" "tstate (release old (claim me nx ts) t) = tstate (ts t)"
  "esp (release old (claim me nx ts) t) = esp (ts t)" "kstack (release old (claim me nx ts) t) = kstack (ts t)"
  "affinity_cpu (release old (claim me nx ts) t) = affinity_cpu (ts t)" "fn_ptr (release old (claim me nx ts) t) = fn_ptr (ts t)"
  by (auto simp: release_def claim_def)

lemma rq_inv_switched: "rq_inv s xs \<Longrightarrow> rq_inv (switched me old nx s) xs"
  by (rule rq_inv_cong) (simp_all add: switched_def rq_inv_def)

text \<open>Starting a thread.\<close>

definition initial_stack :: "text_syms \<Rightarrow> u32 \<Rightarrow> memory \<Rightarrow> memory" where
  "initial_stack T p m = (let sp = p + STACK_SIZE - 20
     in st32 (st32 (st32 (st32 (st32 m sp 0) (sp + 4) 0) (sp + 8) 0) (sp + 12) 0) (sp + 16) (at_thread_trampoline T))"

definition new_thread :: "u32 \<Rightarrow> u32 \<Rightarrow> u32 \<Rightarrow> tref option \<Rightarrow> thread" where
  "new_thread f p aff n = \<lparr>esp = p + STACK_SIZE - 20, nxt = n, fn_ptr = f, tstate = THREAD_RUNNABLE, kstack = p,
     affinity_cpu = aff, sched_token = NO_TOKEN\<rparr>"

definition insert_thread :: "tref \<Rightarrow> u32 \<Rightarrow> u32 \<Rightarrow> u32 \<Rightarrow> (tref \<Rightarrow> thread) \<Rightarrow> tref \<Rightarrow> thread" where
  "insert_thread t f p aff ts = ts(t := new_thread f p aff (nxt (ts Main_thread)), Main_thread := (ts Main_thread)\<lparr>nxt := Some t\<rparr>)"

lemma thread_upd_all:
  "x\<lparr>kstack := p, fn_ptr := f, tstate := st, affinity_cpu := a, sched_token := k, esp := e, nxt := n\<rparr>
   = \<lparr>esp = e, nxt = n, fn_ptr = f, tstate = st, kstack = p, affinity_cpu = a, sched_token = k\<rparr>" for x :: thread
  by (cases x) simp

lemma lock_same: "g_thread_rq_lock s = 0 \<Longrightarrow> s\<lparr>g_thread_rq_lock := 0\<rparr> = s"
  by simp

lemma enqueue_new:
  assumes "g_thread_rq_lock s = 0" and "t \<noteq> Main_thread"
  shows "enqueue_thread t (setup_initial_stack T t (set_thread t (\<lambda>x. x\<lparr>fn_ptr := f, tstate := THREAD_RUNNABLE,
      affinity_cpu := aff, sched_token := NO_TOKEN\<rparr>) (set_thread t (\<lambda>x. x\<lparr>kstack := p\<rparr>) s)))
    = Some (s\<lparr>mem := initial_stack T p (mem s), threads := insert_thread t f p aff (threads s)\<rparr>)"
  using assms
  by (simp add: enqueue_thread_def setup_initial_stack_def set_thread_def rq_lock_def rq_unlock_def verve_spin_unlock_def
      initial_stack_def insert_thread_def new_thread_def Let_def fun_upd_twist thread_upd_all lock_same)

lemma spawn_effect:
  assumes "g_thread_rq_lock s = 0" and "thread_alloc_slot s = Some t" and "f \<noteq> 0"
    and "kmalloc L 4096 (mem s, g_kheap s) = Some (p, m, h)" and "p \<noteq> 0"
  shows "thread_spawn L T f s
    = Some (s\<lparr>mem := initial_stack T p m, g_kheap := h, threads := insert_thread t f p AFF_ANY (threads s)\<rparr>)"
proof -
  have t: "t \<noteq> Main_thread" using alloc_slot_Some [OF assms(2)] by auto
  have k: "kmalloc_s L STACK_SIZE s = Some (p, s\<lparr>mem := m, g_kheap := h\<rparr>)" by (simp add: kmalloc_s_def assms(4))
  show ?thesis
    using enqueue_new [where s = "s\<lparr>mem := m, g_kheap := h\<rparr>" and aff = AFF_ANY] assms t by (simp add: thread_spawn_def k Let_def)
qed

lemma rq_inv_insert:
  assumes "rq_inv s xs" and "thread_alloc_slot s = Some t"
  shows "rq_inv (s\<lparr>threads := insert_thread t f p aff (threads s)\<rparr>) (t # xs)"
proof -
  obtain i where i: "i < 64" "t = Pool i" "tstate (threads s t) = THREAD_UNUSED"
    using alloc_slot_Some [OF assms(2)] by blast
  have new: "t \<notin> set (Main_thread # xs)" using i rq_invD(4) [OF assms(1), of i] by auto
  let ?ts = "threads s"
  let ?put = "\<lambda>p v ts. ts(p := (ts p)\<lparr>nxt := v\<rparr>)"
  have "tq.ring (?put Main_thread (Some t) (?put t (nxt (?ts Main_thread)) ?ts)) Main_thread (t # xs)"
    by (rule tq.ring_insert [OF rq_invD(1) [OF assms(1)] new])
  moreover have "tq.ring (insert_thread t f p aff ?ts) Main_thread (t # xs)
      = tq.ring (?put Main_thread (Some t) (?put t (nxt (?ts Main_thread)) ?ts)) Main_thread (t # xs)"
    by (rule tq.ring_cong) (auto simp: insert_thread_def new_thread_def)
  ultimately have "tq.ring (insert_thread t f p aff ?ts) Main_thread (t # xs)" by simp
  moreover have "set (t # xs) = {Pool i |i. i < 64 \<and> tstate (insert_thread t f p aff ?ts (Pool i)) \<noteq> THREAD_UNUSED}"
    using assms(1) i by (auto simp: rq_inv_def insert_thread_def new_thread_def split: if_splits)
  ultimately show ?thesis using assms(1) by (simp add: rq_inv_def)
qed

text \<open>Reaping.\<close>

definition removed :: "tref \<Rightarrow> tref \<Rightarrow> (tref \<Rightarrow> thread) \<Rightarrow> tref \<Rightarrow> thread" where
  "removed p z ts = (let ts1 = ts(p := (ts p)\<lparr>nxt := nxt (ts z)\<rparr>)
     in ts1(z := (ts1 z)\<lparr>nxt := None, tstate := THREAD_UNUSED, kstack := 0\<rparr>))"

lemma reap_effect:
  assumes "rq_inv s xs" and "g_yield_from s = Some (Pool i)" and "tstate (threads s (Pool i)) = THREAD_ZOMBIE"
    and "kstack (threads s (Pool i)) \<noteq> 0" and "xs = us @ Pool i # ws"
  shows "thread_reap_yield_from L s = Some (kfree_s L (kstack (threads s (Pool i)))
      (s\<lparr>g_yield_from := None, threads := removed (last (Main_thread # us)) (Pool i) (threads s)\<rparr>))"
proof -
  let ?z = "Pool i" and ?s1 = "s\<lparr>g_yield_from := None, g_thread_rq_lock := 1\<rparr>"
  have lock: "g_thread_rq_lock s = 0" and ring: "tq.ring (threads s) Main_thread xs" and d: "distinct (Main_thread # xs)"
    using rq_invD [OF assms(1)] by simp_all
  have "tq.links (threads s) Main_thread (us @ [?z]) (hd (ws @ [Main_thread]))"
    using ring unfolding tq.ring_def assms(5) by (cases ws) (auto simp: tq.links_append)
  from unlink_loop_links [OF this] d have un: "unlink_thread ?z ?s1 = Some (?s1\<lparr>threads :=
      (let ts1 = (threads s)(last (Main_thread # us) := (threads s (last (Main_thread # us)))\<lparr>nxt := nxt (threads s ?z)\<rparr>)
       in ts1(?z := (ts1 ?z)\<lparr>nxt := None\<rparr>))\<rparr>)"
    by (simp add: unlink_thread_def assms(5) Let_def del: last.simps)
  show ?thesis
    using assms(2-4) un lock
    by (simp add: thread_reap_yield_from_def rq_lock_free Let_def rq_unlock_def verve_spin_unlock_def set_thread_def
        removed_def lock_same del: last.simps)
qed

lemma kfree_s_frame [simp]:
  "threads (kfree_s L p s) = threads s" "g_thread_rq_lock (kfree_s L p s) = g_thread_rq_lock s"
  "g_current (kfree_s L p s) = g_current s" "g_yield_from (kfree_s L p s) = g_yield_from s"
  by (simp_all add: kfree_s_def split: prod.split)

lemma rq_inv_removed:
  assumes "rq_inv s (us @ Pool i # ws)"
  shows "rq_inv (s\<lparr>threads := removed (last (Main_thread # us)) (Pool i) (threads s)\<rparr>) (us @ ws)"
proof -
  let ?put = "\<lambda>p v ts. ts(p := (ts p)\<lparr>nxt := v\<rparr>)" and ?ts = "threads s" and ?p = "last (Main_thread # us)"
  have d: "distinct (Main_thread # us @ Pool i # ws)" by (rule rq_invD(3) [OF assms])
  have p: "?p \<in> set (Main_thread # us)" by simp
  have "tq.ring (?put (Pool i) None (?put ?p (nxt (?ts (Pool i))) ?ts)) Main_thread (us @ ws)"
    by (rule tq.ring_remove [OF rq_invD(1) [OF assms]])
  moreover have "tq.ring (removed ?p (Pool i) ?ts) Main_thread (us @ ws)
      = tq.ring (?put (Pool i) None (?put ?p (nxt (?ts (Pool i))) ?ts)) Main_thread (us @ ws)"
    by (rule tq.ring_cong) (auto simp: removed_def Let_def)
  ultimately have r: "tq.ring (removed ?p (Pool i) ?ts) Main_thread (us @ ws)" by simp
  have st: "tstate (removed ?p (Pool i) ?ts t) = (if t = Pool i then THREAD_UNUSED else tstate (?ts t))" for t
    by (auto simp: removed_def Let_def)
  have "set (us @ ws) = set (us @ Pool i # ws) - {Pool i}" using d by auto
  also have "\<dots> = {Pool j |j. j < 64 \<and> tstate (?ts (Pool j)) \<noteq> THREAD_UNUSED} - {Pool i}"
    using assms unfolding rq_inv_def by blast
  also have "\<dots> = {Pool j |j. j < 64 \<and> tstate (removed ?p (Pool i) ?ts (Pool j)) \<noteq> THREAD_UNUSED}"
    unfolding st by auto
  finally show ?thesis using r rq_invD(2) [OF assms] unfolding rq_inv_def by simp
qed

end
