(* ===== verification/Run_Queue_Runs.thy ===== *)
theory Run_Queue_Runs
  imports Run_Queue
begin

text \<open>
  Runs of the run queue of \<open>kernel/thread.c\<close>: any sequence of the critical sections of the
  thread operations, executed by any CPU.  Every run keeps the ring of the threads in use;
  as long as no thread is reaped no thread runs on two CPUs.
\<close>

section \<open>Steps\<close>

text \<open>
  Between two critical sections another CPU may be the one that runs (it reads another LAPIC
  id).  The function of an idle thread does not return, so an idle thread does not exit.  The
  last rule has the condition that no CPU runs the thread to be reaped; the code does not
  ensure it when several CPUs are online, see \<open>yield_exposes_old_thread\<close>.
\<close>

inductive rq_run :: "layout \<Rightarrow> text_syms \<Rightarrow> 'a thr_scheme \<Rightarrow> 'a thr_scheme \<Rightarrow> bool" for L T s0 where
  start: "rq_run L T s0 s0"
| cpu: "rq_run L T s0 s \<Longrightarrow> smp_cpu_index (s\<lparr>lapic_id_reg := i\<rparr>) < MAX_SMP_CPU \<Longrightarrow>
    rq_run L T s0 (s\<lparr>lapic_id_reg := i\<rparr>)"
| spawn: "rq_run L T s0 s \<Longrightarrow> thread_spawn L T f s = Some s' \<Longrightarrow> rq_run L T s0 s'"
| yield: "rq_run L T s0 s \<Longrightarrow> sched_yield_enter s = Some (r, s') \<Longrightarrow> rq_run L T s0 s'"
| exit: "rq_run L T s0 s \<Longrightarrow> thread_current_slot s = Some t \<Longrightarrow> fn_ptr (threads s t) \<noteq> at_ap_idle_fn T \<Longrightarrow>
    thread_exit (\<lambda>f. Some) s = Some s' \<Longrightarrow> rq_run L T s0 s'"
| online: "rq_run L T s0 s \<Longrightarrow> thread_ap_claim s = Some (b, s') \<Longrightarrow> rq_run L T s0 s'"
| reap: "rq_run L T s0 s \<Longrightarrow> \<forall>c t. g_yield_from s = Some t \<longrightarrow> c < MAX_SMP_CPU \<longrightarrow> g_current s c \<noteq> Some t \<Longrightarrow>
    thread_reap_yield_from L s = Some s' \<Longrightarrow> rq_run L T s0 s'"

section \<open>The invariants\<close>

definition valid_ref :: "tref \<Rightarrow> bool" where
  "valid_ref t \<longleftrightarrow> (case t of Main_thread \<Rightarrow> True | Pool i \<Rightarrow> i < 64)"

definition queue_ok :: "'a thr_scheme \<Rightarrow> bool" where
  "queue_ok s \<longleftrightarrow> con_ok s \<and> smp_cpu_index s < MAX_SMP_CPU \<and> (\<exists>xs. rq_inv s xs) \<and> tstate (threads s Main_thread) \<noteq> THREAD_UNUSED
     \<and> (\<forall>t. valid_ref t \<longrightarrow> tstate (threads s t) = THREAD_UNUSED \<longrightarrow> nxt (threads s t) = None)
     \<and> (\<forall>c t. c < MAX_SMP_CPU \<longrightarrow> g_current s c = Some t \<or> g_idle_for_cpu s c = Some t \<longrightarrow> valid_ref t)
     \<and> (\<forall>t. g_yield_from s = Some t \<longrightarrow> valid_ref t)"

definition owners_ok :: "text_syms \<Rightarrow> 'a thr_scheme \<Rightarrow> bool" where
  "owners_ok T s \<longleftrightarrow>
     (\<forall>c t. c < MAX_SMP_CPU \<longrightarrow> g_current s c = Some t \<longrightarrow> sched_token (threads s t) = c \<and> tstate (threads s t) \<noteq> THREAD_UNUSED)
     \<and> (\<forall>c t. c < MAX_SMP_CPU \<longrightarrow> g_idle_for_cpu s c = Some t \<longrightarrow> affinity_cpu (threads s t) = c
          \<and> fn_ptr (threads s t) = at_ap_idle_fn T \<and> tstate (threads s t) = THREAD_RUNNABLE
          \<and> (\<forall>d. d < MAX_SMP_CPU \<longrightarrow> g_current s d = Some t \<longrightarrow> d = c))"

text \<open>Both depend on these parts of the state only.\<close>

definition same_queue :: "'a thr_scheme \<Rightarrow> 'a thr_scheme \<Rightarrow> bool" where
  "same_queue s s' \<longleftrightarrow> threads s' = threads s \<and> g_current s' = g_current s \<and> g_idle_for_cpu s' = g_idle_for_cpu s
     \<and> g_yield_from s' = g_yield_from s \<and> g_thread_rq_lock s' = g_thread_rq_lock s
     \<and> g_apic_to_logical s' = g_apic_to_logical s \<and> lapic_id_reg s' = lapic_id_reg s"

lemma cpu_index_cong: "lapic_id_reg s' = lapic_id_reg s \<Longrightarrow> g_apic_to_logical s' = g_apic_to_logical s \<Longrightarrow>
    smp_cpu_index s' = smp_cpu_index s"
  by (simp add: smp_cpu_index_def lapic_id_def mmio_r32_def)

lemma queue_ok_cong: "same_queue s s' \<Longrightarrow> con_ok s' \<Longrightarrow> queue_ok s \<Longrightarrow> queue_ok s'"
  unfolding queue_ok_def same_queue_def rq_inv_def using cpu_index_cong [of s' s] by simp

lemma owners_ok_cong: "same_queue s s' \<Longrightarrow> owners_ok T s \<Longrightarrow> owners_ok T s'"
  unfolding owners_ok_def same_queue_def by simp

lemma prints_same_queue: "prints s m s' \<Longrightarrow> same_queue s s'"
  by (auto simp: prints_def same_queue_def)

lemma same_queue_trans: "same_queue s s1 \<Longrightarrow> same_queue s1 s2 \<Longrightarrow> same_queue s s2"
  by (simp add: same_queue_def)

lemma ring_member:
  assumes "rq_inv s xs" and "valid_ref t" and "tstate (threads s Main_thread) \<noteq> THREAD_UNUSED"
  shows "t \<in> set (Main_thread # xs) \<longleftrightarrow> tstate (threads s t) \<noteq> THREAD_UNUSED"
  using rq_invD(4) [OF assms(1)] assms(2,3) by (cases t) (auto simp: valid_ref_def)

lemma ring_valid: "rq_inv s xs \<Longrightarrow> t \<in> set (Main_thread # xs) \<Longrightarrow> valid_ref t"
  by (auto simp: rq_inv_def valid_ref_def)

text \<open>A CPU whose current thread has been reaped cannot yield.\<close>

lemma enter_current:
  assumes "queue_ok s" and "sched_yield_enter s = Some (r, s')"
  obtains cur xs as bs where "g_current s (smp_cpu_index s) = Some cur" "rq_inv s xs" "Main_thread # xs = as @ cur # bs"
    "valid_ref cur" "tstate (threads s cur) \<noteq> THREAD_UNUSED"
proof -
  obtain xs where inv: "rq_inv s xs" using assms(1) by (auto simp: queue_ok_def)
  have l: "rq_lock (s\<lparr>if_flag := False\<rparr>) = Some (s\<lparr>if_flag := False, g_thread_rq_lock := 1\<rparr>)"
    using rq_invD(2) [OF inv] by (simp add: rq_lock_free)
  obtain cur where cur: "g_current s (smp_cpu_index s) = Some cur"
    using assms(2) unfolding sched_yield_enter_def l by (auto simp: frame_simps Let_def split: option.splits)
  have v: "valid_ref cur" using assms(1) cur unfolding queue_ok_def by blast
  have "nxt (threads s cur) \<noteq> None"
  proof
    assume "nxt (threads s cur) = None"
    then have "pick_next cur (s\<lparr>if_flag := False, g_thread_rq_lock := 1\<rparr>) = None"
      by (simp add: pick_next_def) (subst pick_loop.simps, simp)
    then show False using assms(2) cur unfolding sched_yield_enter_def l by (simp add: frame_simps)
  qed
  then have used: "tstate (threads s cur) \<noteq> THREAD_UNUSED" using assms(1) v by (auto simp: queue_ok_def)
  then have "cur \<in> set (Main_thread # xs)" using ring_member [OF inv v] assms(1) by (simp add: queue_ok_def)
  then obtain as bs where "Main_thread # xs = as @ cur # bs" by (meson split_list)
  then show ?thesis using that cur inv v used by blast
qed

section \<open>The steps keep the invariants\<close>

lemma enter_cases:
  assumes "queue_ok s" and "sched_yield_enter s = Some (r, s')"
  obtains "s' = s" "r = None"
    | cur nx where "s' = switched (smp_cpu_index s) cur nx s" "r = Some (cur, nx)" "g_current s (smp_cpu_index s) = Some cur"
      "eligible (smp_cpu_index s) (threads s) nx" "valid_ref cur" "valid_ref nx" "nx \<noteq> cur"
proof -
  let ?me = "smp_cpu_index s"
  obtain cur xs as bs where c: "g_current s ?me = Some cur" "rq_inv s xs" "Main_thread # xs = as @ cur # bs" "valid_ref cur"
    using enter_current [OF assms] by metis
  note eff = yield_enter_effect [OF c(2,1,3)]
  show ?thesis
  proof (cases "next_thread ?me (threads s) (bs @ as)")
    case None
    then show ?thesis using eff assms(2) that(1) by simp
  next
    case (Some nx)
    then obtain i where i: "i < length (bs @ as)" "nx = (bs @ as) ! i" and e: "eligible ?me (threads s) nx"
      unfolding next_thread_def by (auto simp: find_Some_iff)
    have m: "nx \<in> set (bs @ as)" unfolding i(2) by (rule nth_mem [OF i(1)])
    have d: "distinct (as @ cur # bs)" using rq_invD(3) [OF c(2)] unfolding c(3) .
    have ne: "nx \<noteq> cur" using m d by auto
    have "nx \<in> set (Main_thread # xs)" unfolding c(3) using m by auto
    then have v: "valid_ref nx" by (rule ring_valid [OF c(2)])
    have r: "s' = switched ?me cur nx s" "r = Some (cur, nx)" using eff assms(2) unfolding Some by simp_all
    show ?thesis by (rule that(2) [OF r c(1) e c(4) v ne])
  qed
qed

lemma switched_simps [simp]:
  "g_current (switched me old nx s) = (g_current s)(me := Some nx)" "g_yield_from (switched me old nx s) = Some old"
  "g_idle_for_cpu (switched me old nx s) = g_idle_for_cpu s"
  "threads (switched me old nx s) = release old (claim me nx (threads s))"
  "smp_cpu_index (switched me old nx s) = smp_cpu_index s" "con_ok (switched me old nx s) = con_ok s"
  by (simp_all add: switched_def frame_simps con_ok_def uart_live_def)

lemma queue_ok_enter:
  assumes q: "queue_ok s" and e: "sched_yield_enter s = Some (r, s')"
  shows "queue_ok s'"
proof (cases rule: enter_cases [OF q e])
  case 1
  then show ?thesis using q by simp
next
  case (2 cur nx)
  have "\<exists>xs. rq_inv s' xs" using q rq_inv_switched unfolding queue_ok_def 2(1) by blast
  then show ?thesis using q 2(5,6) by (auto simp: queue_ok_def 2(1) split: if_splits)
qed

lemma token_release_claim:
  "nx \<noteq> cur \<Longrightarrow> sched_token (release cur (claim me nx ts) t)
     = (if t = cur \<and> tstate (ts cur) = THREAD_RUNNABLE then NO_TOKEN else if t = nx then me else sched_token (ts t))"
  by (auto simp: release_def claim_def)

lemma owners_ok_enter:
  assumes "queue_ok s" and "owners_ok T s" and "sched_yield_enter s = Some (r, s')"
  shows "owners_ok T s'"
proof (cases rule: enter_cases [OF assms(1,3)])
  case 1
  then show ?thesis using assms(2) by simp
next
  case (2 cur nx)
  let ?me = "smp_cpu_index s"
  have me: "?me < 32" using assms(1) by (simp add: queue_ok_def)
  have e: "sched_token (threads s nx) = NO_TOKEN" "tstate (threads s nx) = THREAD_RUNNABLE"
    "affinity_cpu (threads s nx) = AFF_ANY \<or> affinity_cpu (threads s nx) = ?me"
    using 2(4) by (auto simp: eligible_def)
  have own: "sched_token (threads s t) = c" "tstate (threads s t) \<noteq> THREAD_UNUSED" if "c < 32" "g_current s c = Some t" for c t
    using assms(2) that unfolding owners_ok_def by blast+
  have idle: "affinity_cpu (threads s t) = c" "fn_ptr (threads s t) = at_ap_idle_fn T" "tstate (threads s t) = THREAD_RUNNABLE"
      "d < 32 \<Longrightarrow> g_current s d = Some t \<Longrightarrow> d = c" if "c < 32" "g_idle_for_cpu s c = Some t" for c d t
    using assms(2) that unfolding owners_ok_def by blast+
  have free: "g_current s c \<noteq> Some nx" if "c < 32" for c
    using own(1) [OF that, of nx] e(1) that by auto
  have only: "c = ?me" if "c < 32" "g_current s c = Some cur" for c
    using own(1) [OF that] own(1) [OF me 2(3)] by simp
  show ?thesis
    unfolding owners_ok_def 2(1) switched_simps
  proof (intro conjI allI impI)
    fix c t assume c: "c < 32" and t: "((g_current s)(?me := Some nx)) c = Some t"
    show "sched_token (release cur (claim ?me nx (threads s)) t) = c"
      using c t own only free 2(7) by (auto simp: token_release_claim split: if_splits)
    show "tstate (release cur (claim ?me nx (threads s)) t) \<noteq> THREAD_UNUSED"
      using c t own e(2) by (auto split: if_splits)
  next
    fix c t assume c: "c < 32" and t: "g_idle_for_cpu s c = Some t"
    show "affinity_cpu (release cur (claim ?me nx (threads s)) t) = c" using idle [OF c t] by simp
    show "fn_ptr (release cur (claim ?me nx (threads s)) t) = at_ap_idle_fn T" using idle [OF c t] by simp
    show "tstate (release cur (claim ?me nx (threads s)) t) = THREAD_RUNNABLE" using idle [OF c t] by simp
    fix d assume d: "d < 32" "((g_current s)(?me := Some nx)) d = Some t"
    have "c \<noteq> AFF_ANY" using c by auto
    then show "d = c" using d idle [OF c t] e(3) by (auto split: if_splits)
  qed
qed

lemma locked_set:
  assumes "g_thread_rq_lock s = 0"
  shows "rq_unlock (set_thread t f (s\<lparr>g_thread_rq_lock := 1\<rparr>)) = set_thread t f s"
proof -
  have "rq_unlock (set_thread t f (s\<lparr>g_thread_rq_lock := 1\<rparr>)) = (set_thread t f s)\<lparr>g_thread_rq_lock := 0\<rparr>"
    by (simp add: rq_unlock_def verve_spin_unlock_def set_thread_def)
  also have "\<dots> = set_thread t f s" by (rule lock_same) (simp add: set_thread_def assms)
  finally show ?thesis .
qed

lemma exit_cases:
  assumes "queue_ok s" and "thread_exit (\<lambda>f. Some) s = Some s'"
  obtains "s' = s" | i where "g_current s (smp_cpu_index s) = Some (Pool i)" "i < 64"
    "s' = s\<lparr>threads := (threads s)(Pool i := (threads s (Pool i))\<lparr>tstate := THREAD_ZOMBIE\<rparr>)\<rparr>"
proof -
  have lock: "g_thread_rq_lock s = 0" and me: "smp_cpu_index s < 32"
    using assms(1) by (auto simp: queue_ok_def rq_inv_def)
  have slot: "thread_current_slot s = g_current s (smp_cpu_index s)" using me by (auto simp: thread_current_slot_def Let_def not_le [symmetric])
  show ?thesis
  proof (cases "g_current s (smp_cpu_index s)")
    case None
    then show ?thesis using assms(2) that(1) slot by (simp add: thread_exit_def)
  next
    case (Some self)
    show ?thesis
    proof (cases self)
      case Main_thread
      then show ?thesis using assms(2) that(1) slot Some by (simp add: thread_exit_def)
    next
      case (Pool i)
      have "valid_ref (Pool i)" using assms(1) Some me unfolding queue_ok_def Pool by blast
      then have "i < 64" by (simp add: valid_ref_def)
      moreover have "s' = s\<lparr>threads := (threads s)(Pool i := (threads s (Pool i))\<lparr>tstate := THREAD_ZOMBIE\<rparr>)\<rparr>"
        using assms(2) unfolding thread_exit_def slot Some Pool option.case if_not_P [OF tref.distinct(2)]
          if_cancel bind.bind_lunit rq_lock_free [OF lock] option.map locked_set [OF lock]
        by (simp add: set_thread_def)
      ultimately show ?thesis using that(2) Some Pool by blast
    qed
  qed
qed

text \<open>The parts of \<open>queue_ok\<close> that name threads only need the list of the ring and the null links.\<close>

lemma queue_okD:
  assumes "queue_ok s"
  shows "con_ok s" "smp_cpu_index s < 32" "tstate (threads s Main_thread) \<noteq> THREAD_UNUSED" "\<exists>xs. rq_inv s xs"
    "valid_ref t \<Longrightarrow> tstate (threads s t) = THREAD_UNUSED \<Longrightarrow> nxt (threads s t) = None"
    "g_yield_from s = Some t \<Longrightarrow> valid_ref t" "c < 32 \<Longrightarrow> g_current s c = Some t \<Longrightarrow> valid_ref t"
    "c < 32 \<Longrightarrow> g_idle_for_cpu s c = Some t \<Longrightarrow> valid_ref t"
  using assms unfolding queue_ok_def by blast+

lemma queue_okI:
  assumes "queue_ok s" and "rq_inv s' xs" and "con_ok s'" and "smp_cpu_index s' = smp_cpu_index s"
    and "tstate (threads s' Main_thread) \<noteq> THREAD_UNUSED"
    and "\<And>t. valid_ref t \<Longrightarrow> tstate (threads s' t) = THREAD_UNUSED \<Longrightarrow> nxt (threads s' t) = None"
    and "\<And>c t. c < MAX_SMP_CPU \<Longrightarrow> g_current s' c = Some t \<or> g_idle_for_cpu s' c = Some t \<Longrightarrow>
      (g_current s c = Some t \<or> g_idle_for_cpu s c = Some t) \<or> valid_ref t"
    and "g_yield_from s' = g_yield_from s \<or> g_yield_from s' = None"
  shows "queue_ok s'"
  unfolding queue_ok_def
proof (intro conjI allI impI)
  show "con_ok s'" "\<exists>xs. rq_inv s' xs" "tstate (threads s' Main_thread) \<noteq> THREAD_UNUSED" using assms(2,3,5) by blast+
  show "smp_cpu_index s' < 32" using queue_okD(2) [OF assms(1)] assms(4) by simp
  show "nxt (threads s' t) = None" if "valid_ref t" "tstate (threads s' t) = THREAD_UNUSED" for t by (rule assms(6) [OF that])
  show "valid_ref t" if "c < 32" "g_current s' c = Some t \<or> g_idle_for_cpu s' c = Some t" for c t
    using assms(7) [OF that] queue_okD(7,8) [OF assms(1) that(1)] by blast
  show "valid_ref t" if "g_yield_from s' = Some t" for t using assms(8) that queue_okD(6) [OF assms(1)] by simp
qed

lemma owners_okD:
  assumes "owners_ok T s" and "c < 32"
  shows "g_current s c = Some t \<Longrightarrow> sched_token (threads s t) = c \<and> tstate (threads s t) \<noteq> THREAD_UNUSED"
    "g_idle_for_cpu s c = Some t \<Longrightarrow> affinity_cpu (threads s t) = c \<and> fn_ptr (threads s t) = at_ap_idle_fn T
       \<and> tstate (threads s t) = THREAD_RUNNABLE"
    "g_idle_for_cpu s c = Some t \<Longrightarrow> d < 32 \<Longrightarrow> g_current s d = Some t \<Longrightarrow> d = c"
  using assms unfolding owners_ok_def by blast+

lemma exit_keeps:
  assumes "queue_ok s" and "owners_ok T s" and "thread_exit (\<lambda>f. Some) s = Some s'"
    and "\<And>t. thread_current_slot s = Some t \<Longrightarrow> fn_ptr (threads s t) \<noteq> at_ap_idle_fn T"
  shows "queue_ok s' \<and> owners_ok T s'"
proof (cases rule: exit_cases [OF assms(1,3)])
  case 1
  then show ?thesis using assms(1,2) by simp
next
  case (2 i)
  have me: "smp_cpu_index s < 32" by (rule queue_okD(2) [OF assms(1)])
  have slot: "thread_current_slot s = Some (Pool i)"
    using me 2(1) by (auto simp: thread_current_slot_def Let_def not_le [symmetric])
  have used: "tstate (threads s (Pool i)) \<noteq> THREAD_UNUSED" using owners_okD(1) [OF assms(2) me 2(1)] by simp
  have fn: "fn_ptr (threads s (Pool i)) \<noteq> at_ap_idle_fn T" by (rule assms(4) [OF slot])
  obtain xs where xs: "rq_inv s xs" using queue_okD(4) [OF assms(1)] by blast
  have "rq_inv s' xs" by (rule rq_inv_cong [OF xs]) (use used rq_invD(2) [OF xs] in \<open>auto simp: 2(3)\<close>)
  then have "queue_ok s'"
  proof (rule queue_okI [OF assms(1)])
    show "con_ok s'" using queue_okD(1) [OF assms(1)] by (simp add: 2(3) con_ok_def uart_live_def)
    show "smp_cpu_index s' = smp_cpu_index s" by (simp add: 2(3) frame_simps)
    show "tstate (threads s' Main_thread) \<noteq> THREAD_UNUSED" using queue_okD(3) [OF assms(1)] by (simp add: 2(3))
    show "nxt (threads s' t) = None" if "valid_ref t" "tstate (threads s' t) = THREAD_UNUSED" for t
      using that queue_okD(5) [OF assms(1) that(1)] used by (auto simp: 2(3) split: if_splits)
  qed (simp_all add: 2(3))
  moreover have "owners_ok T s'"
    unfolding owners_ok_def
  proof (intro conjI allI impI)
    fix c t assume c: "c < 32" and t: "g_idle_for_cpu s' c = Some t"
    then have t: "g_idle_for_cpu s c = Some t" by (simp add: 2(3))
    note I = owners_okD(2) [OF assms(2) c t]
    have ne: "t \<noteq> Pool i" using I fn by auto
    show "affinity_cpu (threads s' t) = c" "fn_ptr (threads s' t) = at_ap_idle_fn T" "tstate (threads s' t) = THREAD_RUNNABLE"
      using I ne by (simp_all add: 2(3))
    show "d = c" if "d < 32" "g_current s' d = Some t" for d
      using owners_okD(3) [OF assms(2) c t that(1)] that(2) by (simp add: 2(3))
  next
    fix c t assume c: "c < 32" and t: "g_current s' c = Some t"
    then have t: "g_current s c = Some t" by (simp add: 2(3))
    show "sched_token (threads s' t) = c" "tstate (threads s' t) \<noteq> THREAD_UNUSED"
      using owners_okD(1) [OF assms(2) c t] by (auto simp: 2(3))
  qed
  ultimately show ?thesis by blast
qed

lemma puts_prints: "con_ok s \<Longrightarrow> serial_puts cs s = Some s' \<Longrightarrow> prints s cs s' \<and> con_ok s'"
  using returns_puts [of s cs "\<lambda>x. prints s cs x \<and> con_ok x"] by (auto simp: returns_def)

lemma hex_prints: "con_ok s \<Longrightarrow> serial_put_u64_hex v s = Some s' \<Longrightarrow> prints s (hex_buf v) s' \<and> con_ok s'"
  using returns_hex [of s v "\<lambda>x. prints s (hex_buf v) x \<and> con_ok x"] by (auto simp: returns_def)

lemma con_ok_thr: "con_ok (s\<lparr>mem := m, g_kheap := h, threads := ts\<rparr>) = con_ok s"
  by (simp add: con_ok_def uart_live_def)

lemma spawn_cases:
  assumes "queue_ok s" and "thread_spawn L T f s = Some s'"
  obtains (failed) t k where "same_queue (s\<lparr>threads := (threads s)(t := (threads s t)\<lparr>kstack := k\<rparr>)\<rparr>) s'" "con_ok s'"
    | (spawned) t p where "thread_alloc_slot s = Some t"
      "same_queue (s\<lparr>threads := insert_thread t f p AFF_ANY (threads s)\<rparr>) s'" "con_ok s'"
proof -
  have con: "con_ok s" and lock: "g_thread_rq_lock s = 0"
    using queue_okD(1,4) [OF assms(1)] rq_invD(2) by blast+
  have self: "(threads s)(t := (threads s t)\<lparr>kstack := kstack (threads s t)\<rparr>) = threads s" for t by simp
  have quiet: thesis if "prints s m s'" "con_ok s'" for m
    using failed [of Main_thread "kstack (threads s Main_thread)"] prints_same_queue [OF that(1)] that(2) unfolding self
    by (simp add: same_queue_def)
  show ?thesis
  proof (cases "thread_alloc_slot s")
    case None
    then have "serial_puts (cstr ''[VerveOS] thread_spawn: failed (null or pool full)'' @ crlf) s = Some s'"
      using assms(2) by (simp add: thread_spawn_def)
    then show ?thesis using puts_prints [OF con] quiet by blast
  next
    case (Some t)
    show ?thesis
    proof (cases "f = 0")
      case True
      then have "serial_puts (cstr ''[VerveOS] thread_spawn: failed (null or pool full)'' @ crlf) s = Some s'"
        using assms(2) Some by (simp add: thread_spawn_def)
      then show ?thesis using puts_prints [OF con] quiet by blast
    next
      case False
      obtain p m h where k: "kmalloc L 4096 (mem s, g_kheap s) = Some (p, m, h)"
        using assms(2) Some False
        by (cases "kmalloc L 4096 (mem s, g_kheap s)") (auto simp: thread_spawn_def kmalloc_s_def)
      show ?thesis
      proof (cases "p = 0")
        case True
        let ?s1 = "s\<lparr>mem := m, g_kheap := h, threads := (threads s)(t := (threads s t)\<lparr>kstack := 0\<rparr>)\<rparr>"
        have "serial_puts (cstr ''[VerveOS] thread_spawn: kmalloc(kernel stack) failed'' @ crlf) ?s1 = Some s'"
          using assms(2) Some False k True by (simp add: thread_spawn_def kmalloc_s_def set_thread_def Let_def)
        moreover have "con_ok ?s1" using con con_ok_thr by blast
        ultimately have p: "prints ?s1 (cstr ''[VerveOS] thread_spawn: kmalloc(kernel stack) failed'' @ crlf) s'" "con_ok s'"
          using puts_prints by blast+
        have "same_queue (s\<lparr>threads := (threads s)(t := (threads s t)\<lparr>kstack := 0\<rparr>)\<rparr>) s'"
          using prints_same_queue [OF p(1)] by (simp add: same_queue_def)
        then show ?thesis using failed p(2) by blast
      next
        case False
        note sp = spawn_effect [OF lock Some \<open>f \<noteq> 0\<close> k False, of T]
        then have s': "s' = s\<lparr>mem := initial_stack T p m, g_kheap := h, threads := insert_thread t f p AFF_ANY (threads s)\<rparr>"
          using assms(2) by simp
        have "same_queue (s\<lparr>threads := insert_thread t f p AFF_ANY (threads s)\<rparr>) s'"
          unfolding s' same_queue_def by simp
        moreover have "con_ok s'" using con con_ok_thr unfolding s' by blast
        ultimately show ?thesis using spawned Some by blast
      qed
    qed
  qed
qed

lemma spawn_keeps:
  assumes "queue_ok s" and "owners_ok T s" and "thread_spawn L T f s = Some s'"
  shows "queue_ok s' \<and> owners_ok T s'"
proof -
  obtain xs where xs: "rq_inv s xs" using queue_okD(4) [OF assms(1)] by blast
  note con = queue_okD(1) [OF assms(1)]
  show ?thesis
  proof (cases rule: spawn_cases [OF assms(1,3)])
    case (1 t k)
    let ?s = "s\<lparr>threads := (threads s)(t := (threads s t)\<lparr>kstack := k\<rparr>)\<rparr>"
    have "rq_inv ?s xs" by (rule rq_inv_cong [OF xs]) (use rq_invD(2) [OF xs] in simp_all)
    then have "queue_ok ?s"
      by (rule queue_okI [OF assms(1)])
        (use con queue_okD(3,5) [OF assms(1)] in \<open>auto simp: con_ok_def uart_live_def frame_simps split: if_splits\<close>)
    moreover have "owners_ok T ?s"
      using assms(2) unfolding owners_ok_def by auto
    ultimately show ?thesis using queue_ok_cong owners_ok_cong 1 by blast
  next
    case (2 t p)
    let ?s = "s\<lparr>threads := insert_thread t f p AFF_ANY (threads s)\<rparr>"
    obtain i where i: "t = Pool i" "tstate (threads s t) = THREAD_UNUSED" using alloc_slot_Some [OF 2(1)] by blast
    have "rq_inv ?s (t # xs)" by (rule rq_inv_insert [OF xs 2(1)])
    then have "queue_ok ?s"
      by (rule queue_okI [OF assms(1)])
        (use con queue_okD(3,5) [OF assms(1)] i in \<open>auto simp: con_ok_def uart_live_def frame_simps insert_thread_def new_thread_def split: if_splits\<close>)
    moreover have "owners_ok T ?s"
      using assms(2) i unfolding owners_ok_def by (auto simp: insert_thread_def new_thread_def)
    ultimately show ?thesis using queue_ok_cong owners_ok_cong 2 by blast
  qed
qed

lemma online_keeps:
  assumes "queue_ok s" and "owners_ok T s" and "thread_ap_claim s = Some (b, s')"
  shows "queue_ok s' \<and> owners_ok T s'"
proof (cases "smp_cpu_index s = 0 \<or> smp_cpu_index s \<ge> 32 \<or> g_idle_for_cpu s (smp_cpu_index s) = None")
  case True
  then have "s' = s" using assms(3) by (auto simp: thread_ap_claim_def Let_def split: option.splits if_splits)
  then show ?thesis using assms by simp
next
  case False
  let ?ix = "smp_cpu_index s"
  obtain t where t: "g_idle_for_cpu s ?ix = Some t" using False by auto
  have ix: "?ix < 32" using False by (simp add: not_le [symmetric])
  obtain xs where xs: "rq_inv s xs" using queue_okD(4) [OF assms(1)] by blast
  note con = queue_okD(1) [OF assms(1)]
  define s1 where "s1 = s\<lparr>threads := (threads s)(t := (threads s t)\<lparr>sched_token := ?ix\<rparr>), g_current := (g_current s)(?ix := Some t)\<rparr>"
  have con1: "con_ok s1" using con by (simp add: s1_def con_ok_def uart_live_def)
  have "set_thread t (\<lambda>x. x\<lparr>sched_token := ?ix\<rparr>) (thread_set_current_slot ?ix (Some t) s) = s1"
    using ix by (simp add: set_thread_def thread_set_current_slot_def s1_def)
  then obtain s2 s3 s4 where run: "serial_puts (cstr ''[VerveOS] thread: AP sched online cpu='') s1 = Some s2"
      "serial_put_u64_hex (ucast ?ix) s2 = Some s3" "serial_puts crlf s3 = Some s4" "s' = s4\<lparr>if_flag := True\<rparr>"
    using assms(3) False t by (auto simp: thread_ap_claim_def Let_def bind_eq_Some_conv)
  have p2: "prints s1 (cstr ''[VerveOS] thread: AP sched online cpu='') s2" "con_ok s2" using puts_prints [OF con1 run(1)] by auto
  have p3: "prints s2 (hex_buf (ucast ?ix)) s3" "con_ok s3" using hex_prints [OF p2(2) run(2)] by auto
  have p4: "prints s3 crlf s4" "con_ok s4" using puts_prints [OF p3(2) run(3)] by auto
  have same: "same_queue s1 s'"
    using same_queue_trans [OF same_queue_trans [OF prints_same_queue [OF p2(1)] prints_same_queue [OF p3(1)]] prints_same_queue [OF p4(1)]]
    by (simp add: run(4) same_queue_def)
  have con': "con_ok s'" using p4(2) by (simp add: run(4) con_ok_def uart_live_def)
  have "rq_inv s1 xs" by (rule rq_inv_cong [OF xs]) (use rq_invD(2) [OF xs] in \<open>simp_all add: s1_def\<close>)
  then have "queue_ok s1"
    by (rule queue_okI [OF assms(1)])
      (use con1 t ix queue_okD(3,5,8) [OF assms(1)] in \<open>auto simp: s1_def frame_simps split: if_splits\<close>)
  moreover have "owners_ok T s1"
    unfolding owners_ok_def
  proof (intro conjI allI impI)
    fix c u assume c: "c < 32" and u: "g_idle_for_cpu s1 c = Some u"
    then have u: "g_idle_for_cpu s c = Some u" by (simp add: s1_def)
    note I = owners_okD(2) [OF assms(2) c u]
    show "affinity_cpu (threads s1 u) = c" "fn_ptr (threads s1 u) = at_ap_idle_fn T" "tstate (threads s1 u) = THREAD_RUNNABLE"
      using I by (auto simp: s1_def)
    show "d = c" if d: "d < 32" "g_current s1 d = Some u" for d
    proof (cases "d = ?ix")
      case True
      then have "u = t" using d(2) by (simp add: s1_def)
      then show ?thesis using I owners_okD(2) [OF assms(2) ix t] True by simp
    next
      case False
      then show ?thesis using owners_okD(3) [OF assms(2) c u d(1)] d(2) by (simp add: s1_def)
    qed
  next
    fix c u assume c: "c < 32" and u: "g_current s1 c = Some u"
    have "sched_token (threads s1 u) = c \<and> tstate (threads s1 u) \<noteq> THREAD_UNUSED"
    proof (cases "c = ?ix")
      case True
      then have "u = t" using u by (simp add: s1_def)
      then show ?thesis using owners_okD(2) [OF assms(2) ix t] True by (simp add: s1_def)
    next
      case False
      then have u': "g_current s c = Some u" using u by (simp add: s1_def)
      have "u \<noteq> t" using owners_okD(3) [OF assms(2) ix t c] u' False by auto
      then show ?thesis using owners_okD(1) [OF assms(2) c u'] by (simp add: s1_def)
    qed
    then show "sched_token (threads s1 u) = c" "tstate (threads s1 u) \<noteq> THREAD_UNUSED" by blast+
  qed
  ultimately show ?thesis using queue_ok_cong [OF same con'] owners_ok_cong [OF same] by blast
qed

lemma reap_cases:
  assumes "queue_ok s" and "thread_reap_yield_from L s = Some s'"
  obtains "s' = s\<lparr>g_yield_from := None\<rparr>"
    | i us ws where "rq_inv s (us @ Pool i # ws)" "g_yield_from s = Some (Pool i)" "tstate (threads s (Pool i)) = THREAD_ZOMBIE"
      "s' = kfree_s L (kstack (threads s (Pool i)))
        (s\<lparr>g_yield_from := None, threads := removed (last (Main_thread # us)) (Pool i) (threads s)\<rparr>)"
proof -
  obtain xs where xs: "rq_inv s xs" using queue_okD(4) [OF assms(1)] by blast
  show ?thesis
  proof (cases "g_yield_from s")
    case None
    then show ?thesis using assms(2) that(1) by (simp add: thread_reap_yield_from_def Let_def)
  next
    case (Some z)
    show ?thesis
    proof (cases "z = Main_thread \<or> tstate (threads s z) \<noteq> THREAD_ZOMBIE \<or> kstack (threads s z) = 0")
      case True
      then show ?thesis using assms(2) that(1) Some by (auto simp: thread_reap_yield_from_def Let_def split: if_splits)
    next
      case False
      then obtain i where i: "z = Pool i" "i < 64"
        using queue_okD(6) [OF assms(1) Some] by (cases z) (auto simp: valid_ref_def)
      then have "Pool i \<in> set xs" using rq_invD(4) [OF xs] False by simp
      then obtain us ws where sp: "xs = us @ Pool i # ws" by (meson split_list)
      have "s' = kfree_s L (kstack (threads s (Pool i)))
          (s\<lparr>g_yield_from := None, threads := removed (last (Main_thread # us)) (Pool i) (threads s)\<rparr>)"
        using reap_effect [OF xs, of i us ws L] Some i False sp assms(2) by simp
      then show ?thesis using that(2) xs Some i False sp by blast
    qed
  qed
qed

lemma kfree_s_con [simp]: "con_ok (kfree_s L p s) = con_ok s" "smp_cpu_index (kfree_s L p s) = smp_cpu_index s"
    "g_idle_for_cpu (kfree_s L p s) = g_idle_for_cpu s"
  by (simp_all add: kfree_s_def con_ok_def uart_live_def smp_cpu_index_def lapic_id_def mmio_r32_def split: prod.split)

lemma removed_simps [simp]:
  "tstate (removed p z ts t) = (if t = z then THREAD_UNUSED else tstate (ts t))"
  "sched_token (removed p z ts t) = sched_token (ts t)" "affinity_cpu (removed p z ts t) = affinity_cpu (ts t)"
  "fn_ptr (removed p z ts t) = fn_ptr (ts t)"
  by (auto simp: removed_def Let_def)

lemma reap_keeps:
  assumes "queue_ok s" and "owners_ok T s" and "thread_reap_yield_from L s = Some s'"
    and "\<And>c t. g_yield_from s = Some t \<Longrightarrow> c < 32 \<Longrightarrow> g_current s c \<noteq> Some t"
  shows "queue_ok s' \<and> owners_ok T s'"
proof (cases rule: reap_cases [OF assms(1,3)])
  case 1
  obtain xs where xs: "rq_inv s xs" using queue_okD(4) [OF assms(1)] by blast
  have "rq_inv s' xs" by (rule rq_inv_cong [OF xs]) (use rq_invD(2) [OF xs] in \<open>simp_all add: 1\<close>)
  then have "queue_ok s'"
    by (rule queue_okI [OF assms(1)])
      (use queue_okD(1,3,5) [OF assms(1)] in \<open>auto simp: 1 frame_simps con_ok_def uart_live_def\<close>)
  then show ?thesis using assms(2) by (simp add: 1 owners_ok_def)
next
  case (2 i us ws)
  let ?ts = "removed (last (Main_thread # us)) (Pool i) (threads s)"
  have "rq_inv (s\<lparr>threads := ?ts\<rparr>) (us @ ws)" by (rule rq_inv_removed [OF 2(1)])
  then have "rq_inv s' (us @ ws)" by (simp add: rq_inv_def 2(4))
  then have "queue_ok s'"
  proof (rule queue_okI [OF assms(1)])
    have "con_ok (s\<lparr>g_yield_from := None, threads := ?ts\<rparr>) = con_ok s" by (simp add: con_ok_def uart_live_def)
    then show "con_ok s'" using queue_okD(1) [OF assms(1)] unfolding 2(4) kfree_s_con by blast
    show "smp_cpu_index s' = smp_cpu_index s" by (simp add: 2(4) frame_simps)
    show "tstate (threads s' Main_thread) \<noteq> THREAD_UNUSED" using queue_okD(3) [OF assms(1)] by (simp add: 2(4))
    show "nxt (threads s' t) = None" if "valid_ref t" "tstate (threads s' t) = THREAD_UNUSED" for t
    proof (cases "t = Pool i")
      case True
      then show ?thesis by (simp add: 2(4) removed_def Let_def)
    next
      case False
      then have u: "tstate (threads s t) = THREAD_UNUSED" using that(2) by (simp add: 2(4))
      have "last (Main_thread # us) \<noteq> t"
      proof
        assume "last (Main_thread # us) = t"
        moreover have "last (Main_thread # us) \<in> set (Main_thread # us)" by (rule last_in_set) simp
        ultimately have "t \<in> set (Main_thread # us @ Pool i # ws)" by auto
        then show False using ring_member [OF 2(1) that(1) queue_okD(3) [OF assms(1)]] u by blast
      qed
      then show ?thesis using queue_okD(5) [OF assms(1) that(1) u] False by (auto simp: 2(4) removed_def Let_def)
    qed
  qed (simp_all add: 2(4))
  moreover have "owners_ok T s'"
  proof -
    have idle: "t \<noteq> Pool i" if "c < 32" "g_idle_for_cpu s c = Some t" for c t
      using owners_okD(2) [OF assms(2) that] 2(3) by auto
    have cur: "t \<noteq> Pool i" if "c < 32" "g_current s c = Some t" for c t
      using assms(4) [OF 2(2) that(1)] that(2) by auto
    show ?thesis using assms(2) idle cur unfolding owners_ok_def by (simp add: 2(4))
  qed
  ultimately show ?thesis by blast
qed

lemma rq_run_keeps:
  assumes "rq_run L T s0 s" and "queue_ok s0" and "owners_ok T s0"
  shows "queue_ok s \<and> owners_ok T s"
  using assms(1)
proof induction
  case start
  show ?case using assms(2,3) by blast
next
  case (cpu s i)
  then have "rq_inv (s\<lparr>lapic_id_reg := i\<rparr>) xs = rq_inv s xs" for xs by (simp add: rq_inv_def)
  then show ?case using cpu by (simp add: queue_ok_def owners_ok_def con_ok_def uart_live_def)
next
  case (spawn s f s')
  then show ?case using spawn_keeps by blast
next
  case (yield s r s')
  then show ?case using queue_ok_enter owners_ok_enter by blast
next
  case (exit s t s')
  then show ?case using exit_keeps [of s T s'] by simp
next
  case (online s b s')
  then show ?case using online_keeps by blast
next
  case (reap s s')
  then show ?case using reap_keeps [of s T L s'] by blast
qed

section \<open>The start\<close>

lemma kmalloc_empty_list:
  assumes "g_freelist h = 0"
  shows "\<exists>p m' h'. kmalloc L n (m, h) = Some (p, m', h') \<and> g_freelist h' = 0"
proof -
  have "heap_search m need None 0 = Some None" for need by (subst heap_search.simps) simp
  then show ?thesis using assms by (auto simp: kmalloc_def Let_def)
qed

definition boot_ok :: "'a thr_scheme \<Rightarrow> bool" where
  "boot_ok s \<longleftrightarrow> con_ok s \<and> smp_cpu_index s < MAX_SMP_CPU \<and> g_thread_rq_lock s = 0 \<and> g_yield_from s = None
     \<and> g_freelist (g_kheap s) = 0"

lemma tables_simps:
  "threads (thread_tables s) Main_thread = boot_thread"
  "threads (thread_tables s) (Pool i) = (if i < 64 then blank_thread else threads s (Pool i))"
  "g_current (thread_tables s) k = (if k = 0 then Some Main_thread else if k < 32 then None else g_current s k)"
  "g_idle_for_cpu (thread_tables s) k = (if k < 32 then None else g_idle_for_cpu s k)"
  "g_yield_from (thread_tables s) = g_yield_from s" "g_thread_rq_lock (thread_tables s) = g_thread_rq_lock s"
  "g_kheap (thread_tables s) = g_kheap s" "con_ok (thread_tables s) = con_ok s"
  "smp_cpu_index (thread_tables s) = smp_cpu_index s"
  by (simp_all add: thread_tables_def con_ok_def uart_live_def smp_cpu_index_def lapic_id_def mmio_r32_def)

lemma boot_simps [simp]:
  "tstate boot_thread = THREAD_RUNNABLE" "nxt boot_thread = Some Main_thread" "sched_token boot_thread = 0"
  "tstate blank_thread = THREAD_UNUSED" "nxt blank_thread = None"
  by (simp_all add: boot_thread_def blank_thread_def)

lemma tables_ok:
  assumes "boot_ok s"
  shows "queue_ok (thread_tables s)" "owners_ok T (thread_tables s)"
proof -
  have "rq_inv (thread_tables s) []"
    using assms by (auto simp: rq_inv_def tables_simps tq.ring_def boot_ok_def)
  then have "\<exists>xs. rq_inv (thread_tables s) xs" by blast
  moreover have "nxt (threads (thread_tables s) t) = None"
    if "valid_ref t" "tstate (threads (thread_tables s) t) = THREAD_UNUSED" for t
    using that by (cases t) (simp_all add: tables_simps valid_ref_def)
  moreover have "valid_ref t" if "c < 32" "g_current (thread_tables s) c = Some t \<or> g_idle_for_cpu (thread_tables s) c = Some t" for c t
    using that by (simp add: tables_simps valid_ref_def split: if_splits)
  ultimately show "queue_ok (thread_tables s)"
    using assms unfolding queue_ok_def boot_ok_def by (simp add: tables_simps)
  show "owners_ok T (thread_tables s)" by (auto simp: owners_ok_def tables_simps split: if_splits)
qed

lemma idle_loop_ok:
  assumes "queue_ok s" and "owners_ok T s" and "g_freelist (g_kheap s) = 0" and "distinct ks"
    and "\<forall>k \<in> set ks. k < 32 \<and> g_idle_for_cpu s k = None"
  shows "returns (idle_loop L T ks s) (\<lambda>s'. queue_ok s' \<and> owners_ok T s')"
  using assms
proof (induction ks arbitrary: s)
  case Nil
  then show ?case by simp
next
  case (Cons k ks)
  obtain xs where xs: "rq_inv s xs" using queue_okD(4) [OF Cons.prems(1)] by blast
  note con = queue_okD(1) [OF Cons.prems(1)] and lock = rq_invD(2) [OF xs]
  show ?case
  proof (cases "thread_alloc_slot s")
    case None
    have "queue_ok s' \<and> owners_ok T s'" if "prints s m s'" "con_ok s'" for m s'
      using queue_ok_cong [OF prints_same_queue [OF that(1)] that(2)] owners_ok_cong [OF prints_same_queue [OF that(1)]] Cons.prems(1,2)
      by blast
    then show ?thesis using None by (auto intro!: returns_puts con)
  next
    case (Some t)
    obtain i where i: "t = Pool i" "tstate (threads s t) = THREAD_UNUSED" using alloc_slot_Some [OF Some] by blast
    obtain p m h where k: "kmalloc L 4096 (mem s, g_kheap s) = Some (p, m, h)" and fl: "g_freelist h = 0"
      using kmalloc_empty_list [OF Cons.prems(3)] by blast
    show ?thesis
    proof (cases "p = 0")
      case True
      let ?s1 = "s\<lparr>mem := m, g_kheap := h, threads := (threads s)(t := (threads s t)\<lparr>kstack := 0\<rparr>)\<rparr>"
      let ?s = "s\<lparr>threads := (threads s)(t := (threads s t)\<lparr>kstack := 0\<rparr>)\<rparr>"
      have con1: "con_ok ?s1" using con con_ok_thr by blast
      have "rq_inv ?s xs" by (rule rq_inv_cong [OF xs]) (use lock in simp_all)
      then have q: "queue_ok ?s"
        by (rule queue_okI [OF Cons.prems(1)])
          (use con queue_okD(3,5) [OF Cons.prems(1)] in \<open>auto simp: con_ok_def uart_live_def frame_simps split: if_splits\<close>)
      have o: "owners_ok T ?s" using Cons.prems(2) unfolding owners_ok_def by auto
      have "queue_ok (set_thread t (\<lambda>x. x\<lparr>tstate := THREAD_UNUSED\<rparr>) s') \<and> owners_ok T (set_thread t (\<lambda>x. x\<lparr>tstate := THREAD_UNUSED\<rparr>) s')"
        if p: "prints ?s1 c s'" "con_ok s'" for c s'
      proof -
        have "threads s' = threads ?s1" using prints_same_queue [OF p(1)] by (simp add: same_queue_def)
        then have "(threads s')(t := (threads s' t)\<lparr>tstate := THREAD_UNUSED\<rparr>) = threads s'"
          using i(2) by (auto simp: fun_eq_iff)
        then have id: "set_thread t (\<lambda>x. x\<lparr>tstate := THREAD_UNUSED\<rparr>) s' = s'" by (simp add: set_thread_def)
        have "same_queue ?s s'" using prints_same_queue [OF p(1)] by (simp add: same_queue_def)
        then show ?thesis unfolding id using queue_ok_cong owners_ok_cong q o p(2) by blast
      qed
      then show ?thesis
        using Some k True by (auto simp: kmalloc_s_def Let_def set_thread_def [of t "\<lambda>x. x\<lparr>kstack := 0\<rparr>"] intro!: returns_map returns_puts con1)
    next
      case False
      let ?q = "(g_idle_for_cpu s)(k := Some t)" and ?ts = "insert_thread t (at_ap_idle_fn T) p k (threads s)"
      let ?s = "s\<lparr>g_idle_for_cpu := ?q, threads := ?ts\<rparr>"
      let ?s2 = "s\<lparr>mem := initial_stack T p m, g_kheap := h, g_idle_for_cpu := ?q, threads := ?ts\<rparr>"
      have t: "t \<noteq> Main_thread" using i by simp
      have comm: "(setup_initial_stack T t (set_thread t f (set_thread t g x)))\<lparr>g_idle_for_cpu := q\<rparr>
          = setup_initial_stack T t (set_thread t f (set_thread t g (x\<lparr>g_idle_for_cpu := q\<rparr>)))"
        "g_idle_for_cpu (setup_initial_stack T t (set_thread t f (set_thread t g x))) = g_idle_for_cpu x" for f g q and x :: "'a thr_scheme"
        by (simp_all add: setup_initial_stack_def set_thread_def Let_def)
      have enq: "enqueue_thread t (setup_initial_stack T t (set_thread t (\<lambda>x. x\<lparr>fn_ptr := at_ap_idle_fn T, tstate := THREAD_RUNNABLE,
          affinity_cpu := k, sched_token := NO_TOKEN\<rparr>) (set_thread t (\<lambda>x. x\<lparr>kstack := p\<rparr>)
          (s\<lparr>mem := m, g_kheap := h, g_idle_for_cpu := ?q\<rparr>)))) = Some ?s2"
        using lock t by (simp add: enqueue_new)
      have "rq_inv (s\<lparr>threads := ?ts\<rparr>) (t # xs)" by (rule rq_inv_insert [OF xs Some])
      then have "rq_inv ?s2 (t # xs)" by (simp add: rq_inv_def)
      then have q2: "queue_ok ?s2"
        by (rule queue_okI [OF Cons.prems(1)])
          (use con queue_okD(3,5) [OF Cons.prems(1)] alloc_slot_Some [OF Some] in
            \<open>auto simp: con_ok_def uart_live_def smp_cpu_index_def lapic_id_def mmio_r32_def insert_thread_def new_thread_def
              valid_ref_def split: if_splits\<close>)
      have o2: "owners_ok T ?s2"
        using Cons.prems(2) i unfolding owners_ok_def by (auto simp: insert_thread_def new_thread_def)
      have "returns (idle_loop L T ks ?s2) (\<lambda>s'. queue_ok s' \<and> owners_ok T s')"
        using Cons.prems(4,5) fl by (intro Cons.IH [OF q2 o2]) auto
      then show ?thesis
        using Some False enq k by (simp add: kmalloc_s_def Let_def comm)
    qed
  qed
qed

lemma early_init_ok:
  assumes "boot_ok s"
  shows "returns (thread_subsystem_early_init L T n s) (\<lambda>s'. queue_ok s' \<and> owners_ok T s')"
proof -
  define lim where "lim = (let l = (if n = 0 then 1 else n) in if l > MAX_SMP_CPU then MAX_SMP_CPU else l)"
  have lim: "unat lim \<le> 32" by (auto simp: lim_def Let_def word_le_nat_alt not_less)
  have ks: "distinct (map of_nat [1..<unat lim] :: u32 list)"
    using lim by (auto simp: distinct_map inj_on_def of_nat_eq_iff32)
  have "k < 32" if "k \<in> set (map of_nat [1..<unat lim] :: u32 list)" for k :: u32
    using that lim by (auto simp: word_less_nat_alt unat_of_nat32)
  then have "returns (idle_loop L T (map of_nat [1..<unat lim]) (thread_tables s)) (\<lambda>s'. queue_ok s' \<and> owners_ok T s')"
    using assms ks by (intro idle_loop_ok tables_ok) (auto simp: boot_ok_def tables_simps)
  moreover have "returns (Option.bind (serial_puts (cstr ''[VerveOS] thread: subsystem early init logical_cpus='') s1) (\<lambda>s2.
         Option.bind (serial_put_u64_hex (ucast lim) s2) (serial_puts crlf))) (\<lambda>s'. queue_ok s' \<and> owners_ok T s')"
    if "queue_ok s1 \<and> owners_ok T s1" for s1
  proof (intro returns_bind returns_puts returns_hex)
    show "con_ok s1" using that queue_okD(1) by blast
    fix s2 s3 s4
    assume p: "prints s1 (cstr ''[VerveOS] thread: subsystem early init logical_cpus='') s2" "prints s2 (hex_buf (ucast lim)) s3"
      "prints s3 crlf s4" and con: "con_ok s4"
    have "same_queue s1 s4"
      using same_queue_trans [OF prints_same_queue [OF p(1)] same_queue_trans [OF prints_same_queue [OF p(2)] prints_same_queue [OF p(3)]]] .
    then show "queue_ok s4 \<and> owners_ok T s4" using queue_ok_cong owners_ok_cong con that by blast
  qed
  ultimately show ?thesis
    unfolding thread_subsystem_early_init_def lim_def [unfolded Let_def, symmetric] Let_def
    by (intro returns_bind) (erule returns_mono, blast)
qed

section \<open>Properties\<close>


definition sample_thr :: thr where
  "sample_thr = \<lparr>io_in = \<lambda>_ _. 0x60, io_reads = 0, io_outs = [], g_serial_lock = 0,
     mem = \<lambda>_. 0, cr3 = 0x2000, cr0_pg = True, frames = sample_pmm,
     cur_pid = 1, cur_pd_phys = 0x2000, g_brk = 0x80002000, g_ufd = [],
     lapic_id_reg = 0x5000000, mmio_in = \<lambda>_ _. 0, mmio_reads = 0, mmio_outs = [], apic_base_msr = (0, 0),
     g_cpu_apic_ids = [5, 7, 2] @ replicate 29 0, g_cpu_count = 3, g_ioapic_phys = 0, g_ioapic_gsi_base = 0,
     g_irq0_gsi = 0, g_ioapic_id = 0, g_has_ioapic = False, g_hw_inited = True,
     g_cpus_online = 1, g_apic_to_logical = (replicate 256 0xFF)[5 := 0, 7 := 1, 2 := 2],
     g_tick = \<lambda>_. 0, g_need_resched = \<lambda>_. 0, g_defer_ring = \<lambda>_ _. 0, g_defer_w = \<lambda>_. 0, g_defer_r = \<lambda>_. 0,
     g_defer_overflow = \<lambda>_. 0, g_preempt_disable_depth = 0, if_flag = True,
     g_kheap = \<lparr>g_freelist = 0, g_heap_off = 0\<rparr>,
     threads = \<lambda>_. blank_thread, g_current = \<lambda>_. None, g_idle_for_cpu = \<lambda>_. None, g_thread_rq_lock = 0, g_yield_from = None\<rparr>"

lemma sample_thr_boot: "boot_ok sample_thr"
proof -
  have "smp_cpu_index sample_thr = 0" by code_simp
  moreover have "con_ok sample_thr" by (auto simp: con_ok_def uart_live_def sample_thr_def)
  ultimately show ?thesis by (simp add: boot_ok_def) (simp add: sample_thr_def)
qed


end
