(* ===== verification/Turns.thy ===== *)
theory Turns
  imports Run_Queue_Runs
begin

text \<open>
  What \<open>sched_yield\<close> and \<open>thread_spawn\<close> give: the threads of a CPU take turns in the order of
  the ring, a new thread starts in \<open>thread_trampoline\<close> on its own stack, and a thread that is
  switched back to continues with its registers.
\<close>

section \<open>Turns\<close>

text \<open>
  One turn of a CPU: the current thread calls \<open>sched_yield\<close>, and the thread switched to returns
  from its own call of \<open>sched_yield\<close>.
\<close>

definition turn :: "layout \<Rightarrow> 'a thr_scheme \<Rightarrow> 'a thr_scheme option" where
  "turn L s = Option.bind (sched_yield_enter s) (\<lambda>(r, s1). if r = None then Some s1 else sched_yield_leave L True s1)"

primrec turns :: "layout \<Rightarrow> nat \<Rightarrow> 'a thr_scheme \<Rightarrow> 'a thr_scheme option" where
  "turns L 0 s = Some s"
| "turns L (Suc n) s = Option.bind (turns L n s) (turn L)"

text \<open>The threads that CPU \<open>me\<close> may run, in the order of the ring.\<close>

definition allowed :: "u32 \<Rightarrow> (tref \<Rightarrow> thread) \<Rightarrow> tref \<Rightarrow> bool" where
  "allowed me ts t \<longleftrightarrow> affinity_cpu (ts t) = AFF_ANY \<or> affinity_cpu (ts t) = me"

definition rr_state :: "u32 \<Rightarrow> tref list \<Rightarrow> tref list \<Rightarrow> nat \<Rightarrow> 'a thr_scheme \<Rightarrow> bool" where
  "rr_state me xs ys i s \<longleftrightarrow> rq_inv s xs \<and> smp_cpu_index s = me \<and> ys = filter (allowed me (threads s)) (Main_thread # xs)
     \<and> (\<forall>t \<in> set ys. tstate (threads s t) = THREAD_RUNNABLE) \<and> i < length ys \<and> g_current s me = Some (ys ! i)
     \<and> (\<forall>t \<in> set ys. t \<noteq> ys ! i \<longrightarrow> sched_token (threads s t) = NO_TOKEN)"

lemma find_filter: "find P xs = (case filter P xs of [] \<Rightarrow> None | x # _ \<Rightarrow> Some x)"
  by (induction xs) auto

lemma rotation:
  assumes "Main # xs = as @ c # bs" and "P c" and "ys = filter P (Main # xs)" and "distinct (Main # xs)" and "i < length ys" and "ys ! i = c"
  shows "(case filter P (bs @ as) of [] \<Rightarrow> None | x # _ \<Rightarrow> Some x)
    = (if length ys = 1 then None else Some (ys ! (Suc i mod length ys)))"
proof -
  let ?a = "filter P as" and ?b = "filter P bs"
  have ys: "ys = ?a @ c # ?b" unfolding assms(3) assms(1) using assms(2) by simp
  have d: "distinct ys" unfolding assms(3) by (rule distinct_filter [OF assms(4)])
  have "ys ! length ?a = c" "length ?a < length ys" by (simp_all add: ys nth_append)
  then have i: "i = length ?a" using d assms(5,6) nth_eq_iff_index_eq by metis
  show ?thesis
  proof (cases ?b)
    case Nil
    then have "Suc i mod length ys = 0" by (simp add: ys i)
    then show ?thesis using Nil by (cases ?a) (simp_all add: ys)
  next
    case (Cons x zs)
    then have "Suc i < length ys" by (simp add: ys i)
    then have "Suc i mod length ys = Suc i" by simp
    moreover have "ys ! Suc i = x" using Cons by (simp add: ys i nth_append)
    ultimately show ?thesis using Cons by (simp add: ys)
  qed
qed

lemma turn_effect:
  assumes "rr_state me xs ys i s"
  shows "\<exists>s'. turn L s = Some s' \<and> rr_state me xs ys (Suc i mod length ys) s'"
proof -
  have inv: "rq_inv s xs" and me: "smp_cpu_index s = me" and ys: "ys = filter (allowed me (threads s)) (Main_thread # xs)"
    and run: "\<And>t. t \<in> set ys \<Longrightarrow> tstate (threads s t) = THREAD_RUNNABLE" and i: "i < length ys"
    and cur: "g_current s me = Some (ys ! i)"
    and free: "\<And>t. t \<in> set ys \<Longrightarrow> t \<noteq> ys ! i \<Longrightarrow> sched_token (threads s t) = NO_TOKEN"
    using assms unfolding rr_state_def by blast+
  let ?c = "ys ! i"
  have cy: "?c \<in> set ys" by (rule nth_mem [OF i])
  then have "?c \<in> set (Main_thread # xs)" and ac: "allowed me (threads s) ?c" unfolding ys by auto
  then obtain as bs where sp: "Main_thread # xs = as @ ?c # bs" by (meson split_list)
  have d: "distinct (Main_thread # xs)" by (rule rq_invD(3) [OF inv])
  have "filter (eligible me (threads s)) (bs @ as) = filter (allowed me (threads s)) (bs @ as)"
  proof (rule filter_cong [OF refl])
    fix t assume t: "t \<in> set (bs @ as)"
    have ne: "t \<noteq> ?c" using t d unfolding sp by auto
    have m: "t \<in> set (Main_thread # xs)" unfolding sp using t by auto
    show "eligible me (threads s) t = allowed me (threads s) t"
      using run [of t] free [of t] ne m unfolding ys eligible_def allowed_def by auto
  qed
  then have nx: "next_thread me (threads s) (bs @ as) = (if length ys = 1 then None else Some (ys ! (Suc i mod length ys)))"
    unfolding next_thread_def find_filter using rotation [OF sp ac ys d i refl] by simp
  note enter = yield_enter_effect [OF inv, unfolded me, OF cur sp, unfolded nx]
  show ?thesis
  proof (cases "length ys = 1")
    case True
    then have "turn L s = Some s" using enter by (simp add: turn_def)
    moreover have "Suc i mod length ys = i" using True i by simp
    ultimately show ?thesis using assms by simp
  next
    case False
    let ?j = "Suc i mod length ys"
    let ?n = "ys ! ?j" and ?s1 = "switched me ?c (ys ! (Suc i mod length ys)) s"
    have j: "?j < length ys" by (rule mod_less_divisor) (use i in linarith)
    have dy: "distinct ys" unfolding ys by (rule distinct_filter [OF d])
    have "?j \<noteq> i" using i False by (cases "Suc i = length ys") auto
    then have ne: "?n \<noteq> ?c" using nth_eq_iff_index_eq [OF dy j i] by simp
    define s' where "s' = ?s1\<lparr>g_yield_from := None, if_flag := True\<rparr>"
    have "thread_reap_yield_from L ?s1 = Some (?s1\<lparr>g_yield_from := None\<rparr>)"
      using run [OF cy] by (cases ?c) (simp_all add: thread_reap_yield_from_def Let_def)
    then have "turn L s = Some s'" using enter False by (simp add: turn_def sched_yield_leave_def s'_def)
    moreover have "rr_state me xs ys ?j s'"
      unfolding rr_state_def
    proof (intro conjI ballI impI)
      have "rq_inv ?s1 xs" by (rule rq_inv_switched [OF inv])
      then show "rq_inv s' xs" by (simp add: rq_inv_def s'_def)
      show "smp_cpu_index s' = me" by (simp add: s'_def frame_simps me)
      have "allowed me (threads s') = allowed me (threads s)" by (simp add: s'_def allowed_def fun_eq_iff)
      then show "ys = filter (allowed me (threads s')) (Main_thread # xs)" using ys by simp
      show "g_current s' me = Some ?n" "?j < length ys" using j by (simp_all add: s'_def)
      fix t assume t: "t \<in> set ys"
      show "tstate (threads s' t) = THREAD_RUNNABLE" using run [OF t] by (simp add: s'_def)
      show "sched_token (threads s' t) = NO_TOKEN" if "t \<noteq> ?n"
        using that free [OF t] run [OF cy] ne by (simp add: s'_def token_release_claim)
    qed
    ultimately show ?thesis by blast
  qed
qed


section \<open>The context switch\<close>

lemma ld32_st32_apart:
  assumes "4 \<le> unat (b - a)" and "unat (b - a) \<le> 4294967292"
  shows "ld32 (st32 m a v) b = ld32 m b"
proof -
  have "\<not> in_range a 4 (b + of_nat k)" if "k < 4" for k
  proof -
    have "b + of_nat k - a = (b - a) + of_nat k" by (rule add_diff_eq [symmetric, THEN trans]) simp
    then have "unat (b + of_nat k - a) = unat (b - a) + k" using assms that unat_plus32 [of "b - a" k] by presburger
    then have "4 \<le> unat (b + of_nat k - a)" using assms by linarith
    then show ?thesis by (simp only: in_range_def not_less)
  qed
  then have out: "st32 m a v (b + of_nat k) = m (b + of_nat k)" if "k < 4" for k using that st32_out by blast
  show ?thesis using out [of 0] out [of 1] out [of 2] out [of 3] by (intro ld32_cong) simp_all
qed

lemma pushes_out:
  assumes "\<not> in_range (r_esp r - 16) 16 x"
  shows "snd (snd (cpu_switch n r m)) x = m x"
proof -
  have "\<not> in_range (r_esp r - 16 + of_nat k) 4 x" if "k + 4 \<le> 16" for k
    using assms in_range_step [of "r_esp r - 16" k 4 x 16] that by auto
  from this [of 12] this [of 8] this [of 4] this [of 0]
  show ?thesis by (simp add: cpu_switch_def Let_def st32_out)
qed

definition pushed :: "cpu_regs \<Rightarrow> memory \<Rightarrow> memory" where
  "pushed r m = snd (snd (cpu_switch 0 r m))"

lemma cpu_switch_regs:
  "cpu_switch n r m = (r_esp r - 16, \<lparr>r_esp = n + 20, r_ebp = ld32 (pushed r m) (n + 12), r_ebx = ld32 (pushed r m) (n + 8),
     r_esi = ld32 (pushed r m) (n + 4), r_edi = ld32 (pushed r m) n, r_eip = ld32 (pushed r m) (n + 16)\<rparr>, pushed r m)"
  by (simp add: cpu_switch_def pushed_def Let_def)

lemma pushed_words:
  "ld32 (pushed r m) (r_esp r - 16) = r_edi r" "ld32 (pushed r m) (r_esp r - 16 + 4) = r_esi r"
  "ld32 (pushed r m) (r_esp r - 16 + 8) = r_ebx r" "ld32 (pushed r m) (r_esp r - 16 + 12) = r_ebp r"
  "ld32 (pushed r m) (r_esp r - 16 + 16) = ld32 m (r_esp r)"
  by (simp_all add: pushed_def cpu_switch_def Let_def ld32_st32_same ld32_st32_apart)

text \<open>
  C6: the context switch.  A thread that has been switched away from and whose stack words
  below its stack pointer have been left alone continues, when \<open>cpu_switch\<close> is called with the
  stack pointer saved for it, after its call of \<open>cpu_switch\<close> with its callee-saved registers.
\<close>

theorem cpu_switch_roundtrip:
  assumes "cpu_switch n r m = (sp, r1, m1)" and "same_on sp 20 m1 m2"
    and "\<forall>x. in_range sp 20 x \<longrightarrow> \<not> in_range (r_esp r2 - 16) 16 x"
  shows "fst (snd (cpu_switch sp r2 m2)) = r\<lparr>r_esp := r_esp r + 4, r_eip := ld32 m (r_esp r)\<rparr>"
proof -
  have sp: "sp = r_esp r - 16" and m1: "m1 = pushed r m" using assms(1) by (auto simp: cpu_switch_regs)
  have "same_on sp 20 m2 (pushed r2 m2)"
    using assms(3) pushes_out [of r2] by (simp add: same_on_def pushed_def)
  then have same: "same_on sp 20 (pushed r m) (pushed r2 m2)" using same_on_trans assms(2) m1 by blast
  have w: "ld32 (pushed r2 m2) (sp + of_nat k) = ld32 (pushed r m) (sp + of_nat k)" if "k + 4 \<le> 20" for k
    using ld32_same_on [OF same, of k] that by simp
  have "ld32 (pushed r2 m2) sp = r_edi r" "ld32 (pushed r2 m2) (sp + 4) = r_esi r" "ld32 (pushed r2 m2) (sp + 8) = r_ebx r"
    "ld32 (pushed r2 m2) (sp + 12) = r_ebp r" "ld32 (pushed r2 m2) (sp + 16) = ld32 m (r_esp r)"
    using w [of 0] w [of 4] w [of 8] w [of 12] w [of 16] pushed_words [of r m] by (simp_all add: sp)
  then show ?thesis by (simp add: cpu_switch_regs sp)
qed

definition sample_regs :: "u32 \<Rightarrow> cpu_regs" where
  "sample_regs sp = \<lparr>r_esp = sp, r_ebp = 1, r_ebx = 2, r_esi = 3, r_edi = 4, r_eip = 5\<rparr>"

theorem cpu_switch_roundtrip_witness:
  "fst (snd (cpu_switch 0x7FF0 (sample_regs 0x9000) (pushed (sample_regs 0x8000) (\<lambda>_. 7))))
     = (sample_regs 0x8000)\<lparr>r_esp := 0x8004, r_eip := ld32 (\<lambda>_. 7) 0x8000\<rparr>"
proof -
  have "cpu_switch 0 (sample_regs 0x8000) (\<lambda>_. 7) = (0x7FF0, fst (snd (cpu_switch 0 (sample_regs 0x8000) (\<lambda>_. 7))), pushed (sample_regs 0x8000) (\<lambda>_. 7))"
    by (simp add: cpu_switch_regs) (simp add: sample_regs_def)
  moreover have "\<forall>x. in_range 0x7FF0 20 x \<longrightarrow> \<not> in_range (r_esp (sample_regs 0x9000) - 16) 16 x"
    by (simp add: in_range_iff sample_regs_def)
  ultimately have "fst (snd (cpu_switch 0x7FF0 (sample_regs 0x9000) (pushed (sample_regs 0x8000) (\<lambda>_. 7))))
     = (sample_regs 0x8000)\<lparr>r_esp := r_esp (sample_regs 0x8000) + 4, r_eip := ld32 (\<lambda>_. 7) (r_esp (sample_regs 0x8000))\<rparr>"
    by (rule cpu_switch_roundtrip [OF _ same_on_refl])
  then show ?thesis by (simp add: sample_regs_def)
qed

section \<open>Starting a thread\<close>

lemma ld32_st32_later:
  "4 \<le> d \<Longrightarrow> d \<le> 4294967292 \<Longrightarrow> a = b + of_nat d \<Longrightarrow> ld32 (st32 m a v) b = ld32 m b"
proof -
  assume d: "4 \<le> d" "d \<le> 4294967292" "a = b + of_nat d"
  have u: "unat (of_nat d :: u32) = d" using d(2) by (intro unat_of_nat32) simp
  have "b - a = 0 - of_nat d" using d(3) by simp
  then have "unat (b - a) = 4294967296 - d"
    using d(1) u unat_sub_if_size [of 0 "of_nat d :: u32"] by (simp add: word_size word_le_nat_alt)
  then show ?thesis using d by (intro ld32_st32_apart) simp_all
qed

lemma initial_stack_words:
  "ld32 (initial_stack T p m) (p + 4076) = 0" "ld32 (initial_stack T p m) (p + 4080) = 0"
  "ld32 (initial_stack T p m) (p + 4084) = 0" "ld32 (initial_stack T p m) (p + 4088) = 0"
  "ld32 (initial_stack T p m) (p + 4092) = at_thread_trampoline T"
  by (simp_all add: initial_stack_def Let_def ld32_st32_same ld32_st32_later [of 4] ld32_st32_later [of 8]
      ld32_st32_later [of 12] ld32_st32_later [of 16] ac_simps)

lemma ld32_pushed_out:
  assumes "\<forall>x. in_range a n x \<longrightarrow> \<not> in_range (r_esp r - 16) 16 x" and "k + 4 \<le> n" and "n \<le> 4294967296"
  shows "ld32 (pushed r m) (a + of_nat k) = ld32 m (a + of_nat k)"
proof -
  have "same_on a n (pushed r m) m" using assms(1) pushes_out [of r] by (simp add: same_on_def pushed_def)
  then show ?thesis by (rule ld32_same_on [OF _ assms(2,3)])
qed

text \<open>
  C7: starting a thread.  With a free slot and a block for its stack, \<open>thread_spawn\<close> returns
  with the thread in the first free slot, right behind \<open>main_thread\<close> in the ring, runnable on
  any CPU and claimed by none; the other threads are as before.  The first switch to it, from
  any stack outside its own, enters \<open>thread_trampoline\<close> at the top of its own stack.
\<close>

theorem thread_spawn_correct:
  assumes "rq_inv s xs" and "thread_alloc_slot s = Some t" and "f \<noteq> 0"
    and "kmalloc L 4096 (mem s, g_kheap s) = Some (p, m, h)" and "p \<noteq> 0"
  shows "\<exists>s'. thread_spawn L T f s = Some s' \<and> rq_inv s' (t # xs) \<and> fn_ptr (threads s' t) = f \<and> kstack (threads s' t) = p
    \<and> (\<forall>me. eligible me (threads s') t)
    \<and> (\<forall>u. u \<noteq> t \<and> u \<noteq> Main_thread \<longrightarrow> threads s' u = threads s u) \<and> g_current s' = g_current s
    \<and> (\<forall>r. (\<forall>x. in_range p 4096 x \<longrightarrow> \<not> in_range (r_esp r - 16) 16 x) \<longrightarrow>
         fst (snd (cpu_switch (esp (threads s' t)) r (mem s')))
         = \<lparr>r_esp = p + 4096, r_ebp = 0, r_ebx = 0, r_esi = 0, r_edi = 0, r_eip = at_thread_trampoline T\<rparr>)"
proof -
  let ?s' = "s\<lparr>mem := initial_stack T p m, g_kheap := h, threads := insert_thread t f p AFF_ANY (threads s)\<rparr>"
  have t: "t \<noteq> Main_thread" using alloc_slot_Some [OF assms(2)] by auto
  have nt: "threads ?s' t = new_thread f p AFF_ANY (nxt (threads s Main_thread))" using t by (simp add: insert_thread_def)
  have "rq_inv ?s' (t # xs)" using rq_inv_insert [OF assms(1,2), of f p AFF_ANY] by (simp add: rq_inv_def)
  moreover have "fst (snd (cpu_switch (esp (threads ?s' t)) r (mem ?s')))
      = \<lparr>r_esp = p + 4096, r_ebp = 0, r_ebx = 0, r_esi = 0, r_edi = 0, r_eip = at_thread_trampoline T\<rparr>"
    if out: "\<forall>x. in_range p 4096 x \<longrightarrow> \<not> in_range (r_esp r - 16) 16 x" for r
  proof -
    let ?m = "initial_stack T p m"
    have w: "ld32 (pushed r ?m) (p + of_nat k) = ld32 ?m (p + of_nat k)" if "k + 4 \<le> 4096" for k
      by (rule ld32_pushed_out [OF out that]) simp
    have "ld32 (pushed r ?m) (p + 4076) = 0" "ld32 (pushed r ?m) (p + 4080) = 0" "ld32 (pushed r ?m) (p + 4084) = 0"
      "ld32 (pushed r ?m) (p + 4088) = 0" "ld32 (pushed r ?m) (p + 4092) = at_thread_trampoline T"
      using w [of 4076] w [of 4080] w [of 4084] w [of 4088] w [of 4092] initial_stack_words [of T p m] by simp_all
    moreover have "esp (threads ?s' t) = p + 4076" unfolding nt by (simp add: new_thread_def)
    ultimately show ?thesis by (simp add: cpu_switch_regs add.assoc)
  qed
  moreover have "threads ?s' u = threads s u" if "u \<noteq> t" "u \<noteq> Main_thread" for u using that by (simp add: insert_thread_def)
  moreover have "eligible me (threads ?s') t" for me unfolding eligible_def nt by (simp add: new_thread_def)
  moreover have "fn_ptr (threads ?s' t) = f" "kstack (threads ?s' t) = p" unfolding nt by (simp_all add: new_thread_def)
  ultimately show ?thesis
    using spawn_effect [OF rq_invD(2) [OF assms(1)] assms(2-5), of T] by (intro exI [of _ ?s']) simp
qed

definition sample_syms :: text_syms where
  "sample_syms = \<lparr>at_ap_idle_fn = 0x101000, at_thread_trampoline = 0x102000, at_worker_a = 0x103000, at_worker_b = 0x104000\<rparr>"

definition sample_started :: thr where
  "sample_started = thread_tables sample_thr"

lemma sample_started_facts:
  "rq_inv sample_started []" "thread_alloc_slot sample_started = Some (Pool 0)"
  "kmalloc sample_arena 4096 (mem sample_started, g_kheap sample_started) \<noteq> None"
proof -
  show "rq_inv sample_started []"
    by (auto simp: sample_started_def rq_inv_def tables_simps tq.ring_def) (simp add: sample_thr_def)
  show "thread_alloc_slot sample_started = Some (Pool 0)"
    by (simp add: thread_alloc_slot_def sample_started_def first_index.simps [of _ 0] tables_simps)
  show "kmalloc sample_arena 4096 (mem sample_started, g_kheap sample_started) \<noteq> None"
    using kmalloc_empty_list [of "g_kheap sample_started" sample_arena 4096 "mem sample_started"]
    by (simp add: sample_started_def tables_simps) (auto simp: sample_thr_def)
qed

lemma sample_stack:
  "kmalloc sample_arena 4096 (mem sample_started, g_kheap sample_started)
    = Some (0x110010, st32 (mem sample_started) 0x110000 4112, \<lparr>g_freelist = 0, g_heap_off = 4112\<rparr>)"
proof -
  have h: "g_kheap sample_started = \<lparr>g_freelist = 0, g_heap_off = 0\<rparr>" by (simp add: sample_started_def tables_simps sample_thr_def)
  have "heap_search m need None 0 = Some None" for m need by (subst heap_search.simps) simp
  then show ?thesis unfolding h by (simp add: kmalloc_def Let_def heap_align_up_def sample_arena_def)
qed

theorem thread_spawn_correct_witness:
  "\<exists>s'. thread_spawn sample_arena sample_syms 0x103000 sample_started = Some s' \<and> rq_inv s' [Pool 0]
    \<and> kstack (threads s' (Pool 0)) = 0x110010"
  using thread_spawn_correct [OF sample_started_facts(1,2) _ sample_stack, of "0x103000" sample_syms] by auto

text \<open>Two threads on the boot CPU.\<close>

definition sample_two :: thr where
  "sample_two = sample_started\<lparr>threads := insert_thread (Pool 0) 0x103000 0x110010 AFF_ANY (threads sample_started)\<rparr>"

lemma sample_two_rr: "rr_state 0 [Pool 0] [Main_thread, Pool 0] 0 sample_two"
proof -
  have "rq_inv sample_two [Pool 0]" unfolding sample_two_def by (rule rq_inv_insert [OF sample_started_facts(1,2)])
  moreover have "smp_cpu_index sample_two = smp_cpu_index sample_thr"
    by (simp add: sample_two_def sample_started_def frame_simps tables_simps)
  moreover have "smp_cpu_index sample_thr = 0" by code_simp
  moreover have "threads sample_two Main_thread = boot_thread\<lparr>nxt := Some (Pool 0)\<rparr>"
    "threads sample_two (Pool 0) = new_thread 0x103000 0x110010 AFF_ANY (Some Main_thread)"
    by (simp_all add: sample_two_def sample_started_def insert_thread_def tables_simps)
  moreover have "g_current sample_two 0 = Some Main_thread" by (simp add: sample_two_def sample_started_def tables_simps)
  ultimately show ?thesis by (simp add: rr_state_def allowed_def boot_thread_def new_thread_def)
qed


section \<open>What other CPUs see between the lock and the switch\<close>

text \<open>
  C35: the window of a context switch.  When \<open>sched_yield\<close> has released the lock of the queue it
  still has to call \<open>cpu_switch\<close> on the old thread's stack.  In between the old thread, if it is
  runnable, can already be claimed by any CPU it may run on, with the stack pointer of an
  earlier switch; and if it is a zombie, the next call of \<open>thread_reap_yield_from\<close>, by any CPU,
  hands its stack to the heap and its slot to \<open>thread_spawn\<close>.
\<close>

theorem yield_exposes_old_thread:
  assumes "queue_ok s" and "sched_yield_enter s = Some (Some (old, nx), s')"
  shows "g_thread_rq_lock s' = 0 \<and> esp (threads s' old) = esp (threads s old)
    \<and> (tstate (threads s old) = THREAD_RUNNABLE \<longrightarrow>
         (\<forall>d. allowed d (threads s) old \<longrightarrow> eligible d (threads s') old))
    \<and> (tstate (threads s old) = THREAD_ZOMBIE \<and> old \<noteq> Main_thread \<and> kstack (threads s old) \<noteq> 0 \<longrightarrow>
         (\<exists>s''. thread_reap_yield_from L s' = Some s'' \<and> tstate (threads s'' old) = THREAD_UNUSED
            \<and> (mem s'', g_kheap s'') = kfree L (kstack (threads s old)) (mem s', g_kheap s')))"
proof (cases rule: enter_cases [OF assms])
  case (2 cur n)
  have c: "cur = old" "n = nx" using 2(2) by simp_all
  note s' = 2(1) [unfolded c]
  have q: "queue_ok s'" by (rule queue_ok_enter [OF assms])
  obtain xs where xs: "rq_inv s' xs" using queue_okD(4) [OF q] by blast
  have "eligible d (threads s') old" if "tstate (threads s old) = THREAD_RUNNABLE" "allowed d (threads s) old" for d
    using that 2(7) by (auto simp: eligible_def allowed_def s' c token_release_claim)
  moreover have "\<exists>s''. thread_reap_yield_from L s' = Some s'' \<and> tstate (threads s'' old) = THREAD_UNUSED
      \<and> (mem s'', g_kheap s'') = kfree L (kstack (threads s old)) (mem s', g_kheap s')"
    if z: "tstate (threads s old) = THREAD_ZOMBIE" "old \<noteq> Main_thread" "kstack (threads s old) \<noteq> 0"
  proof -
    obtain i where i: "old = Pool i" using z(2) by (cases old) auto
    have "i < 64" using 2(5) i c by (simp add: valid_ref_def)
    then have "Pool i \<in> set xs" using rq_invD(4) [OF xs, of i] z(1) i by (simp add: s')
    then obtain us ws where sp: "xs = us @ Pool i # ws" by (meson split_list)
    have y: "g_yield_from s' = Some (Pool i)" using i by (simp add: s')
    have st: "tstate (threads s' (Pool i)) = THREAD_ZOMBIE" "kstack (threads s' (Pool i)) = kstack (threads s old)"
      "kstack (threads s' (Pool i)) \<noteq> 0" using z i by (simp_all add: s')
    from reap_effect [OF xs y st(1,3) sp, of L] show ?thesis
      using st(2) i by (simp add: kfree_s_def split: prod.split)
  qed
  ultimately show ?thesis using rq_invD(2) [OF xs] by (simp add: s')
qed simp

theorem yield_exposes_old_thread_witness:
  "\<exists>s'. sched_yield_enter sample_two = Some (Some (Main_thread, Pool 0), s') \<and> eligible 0 (threads s') Main_thread"
proof -
  have q0: "queue_ok sample_started" "owners_ok sample_syms sample_started"
    unfolding sample_started_def by (rule tables_ok [OF sample_thr_boot])+
  note sp = spawn_effect [OF rq_invD(2) [OF sample_started_facts(1)] sample_started_facts(2) _ sample_stack, of "0x103000" sample_syms, simplified]
  have "con_ok sample_two" using queue_okD(1) [OF q0(1)] by (simp add: sample_two_def con_ok_def uart_live_def)
  then have q: "queue_ok sample_two"
    by (rule queue_ok_cong [OF _ _ spawn_keeps [OF q0 sp, THEN conjunct1], rotated]) (simp add: same_queue_def sample_two_def)
  note rr = sample_two_rr [unfolded rr_state_def]
  have inv: "rq_inv sample_two [Pool 0]" and me: "smp_cpu_index sample_two = 0" and cur: "g_current sample_two 0 = Some Main_thread"
    using rr by simp_all
  have "eligible 0 (threads sample_two) (Pool 0)"
    by (simp add: eligible_def sample_two_def sample_started_def insert_thread_def new_thread_def tables_simps)
  then have e: "sched_yield_enter sample_two = Some (Some (Main_thread, Pool 0), switched 0 Main_thread (Pool 0) sample_two)"
    using yield_enter_effect [OF inv, of Main_thread "[]" "[Pool 0]"] me cur by (simp add: next_thread_def)
  have m: "threads sample_two Main_thread = boot_thread\<lparr>nxt := Some (Pool 0)\<rparr>"
    by (simp add: sample_two_def sample_started_def insert_thread_def tables_simps)
  have "tstate (threads sample_two Main_thread) = THREAD_RUNNABLE" "allowed 0 (threads sample_two) Main_thread"
    unfolding allowed_def m by (simp_all add: boot_thread_def)
  with yield_exposes_old_thread [OF q e, of sample_arena] e show ?thesis by blast
qed

end
