(* ===== verification/Interrupts.thy ===== *)
theory Interrupts
  imports Pic_Pit Turns
begin

text \<open>
  \<open>kernel/syscall.c\<close>, \<open>kernel/interrupt.c\<close> and the entry stubs \<open>arch/i386/irq_asm.S\<close>: system
  calls, device interrupts and exceptions.  Functions of the code that do not return (they
  halt the CPU) end in \<open>Halts\<close>.
\<close>

record irq = thr +
  g_timer_lapic_eoi :: bool

datatype ('f, 's) outcome = Resumes 'f 's | Halts 's

text \<open>The struct \<open>verve_exc_frame\<close> of the i386 build, its fields in the order of their addresses.\<close>

record exc_frame =
  f_eax :: u32
  f_ecx :: u32
  f_edx :: u32
  f_ebx :: u32
  f_esp_old :: u32
  f_ebp :: u32
  f_esi :: u32
  f_edi :: u32
  f_vec :: u32
  f_err :: u32
  f_eip :: u32
  f_cs :: u32
  f_eflags :: u32

section \<open>System calls\<close>

abbreviation (input) SYS_WRITE_MAX :: u32 where "SYS_WRITE_MAX \<equiv> 512"
abbreviation (input) SYS_WRITE :: u32 where "SYS_WRITE \<equiv> 1"
abbreviation (input) SYS_GETPID :: u32 where "SYS_GETPID \<equiv> 2"
abbreviation (input) SYS_EXIT :: u32 where "SYS_EXIT \<equiv> 3"
abbreviation (input) SYS_OPEN :: u32 where "SYS_OPEN \<equiv> 5"
abbreviation (input) SYS_READ :: u32 where "SYS_READ \<equiv> 6"
abbreviation (input) SYS_CLOSE :: u32 where "SYS_CLOSE \<equiv> 7"
abbreviation (input) SYS_BRK :: u32 where "SYS_BRK \<equiv> 45"
abbreviation (input) SYS_ENOSYS :: u32 where "SYS_ENOSYS \<equiv> 38"

text \<open>The loop of \<open>sys_write\<close>, \<open>left\<close> bytes to go; a byte that is not mapped faults (\<open>None\<close>).\<close>

fun write_loop :: "u32 \<Rightarrow> u32 \<Rightarrow> nat \<Rightarrow> 'a vm_scheme \<Rightarrow> 'a vm_scheme option" where
  "write_loop buf_va i 0 s = Some s"
| "write_loop buf_va i (Suc left) s =
     (case vload s (buf_va + i) of None \<Rightarrow> None
      | Some c \<Rightarrow> Option.bind (serial_putc c s) (write_loop buf_va (i + 1) left))"

definition sys_write :: "u32 \<Rightarrow> u32 \<Rightarrow> u32 \<Rightarrow> 'a vm_scheme \<Rightarrow> (u32 \<times> 'a vm_scheme) option" where
  "sys_write fd buf_va len s =
     (if fd \<noteq> 1 then Some (- 5, s)
      else if len > SYS_WRITE_MAX then Some (- 22, s)
      else case paging_user_range_ok buf_va len False s of None \<Rightarrow> None
        | Some ok \<Rightarrow> if \<not> ok then Some (- 14, s)
            else map_option (\<lambda>s'. (len, s')) (write_loop buf_va 0 (unat len) s))"

definition sys_exit :: "u32 \<Rightarrow> 'a irq_scheme \<Rightarrow> 'a irq_scheme option" where
  "sys_exit code s =
     Option.bind (serial_puts (cstr ''[VerveOS] SYS_EXIT code='') s) (\<lambda>s1.
     Option.bind (serial_put_u64_hex (ucast code) s1) (\<lambda>s2.
     map_option (\<lambda>s3. s3\<lparr>if_flag := False\<rparr>) (serial_puts crlf s2)))"

definition syscall_invoke :: "exc_frame \<Rightarrow> 'a irq_scheme \<Rightarrow> (exc_frame, 'a irq_scheme) outcome option" where
  "syscall_invoke f s =
     (let n = f_eax f; ret = (\<lambda>(out, s'). Resumes (f\<lparr>f_eax := out\<rparr>) s')
      in if n = SYS_GETPID then Some (ret (verve_proc_current_pid s, s))
         else if n = SYS_WRITE then map_option ret (sys_write (f_ebx f) (f_ecx f) (f_edx f) s)
         else if n = SYS_EXIT then map_option Halts (sys_exit (f_ebx f) s)
         else if n = SYS_OPEN then map_option ret (verve_vfs_open_u (f_ebx f) s)
         else if n = SYS_READ then map_option ret (verve_vfs_read_u (f_ebx f) (f_ecx f) (f_edx f) s)
         else if n = SYS_CLOSE then Some (ret (0, verve_vfs_close_u (f_ebx f) s))
         else if n = SYS_BRK then Some (ret (verve_proc_sys_brk (f_ebx f) s))
         else Some (ret (- SYS_ENOSYS, s)))"

section \<open>Interrupts\<close>

definition irq_timer_set_lapic_eoi :: "bool \<Rightarrow> 'a irq_scheme \<Rightarrow> 'a irq_scheme" where
  "irq_timer_set_lapic_eoi on s = s\<lparr>g_timer_lapic_eoi := on\<rparr>"

definition verve_irq_dispatch :: "exc_frame \<Rightarrow> 'a irq_scheme \<Rightarrow> (exc_frame, 'a irq_scheme) outcome option" where
  "verve_irq_dispatch f s =
     (let v = f_vec f
      in if v = 128 then syscall_invoke f s
         else if v = 64 then map_option (\<lambda>s1. Resumes f (lapic_eoi s1)) (sched_timer_tick s)
         else if v \<ge> 32 \<and> v < 48 then
           (let irq = (ucast (v - 32) :: u8)
            in map_option (\<lambda>s1. Resumes f (if g_timer_lapic_eoi s1 then lapic_eoi s1 else pic_send_eoi irq s1))
                 (if irq = 0 then sched_timer_tick s else Some s))
         else map_option Halts (serial_puts (cstr ''[VerveOS] irq: unexpected vector'' @ crlf) s))"

text \<open>\<open>cr2\<close> is the value the CPU's register holds.\<close>

definition verve_exc_dispatch :: "u32 \<Rightarrow> exc_frame \<Rightarrow> 'a con_scheme \<Rightarrow> 'a con_scheme option" where
  "verve_exc_dispatch cr2 f s =
     Option.bind (serial_puts (crlf @ cstr ''[VerveOS] CPU exception vec=0x'') s) (\<lambda>s1.
     Option.bind (serial_put_u64_hex (ucast (f_vec f)) s1) (\<lambda>s2.
     Option.bind (serial_puts (cstr '' err=0x'') s2) (\<lambda>s3.
     Option.bind (serial_put_u64_hex (ucast (f_err f)) s3) (\<lambda>s4.
     Option.bind (serial_puts crlf s4) (\<lambda>s5.
     Option.bind (serial_puts (cstr ''[VerveOS] faulting EIP=0x'') s5) (\<lambda>s6.
     Option.bind (serial_put_u64_hex (ucast (f_eip f)) s6) (\<lambda>s7.
     Option.bind (serial_puts (cstr '' CS=0x'') s7) (\<lambda>s8.
     Option.bind (serial_put_u64_hex (ucast (f_cs f)) s8) (\<lambda>s9.
     Option.bind (serial_puts crlf s9) (\<lambda>s10.
     Option.bind (if f_vec f = 14 then
         Option.bind (serial_puts (cstr ''[VerveOS] #PF CR2=0x'') s10) (\<lambda>t1.
         Option.bind (serial_put_u64_hex (ucast cr2) t1) (serial_puts crlf))
       else Some s10) (serial_puts (cstr ''[VerveOS] halted after exception'' @ crlf))))))))))))"

section \<open>The entry stubs\<close>

text \<open>
  \<open>irq_\<close>\<open>n\<close> clears the interrupt flag, pushes an error code 0 and the vector on top of what the
  CPU has pushed, and goes to \<open>irq_common\<close>: \<open>pusha\<close> pushes \<open>eax\<close>, \<open>ecx\<close>, \<open>edx\<close>, \<open>ebx\<close>, \<open>esp\<close>, \<open>ebp\<close>,
  \<open>esi\<close>, \<open>edi\<close> in this order, so \<open>edi\<close> has the lowest address, which is the one passed to
  \<open>verve_irq_dispatch\<close>; \<open>popa\<close> reads the words back (and skips \<open>esp\<close>).
\<close>

record gregs =
  g_eax :: u32
  g_ecx :: u32
  g_edx :: u32
  g_ebx :: u32
  g_esp :: u32
  g_ebp :: u32
  g_esi :: u32
  g_edi :: u32

definition pusha :: "gregs \<Rightarrow> u32 list" where
  "pusha r = rev [g_eax r, g_ecx r, g_edx r, g_ebx r, g_esp r, g_ebp r, g_esi r, g_edi r]"

definition popa :: "u32 list \<Rightarrow> gregs \<Rightarrow> gregs" where
  "popa ws r = r\<lparr>g_edi := ws ! 0, g_esi := ws ! 1, g_ebp := ws ! 2, g_ebx := ws ! 4, g_edx := ws ! 5, g_ecx := ws ! 6, g_eax := ws ! 7\<rparr>"

text \<open>The struct is laid over the words of the stack.\<close>

definition frame_of :: "u32 list \<Rightarrow> exc_frame" where
  "frame_of ws = \<lparr>f_eax = ws ! 0, f_ecx = ws ! 1, f_edx = ws ! 2, f_ebx = ws ! 3, f_esp_old = ws ! 4, f_ebp = ws ! 5,
     f_esi = ws ! 6, f_edi = ws ! 7, f_vec = ws ! 8, f_err = ws ! 9, f_eip = ws ! 10, f_cs = ws ! 11, f_eflags = ws ! 12\<rparr>"

definition words_of :: "exc_frame \<Rightarrow> u32 list" where
  "words_of f = [f_eax f, f_ecx f, f_edx f, f_ebx f, f_esp_old f, f_ebp f, f_esi f, f_edi f, f_vec f, f_err f, f_eip f, f_cs f, f_eflags f]"

definition irq_entry :: "u32 \<Rightarrow> gregs \<Rightarrow> u32 \<Rightarrow> u32 \<Rightarrow> u32 \<Rightarrow> 'a irq_scheme \<Rightarrow> (gregs, 'a irq_scheme) outcome option" where
  "irq_entry vec r eip cs eflags s =
     map_option (\<lambda>out. case out of Halts s' \<Rightarrow> Halts s'
         | Resumes f s' \<Rightarrow> Resumes (popa (words_of f) r) (s'\<lparr>if_flag := bit (f_eflags f) 9\<rparr>))
       (verve_irq_dispatch (frame_of (pusha r @ [vec, 0, eip, cs, eflags])) (s\<lparr>if_flag := False\<rparr>))"

section \<open>Writing\<close>

lemma vload_prints: "prints s m s' \<Longrightarrow> vload s' x = vload s x" for s :: "'a vm_scheme"
  by (auto simp: prints_def vload_def vtranslate_def)

lemma write_loop_prints:
  fixes s :: "'a vm_scheme"
  assumes "con_ok s" and "\<And>k. k < left \<Longrightarrow> vload s (buf + (i + of_nat k)) = Some (g k)"
  shows "returns (write_loop buf i left s) (\<lambda>s'. prints s (map g [0..<left]) s')"
  using assms
proof (induction left arbitrary: i g s)
  case 0
  then show ?case by simp
next
  case (Suc left)
  have c: "vload s (buf + i) = Some (g 0)" using Suc.prems(2) [of 0] by simp
  have step: "returns (write_loop buf (i + 1) left s1) (\<lambda>s'. prints s (map g [0..<Suc left]) s')"
    if p: "prints s [g 0] s1" "con_ok s1" for s1
  proof -
    have "vload s1 (buf + (i + 1 + of_nat k)) = Some (g (Suc k))" if "k < left" for k
      using Suc.prems(2) [of "Suc k"] that vload_prints [OF p(1)] by (simp add: ac_simps)
    then have "returns (write_loop buf (i + 1) left s1) (\<lambda>s'. prints s1 (map (\<lambda>k. g (Suc k)) [0..<left]) s')"
      by (rule Suc.IH [OF p(2)])
    then show ?thesis
    proof (rule returns_mono)
      fix s' assume "prints s1 (map (\<lambda>k. g (Suc k)) [0..<left]) s'"
      from prints_trans [OF p(1) this] show "prints s (map g [0..<Suc left]) s'"
        by (simp add: map_upt_Suc del: upt_Suc)
    qed
  qed
  have "returns (Option.bind (serial_putc (g 0) s) (write_loop buf (i + 1) left)) (\<lambda>s'. prints s (map g [0..<Suc left]) s')"
    by (rule returns_bind, rule returns_putc [OF Suc.prems(1)]) (rule step)
  then show ?case by (simp add: c del: upt_Suc)
qed

lemma user_range_load:
  assumes "user_good s" and "paging_user_range_ok va n False s = Some True" and "i < unat n"
  shows "vload s (va + of_nat i) = Some (user_byte s (va + of_nat i))"
proof -
  obtain pa where "vtranslate s (va + of_nat i) = Some pa" using umem.check_load_ok [OF assms] by blast
  then show ?thesis by (simp add: vload_def user_byte_def)
qed

definition user_range :: "'a vm_scheme \<Rightarrow> u32 \<Rightarrow> u32 \<Rightarrow> bool" where
  "user_range s va n \<longleftrightarrow> n = 0 \<or> unat va + unat n \<le> 0xFFFFF000
     \<and> (\<forall>i<unat n. page_user_ok (mem s) (paging_get_cr3 s) False (va + of_nat i))"

text \<open>
  C27: \<open>sys_write\<close> returns.  It refuses descriptors other than 1 (-5), more than 512 bytes (-22)
  and buffers that are not user memory (-14), each without an effect; otherwise the result is
  the length and the console shows exactly the bytes of the buffer.
\<close>

theorem sys_write_correct:
  assumes "con_ok s" and "user_good s"
  shows "\<exists>r s'. sys_write fd buf len s = Some (r, s')
    \<and> (if fd \<noteq> 1 then r = - 5 \<and> s' = s
       else if unat len > 512 then r = - 22 \<and> s' = s
       else if \<not> user_range s buf len then r = - 14 \<and> s' = s
       else r = len \<and> prints s (map (\<lambda>i. user_byte s (buf + of_nat i)) [0..<unat len]) s')"
proof -
  have ok: "paging_user_range_ok buf len False s = Some (user_range s buf len)"
    unfolding user_range_def by (rule range_answer [OF assms(2)])
  have big: "len > SYS_WRITE_MAX \<longleftrightarrow> unat len > 512" by (simp add: word_less_nat_alt)
  show ?thesis
  proof (cases "fd = 1 \<and> \<not> unat len > 512 \<and> user_range s buf len")
    case True
    have "vload s (buf + (0 + of_nat k)) = Some (user_byte s (buf + of_nat k))" if "k < unat len" for k
      using user_range_load [OF assms(2), of buf len k] ok True that by simp
    from write_loop_prints [OF assms(1) this] obtain s'
      where "write_loop buf 0 (unat len) s = Some s'" "prints s (map (\<lambda>i. user_byte s (buf + of_nat i)) [0..<unat len]) s'"
      by (auto simp: returns_def)
    then show ?thesis using True ok big by (simp add: sys_write_def)
  next
    case False
    then show ?thesis using ok big by (auto simp: sys_write_def)
  qed
qed

theorem sys_write_correct_witness:
  "\<exists>s'. sys_write 1 0x80000000 3 (sample_user [72, 105, 33]) = Some (3, s') \<and> sent COM1_DATA s' = [72, 105, 33]"
proof -
  let ?s = "sample_user [72, 105, 33]"
  have st: "length [72, 105, 33 :: u8] \<le> 4096" "mem ?s = sample_user_mem [72, 105, 33]" "cr3 ?s = 0x2000" "cr0_pg ?s"
    by (simp_all add: sample_user_def sample_proc_def)
  have con: "con_ok ?s" by (auto simp: con_ok_def uart_live_def sample_user_def sample_proc_def)
  have b: "page_of 0x80000000 = 0x80000000" by (simp add: page_of_def)
  have "page_user_ok (mem ?s) (paging_get_cr3 ?s) False (0x80000000 + of_nat i)" if "i < 3" for i
    using sample_user_ok(1) [OF st] page_plus [OF b, of i] that by simp
  then have r: "user_range ?s 0x80000000 3" by (simp add: user_range_def)
  have u: "user_byte ?s (0x80000000 + of_nat i) = [72, 105, 33] ! i" if "i < 3" for i
    using sample_user_load [OF st, of i] that by (simp add: user_byte_def)
  have bytes: "map (\<lambda>i. user_byte ?s (0x80000000 + of_nat i)) [0..<unat (3 :: u32)] = [72, 105, 33]"
    using u [of 0] u [of 1] u [of 2] by (simp add: upt_rec)
  have "sent COM1_DATA ?s = []" by (simp add: sent_def sample_user_def sample_proc_def)
  moreover obtain s' where "sys_write 1 0x80000000 3 ?s = Some (3, s')" "prints ?s [72, 105, 33] s'"
    using sys_write_correct [OF con sample_user_good [OF st], of 1 "0x80000000" 3] r unfolding bytes by auto
  ultimately show ?thesis using prints_sent [of ?s "[72, 105, 33]" s'] by auto
qed

section \<open>Device interrupts\<close>

definition lapic_eois :: "'a irq_scheme \<Rightarrow> 'a irq_scheme \<Rightarrow> nat \<Rightarrow> bool" where
  "lapic_eois s s' n \<longleftrightarrow> mmio_outs s' = mmio_outs s @ replicate n (LAPIC_DEFAULT_BASE + LAPIC_EOI, 0)"

definition pic_eois :: "'a irq_scheme \<Rightarrow> 'a irq_scheme \<Rightarrow> nat \<Rightarrow> nat \<Rightarrow> bool" where
  "pic_eois s s' n m \<longleftrightarrow> sent PIC1_CMD s' = sent PIC1_CMD s @ replicate n 0x20 \<and> sent PIC2_CMD s' = sent PIC2_CMD s @ replicate m 0x20"

lemma words_frame: "words_of (frame_of (pusha r @ [v, 0, eip, cs, fl])) = pusha r @ [v, 0, eip, cs, fl]"
  by (simp add: words_of_def frame_of_def pusha_def)

lemma popa_pusha: "popa (pusha r @ ws) r = r"
  by (simp add: popa_def pusha_def)

lemma frame_vec: "f_vec (frame_of (pusha r @ [v, 0, eip, cs, fl])) = v" "f_eflags (frame_of (pusha r @ [v, 0, eip, cs, fl])) = fl"
  by (simp_all add: frame_of_def pusha_def)

lemma ticked_outs: "mmio_outs (ticked s) = mmio_outs s" "io_outs (ticked s) = io_outs s" "g_timer_lapic_eoi (ticked s) = g_timer_lapic_eoi s"
    for s :: "'a irq_scheme"
  by (simp_all add: ticked_def Let_def defer_push_tick_def)

text \<open>The tick of an interrupt, whatever it prints, leaves the controllers alone.\<close>

lemma tick_irq:
  fixes s :: "'a irq_scheme"
  assumes "con_ok s"
  shows "returns (sched_timer_tick s) (\<lambda>s'. mmio_outs s' = mmio_outs s \<and> pic_eois s s' 0 0 \<and> g_timer_lapic_eoi s' = g_timer_lapic_eoi s
    \<and> g_tick s' = (g_tick s)(sched_cpu_ix s := g_tick s (sched_cpu_ix s) + 1) \<and> con_ok s'
    \<and> sched_cpu_ix s' = sched_cpu_ix s)"
proof (rule tick_returns [OF assms])
  fix s' assume p: "prints (ticked s) (tick_msg s) s'" and con: "con_ok s'"
  obtain n where s': "s' = (ticked s)\<lparr>io_reads := n, io_outs := io_outs s @ map (\<lambda>c. (COM1_DATA, c)) (tick_msg s)\<rparr>"
    using p by (auto simp: prints_def ticked_outs)
  have "filter (\<lambda>e. fst e = q) (map (\<lambda>c. (COM1_DATA, c)) m) = []" if "q \<noteq> COM1_DATA" for q and m :: "u8 list"
    using that by (auto simp: filter_empty_conv)
  then have "pic_eois s s' 0 0" by (simp add: pic_eois_def sent_def s')
  moreover have ix: "sched_cpu_ix s' = sched_cpu_ix s"
    by (simp add: s' ticked_def Let_def defer_push_tick_def sched_cpu_ix_def smp_cpu_index_def lapic_id_def mmio_r32_def)
  ultimately have "pic_eois s s' 0 0" "sched_cpu_ix s' = sched_cpu_ix s" by simp_all
  then show "mmio_outs s' = mmio_outs s \<and> pic_eois s s' 0 0 \<and> g_timer_lapic_eoi s' = g_timer_lapic_eoi s
    \<and> g_tick s' = (g_tick s)(sched_cpu_ix s := g_tick s (sched_cpu_ix s) + 1) \<and> con_ok s'
    \<and> sched_cpu_ix s' = sched_cpu_ix s"
    using con prints_sched(1) [OF p] ix by (simp add: s' ticked_outs ticked_reads)
qed

text \<open>
  C28: device interrupts.  An interrupt with vector 32 to 47 or 64 returns to the interrupted
  code with all registers and the interrupt flag as they were.  Vectors 32 and 64 count one
  tick of the CPU.  Exactly one end of interrupt is signalled, to the local APIC (vector 64, and
  the others once the LAPIC timer is in use) or to the 8259 that raised it, the master
  included when it was the slave.
\<close>

theorem irq_acknowledged:
  assumes "con_ok s" and "(32 \<le> unat v \<and> unat v < 48) \<or> v = 64"
  shows "\<exists>s'. irq_entry v r eip cs fl s = Some (Resumes r s') \<and> if_flag s' = bit fl 9
    \<and> g_tick s' = (if v = 32 \<or> v = 64 then (g_tick s)(sched_cpu_ix s := g_tick s (sched_cpu_ix s) + 1) else g_tick s)
    \<and> (if v = 64 \<or> g_timer_lapic_eoi s then lapic_eois s s' 1 \<and> pic_eois s s' 0 0
       else lapic_eois s s' 0 \<and> pic_eois s s' 1 (if unat v < 40 then 0 else 1))"
proof -
  define s0 where "s0 = s\<lparr>if_flag := False\<rparr>"
  let ?f = "frame_of (pusha r @ [v, 0, eip, cs, fl])"
  have con: "con_ok s0" using assms(1) by (simp add: s0_def con_ok_def uart_live_def)
  have s0: "mmio_outs s0 = mmio_outs s" "sent q s0 = sent q s" "g_tick s0 = g_tick s" "sched_cpu_ix s0 = sched_cpu_ix s"
      "g_timer_lapic_eoi s0 = g_timer_lapic_eoi s" for q
    by (simp_all add: s0_def sent_def sched_cpu_ix_def smp_cpu_index_def lapic_id_def mmio_r32_def)
  have entry: "irq_entry v r eip cs fl s = Some (Resumes r (s1\<lparr>if_flag := bit fl 9\<rparr>))"
    if "verve_irq_dispatch ?f s0 = Some (Resumes ?f s1)" for s1
    using that by (simp add: irq_entry_def s0_def words_frame popa_pusha frame_vec)
  obtain t where t: "sched_timer_tick s0 = Some t" "mmio_outs t = mmio_outs s" "pic_eois s0 t 0 0"
      "g_timer_lapic_eoi t = g_timer_lapic_eoi s" "g_tick t = (g_tick s)(sched_cpu_ix s := g_tick s (sched_cpu_ix s) + 1)"
    using tick_irq [OF con] s0 by (auto simp: returns_def)
  have ts: "sent PIC1_CMD t = sent PIC1_CMD s" "sent PIC2_CMD t = sent PIC2_CMD s" using t(3) s0 by (simp_all add: pic_eois_def)
  show ?thesis
  proof (cases "v = 64")
    case True
    let ?s1 = "lapic_eoi t"
    have "verve_irq_dispatch ?f s0 = Some (Resumes ?f ?s1)" using True t(1) by (simp add: verve_irq_dispatch_def frame_vec)
    from entry [OF this] show ?thesis
      using True t ts
      by (intro exI [of _ "?s1\<lparr>if_flag := bit fl 9\<rparr>"]) (simp add: lapic_eois_def pic_eois_def lapic_eoi_def mmio_w32_def mmio_write_def sent_def)
  next
    case False
    let ?irq = "ucast (v - 32) :: u8"
    have rng: "32 \<le> unat v" "unat v < 48" using False assms(2) by auto
    have "unat (v - 32) = unat v - 32" using rng by (simp add: unat_minus word_le_nat_alt)
    then have irq: "unat ?irq = unat v - 32" using rng by (simp add: unat_ucast_u32_u8)
    have irq0: "?irq = 0 \<longleftrightarrow> v = 32" using irq rng by (simp add: word_unat_eq_iff)
    have irq8: "?irq \<ge> 8 \<longleftrightarrow> \<not> unat v < 40" using irq rng by (auto simp: word_le_nat_alt)
    define u where "u = (if v = 32 then t else s0)"
    have u: "mmio_outs u = mmio_outs s" "sent PIC1_CMD u = sent PIC1_CMD s" "sent PIC2_CMD u = sent PIC2_CMD s"
        "g_timer_lapic_eoi u = g_timer_lapic_eoi s"
        "g_tick u = (if v = 32 then (g_tick s)(sched_cpu_ix s := g_tick s (sched_cpu_ix s) + 1) else g_tick s)"
      using t ts s0 by (simp_all add: u_def)
    let ?s1 = "if g_timer_lapic_eoi s then lapic_eoi u else pic_send_eoi ?irq u"
    have r: "v \<ge> 32 \<and> v < 48" using rng by (simp add: word_le_nat_alt word_less_nat_alt)
    have n128: "v \<noteq> 128" using rng by auto
    have "(if ?irq = 0 then sched_timer_tick s0 else Some s0) = Some u" unfolding irq0 using t(1) by (simp add: u_def)
    then have "verve_irq_dispatch ?f s0 = Some (Resumes ?f ?s1)"
      unfolding verve_irq_dispatch_def Let_def frame_vec if_not_P [OF False] if_not_P [OF n128] if_P [OF r] by (simp add: u(4))
    from entry [OF this] show ?thesis
      using False u irq8
      by (intro exI [of _ "?s1\<lparr>if_flag := bit fl 9\<rparr>"])
        (simp add: lapic_eois_def pic_eois_def lapic_eoi_def mmio_w32_def mmio_write_def pic_send_eoi_def sent_def verve_outb_def)
  qed
qed

definition sample_irq :: irq where
  "sample_irq = thr.extend sample_thr \<lparr>g_timer_lapic_eoi = False\<rparr>"

lemma sample_irq_con: "con_ok sample_irq"
  by (auto simp: con_ok_def uart_live_def sample_irq_def thr.extend_def sample_thr_def)

theorem irq_acknowledged_witness:
  "\<exists>s'. irq_entry 0x2C \<lparr>g_eax = 1, g_ecx = 2, g_edx = 3, g_ebx = 4, g_esp = 5, g_ebp = 6, g_esi = 7, g_edi = 8\<rparr> 0x100000 8 0x202 sample_irq
      = Some (Resumes \<lparr>g_eax = 1, g_ecx = 2, g_edx = 3, g_ebx = 4, g_esp = 5, g_ebp = 6, g_esi = 7, g_edi = 8\<rparr> s')
    \<and> pic_eois sample_irq s' 1 1"
  using irq_acknowledged [OF sample_irq_con, of "0x2C" "\<lparr>g_eax = 1, g_ecx = 2, g_edx = 3, g_ebx = 4, g_esp = 5, g_ebp = 6, g_esi = 7, g_edi = 8\<rparr>" "0x100000" 8 "0x202"]
  by (auto simp: sample_irq_def thr.extend_def split: if_splits)

section \<open>The registers of a system call\<close>

text \<open>
  C34: the number of a system call.  The struct names the words \<open>pusha\<close> leaves in the opposite
  order, so \<open>int 0x80\<close> takes the number from the user's \<open>edi\<close> and delivers the result there.
  Whatever \<open>eax\<close> holds, a value of \<open>edi\<close> that is no call number gives -38 in \<open>edi\<close> and has no
  other effect.
\<close>

theorem syscall_number_is_edi:
  assumes "g_edi r \<notin> {SYS_WRITE, SYS_GETPID, SYS_EXIT, SYS_OPEN, SYS_READ, SYS_CLOSE, SYS_BRK}"
  shows "irq_entry 128 r eip cs fl s = Some (Resumes (r\<lparr>g_edi := - 38\<rparr>) (s\<lparr>if_flag := bit fl 9\<rparr>))"
proof -
  let ?f = "frame_of (pusha r @ [128, 0, eip, cs, fl])"
  have n: "f_eax ?f = g_edi r" "f_vec ?f = 128" "f_eflags ?f = fl" by (simp_all add: frame_of_def pusha_def)
  have "verve_irq_dispatch ?f (s\<lparr>if_flag := False\<rparr>) = Some (Resumes (?f\<lparr>f_eax := - 38\<rparr>) (s\<lparr>if_flag := False\<rparr>))"
    using assms by (simp add: verve_irq_dispatch_def syscall_invoke_def n Let_def)
  moreover have "popa (words_of (?f\<lparr>f_eax := - 38\<rparr>)) r = r\<lparr>g_edi := - 38\<rparr>"
    by (simp add: popa_def words_of_def frame_of_def pusha_def)
  ultimately show ?thesis by (simp add: irq_entry_def n)
qed

theorem syscall_number_is_edi_witness:
  "irq_entry 128 \<lparr>g_eax = SYS_GETPID, g_ecx = 0, g_edx = 0, g_ebx = 0, g_esp = 0, g_ebp = 0, g_esi = 0, g_edi = 0\<rparr> 0x80000000 0x1B 0x202 sample_irq
    = Some (Resumes \<lparr>g_eax = SYS_GETPID, g_ecx = 0, g_edx = 0, g_ebx = 0, g_esp = 0, g_ebp = 0, g_esi = 0, g_edi = - 38\<rparr>
        (sample_irq\<lparr>if_flag := bit (0x202 :: u32) 9\<rparr>))"
  by (subst syscall_number_is_edi) simp_all

end
