(* ===== verification/Ioapic.thy ===== *)
theory Ioapic
  imports Interrupts
begin

text \<open>
  \<open>arch/i386/ioapic.c\<close>: the I/O APIC found by the ACPI walk and the route of the timer
  interrupt through it.  The device is read as the machine with an index and a data register
  that its documentation describes.
\<close>

record iop = irq +
  g_ioapic_base :: u32

section \<open>The code\<close>

abbreviation (input) IOREGSEL :: u32 where "IOREGSEL \<equiv> 0"
abbreviation (input) IOREGWIN :: u32 where "IOREGWIN \<equiv> 0x10"

definition ioapic_mmio_write :: "u32 \<Rightarrow> u32 \<Rightarrow> u32 \<Rightarrow> 'a dev_scheme \<Rightarrow> 'a dev_scheme" where
  "ioapic_mmio_write base reg val s = mmio_write (base + IOREGWIN) val (mmio_write (base + IOREGSEL) reg s)"

definition ioapic_mmio_read :: "u32 \<Rightarrow> u32 \<Rightarrow> 'a dev_scheme \<Rightarrow> u32 \<times> 'a dev_scheme" where
  "ioapic_mmio_read base reg s = mmio_read (base + IOREGWIN) (mmio_write (base + IOREGSEL) reg s)"

definition ioapic_set_rte :: "u32 \<Rightarrow> u32 \<Rightarrow> u32 \<Rightarrow> u32 \<Rightarrow> 'a dev_scheme \<Rightarrow> 'a dev_scheme" where
  "ioapic_set_rte base gsi_ix low high s =
     (let ix = 0x10 + gsi_ix * 2; s1 = ioapic_mmio_write base (ix + 1) high s; s2 = ioapic_mmio_write base ix low s1
      in snd (ioapic_mmio_read base ix s2))"

definition ioapic_init_from_acpi :: "layout \<Rightarrow> 'a iop_scheme \<Rightarrow> (bool \<times> 'a iop_scheme) option" where
  "ioapic_init_from_acpi L s =
     (if \<not> acpi_hw_has_ioapic s then Some (False, s)
      else let phys = acpi_hw_ioapic_phys s
        in if phys = 0 then Some (False, s)
           else let s1 = (snd (paging_map_identity_page L (phys AND 0xFFFFF000) s))\<lparr>g_ioapic_base := phys\<rparr>
             in Option.bind (serial_puts (cstr ''[VerveOS] ioapic: MMIO @phys 0x'') s1) (\<lambda>s2.
                Option.bind (serial_put_u64_hex (ucast phys) s2) (\<lambda>s3.
                map_option (\<lambda>s4. (True, s4)) (serial_puts crlf s3))))"

definition ioapic_route_irq0_timer :: "u8 \<Rightarrow> 'a iop_scheme \<Rightarrow> 'a iop_scheme option" where
  "ioapic_route_irq0_timer bsp_apic_id s =
     (let gsi = acpi_hw_irq0_gsi s; gsi_base = acpi_hw_ioapic_gsi_base s
      in if g_ioapic_base s = 0 then Some s
         else let gsi = (if gsi < gsi_base then gsi_base else gsi);
                  idx = gsi - gsi_base;
                  low = 32 OR push_bit 8 0 OR push_bit 11 0 OR push_bit 13 0 OR push_bit 15 0;
                  high = push_bit 24 (ucast bsp_apic_id);
                  s1 = ioapic_set_rte (g_ioapic_base s) idx low high s
           in Option.bind (serial_puts (cstr ''[VerveOS] ioapic: IRQ0/timer -> vec32 gsi_idx='') s1) (\<lambda>s2.
              Option.bind (serial_put_u64_hex (ucast idx) s2) (\<lambda>s3.
              Option.bind (serial_puts (cstr '' BSP_apic='') s3) (\<lambda>s4.
              Option.bind (serial_put_u64_hex (ucast bsp_apic_id) s4) (serial_puts crlf)))))"

section \<open>The device\<close>

text \<open>
  Writes to the window change the register that the last write to the select register named;
  writes elsewhere are for other devices.
\<close>

record ioapic_dev =
  io_sel :: u32
  io_reg :: "u32 \<Rightarrow> u32"

fun ioapic_run :: "u32 \<Rightarrow> (u32 \<times> u32) list \<Rightarrow> ioapic_dev \<Rightarrow> ioapic_dev" where
  "ioapic_run base [] d = d"
| "ioapic_run base ((a, v) # es) d = ioapic_run base es
     (if a = base then d\<lparr>io_sel := v\<rparr> else if a = base + 0x10 then d\<lparr>io_reg := (io_reg d)(io_sel d := v)\<rparr> else d)"

lemma ioapic_run_append: "ioapic_run base (xs @ ys) d = ioapic_run base ys (ioapic_run base xs d)"
  by (induction base xs d rule: ioapic_run.induct) simp_all

lemma route_writes:
  "mmio_outs (ioapic_set_rte base ix low high s) = mmio_outs s
     @ [(base, 0x10 + ix * 2 + 1), (base + 0x10, high), (base, 0x10 + ix * 2), (base + 0x10, low), (base, 0x10 + ix * 2)]"
  by (simp add: ioapic_set_rte_def Let_def ioapic_mmio_write_def ioapic_mmio_read_def mmio_write_def mmio_read_def)

lemma route_run:
  "io_reg (ioapic_run base [(base, 0x10 + ix * 2 + 1), (base + 0x10, high), (base, 0x10 + ix * 2), (base + 0x10, low), (base, 0x10 + ix * 2)] d)
     = (io_reg d)(0x10 + ix * 2 + 1 := high, 0x10 + ix * 2 := low)"
  by simp

lemma prints_mmio: "prints s m s' \<Longrightarrow> mmio_outs s' = mmio_outs s"
  for s :: "'a dev_scheme"
  by (auto simp: prints_def)

text \<open>
  The route of the timer interrupt.  With an I/O APIC, \<open>ioapic_route_irq0_timer\<close> returns and
  has set one redirection entry: vector 32, fixed delivery, active high, edge triggered, not
  masked, for the boot CPU; the entry is the one of the interrupt's number above the first
  the I/O APIC serves, or the first entry when the number is below it.
\<close>

lemma ioapic_route_correct:
  assumes "con_ok s" and "g_ioapic_base s \<noteq> 0"
  shows "\<exists>s' es. ioapic_route_irq0_timer bsp s = Some s' \<and> mmio_outs s' = mmio_outs s @ es
    \<and> (let ix = 0x10 + (max (g_irq0_gsi s) (g_ioapic_gsi_base s) - g_ioapic_gsi_base s) * 2
       in io_reg (ioapic_run (g_ioapic_base s) es d) = (io_reg d)(ix + 1 := push_bit 24 (ucast bsp), ix := 32))"
proof -
  let ?idx = "max (g_irq0_gsi s) (g_ioapic_gsi_base s) - g_ioapic_gsi_base s"
  let ?s1 = "ioapic_set_rte (g_ioapic_base s) ?idx 32 (push_bit 24 (ucast bsp)) s"
  have idx: "(if g_irq0_gsi s < g_ioapic_gsi_base s then g_ioapic_gsi_base s else g_irq0_gsi s) = max (g_irq0_gsi s) (g_ioapic_gsi_base s)"
    by (auto simp: max_def not_less)
  have con: "con_ok ?s1"
    using assms(1) by (simp add: con_ok_def uart_live_def ioapic_set_rte_def ioapic_mmio_write_def ioapic_mmio_read_def mmio_write_def mmio_read_def Let_def)
  have code: "ioapic_route_irq0_timer bsp s =
      Option.bind (serial_puts (cstr ''[VerveOS] ioapic: IRQ0/timer -> vec32 gsi_idx='') ?s1) (\<lambda>s2.
      Option.bind (serial_put_u64_hex (ucast ?idx) s2) (\<lambda>s3.
      Option.bind (serial_puts (cstr '' BSP_apic='') s3) (\<lambda>s4.
      Option.bind (serial_put_u64_hex (ucast bsp) s4) (serial_puts crlf))))"
    using assms(2) by (simp add: ioapic_route_irq0_timer_def Let_def idx acpi_hw_irq0_gsi_def acpi_hw_ioapic_gsi_base_def)
  have "returns (ioapic_route_irq0_timer bsp s) (\<lambda>s'. mmio_outs s' = mmio_outs ?s1)"
    unfolding code
    by (intro returns_bind returns_puts returns_hex con; (assumption | simp add: prints_mmio))
  then obtain s' where "ioapic_route_irq0_timer bsp s = Some s'" "mmio_outs s' = mmio_outs ?s1" by (auto simp: returns_def)
  then show ?thesis
    unfolding route_writes Let_def using route_run [of "g_ioapic_base s" ?idx "push_bit 24 (ucast bsp)" 32 d] by blast
qed

end
