(* ===== verification/Smp.thy ===== *)
theory Smp
  imports Ioapic
begin

text \<open>
  \<open>kernel/smp.c\<close> except for the APIC map of \<open>Apic_Map\<close>: the start of the application
  processors through the trampoline page and the mailbox, and what each of them does first.
  The busy-wait delays have no effect on the state and are left out.
\<close>

section \<open>The code\<close>

abbreviation (input) LAPIC_TIMER_VEC :: u8 where "LAPIC_TIMER_VEC \<equiv> 64"
abbreviation (input) LAPIC_TIMER_INIT :: u32 where "LAPIC_TIMER_INIT \<equiv> 125000"
abbreviation (input) LAPIC_TIMER_DIVCFG :: u8 where "LAPIC_TIMER_DIVCFG \<equiv> 3"
abbreviation (input) VERVE_SMP_TRAMP_PHYS :: u32 where "VERVE_SMP_TRAMP_PHYS \<equiv> 0x8000"
abbreviation (input) VERVE_SMP_MAIL_PHYS :: u32 where "VERVE_SMP_MAIL_PHYS \<equiv> 0x9000"

definition read_cr3 :: "'a vm_scheme \<Rightarrow> u32" where
  "read_cr3 s = cr3 s"

text \<open>\<open>tramp\<close> is the binary the linker puts between the two symbols.\<close>

definition smp_install_trampoline :: "u8 list \<Rightarrow> 'a vm_scheme \<Rightarrow> 'a vm_scheme" where
  "smp_install_trampoline tramp s = s\<lparr>mem := store_bytes (mem s) VERVE_SMP_TRAMP_PHYS tramp\<rparr>"

definition smp_start_lapic_timer :: "'a irq_scheme \<Rightarrow> 'a irq_scheme" where
  "smp_start_lapic_timer s =
     lapic_timer_periodic LAPIC_TIMER_VEC LAPIC_TIMER_INIT LAPIC_TIMER_DIVCFG (irq_timer_set_lapic_eoi True s)"

text \<open>The body of the loop of \<open>smp_init\<close> for one CPU; \<open>entry\<close> is the address of \<open>verve_ap_entry\<close>.\<close>

definition write_mailbox :: "u32 \<Rightarrow> u32 \<Rightarrow> u32 \<Rightarrow> memory \<Rightarrow> memory" where
  "write_mailbox cr3_phys esp0 entry m =
     st32 (st32 (st32 m VERVE_SMP_MAIL_PHYS cr3_phys) (VERVE_SMP_MAIL_PHYS + 4) esp0) (VERVE_SMP_MAIL_PHYS + 8) entry"

definition smp_start_ap :: "u32 \<Rightarrow> u8 \<Rightarrow> u8 \<Rightarrow> 'a mp_scheme \<Rightarrow> 'a mp_scheme option" where
  "smp_start_ap entry bsp_id cpu s =
     (if cpu = bsp_id then Some s
      else case pmm_alloc_frame (frames s) of (stk_phys, p) \<Rightarrow>
        let s1 = s\<lparr>frames := p\<rparr>
        in if stk_phys = 0 then serial_puts (cstr ''[VerveOS] SMP: pmm_alloc_frame(AP stack) failed'' @ crlf) s1
           else let s2 = s1\<lparr>mem := write_mailbox (read_cr3 s1) (stk_phys + 4096) entry (mem s1)\<rparr>
             in Option.bind (lapic_send_init cpu s2) (\<lambda>s3.
                Option.bind (lapic_send_sipi cpu (ucast (drop_bit 12 VERVE_SMP_TRAMP_PHYS)) s3) (\<lambda>s4.
                Option.bind (lapic_send_sipi cpu (ucast (drop_bit 12 VERVE_SMP_TRAMP_PHYS)) s4) (\<lambda>s5.
                Option.bind (serial_puts (cstr ''[VerveOS] SMP: SIPI sent to APIC id='')
                    (s5\<lparr>g_cpus_online := g_cpus_online s5 + 1\<rparr>)) (\<lambda>s6.
                Option.bind (serial_put_u64_hex (ucast cpu) s6) (serial_puts crlf))))))"

fun smp_start_aps :: "u32 \<Rightarrow> u8 \<Rightarrow> u8 list \<Rightarrow> 'a mp_scheme \<Rightarrow> 'a mp_scheme option" where
  "smp_start_aps entry bsp_id [] s = Some s"
| "smp_start_aps entry bsp_id (c # cs) s = Option.bind (smp_start_ap entry bsp_id c s) (smp_start_aps entry bsp_id cs)"

text \<open>\<open>junk\<close> is what the automatic array \<open>cpu_ids\<close> of 32 bytes holds on entry.\<close>

definition smp_init :: "layout \<Rightarrow> u8 list \<Rightarrow> u32 \<Rightarrow> u8 list \<Rightarrow> 'a mp_scheme \<Rightarrow> 'a mp_scheme option" where
  "smp_init L tramp entry junk s0 =
     Option.bind (serial_puts (cstr ''[VerveOS] SMP: using ACPI hw CPU list'' @ crlf) (s0\<lparr>g_cpus_online := 1\<rparr>)) (\<lambda>s.
     let ncpu = acpi_hw_cpu_count s
     in if ncpu = 0 then serial_puts (cstr ''[VerveOS] SMP: acpi reports 0 cpus; BSP-only'' @ crlf) s
        else let cpu_ids = acpi_hw_copy_apic_ids junk (if ncpu > MAX_APIC then MAX_APIC else ncpu) s;
                 ncpu = (if ncpu > MAX_APIC then MAX_APIC else ncpu);
                 s1 = snd (paging_map_identity_page L VERVE_SMP_TRAMP_PHYS s);
                 s2 = snd (paging_map_identity_page L VERVE_SMP_MAIL_PHYS s1);
                 s3 = smp_install_trampoline tramp s2;
                 bsp_id = lapic_id s3
             in Option.bind (serial_puts (cstr ''[VerveOS] SMP: BSP Local APIC id='') s3) (\<lambda>s4.
                Option.bind (serial_put_u64_hex (ucast bsp_id) s4) (\<lambda>s5.
                Option.bind (serial_puts crlf s5) (\<lambda>s6.
                Option.bind (smp_start_aps entry bsp_id (take (unat ncpu) cpu_ids) s6) (\<lambda>s7.
                Option.bind (serial_puts (cstr ''[VerveOS] SMP: bringing APs online done (cpus_online='') s7) (\<lambda>s8.
                Option.bind (serial_put_u64_hex (ucast (g_cpus_online s8)) s8)
                  (serial_puts (cstr '')'' @ crlf))))))))"

definition smp_cpu_count :: "'a mp_scheme \<Rightarrow> u32" where
  "smp_cpu_count s = g_cpus_online s"

definition verve_ap_entry ::
    "layout \<Rightarrow> (tref \<Rightarrow> tref \<Rightarrow> 'a irq_scheme \<Rightarrow> 'a irq_scheme option) \<Rightarrow> 'a irq_scheme \<Rightarrow> 'a irq_scheme option" where
  "verve_ap_entry L away s =
     (let s1 = lapic_software_enable (lapic_msr_enable (lapic_mmio_map L s))
      in Option.bind (serial_puts (cstr ''[VerveOS] SMP: AP entered, lapic id='') s1) (\<lambda>s2.
         Option.bind (serial_put_u64_hex (ucast (lapic_id s2)) s2) (\<lambda>s3.
         Option.bind (serial_puts crlf s3) (\<lambda>s4.
         thread_ap_online L away (smp_start_lapic_timer s4)))))"

definition smp_bsp_timer_start :: "'a irq_scheme \<Rightarrow> 'a irq_scheme" where
  "smp_bsp_timer_start s = smp_start_lapic_timer s"

section \<open>Waking\<close>

text \<open>The words that wake one CPU: INIT, and twice the start-up message for the page at \<open>0x8000\<close>.\<close>

definition wake_words :: "u8 \<Rightarrow> (u32 \<times> u32) list" where
  "wake_words cpu = icr_words cpu 0x4500 @ icr_words cpu 0x608 @ icr_words cpu 0x608"

definition waking :: "'a mp_scheme \<Rightarrow> bool" where
  "waking s \<longleftrightarrow> con_ok s \<and> icr_live s \<and> pmm_inv (frames s)"

definition no_frame :: "'a vm_scheme \<Rightarrow> bool" where
  "no_frame s \<longleftrightarrow> (\<forall>f. \<not> frame_is_free (frames s) f)"

lemma mailbox_words:
  "ld32 (write_mailbox c e en m) 0x9000 = c" "ld32 (write_mailbox c e en m) 0x9004 = e" "ld32 (write_mailbox c e en m) 0x9008 = en"
  by (simp_all add: write_mailbox_def ld32_st32_same ld32_st32_apart)

lemma mailbox_out: "a < 0x9000 \<Longrightarrow> write_mailbox c e en m a = m a"
  by (auto simp: write_mailbox_def st32_apply)

lemma icr_live_more: "icr_live (s\<lparr>mem := m\<rparr>) = icr_live s" "icr_live (s\<lparr>frames := p\<rparr>) = icr_live s"
  "icr_live (t\<lparr>g_cpus_online := n\<rparr>) = icr_live t"
  by (simp_all add: icr_live_def)

lemma holds_below:
  assumes "holds m 0x8000 bs" and "length bs \<le> 4096" and "\<forall>a < 0x9000. m' a = m a"
  shows "holds m' (0x8000 :: u32) bs"
proof -
  have "(0x8000 :: u32) + of_nat i < 0x9000" if "i < length bs" for i
    using that assms(2) by (simp add: word_less_nat_alt unat_word_ariths unat_of_nat)
  then show ?thesis using assms(1,3) by (simp add: holds_def)
qed

lemma prints_mp:
  assumes "prints s m s'"
  shows "mmio_outs s' = mmio_outs s" "mem s' = mem s" "frames s' = frames s" "g_cpus_online s' = g_cpus_online s"
    "icr_live s' = icr_live s" "cr3 s' = cr3 s" "g_cpu_count s' = g_cpu_count s" "g_cpu_apic_ids s' = g_cpu_apic_ids s"
    "lapic_id_reg s' = lapic_id_reg s"
  using assms by (auto simp: prints_def icr_live_def)

text \<open>One CPU: it is skipped, or there is no frame for its stack, or it is woken with its mailbox filled in.\<close>

lemma start_ap_effect:
  assumes "waking s" and "cpu \<noteq> bsp"
  shows "returns (smp_start_ap entry bsp cpu s) (\<lambda>s'. waking s' \<and> cr3 s' = cr3 s
    \<and> (if no_frame s then mmio_outs s' = mmio_outs s \<and> g_cpus_online s' = g_cpus_online s \<and> mem s' = mem s \<and> no_frame s'
       else \<exists>stk. frame_is_free (frames s) stk \<and> (\<forall>f. frame_is_free (frames s') f \<longleftrightarrow> frame_is_free (frames s) f \<and> f \<noteq> stk)
          \<and> mem s' = write_mailbox (cr3 s) (stk + 4096) entry (mem s)
          \<and> mmio_outs s' = mmio_outs s @ wake_words cpu \<and> g_cpus_online s' = g_cpus_online s + 1))"
proof -
  have con: "con_ok s" and live: "icr_live s" and inv: "pmm_inv (frames s)" using assms(1) by (simp_all add: waking_def)
  obtain stk p where al: "pmm_alloc_frame (frames s) = (stk, p)" by fastforce
  show ?thesis
  proof (cases "stk = 0")
    case True
    have none: "no_frame s" "p = frames s" using alloc_none [OF inv] al True by (auto simp: no_frame_def)
    have con1: "con_ok (s\<lparr>frames := p\<rparr>)" using con by (simp add: con_ok_def uart_live_def)
    have code: "smp_start_ap entry bsp cpu s = serial_puts (cstr ''[VerveOS] SMP: pmm_alloc_frame(AP stack) failed'' @ crlf) (s\<lparr>frames := p\<rparr>)"
      using assms(2) al True by (simp add: smp_start_ap_def)
    show ?thesis
      unfolding code
    proof (rule returns_puts [OF con1])
      fix s' assume q: "prints (s\<lparr>frames := p\<rparr>) (cstr ''[VerveOS] SMP: pmm_alloc_frame(AP stack) failed'' @ crlf) s'" "con_ok s'"
      show "waking s' \<and> cr3 s' = cr3 s
        \<and> (if no_frame s then mmio_outs s' = mmio_outs s \<and> g_cpus_online s' = g_cpus_online s \<and> mem s' = mem s \<and> no_frame s'
           else \<exists>stk. frame_is_free (frames s) stk \<and> (\<forall>f. frame_is_free (frames s') f \<longleftrightarrow> frame_is_free (frames s) f \<and> f \<noteq> stk)
              \<and> mem s' = write_mailbox (cr3 s) (stk + 4096) entry (mem s)
              \<and> mmio_outs s' = mmio_outs s @ wake_words cpu \<and> g_cpus_online s' = g_cpus_online s + 1)"
        using none prints_mp [OF q(1)] q(2) live inv by (simp add: waking_def no_frame_def icr_live_def)
    qed
  next
    case False
    note F = alloc_facts [OF inv al False]
    have nf: "\<not> no_frame s" using F(1) by (auto simp: no_frame_def)
    let ?s2 = "s\<lparr>frames := p, mem := write_mailbox (cr3 s) (stk + 4096) entry (mem s)\<rparr>"
    have live2: "icr_live (?s2\<lparr>mmio_outs := es, mmio_reads := n\<rparr>)" "icr_live ?s2" for es n using live by (simp_all add: icr_live_def)
    obtain n1 where i: "lapic_send_init cpu ?s2 = Some (?s2\<lparr>mmio_outs := mmio_outs s @ icr_words cpu 0x4500, mmio_reads := n1\<rparr>)"
      using lapic_send_live(1) [OF live2(2), of cpu] by auto
    obtain n2 where s1: "lapic_send_sipi cpu 8 (?s2\<lparr>mmio_outs := mmio_outs s @ icr_words cpu 0x4500, mmio_reads := n1\<rparr>)
        = Some (?s2\<lparr>mmio_outs := (mmio_outs s @ icr_words cpu 0x4500) @ icr_words cpu 0x608, mmio_reads := n2\<rparr>)"
      using lapic_send_live(2) [OF live2(1) [where es = "mmio_outs s @ icr_words cpu 0x4500" and n = n1], of cpu 8] by auto
    obtain n3 where s2: "lapic_send_sipi cpu 8 (?s2\<lparr>mmio_outs := (mmio_outs s @ icr_words cpu 0x4500) @ icr_words cpu 0x608, mmio_reads := n2\<rparr>)
        = Some (?s2\<lparr>mmio_outs := mmio_outs s @ wake_words cpu, mmio_reads := n3\<rparr>)"
      using lapic_send_live(2) [OF live2(1) [where es = "(mmio_outs s @ icr_words cpu 0x4500) @ icr_words cpu 0x608" and n = n2], of cpu 8]
      by (auto simp: wake_words_def)
    let ?s5 = "?s2\<lparr>mmio_outs := mmio_outs s @ wake_words cpu, mmio_reads := n3, g_cpus_online := g_cpus_online s + 1\<rparr>"
    have code: "smp_start_ap entry bsp cpu s = Option.bind (serial_puts (cstr ''[VerveOS] SMP: SIPI sent to APIC id='') ?s5)
        (\<lambda>s6. Option.bind (serial_put_u64_hex (ucast cpu) s6) (serial_puts crlf))"
      using assms(2) al False i s1 s2 by (simp add: smp_start_ap_def Let_def read_cr3_def)
    have con5: "con_ok ?s5" using con by (simp add: con_ok_def uart_live_def)
    have "returns (smp_start_ap entry bsp cpu s) (\<lambda>s'. \<exists>m. prints ?s5 m s' \<and> con_ok s')"
      unfolding code
      by (intro returns_bind returns_puts returns_hex con5; (assumption | blast intro: prints_trans))
    then show ?thesis
    proof (rule returns_mono)
      fix s' assume "\<exists>m. prints ?s5 m s' \<and> con_ok s'"
      then obtain m where p: "prints ?s5 m s'" and con': "con_ok s'" by blast
      have "waking s'" using con' live F(3) prints_mp [OF p] by (simp add: waking_def icr_live_def)
      moreover have "frame_is_free (frames s') f \<longleftrightarrow> frame_is_free (frames s) f \<and> f \<noteq> stk" for f
        using alloc_facts(4) [OF inv al False] prints_mp(3) [OF p] by simp
      ultimately show "waking s' \<and> cr3 s' = cr3 s
        \<and> (if no_frame s then mmio_outs s' = mmio_outs s \<and> g_cpus_online s' = g_cpus_online s \<and> mem s' = mem s \<and> no_frame s'
           else \<exists>stk. frame_is_free (frames s) stk \<and> (\<forall>f. frame_is_free (frames s') f \<longleftrightarrow> frame_is_free (frames s) f \<and> f \<noteq> stk)
              \<and> mem s' = write_mailbox (cr3 s) (stk + 4096) entry (mem s)
              \<and> mmio_outs s' = mmio_outs s @ wake_words cpu \<and> g_cpus_online s' = g_cpus_online s + 1)"
        using nf F(1) prints_mp [OF p] by auto
    qed
  qed
qed

text \<open>All of them: those of \<open>aps\<close> that are woken, and those left out because the frames ran out.\<close>

definition woke :: "u32 \<Rightarrow> u8 list \<Rightarrow> 'a mp_scheme \<Rightarrow> 'a mp_scheme \<Rightarrow> u8 list \<Rightarrow> bool" where
  "woke entry aps s s' woken \<longleftrightarrow> (\<exists>rest. aps = woken @ rest \<and> (rest = [] \<or> no_frame s'))
     \<and> mmio_outs s' = mmio_outs s @ concat (map wake_words woken)
     \<and> g_cpus_online s' = g_cpus_online s + of_nat (length woken)
     \<and> (woken \<noteq> [] \<longrightarrow> ld32 (mem s') 0x9000 = cr3 s \<and> ld32 (mem s') 0x9008 = entry)
     \<and> (\<forall>a < 0x9000. mem s' a = mem s a) \<and> (woken = [] \<longrightarrow> mem s' = mem s)
     \<and> (no_frame s \<longrightarrow> no_frame s' \<and> woken = [])"

lemma woke_none:
  assumes "woke entry aps s1 s' woken" and "no_frame s1" "mem s1 = mem s" "mmio_outs s1 = mmio_outs s" "g_cpus_online s1 = g_cpus_online s"
  shows "woke entry (c # aps) s s' []"
  using assms by (simp add: woke_def)

lemma woke_one:
  assumes "woke entry aps s1 s' woken" and "\<not> no_frame s" "cr3 s1 = cr3 s" "mem s1 = write_mailbox (cr3 s) e entry (mem s)"
    and "mmio_outs s1 = mmio_outs s @ wake_words c" "g_cpus_online s1 = g_cpus_online s + 1"
  shows "woke entry (c # aps) s s' (c # woken)"
  using assms by (cases "woken = []") (auto simp: woke_def mailbox_words mailbox_out)

lemma start_aps_effect:
  assumes "waking s"
  shows "returns (smp_start_aps entry bsp cpus s)
    (\<lambda>s'. waking s' \<and> cr3 s' = cr3 s \<and> (\<exists>woken. woke entry (filter (\<lambda>c. c \<noteq> bsp) cpus) s s' woken))"
  using assms
proof (induction cpus arbitrary: s)
  case Nil
  then show ?case by (simp add: woke_def)
next
  case (Cons c cs)
  show ?case
  proof (cases "c = bsp")
    case True
    then have "smp_start_aps entry bsp (c # cs) s = smp_start_aps entry bsp cs s" by (simp add: smp_start_ap_def)
    then show ?thesis using Cons.IH [OF Cons.prems] True by simp
  next
    case False
    show ?thesis
      unfolding smp_start_aps.simps
    proof (rule returns_bind, rule returns_mono [OF start_ap_effect [OF Cons.prems False]])
      fix s1 :: "'a mp_scheme" assume 1: "waking s1 \<and> cr3 s1 = cr3 s
        \<and> (if no_frame s then mmio_outs s1 = mmio_outs s \<and> g_cpus_online s1 = g_cpus_online s \<and> mem s1 = mem s \<and> no_frame s1
           else \<exists>stk. frame_is_free (frames s) stk \<and> (\<forall>f. frame_is_free (frames s1) f \<longleftrightarrow> frame_is_free (frames s) f \<and> f \<noteq> stk)
              \<and> mem s1 = write_mailbox (cr3 s) (stk + 4096) entry (mem s)
              \<and> mmio_outs s1 = mmio_outs s @ wake_words c \<and> g_cpus_online s1 = g_cpus_online s + 1)"
      then have w1: "waking s1" by simp
      show "returns (smp_start_aps entry bsp cs s1)
        (\<lambda>s'. waking s' \<and> cr3 s' = cr3 s \<and> (\<exists>woken. woke entry (filter (\<lambda>c. c \<noteq> bsp) (c # cs)) s s' woken))"
      proof (rule returns_mono [OF Cons.IH [OF w1]])
        fix s' assume 2: "waking s' \<and> cr3 s' = cr3 s1 \<and> (\<exists>woken. woke entry (filter (\<lambda>c. c \<noteq> bsp) cs) s1 s' woken)"
        then obtain woken where w: "woke entry (filter (\<lambda>c. c \<noteq> bsp) cs) s1 s' woken" by blast
        have "\<exists>woken. woke entry (c # filter (\<lambda>c. c \<noteq> bsp) cs) s s' woken"
        proof (cases "no_frame s")
          case True
          with 1 have "no_frame s1" "mem s1 = mem s" "mmio_outs s1 = mmio_outs s" "g_cpus_online s1 = g_cpus_online s" by simp_all
          then show ?thesis by (blast intro: woke_none [OF w])
        next
          case False
          with 1 obtain stk where "mem s1 = write_mailbox (cr3 s) (stk + 4096) entry (mem s)"
            "mmio_outs s1 = mmio_outs s @ wake_words c" "g_cpus_online s1 = g_cpus_online s + 1" "cr3 s1 = cr3 s" by (simp, blast)
          then show ?thesis by (blast intro: woke_one [OF w False])
        qed
        then show "waking s' \<and> cr3 s' = cr3 s \<and> (\<exists>woken. woke entry (filter (\<lambda>c. c \<noteq> bsp) (c # cs)) s s' woken)"
          using 1 2 False by simp
      qed
    qed
  qed
qed

lemma identity_page_mem: "\<exists>m. snd (paging_map_identity_page L p s) = s\<lparr>mem := m\<rparr>"
  by (auto simp: paging_map_identity_page_def split: prod.split option.split)

text \<open>From the report of the own id on, with the trampoline in place.\<close>

lemma wake_all:
  fixes u :: "'a mp_scheme"
  assumes "waking u" and "holds (mem u) 0x8000 tramp" and "length tramp \<le> 4096" and "g_cpus_online u = 1"
  shows "returns (Option.bind (serial_puts (cstr ''[VerveOS] SMP: BSP Local APIC id='') u) (\<lambda>s4.
      Option.bind (serial_put_u64_hex (ucast bsp) s4) (\<lambda>s5. Option.bind (serial_puts crlf s5) (\<lambda>s6.
      Option.bind (smp_start_aps entry bsp cpus s6) (\<lambda>s7.
      Option.bind (serial_puts (cstr ''[VerveOS] SMP: bringing APs online done (cpus_online='') s7) (\<lambda>s8.
      Option.bind (serial_put_u64_hex (ucast (g_cpus_online s8)) s8) (serial_puts (cstr '')'' @ crlf))))))))
    (\<lambda>s'. \<exists>woken rest. filter (\<lambda>c. c \<noteq> bsp) cpus = woken @ rest
      \<and> (rest = [] \<or> (\<forall>f. \<not> frame_is_free (frames s') f))
      \<and> mmio_outs s' = mmio_outs u @ concat (map wake_words woken)
      \<and> g_cpus_online s' = 1 + of_nat (length woken)
      \<and> holds (mem s') 0x8000 tramp
      \<and> (woken \<noteq> [] \<longrightarrow> ld32 (mem s') 0x9000 = cr3 u \<and> ld32 (mem s') 0x9008 = entry))" (is "returns _ ?goal")
proof -
  have con: "con_ok u" using assms(1) by (simp add: waking_def)
  show ?thesis
  proof (rule returns_bind, rule returns_puts [OF con], rule returns_bind, rule returns_hex, assumption,
      rule returns_bind, rule returns_puts, assumption, rule returns_bind)
    fix s4 s5 s6
    assume q: "prints u (cstr ''[VerveOS] SMP: BSP Local APIC id='') s4" "prints s4 (hex_buf (ucast bsp)) s5"
      "prints s5 crlf s6" and con6: "con_ok s6"
    from prints_trans [OF prints_trans [OF q(1,2)] q(3)] obtain out where q6: "prints u out s6" by blast
    note s6 = prints_mp [OF q6, simplified]
    have "waking s6" using con6 s6 assms(1) by (simp add: waking_def icr_live_more)
    from start_aps_effect [OF this, of entry bsp cpus]
    show "returns (smp_start_aps entry bsp cpus s6) (\<lambda>s7. returns (
        Option.bind (serial_puts (cstr ''[VerveOS] SMP: bringing APs online done (cpus_online='') s7) (\<lambda>s8.
        Option.bind (serial_put_u64_hex (ucast (g_cpus_online s8)) s8) (serial_puts (cstr '')'' @ crlf)))) ?goal)"
    proof (rule returns_mono)
      fix s7 :: "'a mp_scheme"
      assume "waking s7 \<and> cr3 s7 = cr3 s6 \<and> (\<exists>woken. woke entry (filter (\<lambda>c. c \<noteq> bsp) cpus) s6 s7 woken)"
      then obtain woken where w: "con_ok s7" "woke entry (filter (\<lambda>c. c \<noteq> bsp) cpus) s6 s7 woken"
        by (auto simp: waking_def)
      have tr: "holds (mem s6) 0x8000 tramp" using assms(2) s6 by simp
      have goal7: "?goal s7" using w(2) s6 assms(4) holds_below [OF tr assms(3)] by (auto simp: woke_def no_frame_def)
      have goal: "?goal s'" if "prints s7 out' s'" for out' s'
        using prints_mp [OF that] goal7 by simp
      show "returns (Option.bind (serial_puts (cstr ''[VerveOS] SMP: bringing APs online done (cpus_online='') s7) (\<lambda>s8.
          Option.bind (serial_put_u64_hex (ucast (g_cpus_online s8)) s8) (serial_puts (cstr '')'' @ crlf)))) ?goal"
        by (intro returns_bind returns_puts returns_hex w(1); (assumption | rule goal, blast intro: prints_trans))
    qed
  qed
qed


lemma sample_mp_ok: "con_ok sample_mp" "icr_live sample_mp" "pmm_inv (frames sample_mp)"
  "length (g_cpu_apic_ids sample_mp) = 32" "g_cpu_count sample_mp \<noteq> 0"
  by (auto simp: con_ok_def uart_live_def icr_live_def sample_mp_def sample_pmm_inv)


end
