(* ===== verification/Gdt_Idt.thy ===== *)
theory Gdt_Idt
  imports Ioapic
begin

text \<open>
  \<open>arch/i386/gdt.c\<close>, \<open>arch/i386/gdt_asm.S\<close> and \<open>arch/i386/idt.c\<close>: the segment descriptors,
  the task state segment and the interrupt gates, and how the CPU reads them when it loads a
  segment register or takes an interrupt.
\<close>

record gdt_entry =
  limit_lo :: u16
  base_lo :: u16
  base_mid :: u8
  acc :: u8
  gran :: u8
  base_hi :: u8

text \<open>The task state segment, and its bytes as they lie in memory.\<close>

record tss_i386 =
  t_link :: u16
  t_reserved0 :: u16
  t_esp0 :: u32
  t_ss0 :: u16
  t_reserved1 :: u16
  t_esp1 :: u32
  t_ss1 :: u16
  t_reserved2 :: u16
  t_esp2 :: u32
  t_ss2 :: u16
  t_reserved3 :: u16
  t_cr3 :: u32
  t_eip :: u32
  t_eflags :: u32
  t_eax :: u32
  t_ecx :: u32
  t_edx :: u32
  t_ebx :: u32
  t_esp :: u32
  t_ebp :: u32
  t_esi :: u32
  t_edi :: u32
  t_es :: u16
  t_reserved4 :: u16
  t_cs :: u16
  t_reserved5 :: u16
  t_ss :: u16
  t_reserved6 :: u16
  t_ds :: u16
  t_reserved7 :: u16
  t_fs :: u16
  t_reserved8 :: u16
  t_gs :: u16
  t_reserved9 :: u16
  t_ldtr :: u16
  t_reserved10 :: u16
  t_trap :: u16
  t_iomap_base :: u16

definition zero_tss :: tss_i386 where
  "zero_tss = \<lparr>t_link = 0, t_reserved0 = 0, t_esp0 = 0, t_ss0 = 0, t_reserved1 = 0, t_esp1 =
     0, t_ss1 = 0, t_reserved2 = 0, t_esp2 = 0, t_ss2 = 0, t_reserved3 = 0, t_cr3 = 0, t_eip = 0,
     t_eflags = 0, t_eax = 0, t_ecx = 0, t_edx = 0, t_ebx = 0, t_esp = 0, t_ebp = 0, t_esi = 0,
     t_edi = 0, t_es = 0, t_reserved4 = 0, t_cs = 0, t_reserved5 = 0, t_ss = 0, t_reserved6 = 0,
     t_ds = 0, t_reserved7 = 0, t_fs = 0, t_reserved8 = 0, t_gs = 0, t_reserved9 = 0, t_ldtr = 0,
     t_reserved10 = 0, t_trap = 0, t_iomap_base = 0\<rparr>"

definition le16 :: "u16 \<Rightarrow> u8 list" where
  "le16 w = [ucast w, ucast (drop_bit 8 w)]"

definition tss_bytes :: "tss_i386 \<Rightarrow> u8 list" where
  "tss_bytes t = le16 (t_link t) @ le16 (t_reserved0 t) @ le32 (t_esp0 t) @ le16 (t_ss0 t) @ le16
     (t_reserved1 t) @ le32 (t_esp1 t) @ le16 (t_ss1 t) @ le16 (t_reserved2 t) @ le32 (t_esp2 t) @
     le16 (t_ss2 t) @ le16 (t_reserved3 t) @ le32 (t_cr3 t) @ le32 (t_eip t) @ le32 (t_eflags t) @
     le32 (t_eax t) @ le32 (t_ecx t) @ le32 (t_edx t) @ le32 (t_ebx t) @ le32 (t_esp t) @ le32
     (t_ebp t) @ le32 (t_esi t) @ le32 (t_edi t) @ le16 (t_es t) @ le16 (t_reserved4 t) @ le16 (t_cs
     t) @ le16 (t_reserved5 t) @ le16 (t_ss t) @ le16 (t_reserved6 t) @ le16 (t_ds t) @ le16
     (t_reserved7 t) @ le16 (t_fs t) @ le16 (t_reserved8 t) @ le16 (t_gs t) @ le16 (t_reserved9 t) @
     le16 (t_ldtr t) @ le16 (t_reserved10 t) @ le16 (t_trap t) @ le16 (t_iomap_base t)"

record idt_gate =
  off_lo :: u16
  sel :: u16
  ist_zero :: u8
  flags :: u8
  off_hi :: u16

text \<open>The segment registers, the task register and the two table registers are part of the state.\<close>

record desc = iop +
  gdt_desc :: "gdt_entry list"
  g_tss :: tss_i386
  idt :: "idt_gate list"
  gdtr :: "u16 \<times> u32"
  idtr :: "u16 \<times> u32"
  data_sel :: u16
  code_sel :: u16
  task_sel :: u16

text \<open>What the linker decides: the addresses of the tables and of the entry stubs.\<close>

record tab_syms =
  at_gdt_desc :: u32
  at_g_tss :: u32
  at_null_kstack :: u32
  at_idt :: u32
  at_isr :: "nat \<Rightarrow> u32"
  at_irq :: "nat \<Rightarrow> u32"

section \<open>How the CPU reads a descriptor\<close>

record segment =
  seg_base :: u32
  seg_last :: u32
  seg_type :: u8
  seg_app :: bool
  seg_dpl :: u8
  seg_present :: bool

definition segment_of :: "gdt_entry \<Rightarrow> segment" where
  "segment_of e =
     (let l = ucast (limit_lo e) OR push_bit 16 (ucast (gran e AND 0x0F))
      in \<lparr>seg_base = ucast (base_lo e) OR push_bit 16 (ucast (base_mid e)) OR push_bit 24 (ucast (base_hi e)),
          seg_last = (if bit (gran e) 7 then push_bit 12 l OR 0xFFF else l),
          seg_type = acc e AND 0x0F, seg_app = bit (acc e) 4, seg_dpl = drop_bit 5 (acc e) AND 3, seg_present = bit (acc e) 7\<rparr>)"

text \<open>The descriptor a selector names, when it is inside the table.\<close>

definition segment_at :: "u16 \<Rightarrow> 'a desc_scheme \<Rightarrow> segment option" where
  "segment_at sl s =
     (let i = unat (drop_bit 3 sl)
      in if bit sl 2 \<or> i = 0 \<or> i \<ge> length (gdt_desc s) \<or> unat (fst (gdtr s)) < 8 * i + 7 then None
         else Some (segment_of (gdt_desc s ! i)))"

text \<open>Loads by code at privilege level 0; \<open>None\<close> is a fault.\<close>

definition load_data_segs :: "u16 \<Rightarrow> 'a desc_scheme \<Rightarrow> 'a desc_scheme option" where
  "load_data_segs sl s =
     (case segment_at sl s of None \<Rightarrow> None
      | Some g \<Rightarrow> if seg_present g \<and> seg_app g \<and> \<not> bit (seg_type g) 3 \<and> bit (seg_type g) 1 \<and> seg_dpl g = 0 \<and> sl AND 3 = 0
          then Some (s\<lparr>data_sel := sl\<rparr>) else None)"

definition load_code_seg :: "u16 \<Rightarrow> 'a desc_scheme \<Rightarrow> 'a desc_scheme option" where
  "load_code_seg sl s =
     (case segment_at sl s of None \<Rightarrow> None
      | Some g \<Rightarrow> if seg_present g \<and> seg_app g \<and> bit (seg_type g) 3 \<and> seg_dpl g = 0 \<and> sl AND 3 = 0
          then Some (s\<lparr>code_sel := sl\<rparr>) else None)"

text \<open>\<open>ltr\<close> wants an available task state segment and marks it busy.\<close>

definition ltr :: "u16 \<Rightarrow> 'a desc_scheme \<Rightarrow> 'a desc_scheme option" where
  "ltr sl s =
     (case segment_at sl s of None \<Rightarrow> None
      | Some g \<Rightarrow> if seg_present g \<and> \<not> seg_app g \<and> seg_type g = 9
          then let i = unat (drop_bit 3 sl); e = gdt_desc s ! i
            in Some (s\<lparr>task_sel := sl, gdt_desc := (gdt_desc s)[i := e\<lparr>acc := acc e OR 2\<rparr>]\<rparr>)
          else None)"

section \<open>The code of \<open>gdt.c\<close>\<close>

definition gdt_set_gate :: "nat \<Rightarrow> u32 \<Rightarrow> u32 \<Rightarrow> u8 \<Rightarrow> u8 \<Rightarrow> 'a desc_scheme \<Rightarrow> 'a desc_scheme" where
  "gdt_set_gate i base limit access gr s = s\<lparr>gdt_desc := (gdt_desc s)[i :=
     \<lparr>limit_lo = ucast (limit AND 0xFFFF), base_lo = ucast (base AND 0xFFFF),
      base_mid = ucast (drop_bit 16 base AND 0xFF), acc = access,
      gran = ucast (drop_bit 16 limit AND 0x0F) OR (gr AND 0xF0),
      base_hi = ucast (drop_bit 24 base AND 0xFF)\<rparr>]\<rparr>"

definition gdt_set_tss :: "nat \<Rightarrow> u32 \<Rightarrow> u32 \<Rightarrow> 'a desc_scheme \<Rightarrow> 'a desc_scheme" where
  "gdt_set_tss i base limit s = s\<lparr>gdt_desc := (gdt_desc s)[i :=
     \<lparr>limit_lo = ucast (limit AND 0xFFFF), base_lo = ucast (base AND 0xFFFF),
      base_mid = ucast (drop_bit 16 base AND 0xFF), acc = 0x89,
      gran = ucast (drop_bit 16 limit AND 0x0F),
      base_hi = ucast (drop_bit 24 base AND 0xFF)\<rparr>]\<rparr>"

definition tss_set_esp0 :: "u32 \<Rightarrow> 'a desc_scheme \<Rightarrow> 'a desc_scheme" where
  "tss_set_esp0 e0 s = s\<lparr>g_tss := (g_tss s)\<lparr>t_esp0 := e0\<rparr>\<rparr>"

definition gdt_flush :: "'a desc_scheme \<Rightarrow> 'a desc_scheme option" where
  "gdt_flush s = Option.bind (load_data_segs 0x10 s) (\<lambda>s1. Option.bind (load_code_seg 0x08 s1) (ltr 0x28))"

definition zero_gdt :: "gdt_entry list" where
  "zero_gdt = replicate 6 \<lparr>limit_lo = 0, base_lo = 0, base_mid = 0, acc = 0, gran = 0, base_hi = 0\<rparr>"

definition gdt_init :: "tab_syms \<Rightarrow> 'a desc_scheme \<Rightarrow> 'a desc_scheme option" where
  "gdt_init A s =
     (let s1 = s\<lparr>gdt_desc := zero_gdt\<rparr>;
          s2 = gdt_set_gate 1 0 0xFFFFF 0x9A 0xCF s1;
          s3 = gdt_set_gate 2 0 0xFFFFF 0x92 0xCF s2;
          s4 = gdt_set_gate 3 0 0xFFFFF 0xFA 0xCF s3;
          s5 = gdt_set_gate 4 0 0xFFFFF 0xF2 0xCF s4;
          s6 = s5\<lparr>g_tss := zero_tss\<lparr>t_ss0 := 0x10, t_esp0 := at_null_kstack A + 2048\<rparr>\<rparr>;
          s7 = gdt_set_tss 5 (at_g_tss A) (104 - 1) s6;
          s8 = s7\<lparr>gdtr := (8 * 6 - 1, at_gdt_desc A)\<rparr>
      in gdt_flush s8)"

section \<open>The code of \<open>idt.c\<close>\<close>

definition idt_set :: "u8 \<Rightarrow> u32 \<Rightarrow> 'a desc_scheme \<Rightarrow> 'a desc_scheme" where
  "idt_set vec handler s = s\<lparr>idt := (idt s)[unat vec :=
     \<lparr>off_lo = ucast (handler AND 0xFFFF), sel = 0x08, ist_zero = 0, flags = 0x8E,
      off_hi = ucast (drop_bit 16 handler AND 0xFFFF)\<rparr>]\<rparr>"

definition idt_set_user_gate :: "u8 \<Rightarrow> u32 \<Rightarrow> 'a desc_scheme \<Rightarrow> 'a desc_scheme" where
  "idt_set_user_gate vec handler s = s\<lparr>idt := (idt s)[unat vec :=
     \<lparr>off_lo = ucast (handler AND 0xFFFF), sel = 0x08, ist_zero = 0, flags = 0xEE,
      off_hi = ucast (drop_bit 16 handler AND 0xFFFF)\<rparr>]\<rparr>"

definition empty_gate :: idt_gate where
  "empty_gate = \<lparr>off_lo = 0, sel = 0, ist_zero = 0, flags = 0, off_hi = 0\<rparr>"

text \<open>The loops that set \<open>n\<close> gates from vector \<open>base + i\<close> on.\<close>

fun idt_set_range :: "nat \<Rightarrow> (nat \<Rightarrow> u32) \<Rightarrow> nat \<Rightarrow> nat \<Rightarrow> 'a desc_scheme \<Rightarrow> 'a desc_scheme" where
  "idt_set_range base stubs i 0 s = s"
| "idt_set_range base stubs i (Suc n) s =
     idt_set_range base stubs (Suc i) n (idt_set (of_nat (base + i)) (stubs (base + i)) s)"

definition idt_init :: "tab_syms \<Rightarrow> 'a desc_scheme \<Rightarrow> 'a desc_scheme" where
  "idt_init A s =
     (let s1 = s\<lparr>idt := replicate 256 empty_gate\<rparr>;
          s2 = idt_set_range 0 (at_isr A) 0 32 s1;
          s3 = idt_set_range 32 (at_irq A) 0 16 s2;
          s4 = idt_set 64 (at_irq A 64) s3;
          s5 = idt_set_user_gate 128 (at_irq A 128) s4
      in s5\<lparr>idtr := (8 * 256 - 1, at_idt A)\<rparr>)"

section \<open>How the CPU takes an interrupt\<close>

text \<open>
  A device interrupt or exception, or \<open>int n\<close> when \<open>soft\<close>, at privilege level \<open>cpl\<close>.
  \<open>Enters\<close> gives the handler, the code selector, the interrupt flag and, when the level
  changes, the stack the TSS names.
\<close>

datatype delivery = Enters u32 u16 bool "(u16 \<times> u32) option" | Gp_fault | Not_present

definition deliver :: "bool \<Rightarrow> u8 \<Rightarrow> u8 \<Rightarrow> 'a desc_scheme \<Rightarrow> delivery" where
  "deliver soft cpl v s =
     (if unat (fst (idtr s)) < 8 * unat v + 7 then Gp_fault
      else let g = idt s ! unat v; typ_bits = flags g AND 0x1F
        in if typ_bits \<noteq> 0x0E \<and> typ_bits \<noteq> 0x0F then Gp_fault
           else if soft \<and> cpl > drop_bit 5 (flags g) AND 3 then Gp_fault
           else if \<not> bit (flags g) 7 then Not_present
           else case segment_at (sel g) s of None \<Rightarrow> Gp_fault
             | Some c \<Rightarrow> if \<not> (seg_app c \<and> bit (seg_type c) 3) \<or> seg_dpl c > cpl then Gp_fault
                 else if \<not> seg_present c then Not_present
                 else Enters (ucast (off_lo g) OR push_bit 16 (ucast (off_hi g))) (sel g AND NOT 3) (typ_bits = 0x0F)
                        (if seg_dpl c < cpl then Some (t_ss0 (g_tss s), t_esp0 (g_tss s)) else None))"

text \<open>
  Whether code at privilege level \<open>cpl\<close> (with IOPL 0) may access \<open>n\<close> ports from \<open>port\<close> on: a
  level above 0 needs a clear bit for each in the map that starts at \<open>iomap_base\<close> of the TSS, and
  both bytes the CPU reads must be inside the segment.
\<close>

definition io_permitted :: "u8 \<Rightarrow> nat \<Rightarrow> nat \<Rightarrow> 'a desc_scheme \<Rightarrow> bool" where
  "io_permitted cpl n port s =
     (cpl = 0 \<or> (case segment_at (task_sel s) s of None \<Rightarrow> False
        | Some g \<Rightarrow> let at = unat (t_iomap_base (g_tss s)) + port div 8; bs = tss_bytes (g_tss s)
            in at + 1 \<le> unat (seg_last g) \<and> at + 1 < length bs
               \<and> list_all (\<lambda>k. \<not> (if port mod 8 + k < 8 then bit (bs ! at) (port mod 8 + k)
                                    else bit (bs ! (at + 1)) (port mod 8 + k - 8))) [0..<n]))"

section \<open>The tables after initialisation\<close>

lemma bit_masks: "bit (65535 :: int) n \<longleftrightarrow> n < 16" "bit (255 :: int) n \<longleftrightarrow> n < 8" "bit (15 :: int) n \<longleftrightarrow> n < 4"
proof -
  have "(65535 :: int) = mask 16" "(255 :: int) = mask 8" "(15 :: int) = mask 4" by (simp_all add: mask_eq_exp_minus_1)
  then show "bit (65535 :: int) n \<longleftrightarrow> n < 16" "bit (255 :: int) n \<longleftrightarrow> n < 8" "bit (15 :: int) n \<longleftrightarrow> n < 4"
    by (simp_all only: bit_mask_iff possible_bit_int simp_thms)
qed
lemma bit_240: "bit (240 :: int) n \<longleftrightarrow> 4 \<le> n \<and> n < 8"
proof -
  have "(240 :: int) = push_bit 4 15" by simp
  then show ?thesis by (simp only: bit_push_bit_iff bit_masks possible_bit_int) auto
qed
lemma join16_8_8: "ucast (ucast (b AND 0xFFFF) :: u16) OR push_bit 16 (ucast (ucast (drop_bit 16 b AND 0xFF) :: u8))
    OR push_bit 24 (ucast (ucast (drop_bit 24 b AND 0xFF) :: u8)) = (b :: u32)"
proof (rule bit_word_eqI)
  fix n assume "n < LENGTH(32)"
  then show "bit (ucast (ucast (b AND 0xFFFF) :: u16) OR push_bit 16 (ucast (ucast (drop_bit 16 b AND 0xFF) :: u8))
      OR push_bit 24 (ucast (ucast (drop_bit 24 b AND 0xFF) :: u8)) :: u32) n = bit b n"
    by (cases "24 \<le> n") (auto simp: bit_simps bit_masks)
qed

lemma join16_16: "ucast (ucast (b AND 0xFFFF) :: u16) OR push_bit 16 (ucast (ucast (drop_bit 16 b AND 0xFFFF) :: u16)) = (b :: u32)"
  by (intro bit_word_eqI) (auto simp: bit_simps bit_masks)

lemma join_limit:
  assumes "(limit :: u32) < 0x100000"
  shows "ucast (ucast (limit AND 0xFFFF) :: u16) OR push_bit 16 (ucast ((ucast (drop_bit 16 limit AND 0x0F) OR (gr AND 0xF0)) AND 0x0F :: u8)) = limit"
proof -
  have "limit = take_bit 20 limit" using assms by (simp add: take_bit_eq_mod word_less_nat_alt word_unat_eq_iff unat_mod)
  then have hi: "\<not> bit limit n" if "20 \<le> n" for n using that by (metis bit_take_bit_iff linorder_not_less)
  then have hi': "n < 20" if "bit limit n" for n using that by (meson linorder_not_less)
  show ?thesis by (intro bit_word_eqI) (auto simp: bit_simps bit_masks bit_240 dest: hi' )
qed
lemma gran_bit: "bit ((ucast (drop_bit 16 (limit :: u32) AND 0x0F) OR (gr AND 0xF0)) :: u8) 7 = bit gr 7"
  by (auto simp: bit_simps bit_masks bit_240)

text \<open>The descriptor the code writes, and that the CPU reads it as it was meant.\<close>

definition gate_entry :: "u32 \<Rightarrow> u32 \<Rightarrow> u8 \<Rightarrow> u8 \<Rightarrow> gdt_entry" where
  "gate_entry base limit access gr = \<lparr>limit_lo = ucast (limit AND 0xFFFF), base_lo = ucast (base AND 0xFFFF),
     base_mid = ucast (drop_bit 16 base AND 0xFF), acc = access, gran = ucast (drop_bit 16 limit AND 0x0F) OR (gr AND 0xF0),
     base_hi = ucast (drop_bit 24 base AND 0xFF)\<rparr>"

lemma set_gate: "gdt_set_gate i base limit access gr s = s\<lparr>gdt_desc := (gdt_desc s)[i := gate_entry base limit access gr]\<rparr>"
  by (simp add: gdt_set_gate_def gate_entry_def)

lemma set_tss: "gdt_set_tss i base limit s = s\<lparr>gdt_desc := (gdt_desc s)[i := gate_entry base limit 0x89 0]\<rparr>"
  by (simp add: gdt_set_tss_def gate_entry_def)

lemma segment_of_entry:
  "limit < 0x100000 \<Longrightarrow> segment_of (gate_entry base limit access gr)
    = \<lparr>seg_base = base, seg_last = (if bit gr 7 then push_bit 12 limit OR 0xFFF else limit), seg_type = access AND 0x0F,
       seg_app = bit access 4, seg_dpl = drop_bit 5 access AND 3, seg_present = bit access 7\<rparr>"
  by (simp only: segment_of_def gate_entry_def Let_def gdt_entry.select_convs join16_8_8 join_limit gran_bit)

definition flat :: "u8 \<Rightarrow> u8 \<Rightarrow> segment" where
  "flat ty dpl = \<lparr>seg_base = 0, seg_last = 0xFFFFFFFF, seg_type = ty, seg_app = True, seg_dpl = dpl, seg_present = True\<rparr>"

definition tss_segment :: "u32 \<Rightarrow> u8 \<Rightarrow> segment" where
  "tss_segment base ty = \<lparr>seg_base = base, seg_last = 103, seg_type = ty, seg_app = False, seg_dpl = 0, seg_present = True\<rparr>"

lemma flat_entries:
  "segment_of (gate_entry 0 0xFFFFF 0x9A 0xCF) = flat 10 0" "segment_of (gate_entry 0 0xFFFFF 0x92 0xCF) = flat 2 0"
  "segment_of (gate_entry 0 0xFFFFF 0xFA 0xCF) = flat 10 3" "segment_of (gate_entry 0 0xFFFFF 0xF2 0xCF) = flat 2 3"
  by code_simp+

lemma tss_entries:
  "segment_of (gate_entry b 103 0x89 0) = tss_segment b 9"
  "segment_of ((gate_entry b 103 0x89 0)\<lparr>acc := 0x8B\<rparr>) = tss_segment b 11"
proof -
  have e: "(gate_entry b 103 0x89 0)\<lparr>acc := 0x8B\<rparr> = gate_entry b 103 0x8B 0" by (simp add: gate_entry_def)
  show "segment_of (gate_entry b 103 0x89 0) = tss_segment b 9" "segment_of ((gate_entry b 103 0x89 0)\<lparr>acc := 0x8B\<rparr>) = tss_segment b 11"
    unfolding e by (subst segment_of_entry; simp add: tss_segment_def bit_numeral_rec)+
qed

definition table_entries :: "tab_syms \<Rightarrow> u8 \<Rightarrow> gdt_entry list" where
  "table_entries A ty = [\<lparr>limit_lo = 0, base_lo = 0, base_mid = 0, acc = 0, gran = 0, base_hi = 0\<rparr>,
     gate_entry 0 0xFFFFF 0x9A 0xCF, gate_entry 0 0xFFFFF 0x92 0xCF, gate_entry 0 0xFFFFF 0xFA 0xCF,
     gate_entry 0 0xFFFFF 0xF2 0xCF, (gate_entry (at_g_tss A) 103 0x89 0)\<lparr>acc := ty\<rparr>]"

lemma selector_index:
  "unat (drop_bit 3 (0x08 :: u16)) = 1" "unat (drop_bit 3 (0x10 :: u16)) = 2" "unat (drop_bit 3 (0x1B :: u16)) = 3"
  "unat (drop_bit 3 (0x23 :: u16)) = 4" "unat (drop_bit 3 (0x28 :: u16)) = 5"
  "\<not> bit (0x08 :: u16) 2" "\<not> bit (0x10 :: u16) 2" "\<not> bit (0x1B :: u16) 2" "\<not> bit (0x23 :: u16) 2" "\<not> bit (0x28 :: u16) 2"
  by code_simp+

lemma table_segments:
  assumes "gdt_desc s = table_entries A ty" and "fst (gdtr s) = 47"
  shows "segment_at 0x08 s = Some (flat 10 0)" "segment_at 0x10 s = Some (flat 2 0)"
    "segment_at 0x1B s = Some (flat 10 3)" "segment_at 0x23 s = Some (flat 2 3)"
    "segment_at 0x28 s = Some (segment_of ((gate_entry (at_g_tss A) 103 0x89 0)\<lparr>acc := ty\<rparr>))"
  using assms by (simp_all add: segment_at_def selector_index table_entries_def flat_entries)

definition gdt_ready :: "tab_syms \<Rightarrow> 'a desc_scheme \<Rightarrow> bool" where
  "gdt_ready A s \<longleftrightarrow> gdt_desc s = table_entries A 0x8B \<and> gdtr s = (47, at_gdt_desc A)
     \<and> data_sel s = 0x10 \<and> code_sel s = 0x08 \<and> task_sel s = 0x28"

lemma six_list: "[a, b, c, d, e, f][1 := p, 2 := q, 3 := r, 4 := t, 5 := u] = [a, p, q, r, t, u]"
  "[a, b, c, d, e, f][5 := u] = [a, b, c, d, e, u]" "[a, b, c, d, e, f] ! 5 = f" "replicate 6 a = [a, a, a, a, a, a]"
  by (simp_all add: numeral_eq_Suc)

lemma gdt_init_ready:
  "\<exists>s'. gdt_init A s = Some s' \<and> gdt_ready A s' \<and> g_tss s' = zero_tss\<lparr>t_ss0 := 0x10, t_esp0 := at_null_kstack A + 2048\<rparr>
    \<and> idt s' = idt s \<and> idtr s' = idtr s"
proof -
  have entries: "(zero_gdt[1 := gate_entry 0 0xFFFFF 0x9A 0xCF, 2 := gate_entry 0 0xFFFFF 0x92 0xCF, 3 := gate_entry 0 0xFFFFF 0xFA 0xCF,
      4 := gate_entry 0 0xFFFFF 0xF2 0xCF, 5 := gate_entry (at_g_tss A) 103 0x89 0]) = table_entries A 0x89"
    by (simp only: zero_gdt_def table_entries_def six_list) (simp add: gate_entry_def)
  let ?s8 = "s\<lparr>g_tss := zero_tss\<lparr>t_ss0 := 0x10, t_esp0 := at_null_kstack A + 2048\<rparr>, gdt_desc := table_entries A 0x89,
    gdtr := (47, at_gdt_desc A)\<rparr>"
  have code: "gdt_init A s = gdt_flush ?s8"
    by (simp add: gdt_init_def Let_def set_gate set_tss flip: entries)
  have busy: "(table_entries A 0x89)[5 := (table_entries A 0x89 ! 5)\<lparr>acc := acc (table_entries A 0x89 ! 5) OR 2\<rparr>] = table_entries A 0x8B"
    by (simp only: table_entries_def six_list) simp
  let ?s9 = "?s8\<lparr>data_sel := 0x10, code_sel := 0x08\<rparr>"
  have avail: "(gate_entry (at_g_tss A) 103 0x89 0)\<lparr>acc := 0x89\<rparr> = gate_entry (at_g_tss A) 103 0x89 0" by (simp add: gate_entry_def)
  have "load_data_segs 0x10 ?s8 = Some (?s8\<lparr>data_sel := 0x10\<rparr>)"
    by (simp add: load_data_segs_def table_segments(2) flat_def bit_numeral_rec)
  moreover have "load_code_seg 0x08 (?s8\<lparr>data_sel := 0x10\<rparr>) = Some ?s9"
    by (simp add: load_code_seg_def table_segments(1) flat_def bit_numeral_rec)
  moreover have "segment_at 0x28 ?s9 = Some (tss_segment (at_g_tss A) 9)"
    using table_segments(5) [of ?s9 A "0x89"] by (simp add: avail tss_entries)
  then have "ltr 0x28 ?s9 = Some (?s9\<lparr>task_sel := 0x28, gdt_desc := table_entries A 0x8B\<rparr>)"
    by (simp add: ltr_def tss_segment_def selector_index Let_def busy)
  ultimately have "gdt_flush ?s8 = Some (?s9\<lparr>task_sel := 0x28, gdt_desc := table_entries A 0x8B\<rparr>)"
    by (simp add: gdt_flush_def)
  then show ?thesis unfolding code by (simp add: gdt_ready_def)
qed

section \<open>Gates\<close>

definition gate_to :: "u32 \<Rightarrow> u8 \<Rightarrow> idt_gate" where
  "gate_to h fl = \<lparr>off_lo = ucast (h AND 0xFFFF), sel = 0x08, ist_zero = 0, flags = fl, off_hi = ucast (drop_bit 16 h AND 0xFFFF)\<rparr>"

lemma set_gates:
  "idt_set v h s = s\<lparr>idt := (idt s)[unat v := gate_to h 0x8E]\<rparr>"
  "idt_set_user_gate v h s = s\<lparr>idt := (idt s)[unat v := gate_to h 0xEE]\<rparr>"
  by (simp_all add: idt_set_def idt_set_user_gate_def gate_to_def)

lemma set_range:
  assumes "length (idt s) = 256" and "base + i + n \<le> 256"
  shows "\<exists>l. idt_set_range base stubs i n s = s\<lparr>idt := l\<rparr> \<and> length l = 256
    \<and> (\<forall>j. l ! j = (if base + i \<le> j \<and> j < base + i + n then gate_to (stubs j) 0x8E else idt s ! j))"
  using assms
proof (induction n arbitrary: s i)
  case 0
  then show ?case by (intro exI [of _ "idt s"]) auto
next
  case (Suc n)
  have u: "unat (of_nat (base + i) :: u8) = base + i" using Suc.prems by (simp add: unat_of_nat del: of_nat_add)
  let ?s1 = "s\<lparr>idt := (idt s)[base + i := gate_to (stubs (base + i)) 0x8E]\<rparr>"
  have "idt_set_range base stubs i (Suc n) s = idt_set_range base stubs (Suc i) n ?s1"
    by (simp only: idt_set_range.simps set_gates u)
  moreover obtain l where "idt_set_range base stubs (Suc i) n ?s1 = ?s1\<lparr>idt := l\<rparr>" "length l = 256"
      "\<forall>j. l ! j = (if base + Suc i \<le> j \<and> j < base + Suc i + n then gate_to (stubs j) 0x8E else idt ?s1 ! j)"
    using Suc.IH [of ?s1 "Suc i"] Suc.prems by auto
  ultimately show ?case
    using Suc.prems by (intro exI [of _ l]) (auto simp: nth_list_update)
qed

text \<open>The gate of each vector after \<open>idt_init\<close>.\<close>

definition gate_of :: "tab_syms \<Rightarrow> nat \<Rightarrow> idt_gate" where
  "gate_of A v = (if v = 128 then gate_to (at_irq A 128) 0xEE
     else if v < 32 then gate_to (at_isr A v) 0x8E
     else if v < 48 \<or> v = 64 then gate_to (at_irq A v) 0x8E else empty_gate)"

lemma idt_init_gates:
  "\<exists>l. idt_init A s = s\<lparr>idt := l, idtr := (2047, at_idt A)\<rparr> \<and> length l = 256 \<and> (\<forall>v < 256. l ! v = gate_of A v)"
proof -
  let ?s1 = "s\<lparr>idt := replicate 256 empty_gate\<rparr>"
  obtain l1 where 1: "idt_set_range 0 (at_isr A) 0 32 ?s1 = ?s1\<lparr>idt := l1\<rparr>" "length l1 = 256"
      "\<forall>j. l1 ! j = (if j < 32 then gate_to (at_isr A j) 0x8E else replicate 256 empty_gate ! j)"
    using set_range [of ?s1 0 0 32 "at_isr A"] by auto
  let ?s2 = "s\<lparr>idt := l1\<rparr>"
  obtain l2 where 2: "idt_set_range 32 (at_irq A) 0 16 ?s2 = ?s2\<lparr>idt := l2\<rparr>" "length l2 = 256"
      "\<forall>j. l2 ! j = (if 32 \<le> j \<and> j < 48 then gate_to (at_irq A j) 0x8E else l1 ! j)"
    using set_range [of ?s2 32 0 16 "at_irq A"] 1(2) by auto
  let ?l = "l2[64 := gate_to (at_irq A 64) 0x8E, 128 := gate_to (at_irq A 128) 0xEE]"
  have "idt_init A s = s\<lparr>idt := ?l, idtr := (2047, at_idt A)\<rparr>"
    using 1(1) 2(1) by (simp add: idt_init_def Let_def set_gates)
  moreover have "?l ! v = gate_of A v" if "v < 256" for v
    using that 1(3) 2(2,3) by (simp add: gate_of_def nth_list_update)
  ultimately show ?thesis using 2(2) by (intro exI [of _ ?l]) simp
qed

section \<open>Entering the kernel\<close>

lemma gate_reads:
  "flags (gate_to h fl) = fl" "sel (gate_to h fl) = 8"
  "ucast (off_lo (gate_to h fl)) OR push_bit 16 (ucast (off_hi (gate_to h fl))) = h"
  by (simp_all only: gate_to_def idt_gate.select_convs join16_16)

lemma gate_flags:
  "(0x8E :: u8) AND 0x1F = 0x0E" "(0xEE :: u8) AND 0x1F = 0x0E" "drop_bit 5 (0x8E :: u8) AND 3 = 0" "drop_bit 5 (0xEE :: u8) AND 3 = 3"
  "bit (0x8E :: u8) 7" "bit (0xEE :: u8) 7" "(8 :: u16) AND NOT 3 = 8" "bit (10 :: u8) 3"
  by code_simp+

text \<open>
  C5: the tables of the CPU.  Initialisation succeeds: every selector it loads names a
  descriptor of the type the CPU wants there.  Afterwards each interrupt is delivered to its
  own stub with interrupts off and, from ring 3, on the stack given to \<open>tss_set_esp0\<close>; and
  \<open>int n\<close> in ring 3 enters the kernel for \<open>n\<close> = 128 only.
\<close>

theorem interrupts_enter_kernel:
  "\<exists>s1. gdt_init A s = Some s1 \<and> (let s' = tss_set_esp0 e (idt_init A s1)
     in segment_at (data_sel s') s' = Some (flat 2 0) \<and> segment_at (code_sel s') s' = Some (flat 10 0)
      \<and> segment_at 0x1B s' = Some (flat 10 3) \<and> segment_at 0x23 s' = Some (flat 2 3)
      \<and> segment_at (task_sel s') s' = Some (tss_segment (at_g_tss A) 11)
      \<and> (\<forall>v cpl. deliver False cpl v s' =
           (if unat v < 32 then Enters (at_isr A (unat v)) 8 False (if 0 < cpl then Some (0x10, e) else None)
            else if unat v < 48 \<or> v = 64 \<or> v = 128 then Enters (at_irq A (unat v)) 8 False (if 0 < cpl then Some (0x10, e) else None)
            else Gp_fault))
      \<and> (\<forall>v. deliver True 3 v s' = (if v = 128 then Enters (at_irq A 128) 8 False (Some (0x10, e)) else Gp_fault)))"
proof -
  obtain s1 where s1: "gdt_init A s = Some s1" "gdt_ready A s1" "g_tss s1 = zero_tss\<lparr>t_ss0 := 0x10, t_esp0 := at_null_kstack A + 2048\<rparr>"
    using gdt_init_ready [of A s] by blast
  obtain l where l: "idt_init A s1 = s1\<lparr>idt := l, idtr := (2047, at_idt A)\<rparr>" "\<And>v. v < 256 \<Longrightarrow> l ! v = gate_of A v"
    using idt_init_gates [of A s1] by blast
  let ?s = "tss_set_esp0 e (idt_init A s1)"
  have ready: "gdt_desc ?s = table_entries A 0x8B" "fst (gdtr ?s) = 47" "data_sel ?s = 0x10" "code_sel ?s = 8" "task_sel ?s = 0x28"
    using s1(2) l(1) by (simp_all add: gdt_ready_def tss_set_esp0_def)
  note segs = table_segments [OF ready(1,2)] and tss = tss_entries(2) [of "at_g_tss A"]
  have env: "idtr ?s = (2047, at_idt A)" "t_ss0 (g_tss ?s) = 0x10" "t_esp0 (g_tss ?s) = e" "idt ?s = l"
    using s1(3) l(1) by (simp_all add: tss_set_esp0_def)
  have code_at: "segment_at 8 ?s = Some (flat 10 0)" using segs(1) by simp
  have gate: "idt ?s ! unat v = gate_of A (unat v)" for v :: u8 using l(2) [of "unat v"] env(4) unat_bound [of v] by simp
  have in_range: "\<not> 2047 < 8 * unat v + 7" for v :: u8 using unat_bound [of v] by simp
  have to: "deliver soft cpl v ?s = Enters h 8 False (if 0 < cpl then Some (0x10, e) else None)"
    if "gate_of A (unat v) = gate_to h fl" "fl = 0x8E \<and> \<not> (soft \<and> 0 < cpl) \<or> fl = 0xEE \<and> \<not> (soft \<and> 3 < cpl)" for soft cpl v h fl
    using that(2) unfolding deliver_def Let_def gate that(1) gate_reads
    by (auto simp: env code_at gate_flags flat_def in_range)
  have no: "deliver soft cpl v ?s = Gp_fault"
    if "gate_of A (unat v) = empty_gate \<or> gate_of A (unat v) = gate_to h 0x8E \<and> soft \<and> 0 < cpl" for soft cpl v h
    using that unfolding deliver_def Let_def gate
    by (auto simp: env in_range empty_gate_def gate_reads gate_flags)
  have v128: "v = 128 \<longleftrightarrow> unat v = 128" "v = 64 \<longleftrightarrow> unat v = 64" for v :: u8 by (simp_all add: word_unat_eq_iff)
  have hard: "deliver False cpl v ?s =
       (if unat v < 32 then Enters (at_isr A (unat v)) 8 False (if 0 < cpl then Some (0x10, e) else None)
        else if unat v < 48 \<or> v = 64 \<or> v = 128 then Enters (at_irq A (unat v)) 8 False (if 0 < cpl then Some (0x10, e) else None)
        else Gp_fault)" for cpl v
    using to [of v "at_isr A (unat v)" "0x8E" False cpl] to [of v "at_irq A (unat v)" "if v = 128 then 0xEE else 0x8E" False cpl]
      no [of v undefined False cpl]
    unfolding v128 gate_of_def by (simp split: if_splits)
  have soft: "deliver True 3 v ?s = (if v = 128 then Enters (at_irq A 128) 8 False (Some (0x10, e)) else Gp_fault)" for v
  proof (cases "v = 128")
    case True
    then show ?thesis using to [of v "at_irq A 128" "0xEE" True 3] by (simp add: gate_of_def)
  next
    case False
    then have "gate_of A (unat v) = empty_gate \<or> (\<exists>h. gate_of A (unat v) = gate_to h 0x8E)" by (auto simp: gate_of_def v128)
    then show ?thesis using False no [of v _ True 3] by auto
  qed
  show ?thesis
    unfolding Let_def using s1(1) segs tss hard soft ready(3-5) by (intro exI [of _ s1]) simp
qed

lemma le_consts: "le16 0 = [0, 0]" "le16 0x10 = [0x10, 0]" "le32 0 = [0, 0, 0, 0]"
  by code_simp+

lemma io_bytes:
  "tss_bytes (zero_tss\<lparr>t_ss0 := 0x10, t_esp0 := e\<rparr>)
    = [0, 0, 0, 0, ucast e, ucast (drop_bit 8 e), ucast (drop_bit 16 e), ucast (drop_bit 24 e), 0x10] @ replicate 95 0"
  by (simp only: tss_bytes_def zero_tss_def tss_i386.simps le_consts le32_def [of e]) (simp, code_simp)

lemma io_at:
  shows "k < 4 \<Longrightarrow> tss_bytes (zero_tss\<lparr>t_ss0 := 0x10, t_esp0 := e\<rparr>) ! k = 0" "k < 4 \<Longrightarrow> tss_bytes (zero_tss\<lparr>t_ss0 := 0x10, t_esp0 := e\<rparr>) ! (4 + k) = ucast (drop_bit (8 * k) e)" "bit (tss_bytes (zero_tss\<lparr>t_ss0 := 0x10, t_esp0 := e\<rparr>) ! 8) r \<longleftrightarrow> r = 4"
    "9 \<le> k \<Longrightarrow> k < 104 \<Longrightarrow> tss_bytes (zero_tss\<lparr>t_ss0 := 0x10, t_esp0 := e\<rparr>) ! k = 0"
proof -
  assume "k < 4"
  then consider "k = 0" | "k = 1" | "k = 2" | "k = 3" by linarith
  then show "tss_bytes (zero_tss\<lparr>t_ss0 := 0x10, t_esp0 := e\<rparr>) ! k = 0" "tss_bytes (zero_tss\<lparr>t_ss0 := 0x10, t_esp0 := e\<rparr>) ! (4 + k) = ucast (drop_bit (8 * k) e)" by (cases; simp add: io_bytes)+
next
  have "bit (2 ^ 4 :: u8) r \<longleftrightarrow> r = 4" by (simp only: bit_exp_iff possible_bit_word) auto
  moreover have "tss_bytes (zero_tss\<lparr>t_ss0 := 0x10, t_esp0 := e\<rparr>) ! 8 = 2 ^ 4" by (simp add: io_bytes)
  ultimately show "bit (tss_bytes (zero_tss\<lparr>t_ss0 := 0x10, t_esp0 := e\<rparr>) ! 8) r \<longleftrightarrow> r = 4" by (simp only:)
  assume "9 \<le> k" "k < 104" then show "tss_bytes (zero_tss\<lparr>t_ss0 := 0x10, t_esp0 := e\<rparr>) ! k = 0" unfolding io_bytes by (subst nth_append) auto
qed
lemma io_bits:
  assumes "port < 824"
  shows "bit (tss_bytes (zero_tss\<lparr>t_ss0 := 0x10, t_esp0 := e\<rparr>) ! (port div 8)) (port mod 8)
    \<longleftrightarrow> port = 0x44 \<or> 32 \<le> port \<and> port < 64 \<and> bit e (port - 32)"
proof -
  let ?q = "port div 8" and ?r = "port mod 8"
  have p: "port = 8 * ?q + ?r" "?r < 8" by simp_all
  consider "?q < 4" | k where "k < 4" "?q = 4 + k" | "?q = 8" | "9 \<le> ?q"
  proof -
    have "?q < 4 \<or> (?q - 4 < 4 \<and> ?q = 4 + (?q - 4)) \<or> ?q = 8 \<or> 9 \<le> ?q" by linarith
    then show thesis using that by blast
  qed
  then show ?thesis
  proof cases
    case 1
    then show ?thesis using p by (auto simp: io_at(1))
  next
    case 2
    have "port - 32 = 8 * k + ?r" "32 \<le> port" "port < 64" "port \<noteq> 68" using p 2 by linarith+
    then show ?thesis using p(2) unfolding 2(2) io_at(2) [OF 2(1)] by (auto simp: bit_simps)
  next
    case 3
    then show ?thesis using p by (auto simp: io_at(3))
  next
    case 4
    then show ?thesis using p assms by (auto simp: io_at(4))
  qed
qed

text \<open>
  C32: the ports of ring 3.  The code leaves \<open>iomap_base\<close> of the TSS 0, so the CPU reads the TSS
  itself as the permission map: user code may access every port below 824 whose bit there
  is clear, the timer, the keyboard controller and the second interrupt controller included.
\<close>

theorem user_ports_open:
  "\<exists>s1. gdt_init A s = Some s1 \<and> (io_permitted 3 1 port (tss_set_esp0 e (idt_init A s1))
     \<longleftrightarrow> port < 824 \<and> port \<noteq> 0x44 \<and> \<not> (32 \<le> port \<and> port < 64 \<and> bit e (port - 32)))"
proof -
  obtain s1 where s1: "gdt_init A s = Some s1" "gdt_ready A s1" "g_tss s1 = zero_tss\<lparr>t_ss0 := 0x10, t_esp0 := at_null_kstack A + 2048\<rparr>"
    using gdt_init_ready [of A s] by blast
  obtain l where l: "idt_init A s1 = s1\<lparr>idt := l, idtr := (2047, at_idt A)\<rparr>" using idt_init_gates [of A s1] by blast
  let ?s = "tss_set_esp0 e (idt_init A s1)"
  have tss: "g_tss ?s = zero_tss\<lparr>t_ss0 := 0x10, t_esp0 := e\<rparr>" using s1(3) l by (simp add: tss_set_esp0_def)
  have "segment_at (task_sel ?s) ?s = Some (tss_segment (at_g_tss A) 11)"
    using s1(2) l table_segments(5) [of ?s A "0x8B"] tss_entries(2) [of "at_g_tss A"] by (simp add: gdt_ready_def tss_set_esp0_def)
  moreover have "length (tss_bytes (zero_tss\<lparr>t_ss0 := 0x10, t_esp0 := e\<rparr>)) = 104" by (simp add: io_bytes)
  moreover have "t_iomap_base (zero_tss\<lparr>t_ss0 := 0x10, t_esp0 := e\<rparr>) = 0" by (simp add: zero_tss_def)
  moreover have "port div 8 + 1 \<le> 103 \<longleftrightarrow> port < 824" "port div 8 + 1 < 104 \<longleftrightarrow> port < 824" by linarith+
  ultimately have "io_permitted 3 1 port ?s \<longleftrightarrow> port < 824 \<and> \<not> bit (tss_bytes (zero_tss\<lparr>t_ss0 := 0x10, t_esp0 := e\<rparr>) ! (port div 8)) (port mod 8)"
    by (simp add: io_permitted_def tss tss_segment_def Let_def)
  then show ?thesis using io_bits [of port e] s1(1) by auto
qed

end
