(* ===== verification/Exec_Flat.thy ===== *)
theory Exec_Flat
  imports Gdt_Idt
begin

text \<open>
  \<open>kernel/exec_flat.c\<close> and \<open>arch/i386/user_asm.S\<close>: loading a flat program from the RAM file
  system into a fresh address space, and the entry to ring 3.  A run ends when the function
  returns (\<open>Back\<close>) or when \<open>iret\<close> enters ring 3 (\<open>In_user\<close>); what follows the entry in the code is
  not reached.
\<close>

section \<open>The code\<close>

abbreviation (input) USER_TEXT_VA :: u32 where "USER_TEXT_VA \<equiv> 0x80000000"
abbreviation (input) USER_STACK_BASE :: u32 where "USER_STACK_BASE \<equiv> 0x80001000"
abbreviation (input) USER_STACK_TOP :: u32 where "USER_STACK_TOP \<equiv> 0x80002000"

text \<open>What \<open>iret\<close> loads from the five words that \<open>verve_enter_user\<close> pushes.\<close>

record user_frame =
  u_eip :: u32
  u_cs :: u32
  u_eflags :: u32
  u_esp :: u32
  u_ss :: u32

datatype 's run_end = Back 's | In_user user_frame 's

definition verve_enter_user :: "u32 \<Rightarrow> u32 \<Rightarrow> 's \<Rightarrow> 's run_end" where
  "verve_enter_user user_eip user_esp s =
     In_user \<lparr>u_eip = user_eip, u_cs = 0x1B, u_eflags = 0x202, u_esp = user_esp, u_ss = 0x23\<rparr> s"

text \<open>The two loops, \<open>left\<close> bytes to go; a store that faults does not return.\<close>

fun bzero_user_text :: "u32 \<Rightarrow> u32 \<Rightarrow> nat \<Rightarrow> 'a vm_scheme \<Rightarrow> 'a vm_scheme option" where
  "bzero_user_text p i 0 s = Some s"
| "bzero_user_text p i (Suc left) s = Option.bind (vstore (p + i) 0 s) (bzero_user_text p (i + 1) left)"

fun copy_blob :: "u32 \<Rightarrow> u8 list \<Rightarrow> u32 \<Rightarrow> nat \<Rightarrow> 'a vm_scheme \<Rightarrow> 'a vm_scheme option" where
  "copy_blob dst src i 0 s = Some s"
| "copy_blob dst src i (Suc left) s =
     (if unat i < length src then Option.bind (vstore (dst + i) (src ! unat i) s) (copy_blob dst src (i + 1) left)
      else None)"

text \<open>The loop over the text pages after the first, \<open>left\<close> pages to go; \<open>False\<close> is the early return.\<close>

fun more_text_pages :: "u32 \<Rightarrow> u32 \<Rightarrow> nat \<Rightarrow> 'a vm_scheme \<Rightarrow> bool \<times> 'a vm_scheme" where
  "more_text_pages pd i 0 s = (True, s)"
| "more_text_pages pd i (Suc left) s =
     (case pmm_alloc_frame (frames s) of (fr, p) \<Rightarrow>
        let va = USER_TEXT_VA + i * 4096; s1 = s\<lparr>frames := p\<rparr>
        in if fr = 0 then (False, s1)
           else case paging_map_page pd va fr PTE_USER_RWU s1 of (ok, s2) \<Rightarrow>
             if \<not> ok then (False, s2) else more_text_pages pd (i + 1) left s2)"

text \<open>The two first frames and their mappings; \<open>Inr\<close> is success, \<open>Inl\<close> names the message of the early return.\<close>

datatype map_failure = No_frame | No_table

definition map_user_pages :: "u32 \<Rightarrow> 'a vm_scheme \<Rightarrow> (map_failure \<times> 'a vm_scheme) + (u32 \<times> 'a vm_scheme)" where
  "map_user_pages pd s =
     (case pmm_alloc_frame (frames s) of (phys_code, p1) \<Rightarrow>
      case pmm_alloc_frame p1 of (phys_stack, p2) \<Rightarrow>
        let s1 = s\<lparr>frames := p2\<rparr>
        in if phys_code = 0 \<or> phys_stack = 0 then Inl (No_frame, s1)
           else case paging_map_page pd USER_TEXT_VA phys_code PTE_USER_RWU s1 of (ok, s2) \<Rightarrow>
             if \<not> ok then Inl (No_table, s2)
             else case paging_map_page pd USER_STACK_BASE phys_stack PTE_USER_RWU s2 of (ok, s3) \<Rightarrow>
               if \<not> ok then Inl (No_table, s3) else Inr (phys_code, s3))"

definition say :: "string \<Rightarrow> 'a desc_scheme \<Rightarrow> 'a desc_scheme run_end option" where
  "say msg s = map_option Back (serial_puts (cstr msg @ crlf) s)"

text \<open>The part after the page directory is there; \<open>k0\<close> is the address of \<open>g_user_ring0_stack\<close>.\<close>

definition exec_load :: "u32 \<Rightarrow> u8 list \<Rightarrow> u32 \<Rightarrow> u32 \<Rightarrow> 'a desc_scheme \<Rightarrow> 'a desc_scheme run_end option" where
  "exec_load k0 blob len pd s =
     (case map_user_pages pd s of
        Inl (No_frame, s1) \<Rightarrow> say ''[VerveOS] exec_flat: pmm_alloc_frame failed'' s1
      | Inl (No_table, s1) \<Rightarrow> say ''[VerveOS] exec_flat: paging_map_page failed'' s1
      | Inr (_, s1) \<Rightarrow>
          let npg = (len + 4096 - 1) div 4096
          in case more_text_pages pd 1 (unat npg - 1) s1 of (ok, s2) \<Rightarrow>
            if \<not> ok then say ''[VerveOS] exec_flat: extra text page failed'' s2
            else Option.bind (bzero_user_text USER_TEXT_VA 0 (unat (npg * 4096)) (paging_switch_cr3 pd s2)) (\<lambda>s3.
                 Option.bind (copy_blob USER_TEXT_VA blob 0 (unat len) s3) (\<lambda>s4.
                 Option.bind (serial_puts (cstr ''[VerveOS] exec_flat: paging_switch_cr3 + iret'' @ crlf)
                     (tss_set_esp0 (k0 + 2048) s4)) (\<lambda>s5.
                 Some (verve_enter_user USER_TEXT_VA USER_STACK_TOP (s5\<lparr>if_flag := False\<rparr>))))))"

definition verve_exec_flat_run :: "layout \<Rightarrow> u32 \<Rightarrow> u8 list \<Rightarrow> 'a desc_scheme \<Rightarrow> 'a desc_scheme run_end option" where
  "verve_exec_flat_run L k0 path s =
     (case verve_vfs_get_file_k (path @ [0]) of None \<Rightarrow> None
      | Some (status, file) \<Rightarrow>
          (case (if status \<noteq> 0 then None else file) of
             None \<Rightarrow> Option.bind (serial_puts (cstr ''[VerveOS] exec_flat: ramfs lookup failed for '') s) (\<lambda>s1.
                     Option.bind (serial_puts path s1) (\<lambda>s2. map_option Back (serial_puts crlf s2)))
           | Some (blob, len) \<Rightarrow>
               if len = 0 then Option.bind (serial_puts (cstr ''[VerveOS] exec_flat: ramfs lookup failed for '') s) (\<lambda>s1.
                     Option.bind (serial_puts path s1) (\<lambda>s2. map_option Back (serial_puts crlf s2)))
               else Option.bind (serial_puts (cstr ''[VerveOS] exec_flat: load '') s) (\<lambda>s1.
                    Option.bind (serial_puts path s1) (\<lambda>s2.
                    Option.bind (serial_puts (cstr '' len='') s2) (\<lambda>s3.
                    Option.bind (serial_put_u64_hex (ucast len) s3) (\<lambda>s4.
                    Option.bind (serial_puts crlf s4) (\<lambda>s5.
                      let s6 = verve_proc_exec_reset_brk (verve_proc_init_singleton L s5);
                          pd = verve_proc_current_pd_phys s6
                      in if pd = 0 then say ''[VerveOS] exec_flat: no page directory'' s6
                         else exec_load k0 blob len pd s6)))))))"

section \<open>Frames enough\<close>

definition free_count :: "pmm \<Rightarrow> nat" where
  "free_count p = card {f. frame_is_free p f}"

lemma alloc_some:
  assumes "pmm_inv p" and "0 < free_count p"
  obtains f p' where "pmm_alloc_frame p = (f, p')" "f \<noteq> 0" "free_count p = Suc (free_count p')"
proof -
  obtain f p' where al: "pmm_alloc_frame p = (f, p')" by fastforce
  have nz: "f \<noteq> 0" using alloc_none(2) [OF assms(1), of p'] al assms(2) by (auto simp: free_count_def)
  note A = alloc_facts [OF assms(1) al nz]
  have "{g. frame_is_free p g} = insert f {g. frame_is_free p' g}" using A(1,4) by auto
  moreover have "f \<notin> {g. frame_is_free p' g}" using A(4) by simp
  ultimately have "free_count p = Suc (free_count p')" by (simp add: free_count_def)
  then show thesis using al nz that by blast
qed

lemma free_count_less:
  assumes "\<And>g. frame_is_free p' g \<longleftrightarrow> frame_is_free p g \<and> g \<noteq> f" and "frame_is_free p f"
  shows "free_count p = Suc (free_count p')"
proof -
  have "{g. frame_is_free p g} = insert f {g. frame_is_free p' g}" "f \<notin> {g. frame_is_free p' g}" using assms by auto
  then show ?thesis by (simp add: free_count_def)
qed

text \<open>A frame that is neither the directory of an address space nor one of its tables.\<close>

definition no_table :: "u32 \<Rightarrow> u32 \<Rightarrow> memory \<Rightarrow> bool" where
  "no_table f pd m \<longleftrightarrow> f \<noteq> pd \<and> (\<forall>i. unat i < 1024 \<longrightarrow> present (pde_of m pd i) \<longrightarrow> page_of (pde_of m pd i) \<noteq> f)"

lemma no_table_free: "space_wf pd s \<Longrightarrow> frame_is_free (frames s) f \<Longrightarrow> no_table f pd (mem s)"
  using space_wfD(3,5) unfolding no_table_def by metis

lemma map_page_no_table:
  assumes wf: "space_wf pd s" and n: "no_table f pd (mem s)" and nf: "\<not> frame_is_free (frames s) f"
    and ok: "fst (paging_map_page pd virt phys fl s)"
  shows "no_table f pd (mem (snd (paging_map_page pd virt phys fl s)))"
proof (cases "present (pde_of (mem s) pd (pd_index virt))")
  case True
  show ?thesis
    using n write_pte(1) [OF wf True] by (simp add: map_page_old [OF space_wfD(2) [OF wf] True] no_table_def)
next
  case False
  obtain pt p where al: "pmm_alloc_frame (frames s) = (pt, p)" by fastforce
  note D = space_wfD [OF wf]
  have nz: "pt \<noteq> 0" using ok map_page_full [OF D(2) False, of p] al by auto
  note A = alloc_facts [OF D(1) al nz] and T = new_table [OF wf False al nz]
  let ?s2 = "s\<lparr>frames := p, mem := with_table pd virt pt (mem s)\<rparr>"
  have pde: "pde_of (mem ?s2) pd (pd_index virt) = pt OR (PTE_PRESENT OR PTE_RW)" using T(1) [OF pd_index_lt, of virt] by simp
  then have pr: "present (pde_of (mem ?s2) pd (pd_index virt))" and pg: "page_of (pde_of (mem ?s2) pd (pd_index virt)) = pt"
    using T(4,5) by simp_all
  have "pt \<noteq> f" using A(1) nf by blast
  then have "no_table f pd (mem ?s2)" using n T(1,5) by (auto simp: no_table_def)
  then show ?thesis
    using write_pte(1) [OF T(2) pr, unfolded pg]
    by (simp add: map_page_new [OF D(2) False al nz A(2)] no_table_def)
qed

text \<open>Mapping a page when there is a frame for the table, if one is needed.\<close>

lemma map_page_ok:
  assumes wf: "space_wf pd s" and fr: "present (pde_of (mem s) pd (pd_index virt)) \<or> 0 < free_count (frames s)"
  obtains s' where "paging_map_page pd virt phys fl s = (True, s')" "space_wf pd s'"
    "maps_page pd virt (new_pte phys fl) (mem s) (mem s')" "present (pde_of (mem s') pd (pd_index virt))"
    "\<And>f. no_table f pd (mem s) \<Longrightarrow> \<not> frame_is_free (frames s) f \<Longrightarrow> no_table f pd (mem s') \<and> \<not> frame_is_free (frames s') f"
    "\<not> present (pde_of (mem s) pd (pd_index virt)) \<Longrightarrow> pde_of (mem s') pd (pd_index virt) AND 4 = 0"
    "present (pde_of (mem s) pd (pd_index virt)) \<Longrightarrow> pde_of (mem s') pd (pd_index virt) = pde_of (mem s) pd (pd_index virt)"
    "s' = s\<lparr>frames := frames s', mem := mem s'\<rparr>"
proof -
  let ?r = "paging_map_page pd virt phys fl s"
  have frame: "snd ?r = s\<lparr>frames := frames (snd ?r), mem := mem (snd ?r)\<rparr>"
    by (simp add: paging_map_page_def Let_def split: prod.split)
  have pt: "present (pt OR (PTE_PRESENT OR PTE_RW)) \<and> (pt OR (PTE_PRESENT OR PTE_RW)) AND 4 = 0" if "frame_is_free (frames s) pt" for pt
    using table_pde(2,4) [of pt] that by (simp add: frame_is_free_def present_def)
  have run: "?r = (True, snd ?r)" if "fst ?r" using that by (metis prod.collapse)
  show thesis
  proof (cases rule: map_page_cases [OF wf, of virt phys fl])
    case 1
    show thesis
      by (rule that [OF run [OF 1(2)] 1(3,4) _ _ _ _ frame])
        (use 1 map_page_no_table [OF wf _ _ 1(2)] in auto)
  next
    case (2 pt)
    show thesis
      by (rule that [OF run [OF 2(2)] 2(3,4) _ _ _ _ frame])
        (use 2 pt [OF 2(5)] map_page_no_table [OF wf _ _ 2(2)] in auto)
  next
    case 3
    then show thesis using fr by (auto simp: free_count_def)
  qed
qed

text \<open>
  The address space the two callers build: the text page and the stack page are frames of their
  own behind a directory entry without the user bit, the rest is as before.
\<close>

definition no_users :: "u32 \<Rightarrow> memory \<Rightarrow> bool" where
  "no_users pd m \<longleftrightarrow> (\<forall>va pde pte. mmu_walk m pd va = Some (pde, pte) \<longrightarrow> pte AND 4 = 0)"

definition user_layout :: "u32 \<Rightarrow> u32 \<Rightarrow> u32 \<Rightarrow> memory \<Rightarrow> memory \<Rightarrow> bool" where
  "user_layout pd code stk m m' \<longleftrightarrow> page_of code = code \<and> page_of stk = stk \<and> code \<noteq> stk
     \<and> no_table code pd m' \<and> no_table stk pd m'
     \<and> (\<exists>d. d AND 4 = 0 \<and> (\<forall>va. mmu_walk m' pd va =
          (if page_of va = 0x80000000 then Some (d, new_pte code 7)
           else if page_of va = 0x80001000 then Some (d, new_pte stk 7) else mmu_walk m pd va)))"

lemma user_va: "pd_index 0x80000000 = 512" "pd_index 0x80001000 = 512" "page_of 0x80000000 = 0x80000000" "page_of 0x80001000 = 0x80001000"
  by code_simp+

lemma map_user_pages_ok:
  assumes wf: "space_wf pd s" and np: "\<not> present (pde_of (mem s) pd 512)" and fr: "3 \<le> free_count (frames s)"
  obtains code stk s' where "map_user_pages pd s = Inr (code, s')" "space_wf pd s'" "user_layout pd code stk (mem s) (mem s')"
    "s' = s\<lparr>frames := frames s', mem := mem s'\<rparr>"
proof -
  obtain code p1 where a1: "pmm_alloc_frame (frames s) = (code, p1)" "code \<noteq> 0" "free_count (frames s) = Suc (free_count p1)"
    using alloc_some [OF space_wfD(1) [OF wf]] fr by (metis Suc_le_lessD numeral_3_eq_3 zero_less_Suc less_le_trans)
  note A = alloc_facts [OF space_wfD(1) [OF wf] a1(1,2)] and wf1 = space_wf_alloc [OF wf a1(1,2)]
  obtain stk p2 where a2: "pmm_alloc_frame p1 = (stk, p2)" "stk \<noteq> 0" "free_count p1 = Suc (free_count p2)"
    using alloc_some [OF A(3)] fr a1(3) by (metis Suc_le_lessD Suc_le_mono numeral_3_eq_3 zero_less_Suc less_le_trans)
  note B = alloc_facts [OF A(3) a2(1,2)]
  have wf2: "space_wf pd (s\<lparr>frames := p2\<rparr>)" using space_wf_alloc [OF wf1, of stk p2] a2 by simp
  have ne: "code \<noteq> stk" using A(4) B(1) by metis
  have nt: "no_table code pd (mem s)" "no_table stk pd (mem s)"
    using no_table_free [OF wf A(1)] no_table_free [OF wf1, of stk] B(1) by simp_all
  have nf: "\<not> frame_is_free p2 code" "\<not> frame_is_free p2 stk" using A(4) B(4) by simp_all
  let ?s1 = "s\<lparr>frames := p2\<rparr>"
  have fr2: "0 < free_count p2" using fr a1(3) a2(3) by simp
  obtain s2 where m2: "paging_map_page pd USER_TEXT_VA code PTE_USER_RWU ?s1 = (True, s2)" "space_wf pd s2"
      "maps_page pd USER_TEXT_VA (new_pte code 7) (mem s) (mem s2)" "present (pde_of (mem s2) pd 512)"
      "\<And>f. no_table f pd (mem s) \<Longrightarrow> \<not> frame_is_free p2 f \<Longrightarrow> no_table f pd (mem s2) \<and> \<not> frame_is_free (frames s2) f"
      "pde_of (mem s2) pd 512 AND 4 = 0" "s2 = s\<lparr>frames := frames s2, mem := mem s2\<rparr>"
    using map_page_ok [OF wf2, of "0x80000000" code 7] np fr2 unfolding user_va(1) by auto
  obtain s3 where m3: "paging_map_page pd USER_STACK_BASE stk PTE_USER_RWU s2 = (True, s3)" "space_wf pd s3"
      "maps_page pd USER_STACK_BASE (new_pte stk 7) (mem s2) (mem s3)"
      "\<And>f. no_table f pd (mem s2) \<Longrightarrow> \<not> frame_is_free (frames s2) f \<Longrightarrow> no_table f pd (mem s3) \<and> \<not> frame_is_free (frames s3) f"
      "pde_of (mem s3) pd 512 = pde_of (mem s2) pd 512" "s3 = s2\<lparr>frames := frames s3, mem := mem s3\<rparr>"
    using map_page_ok [OF m2(2), of "0x80001000" stk 7] m2(4) unfolding user_va(2) by auto
  have pres: "present (new_pte f 7)" for f using user_flags(1) [of f] by (simp add: present_def)
  have "mmu_walk (mem s3) pd va =
      (if page_of va = 0x80000000 then Some (pde_of (mem s2) pd 512, new_pte code 7)
       else if page_of va = 0x80001000 then Some (pde_of (mem s2) pd 512, new_pte stk 7) else mmu_walk (mem s) pd va)" for va
    using m2(3) m3(3,5) pres unfolding maps_page_def user_va by simp
  then have "user_layout pd code stk (mem s) (mem s3)"
    using A(2) B(2) ne m2(5,6) m3(4) nt nf unfolding user_layout_def by blast
  moreover have "s3 = s\<lparr>frames := frames s3, mem := mem s3\<rparr>" using m2(7) m3(6) by (metis vm.update_convs(4) vm.update_convs(1) vm.surjective)
  moreover have "map_user_pages pd s = Inr (code, s3)"
    using a1 a2 m2(1) m3(1) by (simp add: map_user_pages_def Let_def)
  ultimately show thesis using that m3(2) by blast
qed

text \<open>Once it is loaded, the kernel can fill the text page, and ring 3 cannot reach it.\<close>

lemma user_layout_good:
  assumes lay: "user_layout pd code stk m (mem s)" and nu: "no_users pd m" and pd: "page_of pd = pd"
    and cr: "cr3 s = pd" "cr0_pg s"
  shows "user_good s" and "i < 4096 \<Longrightarrow> vtranslate s (0x80000000 + of_nat i) = Some (code OR of_nat i)"
    and "i < 4096 \<Longrightarrow> page_user_ok (mem s) (paging_get_cr3 s) False (0x80000000 + of_nat i)"
    and "mmu_translate (mem s) pd True w 0x80000000 = None"
proof -
  obtain d where d: "d AND 4 = 0" and walk: "\<And>va. mmu_walk (mem s) pd va =
          (if page_of va = 0x80000000 then Some (d, new_pte code 7)
           else if page_of va = 0x80001000 then Some (d, new_pte stk 7) else mmu_walk m pd va)"
    using lay by (auto simp: user_layout_def)
  have pages: "page_of code = code" "page_of stk = stk" "no_table code pd (mem s)" "no_table stk pd (mem s)"
    using lay by (simp_all add: user_layout_def)
  have pg: "page_of (new_pte f 7) = page_of f" for f by (rule page_of_or_flags)
  have cr3: "page_of (cr3 s) = pd" "paging_get_cr3 s = pd" using cr(1) pd by (simp_all add: paging_get_cr3_def)
  have "user_isolated s"
    unfolding user_isolated_def cr3
  proof (intro allI impI)
    fix va pde pte assume w: "mmu_walk (mem s) pd va = Some (pde, pte)" and us: "pte AND PTE_US \<noteq> 0"
    then have "pte = new_pte code 7 \<or> pte = new_pte stk 7"
      using nu walk [of va] by (auto simp: no_users_def split: if_splits)
    then have "no_table (page_of pte) pd (mem s)" using pages pg [of code] pg [of stk] by auto
    then show "page_of pte \<noteq> pd \<and> (\<forall>i. unat i < 1024 \<longrightarrow> present (pde_of (mem s) pd i) \<longrightarrow> page_of pte \<noteq> page_of (pde_of (mem s) pd i))"
      by (auto simp: no_table_def)
  qed
  moreover have "\<not> page_user_ok (mem s) (paging_get_cr3 s) False 0"
    using walk [of 0] nu by (auto simp: page_user_ok_def cr3 pte_fetch_mmu [OF pd] no_users_def page_of_def split: option.splits)
  ultimately show "user_good s" using cr(2) by (auto simp: user_good_def)
  have b: "page_of (0x80000000 :: u32) = 0x80000000" by (rule user_va)
  assume i: "i < 4096"
  have w: "mmu_walk (mem s) pd (0x80000000 + of_nat i) = Some (d, new_pte code 7)" using walk page_plus [OF b i] by simp
  show "vtranslate s (0x80000000 + of_nat i) = Some (code OR of_nat i)"
    using w cr pages(1) pg [of code] page_off_plus [OF b i] by (simp add: vtranslate_def mmu_translate_def mmu_allows_def)
  show "page_user_ok (mem s) (paging_get_cr3 s) False (0x80000000 + of_nat i)"
    using w user_flags(3) [of code] by (simp add: page_user_ok_def cr3 pte_fetch_mmu [OF pd])
next
  obtain d where d: "d AND 4 = 0" and walk: "\<And>va. mmu_walk (mem s) pd va =
          (if page_of va = 0x80000000 then Some (d, new_pte code 7)
           else if page_of va = 0x80001000 then Some (d, new_pte stk 7) else mmu_walk m pd va)"
    using lay by (auto simp: user_layout_def)
  show "mmu_translate (mem s) pd True w 0x80000000 = None"
    using walk [of "0x80000000"] d by (simp add: mmu_translate_def mmu_allows_def user_va)
qed

lemma page_or_offset:
  assumes "page_of code = code" and "k < 4096"
  shows "code OR of_nat k = code + of_nat k"
  using page_and_offset [of "code + of_nat k"] unfolding page_plus [OF assms] page_off_plus [OF assms] .

lemma text_offset_inj:
  assumes "page_of code = code" and "i < 4096" "j < 4096" and "code OR of_nat i = code OR (of_nat j :: u32)"
  shows "i = j"
proof -
  have eq: "(of_nat i :: u32) = of_nat j"
    using assms(4) unfolding page_or_offset [OF assms(1,2)] page_or_offset [OF assms(1,3)] by (rule add_left_imp_eq)
  have "i < 4294967296" "j < 4294967296" using assms(2,3) by linarith+
  then show ?thesis using unat_of_nat32 eq by metis
qed

lemma bzero_stores: "bzero_user_text p (of_nat i) n s = umem.stores (p + of_nat i) (replicate n 0) s"
proof (induction n arbitrary: i s)
  case 0
  then show ?case by simp
next
  case (Suc n)
  have "bzero_user_text p (of_nat i + 1) n s' = umem.stores (p + of_nat i + 1) (replicate n 0) s'" for s' :: "'a vm_scheme"
    using Suc.IH [of "Suc i" s'] by (simp add: algebra_simps)
  then show ?case by (cases "vstore (p + of_nat i) 0 s") simp_all
qed

lemma copy_blob_out: "copy_blob dst src i n s = copy_out dst src 0 i n s"
proof (induction n arbitrary: i s)
  case 0
  then show ?case by simp
next
  case (Suc n)
  then show ?case by (cases "vstore (dst + i) (src ! unat i) s") simp_all
qed

lemma stores_mem: "umem.stores va bs s = Some s' \<Longrightarrow> s' = s\<lparr>mem := mem s'\<rparr>"
proof (induction bs arbitrary: va s)
  case Nil
  then show ?case by simp
next
  case (Cons b bs)
  then obtain s1 where s1: "vstore va b s = Some s1" "umem.stores (va + 1) bs s1 = Some s'" by (auto simp: bind_eq_Some_conv)
  have "s' = s1\<lparr>mem := mem s'\<rparr>" using Cons.IH [OF s1(2)] .
  moreover have "s1 = s\<lparr>mem := mem s1\<rparr>" using s1(1) by (auto simp: vstore_def)
  ultimately show ?case by (metis vm.surjective vm.update_convs(1))
qed

lemma vstore_walk:
  assumes "user_good s" and "page_user_ok (mem s) (paging_get_cr3 s) False va" and "vstore va v s = Some s'"
  shows "mmu_walk (mem s') (page_of (cr3 s)) x = mmu_walk (mem s) (page_of (cr3 s)) x" and "cr3 s' = cr3 s"
proof -
  obtain pde pte where W: "mmu_walk (mem s) (page_of (cr3 s)) va = Some (pde, pte)" "pte AND PTE_US \<noteq> 0"
    "mmu_translate (mem s) (cr3 s) False False va = Some (page_of pte OR (va AND 4095))"
    by (rule user_ok_walk [OF assms(2)])
  have "vtranslate s va = Some (page_of pte OR (va AND 4095))" using assms(1) W(3) by (simp add: vtranslate_def user_good_def)
  then have s': "s' = s\<lparr>mem := (mem s)(page_of pte OR (va AND 4095) := v)\<rparr>" using assms(3) by (simp add: vstore_def)
  have "user_isolated s" using assms(1) by (simp add: user_good_def)
  then show "mmu_walk (mem s') (page_of (cr3 s)) x = mmu_walk (mem s) (page_of (cr3 s)) x" "cr3 s' = cr3 s"
    using user_store_walk(1) [OF _ W(1,2) page_off_of_byte] by (simp_all add: s')
qed

lemma stores_walk:
  assumes "user_good s" and "\<And>i. i < length bs \<Longrightarrow> page_user_ok (mem s) (paging_get_cr3 s) False (va + of_nat i)"
    and "umem.stores va bs s = Some s'"
  shows "mmu_walk (mem s') (page_of (cr3 s)) x = mmu_walk (mem s) (page_of (cr3 s)) x" and "cr3 s' = cr3 s"
proof -
  from assms have "mmu_walk (mem s') (page_of (cr3 s)) x = mmu_walk (mem s) (page_of (cr3 s)) x \<and> cr3 s' = cr3 s"
  proof (induction bs arbitrary: va s)
    case Nil
    then show ?case by simp
  next
    case (Cons b bs)
    obtain s1 where s1: "vstore va b s = Some s1" "umem.stores (va + 1) bs s1 = Some s'"
      using Cons.prems(3) by (auto simp: bind_eq_Some_conv)
    have u: "page_user_ok (mem s) (paging_get_cr3 s) False va" using Cons.prems(2) [of 0] by simp
    note G = umem.store_good [OF Cons.prems(1) u s1(1)] and V = vstore_walk [OF Cons.prems(1) u s1(1)]
    have "page_user_ok (mem s1) (paging_get_cr3 s1) False (va + 1 + of_nat i)" if "i < length bs" for i
      using Cons.prems(2) [of "Suc i"] that G by (simp add: algebra_simps)
    from Cons.IH [OF _ this s1(2)] G V show ?case by simp
  qed
  then show "mmu_walk (mem s') (page_of (cr3 s)) x = mmu_walk (mem s) (page_of (cr3 s)) x" "cr3 s' = cr3 s" by blast+
qed

lemma text_filled:
  assumes g: "user_good s" and code: "page_of code = code"
    and tr: "\<And>i. i < 4096 \<Longrightarrow> vtranslate s (0x80000000 + of_nat i) = Some (code OR of_nat i)"
    and us: "\<And>i. i < 4096 \<Longrightarrow> page_user_ok (mem s) (paging_get_cr3 s) False (0x80000000 + of_nat i)"
    and len: "n \<le> 4096" "n \<le> length blob" "length blob < 4294967296"
  obtains s3 s4 where "bzero_user_text 0x80000000 0 4096 s = Some s3" "copy_blob 0x80000000 blob 0 n s3 = Some s4"
    "s4 = s\<lparr>mem := mem s4\<rparr>" "vtranslate s4 = vtranslate s" "user_good s4"
    "\<And>i. i < 4096 \<Longrightarrow> vload s4 (0x80000000 + of_nat i) = Some (if i < n then blob ! i else 0)"
    "\<And>x. mmu_walk (mem s4) (page_of (cr3 s)) x = mmu_walk (mem s) (page_of (cr3 s)) x"
proof -
  have inj: "i = j" if "i < 4096" "j < 4096" "vtranslate s (0x80000000 + of_nat i) = vtranslate s (0x80000000 + of_nat j)" for i j
    using tr that text_offset_inj [OF code that(1,2)] by simp
  let ?z = "replicate 4096 (0 :: u8)"
  obtain s3 where s3: "umem.stores 0x80000000 ?z s = Some s3" "user_good s3" "vtranslate s3 = vtranslate s"
      "page_user_ok (mem s3) (paging_get_cr3 s3) = page_user_ok (mem s) (paging_get_cr3 s)"
    using umem.stores_ok [OF g, of ?z "0x80000000"] us by auto
  have zero: "vload s3 (0x80000000 + of_nat i) = Some 0" if "i < 4096" for i
    using umem.stores_read [OF g, of ?z "0x80000000" s3 i] us inj s3(1) that by simp
  let ?b = "take n blob"
  have us3: "page_user_ok (mem s3) (paging_get_cr3 s3) False (0x80000000 + of_nat i)" if "i < length ?b" for i
    using us s3(4) that len(1) by simp
  obtain s4 where s4: "umem.stores 0x80000000 ?b s3 = Some s4" "user_good s4" "vtranslate s4 = vtranslate s3"
      "\<And>x pa. vtranslate s3 x = Some pa \<Longrightarrow> \<forall>i<length ?b. vtranslate s3 (0x80000000 + of_nat i) \<noteq> vtranslate s3 x \<Longrightarrow> vload s4 x = vload s3 x"
    using umem.stores_ok [OF s3(2) us3] by blast
  have "vload s4 (0x80000000 + of_nat i) = Some (if i < n then blob ! i else 0)" if i: "i < 4096" for i
  proof (cases "i < n")
    case True
    have lb: "length ?b = n" using len by simp
    have "vload s4 (0x80000000 + of_nat i) = Some (?b ! i)"
    proof (rule umem.stores_read [OF s3(2) us3 _ s4(1)])
      show "k = j" if "k < length ?b" "j < length ?b"
          "vtranslate s3 (0x80000000 + of_nat k) = vtranslate s3 (0x80000000 + of_nat j)" for k j
        using inj [of k j] that len(1) unfolding lb s3(3) by linarith
      show "i < length ?b" using True lb by simp
    qed
    then show ?thesis using True by simp
  next
    case False
    have "vtranslate s3 (0x80000000 + of_nat k) \<noteq> vtranslate s3 (0x80000000 + of_nat i)" if "k < length ?b" for k
    proof -
      have "k < 4096" "k \<noteq> i" using that False len(1) by simp_all
      then show ?thesis using inj [OF _ i, of k] unfolding s3(3) by blast
    qed
    moreover have "vtranslate s3 (0x80000000 + of_nat i) = Some (code OR of_nat i)" unfolding s3(3) by (rule tr [OF i])
    ultimately have "vload s4 (0x80000000 + of_nat i) = vload s3 (0x80000000 + of_nat i)" by (intro s4(4)) auto
    then show ?thesis unfolding if_not_P [OF False] zero [OF i] .
  qed
  moreover have "bzero_user_text 0x80000000 0 4096 s = Some s3"
    using bzero_stores [of "0x80000000" 0 4096 s] s3(1) by simp
  moreover have "copy_blob 0x80000000 blob 0 n s3 = Some s4"
    using copy_out_stores [of 0 0 n blob "0x80000000" s3] s4(1) len by (simp add: copy_blob_out)
  moreover have "mmu_walk (mem s4) (page_of (cr3 s)) x = mmu_walk (mem s) (page_of (cr3 s)) x" for x
    using stores_walk(1) [OF s3(2) us3 s4(1), of x] stores_walk [OF g _ s3(1)] us by simp
  moreover have "s4 = s\<lparr>mem := mem s4\<rparr>"
    using stores_mem [OF s3(1)] stores_mem [OF s4(1)] by (metis vm.surjective vm.update_convs(1))
  ultimately show thesis using that s4(2,3) s3(3) by simp
qed

section \<open>A run\<close>

text \<open>A kernel that is up: paging is on, its directory is well formed and maps nothing for users or at \<open>0x80000000\<close>.\<close>

definition kernel_up :: "layout \<Rightarrow> 'a vm_scheme \<Rightarrow> bool" where
  "kernel_up L s \<longleftrightarrow> con_ok s \<and> cr0_pg s \<and> space_wf (boot_pd L) s \<and> no_users (boot_pd L) (mem s)
     \<and> \<not> present (pde_of (mem s) (boot_pd L) 512)"

lemma kernel_up_prints: "kernel_up L s \<Longrightarrow> prints s m s' \<Longrightarrow> con_ok s' \<Longrightarrow> kernel_up L s' \<and> frames s' = frames s"
  by (auto simp: kernel_up_def prints_def space_wf_def)

text \<open>The process the two callers start with.\<close>

lemma fresh_process:
  assumes "kernel_up L s" and "4 \<le> free_count (frames s)"
  obtains pd s' where "verve_proc_init_singleton L s = s'" "cur_pd_phys s' = pd" "pd \<noteq> 0" "g_brk s' = 0x80002000"
    "space_wf pd s'" "no_users pd (mem s')" "\<not> present (pde_of (mem s') pd 512)" "3 \<le> free_count (frames s')" "con_ok s'" "cr0_pg s'"
proof -
  have up: "con_ok s" "cr0_pg s" "space_wf (boot_pd L) s" "no_users (boot_pd L) (mem s)" "\<not> present (pde_of (mem s) (boot_pd L) 512)"
    using assms(1) by (simp_all add: kernel_up_def)
  obtain pd p where al: "pmm_alloc_frame (frames s) = (pd, p)" "pd \<noteq> 0"
    using alloc_some [OF space_wfD(1) [OF up(3)]] assms(2) by (metis less_le_trans zero_less_numeral)
  let ?s1 = "snd (paging_clone_kernel_pd L s)"
  have cl: "paging_clone_kernel_pd L s = (pd, ?s1)" using al by (simp add: paging_clone_kernel_pd_def Let_def)
  note C = clone_walk [OF up(3) cl al(2)]
  let ?s' = "verve_proc_init_singleton L s"
  have s': "?s' = ?s1\<lparr>cur_pid := 1, cur_pd_phys := pd, g_brk := 0x80002000\<rparr>"
    unfolding verve_proc_init_singleton_def by (subst cl) simp
  have fc: "free_count (frames s) = Suc (free_count (frames ?s1))" by (rule free_count_less [OF C(5) C(1)])
  have keep: "con_ok ?s1 = con_ok s" "cr0_pg ?s1 = cr0_pg s"
    using al by (simp_all add: paging_clone_kernel_pd_def Let_def con_ok_def uart_live_def)
  show thesis
  proof (rule that [OF refl])
    show "cur_pd_phys ?s' = pd" "pd \<noteq> 0" "g_brk ?s' = 0x80002000" using al(2) by (simp_all add: s')
    show "space_wf pd ?s'" using C(2) by (simp add: s' space_wf_def)
    show "no_users pd (mem ?s')" using up(4) C(3) by (simp add: s' no_users_def)
    show "\<not> present (pde_of (mem ?s') pd 512)" using up(5) C(6) [of 512] by (simp add: s')
    show "3 \<le> free_count (frames ?s')" using fc assms(2) by (simp add: s')
    show "con_ok ?s'" "cr0_pg ?s'" using up(1,2) keep by (simp_all add: s' con_ok_def uart_live_def)
  qed
qed

lemma exec_load_ok:
  assumes pd: "space_wf pd s" "no_users pd (mem s)" "\<not> present (pde_of (mem s) pd 512)" "3 \<le> free_count (frames s)" "con_ok s" "cr0_pg s"
    and len: "0 < unat len" "unat len \<le> 4096" "unat len \<le> length blob" "length blob < 4294967296"
  shows "\<exists>s'. exec_load k0 blob len pd s = Some (In_user \<lparr>u_eip = 0x80000000, u_cs = 0x1B, u_eflags = 0x202, u_esp = 0x80002000, u_ss = 0x23\<rparr> s')
    \<and> (\<forall>i<4096. vload s' (0x80000000 + of_nat i) = Some (if i < unat len then blob ! i else 0))
    \<and> t_esp0 (g_tss s') = k0 + 2048 \<and> g_brk s' = g_brk s \<and> user_good s' \<and> cr3 s' = pd
    \<and> mmu_translate (mem s') pd True w 0x80000000 = None"
proof -
  obtain code stk s1 where m: "map_user_pages pd s = Inr (code, s1)" "space_wf pd s1" "user_layout pd code stk (mem s) (mem s1)"
      "s1 = s\<lparr>frames := frames s1, mem := mem s1\<rparr>"
    by (rule map_user_pages_ok [OF pd(1,3,4)])
  have same: "con_ok s1" "cr0_pg s1" "g_brk s1 = g_brk s"
    using pd(5,6) by (subst m(4), simp add: con_ok_def uart_live_def)+
  have "unat (len + 4096 - 1) = unat len + 4095" using len(2) by (simp add: unat_arith_simps)
  then have npg: "(len + 4096 - 1) div 4096 = 1" using len(1,2) by (simp add: word_unat_eq_iff unat_div)
  let ?s2 = "s1\<lparr>cr3 := pd\<rparr>"
  have pg: "page_of pd = pd" "page_of code = code" using space_wfD(2) [OF pd(1)] m(3) by (simp_all add: user_layout_def)
  have sw: "paging_switch_cr3 pd s1 = ?s2" by (simp add: paging_switch_cr3_def cr3_load_def pg)
  have lay: "user_layout pd code stk (mem s) (mem ?s2)" "cr3 ?s2 = pd" "cr0_pg ?s2" using m(3) same(2) by simp_all
  note G = user_layout_good [OF lay(1) pd(2) pg(1) lay(2,3)]
  obtain s3 s4 where f: "bzero_user_text 0x80000000 0 4096 ?s2 = Some s3" "copy_blob 0x80000000 blob 0 (unat len) s3 = Some s4"
      "s4 = ?s2\<lparr>mem := mem s4\<rparr>" "vtranslate s4 = vtranslate ?s2" "user_good s4"
      "\<And>i. i < 4096 \<Longrightarrow> vload s4 (0x80000000 + of_nat i) = Some (if i < unat len then blob ! i else 0)"
      "\<And>x. mmu_walk (mem s4) (page_of (cr3 ?s2)) x = mmu_walk (mem ?s2) (page_of (cr3 ?s2)) x"
    using text_filled [OF G(1) pg(2) G(2,3) len(2-4)] by blast
  let ?s5 = "tss_set_esp0 (k0 + 2048) s4"
  have s5: "con_ok ?s5" "mem ?s5 = mem s4" "cr3 ?s5 = pd" "g_brk ?s5 = g_brk s" "cr0_pg ?s5" "t_esp0 (g_tss ?s5) = k0 + 2048"
    using same by (subst f(3), simp add: tss_set_esp0_def con_ok_def uart_live_def)+
  obtain s6 where p: "serial_puts (cstr ''[VerveOS] exec_flat: paging_switch_cr3 + iret'' @ crlf) ?s5 = Some s6"
      "prints ?s5 (cstr ''[VerveOS] exec_flat: paging_switch_cr3 + iret'' @ crlf) s6"
    using returns_puts [OF s5(1), of _ "\<lambda>s'. prints ?s5 (cstr ''[VerveOS] exec_flat: paging_switch_cr3 + iret'' @ crlf) s'"]
    by (auto simp: returns_def)
  let ?s7 = "s6\<lparr>if_flag := False\<rparr>"
  have s7: "mem ?s7 = mem s4" "cr3 ?s7 = pd" "g_brk ?s7 = g_brk s" "cr0_pg ?s7" "t_esp0 (g_tss ?s7) = k0 + 2048"
    using s5 p(2) by (auto simp: prints_def)
  have s4: "cr3 s4 = pd" "cr0_pg s4" by (subst f(3), simp add: same)+
  have "vload ?s7 = vload s4" by (rule ext) (simp only: vload_def vtranslate_def s7 s4)
  moreover have "user_good ?s7 = user_good s4" using s7 s4 by (simp add: user_good_def user_isolated_def paging_get_cr3_def)
  moreover have "mmu_translate (mem ?s7) pd True w 0x80000000 = mmu_translate (mem ?s2) pd True w 0x80000000"
    using f(7) pg(1) s7(1) by (simp add: mmu_translate_def)
  moreover have "exec_load k0 blob len pd s = Some (verve_enter_user USER_TEXT_VA USER_STACK_TOP ?s7)"
    using m(1) f(1,2) p(1) by (simp add: exec_load_def npg [simplified] sw)
  ultimately show ?thesis
    using f(5,6) G(4) s7(2,3,5) by (intro exI [of _ ?s7]) (simp add: verve_enter_user_def)
qed

lemma get_file:
  assumes "file_of path = Some f"
  obtains data len where "verve_vfs_get_file_k (path @ [0]) = Some (0, Some (data, len))" "file_bytes (unat f) = take (unat len) data"
    "0 < unat len" "unat len \<le> 4096" "unat len \<le> length data" "length data < 4294967296"
proof -
  have p: "0 \<notin> set path" using assms names by (auto simp: file_of_def split: if_splits)
  have f: "f = 0 \<or> f = 1" using assms by (auto simp: file_of_def split: if_splits)
  have "verve_vfs_get_file_k (path @ [0]) = Some (0, Some (ent_data (g_vfs_files ! unat f), ent_len (g_vfs_files ! unat f)))"
    using vfs_find_cstr [OF p, of "[]"] assms open_file(2) [OF assms] by (simp add: verve_vfs_get_file_k_def Let_def)
  then show thesis
    using f file_lens by (intro that) (auto simp: file_bytes_def)
qed


text \<open>A kernel with five free frames and its directory in frame 2.\<close>

definition roomy_pmm :: pmm where
  "roomy_pmm = sample_pmm\<lparr>bitmap := [0x07]\<rparr>"

definition sample_desc :: desc where
  "sample_desc = (iop.extend (irq.extend sample_irq \<lparr>g_ioapic_base = 0\<rparr>)
     \<lparr>gdt_desc = zero_gdt, g_tss = zero_tss, idt = [], gdtr = (0, 0), idtr = (0, 0), data_sel = 0, code_sel = 0, task_sel = 0\<rparr>)
     \<lparr>frames := roomy_pmm\<rparr>"

lemma sample_desc_fields: "mem sample_desc = (\<lambda>_. 0)" "cr0_pg sample_desc" "frames sample_desc = roomy_pmm" "io_in sample_desc = (\<lambda>_ _. 0x60)"
  "g_serial_lock sample_desc = 0"
  by (simp_all add: sample_desc_def iop.extend_def irq.extend_def sample_irq_def thr.extend_def sample_thr_def)

lemma roomy_inv: "pmm_inv roomy_pmm"
  by (simp add: pmm_inv_def pmm_shape_def frame_free_def sample_pmm_def roomy_pmm_def bit_numeral_rec)

lemma roomy_free: "4 \<le> free_count roomy_pmm"
proof -
  have "{0x3000, 0x4000, 0x5000, 0x6000} \<subseteq> {f. frame_is_free roomy_pmm f}"
    by (simp add: frame_is_free_def frame_free_def roomy_pmm_def sample_pmm_def bit_numeral_rec page_aligned_dvd)
  then have "card {0x3000, 0x4000, 0x5000, 0x6000 :: u32} \<le> free_count roomy_pmm"
    unfolding free_count_def by (intro card_mono) simp_all
  then show ?thesis by simp
qed

lemma sample_desc_up: "kernel_up (sample_layout\<lparr>boot_pd := 0x2000\<rparr>) sample_desc"
proof -
  have z: "pde_of (\<lambda>_. 0) p i = 0" "mmu_walk (\<lambda>_. 0) 0x2000 va = None" for p i va
    by (simp_all add: pde_of_def ld32_def mmu_walk_def Let_def)
  have "\<not> frame_is_free roomy_pmm 0x2000"
    by (simp add: frame_is_free_def frame_free_def roomy_pmm_def sample_pmm_def bit_numeral_rec)
  then show ?thesis
    by (simp add: kernel_up_def space_wf_def z present_def no_users_def con_ok_def uart_live_def sample_desc_fields roomy_inv page_aligned_dvd)
      (auto simp: exI [of _ "0 :: nat"])
qed


end
