(* ===== verification/User_Bringup.thy ===== *)
theory User_Bringup
  imports Exec_Flat
begin

text \<open>
  \<open>kernel/user_bringup.c\<close>: the machine code the kernel writes for the first user program, and the
  run that loads it and enters ring 3.
\<close>

section \<open>The code\<close>

abbreviation (input) USER_DATA_START :: nat where "USER_DATA_START \<equiv> 512"
abbreviation (input) USER_PATH_OFF :: u32 where "USER_PATH_OFF \<equiv> 512"
abbreviation (input) USER_MSG_OFF :: u32 where "USER_MSG_OFF \<equiv> 544"
abbreviation (input) USER_HEAP_BUF_VA :: u32 where "USER_HEAP_BUF_VA \<equiv> 0x80002000"
abbreviation (input) USER_BRK_TARGET :: u32 where "USER_BRK_TARGET \<equiv> 0x80003000"
abbreviation (input) USER_READ_MAX :: u32 where "USER_READ_MAX \<equiv> 128"

text \<open>The bytes from \<open>code\<close> on; the code returns their number.\<close>

definition emit_user_phase3 :: "u32 \<Rightarrow> u32 \<Rightarrow> u32 \<Rightarrow> u32 \<Rightarrow> u32 \<Rightarrow> u8 list" where
  "emit_user_phase3 brk_goal path_va buf_va msg_va msg_len =
     [0xB8] @ le32 SYS_BRK @ [0xBB] @ le32 brk_goal @ [0xCD, 0x80] @
     [0xB8] @ le32 SYS_OPEN @ [0xBB] @ le32 path_va @ [0xCD, 0x80] @ [0x89, 0xC6] @
     [0xB8] @ le32 SYS_READ @ [0x89, 0xF3] @ [0xB9] @ le32 buf_va @ [0xBA] @ le32 USER_READ_MAX @ [0xCD, 0x80] @ [0x89, 0xC7] @
     [0xB8] @ le32 SYS_WRITE @ [0xBB] @ le32 1 @ [0xB9] @ le32 buf_va @ [0x89, 0xFA] @ [0xCD, 0x80] @
     [0xB8] @ le32 SYS_CLOSE @ [0x89, 0xF3] @ [0xCD, 0x80] @
     [0xB8] @ le32 SYS_WRITE @ [0xBB] @ le32 1 @ [0xB9] @ le32 msg_va @ [0xBA] @ le32 msg_len @ [0xCD, 0x80] @
     [0xB8] @ le32 SYS_GETPID @ [0xCD, 0x80] @
     [0xB8] @ le32 SYS_EXIT @ [0xBB] @ le32 0 @ [0xCD, 0x80]"

definition user_msg :: "u8 list" where
  "user_msg = cstr ''VerveOS user: banner after /hello.txt (same PD @ 2GiB).'' @ crlf"

definition user_path_bytes :: "u8 list" where
  "user_path_bytes = cstr ''/hello.txt'' @ [0]"

text \<open>
  What the code writes to the text frame, reached through the kernel's identity map, and the
  entry.
\<close>

definition bringup_image :: "u8 list" where
  "bringup_image = emit_user_phase3 USER_BRK_TARGET (USER_TEXT_VA + USER_PATH_OFF) USER_HEAP_BUF_VA (USER_TEXT_VA + USER_MSG_OFF)
     (of_nat (length user_msg))"

definition bringup_load :: "u32 \<Rightarrow> u32 \<Rightarrow> 'a desc_scheme \<Rightarrow> 'a desc_scheme run_end option" where
  "bringup_load k0 pd s =
     (case map_user_pages pd s of
        Inl (No_frame, s1) \<Rightarrow> say ''[VerveOS] userspace smoke: pmm_alloc_frame failed'' s1
      | Inl (No_table, s1) \<Rightarrow> say ''[VerveOS] userspace smoke: paging_map_page failed'' s1
      | Inr (phys_code, s1) \<Rightarrow>
          let s2 = s1\<lparr>mem := store_bytes (mem s1) phys_code bringup_image\<rparr>
          in if length bringup_image \<ge> USER_DATA_START then say ''[VerveOS] userspace smoke: code too large'' s2
             else let m1 = store_bytes (mem s2) (phys_code + USER_MSG_OFF) user_msg;
                      m2 = store_bytes m1 (phys_code + USER_PATH_OFF) user_path_bytes
               in Option.bind (serial_puts (cstr ''[VerveOS] userspace: paging_switch_cr3(proc) + iret (Ring 3)'' @ crlf)
                      (tss_set_esp0 (k0 + 2048) (s2\<lparr>mem := m2\<rparr>))) (\<lambda>s3.
                  Some (verve_enter_user USER_TEXT_VA USER_STACK_TOP (paging_switch_cr3 pd (s3\<lparr>if_flag := False\<rparr>)))))"

definition verve_user_bringup_smoke :: "layout \<Rightarrow> u32 \<Rightarrow> 'a desc_scheme \<Rightarrow> 'a desc_scheme run_end option" where
  "verve_user_bringup_smoke L k0 s =
     Option.bind (serial_puts (cstr ''[VerveOS] userspace: ramfs OPEN/READ + WRITE (clone PD + CR3)'' @ crlf) s) (\<lambda>s1.
       let s2 = verve_proc_init_singleton L s1; pd = verve_proc_current_pd_phys s2
       in if pd = 0 then say ''[VerveOS] userspace: paging_clone_kernel_pd failed'' s2 else bringup_load k0 pd s2)"

section \<open>The program as instructions\<close>

datatype reg = EAX | ECX | EDX | EBX | ESI | EDI

datatype instr = Mov_imm reg u32 | Mov_reg reg reg | Trap u8

text \<open>The encodings the program uses: \<open>B8+r id\<close>, \<open>89 /r\<close> with two registers, \<open>CD ib\<close>.\<close>

definition reg_of :: "u8 \<Rightarrow> reg option" where
  "reg_of n = (if n = 0 then Some EAX else if n = 1 then Some ECX else if n = 2 then Some EDX
     else if n = 3 then Some EBX else if n = 6 then Some ESI else if n = 7 then Some EDI else None)"

definition join32 :: "u8 \<Rightarrow> u8 \<Rightarrow> u8 \<Rightarrow> u8 \<Rightarrow> u32" where
  "join32 a b c d = ucast a OR push_bit 8 (ucast b) OR push_bit 16 (ucast c) OR push_bit 24 (ucast d)"

fun decode1 :: "u8 list \<Rightarrow> (instr \<times> u8 list) option" where
  "decode1 (op # bs) =
     (if op AND 0xF8 = 0xB8 then
        (case bs of a # b # c # d # rest \<Rightarrow> map_option (\<lambda>r. (Mov_imm r (join32 a b c d), rest)) (reg_of (op AND 7)) | _ \<Rightarrow> None)
      else if op = 0x89 then
        (case bs of m # rest \<Rightarrow>
           if drop_bit 6 m = 3 then
             Option.bind (reg_of (m AND 7)) (\<lambda>dst. map_option (\<lambda>src. (Mov_reg dst src, rest)) (reg_of (drop_bit 3 m AND 7)))
           else None | _ \<Rightarrow> None)
      else if op = 0xCD then (case bs of n # rest \<Rightarrow> Some (Trap n, rest) | _ \<Rightarrow> None)
      else None)"
| "decode1 [] = None"

fun disasm :: "nat \<Rightarrow> u8 list \<Rightarrow> instr list option" where
  "disasm fuel [] = Some []"
| "disasm 0 (b # bs) = None"
| "disasm (Suc fuel) (b # bs) =
     (case decode1 (b # bs) of None \<Rightarrow> None | Some (i, rest) \<Rightarrow> map_option ((#) i) (disasm fuel rest))"

text \<open>
  A run of the instructions: \<open>ans k\<close> is what the kernel leaves in \<open>eax\<close> for the \<open>k\<close>-th call; the
  result is the list of the register states at the calls.
\<close>

fun get_reg :: "reg \<Rightarrow> gregs \<Rightarrow> u32" where
  "get_reg EAX r = g_eax r" | "get_reg ECX r = g_ecx r" | "get_reg EDX r = g_edx r"
| "get_reg EBX r = g_ebx r" | "get_reg ESI r = g_esi r" | "get_reg EDI r = g_edi r"

fun set_reg :: "reg \<Rightarrow> u32 \<Rightarrow> gregs \<Rightarrow> gregs" where
  "set_reg EAX v r = r\<lparr>g_eax := v\<rparr>" | "set_reg ECX v r = r\<lparr>g_ecx := v\<rparr>" | "set_reg EDX v r = r\<lparr>g_edx := v\<rparr>"
| "set_reg EBX v r = r\<lparr>g_ebx := v\<rparr>" | "set_reg ESI v r = r\<lparr>g_esi := v\<rparr>" | "set_reg EDI v r = r\<lparr>g_edi := v\<rparr>"

fun calls :: "(nat \<Rightarrow> u32) \<Rightarrow> nat \<Rightarrow> instr list \<Rightarrow> gregs \<Rightarrow> gregs list" where
  "calls ans k [] r = []"
| "calls ans k (Mov_imm d v # is) r = calls ans k is (set_reg d v r)"
| "calls ans k (Mov_reg d e # is) r = calls ans k is (set_reg d (get_reg e r) r)"
| "calls ans k (Trap n # is) r = r # calls ans (Suc k) is (r\<lparr>g_eax := ans k\<rparr>)"

definition user_program :: "u32 \<Rightarrow> u32 \<Rightarrow> u32 \<Rightarrow> u32 \<Rightarrow> u32 \<Rightarrow> instr list" where
  "user_program brk_goal path_va buf_va msg_va msg_len =
     [Mov_imm EAX 45, Mov_imm EBX brk_goal, Trap 0x80,
      Mov_imm EAX 5, Mov_imm EBX path_va, Trap 0x80, Mov_reg ESI EAX,
      Mov_imm EAX 6, Mov_reg EBX ESI, Mov_imm ECX buf_va, Mov_imm EDX 128, Trap 0x80, Mov_reg EDI EAX,
      Mov_imm EAX 1, Mov_imm EBX 1, Mov_imm ECX buf_va, Mov_reg EDX EDI, Trap 0x80,
      Mov_imm EAX 7, Mov_reg EBX ESI, Trap 0x80,
      Mov_imm EAX 1, Mov_imm EBX 1, Mov_imm ECX msg_va, Mov_imm EDX msg_len, Trap 0x80,
      Mov_imm EAX 2, Trap 0x80,
      Mov_imm EAX 3, Mov_imm EBX 0, Trap 0x80]"

lemma join32_le32: "join32 (ucast v) (ucast (drop_bit 8 v)) (ucast (drop_bit 16 v)) (ucast (drop_bit 24 v)) = v"
proof (rule bit_word_eqI)
  fix n assume n: "n < LENGTH(32)"
  show "bit (join32 (ucast v) (ucast (drop_bit 8 v)) (ucast (drop_bit 16 v)) (ucast (drop_bit 24 v))) n = bit v n"
    using n by (cases "24 \<le> n"; cases "16 \<le> n"; cases "8 \<le> n") (auto simp: join32_def bit_simps)
qed

lemma decode_le32:
  "decode1 (0xB8 # le32 v @ rest) = Some (Mov_imm EAX v, rest)" "decode1 (0xB9 # le32 v @ rest) = Some (Mov_imm ECX v, rest)"
  "decode1 (0xBA # le32 v @ rest) = Some (Mov_imm EDX v, rest)" "decode1 (0xBB # le32 v @ rest) = Some (Mov_imm EBX v, rest)"
  by (simp_all add: le32_def join32_le32 reg_of_def)

lemma decode_regs:
  "decode1 (0x89 # 0xC6 # rest) = Some (Mov_reg ESI EAX, rest)" "decode1 (0x89 # 0xF3 # rest) = Some (Mov_reg EBX ESI, rest)"
  "decode1 (0x89 # 0xC7 # rest) = Some (Mov_reg EDI EAX, rest)" "decode1 (0x89 # 0xFA # rest) = Some (Mov_reg EDX EDI, rest)"
  "decode1 (0xCD # n # rest) = Some (Trap n, rest)"
  by (simp_all add: reg_of_def)

lemma disasm_step: "disasm (numeral k) (b # bs) =
    (case decode1 (b # bs) of None \<Rightarrow> None | Some (i, rest) \<Rightarrow> map_option ((#) i) (disasm (pred_numeral k) rest))"
  by (simp only: numeral_eq_Suc disasm.simps)

lemma program_decodes:
  "disasm 32 (emit_user_phase3 brk_goal path_va buf_va msg_va msg_len) = Some (user_program brk_goal path_va buf_va msg_va msg_len)"
  by (simp only: emit_user_phase3_def user_program_def append_Cons append_Nil append_assoc disasm_step decode_le32 decode_regs option.case prod.case
      option.map pred_numeral_simps BitM.simps num.inject one_eq_numeral_iff disasm.simps numeral_One simp_thms)

text \<open>
  C17: the first user program.  The bytes that \<open>emit_user_phase3\<close> writes are, read back by the
  encodings of the processor, the intended instructions; they leave room for the data behind
  them; and whatever the calls return, the program makes the calls brk, open, read, write,
  close, write, getpid and exit with the arguments meant.
\<close>

theorem user_program_calls:
  "disasm 32 (emit_user_phase3 brk_goal path_va buf_va msg_va msg_len) = Some (user_program brk_goal path_va buf_va msg_va msg_len)
   \<and> length (emit_user_phase3 brk_goal path_va buf_va msg_va msg_len) < 512
   \<and> (let t = calls ans 0 (user_program brk_goal path_va buf_va msg_va msg_len) r
      in map g_eax t = [45, 5, 6, 1, 7, 1, 2, 3]
       \<and> map g_ebx t = [brk_goal, path_va, ans 1, 1, ans 1, 1, 1, 0]
       \<and> map (\<lambda>k. (g_ecx (t ! k), g_edx (t ! k))) [2, 3, 5] = [(buf_va, 128), (buf_va, ans 2), (msg_va, msg_len)])"
proof -
  have "length (emit_user_phase3 brk_goal path_va buf_va msg_va msg_len) < 512" by (simp add: emit_user_phase3_def)
  moreover have "let t = calls ans 0 (user_program brk_goal path_va buf_va msg_va msg_len) r
      in map g_eax t = [45, 5, 6, 1, 7, 1, 2, 3]
       \<and> map g_ebx t = [brk_goal, path_va, ans 1, 1, ans 1, 1, 1, 0]
       \<and> map (\<lambda>k. (g_ecx (t ! k), g_edx (t ! k))) [2, 3, 5] = [(buf_va, 128), (buf_va, ans 2), (msg_va, msg_len)]"
    by (simp add: user_program_def Let_def numeral_eq_Suc)
  ultimately show ?thesis using program_decodes by blast
qed

section \<open>A run\<close>

lemma bringup_sizes: "length bringup_image < 512" "length user_msg = 57" "length user_path_bytes = 11"
  by (simp_all add: bringup_image_def emit_user_phase3_def user_msg_def user_path_bytes_def cstr_def crlf_def)

text \<open>Writing inside a frame that is no table changes no translation.\<close>

lemma frame_write_walk:
  assumes nt: "no_table f pd m" and f: "page_of f = f" and pd: "page_of pd = pd" and eq: "\<And>x. page_of x \<noteq> f \<Longrightarrow> m' x = m x"
  shows "unat i < 1024 \<Longrightarrow> pde_of m' pd i = pde_of m pd i" and "mmu_walk m' pd va = mmu_walk m pd va"
proof -
  have ld: "ld32 m' (entry_at t i) = ld32 m (entry_at t i)" if "page_of t = t" "t \<noteq> f" "unat i < 1024" for t i
  proof (rule ld32_same_outside)
    show "m' x = m x" if "\<not> in_range f (4 * 1024) x" for x using that eq by (simp add: in_page_iff [OF f])
    show "\<not> in_range f (4 * 1024) (entry_at t i)" using that by (simp add: in_page_iff [OF f] page_of_entry_at)
  qed (use that f in \<open>simp_all add: entry_at_aligned4 page_aligned4\<close>)
  show pde: "pde_of m' pd i = pde_of m pd i" if "unat i < 1024" for i
    unfolding pde_of_def using nt pd that by (intro ld) (auto simp: no_table_def)
  have "ld32 m' (entry_at (page_of (pde_of m pd (pd_index va))) (pt_index va)) = ld32 m (entry_at (page_of (pde_of m pd (pd_index va))) (pt_index va))"
    if "present (pde_of m pd (pd_index va))"
    using nt that pd_index_lt [of va] by (intro ld) (auto simp: no_table_def pt_index_lt)
  then show "mmu_walk m' pd va = mmu_walk m pd va" by (auto simp: mmu_walk_pde [OF pd] pde [OF pd_index_lt] Let_def)
qed

lemma store_in_frame:
  assumes "page_of f = f" and "off + length bs \<le> 4096"
  shows "page_of x \<noteq> f \<Longrightarrow> store_bytes m (f + of_nat off) bs x = m x"
    and "k < 4096 \<Longrightarrow> store_bytes m (f + of_nat off) bs (f + of_nat k)
      = (if off \<le> k \<and> k < off + length bs then bs ! (k - off) else m (f + of_nat k))"
proof -
  have l: "length bs \<le> 4294967296" using assms(2) by simp
  show "store_bytes m (f + of_nat off) bs x = m x" if "page_of x \<noteq> f"
  proof (rule store_bytes_out [OF _ l])
    show "\<not> in_range (f + of_nat off) (length bs) x"
      using in_range_step [OF _ assms(2), of f x] in_page_iff [OF assms(1)] that by auto
  qed
  assume k: "k < 4096"
  show "store_bytes m (f + of_nat off) bs (f + of_nat k)
      = (if off \<le> k \<and> k < off + length bs then bs ! (k - off) else m (f + of_nat k))"
  proof (cases "off \<le> k \<and> k < off + length bs")
    case True
    have "store_bytes m (f + of_nat off) bs (f + of_nat off + of_nat (k - off)) = bs ! (k - off)"
      using True by (intro store_bytes_in [OF _ l]) linarith
    moreover have "f + of_nat off + of_nat (k - off) = f + of_nat k" using True by (simp add: of_nat_diff)
    ultimately show ?thesis using True by simp
  next
    case False
    have "\<not> in_range (f + of_nat off) (length bs) (f + of_nat k)"
    proof
      assume "in_range (f + of_nat off) (length bs) (f + of_nat k)"
      then obtain j where j: "j < length bs" "f + of_nat k = f + of_nat off + of_nat j" by (rule in_rangeE)
      then have "(of_nat k :: u32) = of_nat (off + j)" by (simp add: add.assoc)
      moreover have "k < 4294967296" "off + j < 4294967296" using k j(1) assms(2) by simp_all
      ultimately have "k = off + j" using unat_of_nat32 by metis
      then show False using j(1) False by simp
    qed
    then show ?thesis unfolding if_not_P [OF False] by (rule store_bytes_out [OF _ l])
  qed
qed

text \<open>The text frame after the three writes.\<close>

definition bringup_memory :: "u32 \<Rightarrow> memory \<Rightarrow> memory" where
  "bringup_memory f m = store_bytes (store_bytes (store_bytes m f bringup_image) (f + 544) user_msg) (f + 512) user_path_bytes"

definition bringup_byte :: "nat \<Rightarrow> u8 option" where
  "bringup_byte k = (if k < length bringup_image then Some (bringup_image ! k)
     else if 512 \<le> k \<and> k < 523 then Some (user_path_bytes ! (k - 512))
     else if 544 \<le> k \<and> k < 601 then Some (user_msg ! (k - 544)) else None)"

lemma bringup_memory_facts:
  assumes f: "page_of f = f"
  shows "page_of x \<noteq> f \<Longrightarrow> bringup_memory f m x = m x"
    and "bringup_byte k = Some b \<Longrightarrow> bringup_memory f m (f + of_nat k) = b"
proof -
  note S = store_in_frame [OF f] and L = bringup_sizes
  note S0 = S [of 0 bringup_image, simplified] and S1 = S [of 544 user_msg, simplified] and S2 = S [of 512 user_path_bytes, simplified]
  show "bringup_memory f m x = m x" if "page_of x \<noteq> f"
    using that L by (simp add: bringup_memory_def S0 S1 S2)
  assume b: "bringup_byte k = Some b"
  then have "k < 4096" using L(1) by (auto simp: bringup_byte_def split: if_splits)
  then show "bringup_memory f m (f + of_nat k) = b"
    using b L by (auto simp: bringup_memory_def S0 S1 S2 bringup_byte_def split: if_splits)
qed

lemma bringup_load_ok:
  assumes pd: "space_wf pd s" "no_users pd (mem s)" "\<not> present (pde_of (mem s) pd 512)" "3 \<le> free_count (frames s)" "con_ok s" "cr0_pg s"
  shows "\<exists>s'. bringup_load k0 pd s = Some (In_user \<lparr>u_eip = 0x80000000, u_cs = 0x1B, u_eflags = 0x202, u_esp = 0x80002000, u_ss = 0x23\<rparr> s')
    \<and> (\<forall>i b. bringup_byte i = Some b \<longrightarrow> vload s' (0x80000000 + of_nat i) = Some b)
    \<and> t_esp0 (g_tss s') = k0 + 2048 \<and> g_brk s' = g_brk s \<and> user_good s'
    \<and> mmu_translate (mem s') (cr3 s') True w 0x80000000 = None"
proof -
  obtain code stk s1 where m: "map_user_pages pd s = Inr (code, s1)" "space_wf pd s1" "user_layout pd code stk (mem s) (mem s1)"
      "s1 = s\<lparr>frames := frames s1, mem := mem s1\<rparr>"
    by (rule map_user_pages_ok [OF pd(1,3,4)])
  have pg: "page_of pd = pd" "page_of code = code" "no_table code pd (mem s1)"
    using space_wfD(2) [OF pd(1)] m(3) by (simp_all add: user_layout_def)
  let ?m = "bringup_memory code (mem s1)"
  have W: "unat i < 1024 \<Longrightarrow> pde_of ?m pd i = pde_of (mem s1) pd i" "mmu_walk ?m pd va = mmu_walk (mem s1) pd va" for i va
    by (rule frame_write_walk [OF pg(3,2,1)], rule bringup_memory_facts(1) [OF pg(2)], assumption+)+
  have lay: "user_layout pd code stk (mem s) ?m" using m(3) W by (simp add: user_layout_def no_table_def cong: conj_cong imp_cong)
  let ?s5 = "tss_set_esp0 (k0 + 2048) (s1\<lparr>mem := ?m\<rparr>)"
  let ?msg = "cstr ''[VerveOS] userspace: paging_switch_cr3(proc) + iret (Ring 3)'' @ crlf"
  have s5: "con_ok ?s5" "mem ?s5 = ?m" "g_brk ?s5 = g_brk s" "cr0_pg ?s5" "t_esp0 (g_tss ?s5) = k0 + 2048"
    using pd(5,6) by (subst m(4), simp add: tss_set_esp0_def con_ok_def uart_live_def)+
  obtain s6 where p: "serial_puts ?msg ?s5 = Some s6" "prints ?s5 ?msg s6"
    using returns_puts [OF s5(1), of _ "\<lambda>s'. prints ?s5 ?msg s'"] by (auto simp: returns_def)
  let ?s7 = "(s6\<lparr>if_flag := False\<rparr>)\<lparr>cr3 := pd\<rparr>"
  have s7: "mem ?s7 = ?m" "cr3 ?s7 = pd" "g_brk ?s7 = g_brk s" "cr0_pg ?s7" "t_esp0 (g_tss ?s7) = k0 + 2048"
    using s5 p(2) by (auto simp: prints_def)
  have sw: "paging_switch_cr3 pd (s6\<lparr>if_flag := False\<rparr>) = ?s7" by (simp add: paging_switch_cr3_def cr3_load_def pg)
  have lay7: "user_layout pd code stk (mem s) (mem ?s7)" using lay by (simp only: s7(1))
  note G = user_layout_good [OF lay7 pd(2) pg(1) s7(2,4)]
  have code: "bringup_load k0 pd s = Some (verve_enter_user USER_TEXT_VA USER_STACK_TOP ?s7)"
    using m(1) p(1) bringup_sizes(1) unfolding sw [symmetric] by (simp add: bringup_load_def Let_def bringup_memory_def)
  have "vload ?s7 (0x80000000 + of_nat i) = Some b" if b: "bringup_byte i = Some b" for i b
  proof -
    have i: "i < 4096" using b bringup_sizes(1) by (auto simp: bringup_byte_def split: if_splits)
    have "vtranslate ?s7 (0x80000000 + of_nat i) = Some (code + of_nat i)"
      using G(2) [OF i] page_or_offset [OF pg(2) i] by simp
    then show ?thesis using bringup_memory_facts(2) [OF pg(2) b, of "mem s1"] s7(1) by (simp add: vload_def)
  qed
  then show ?thesis
    using code G(1) G(4) s7 by (intro exI [of _ ?s7]) (simp add: verve_enter_user_def)
qed



end
