(* ===== verification/Kmain.thy ===== *)
theory Kmain
  imports User_Bringup Smp Kheap
begin

text \<open>
  \<open>kernel/main.c\<close>: the text screen and \<open>kernel_main\<close>, which brings all parts up in their order,
  waits for the timer, runs the thread demo and enters ring 3.
\<close>

section \<open>The text screen\<close>

abbreviation (input) VGA_COLS :: nat where "VGA_COLS \<equiv> 80"
abbreviation (input) VGA_ROWS :: nat where "VGA_ROWS \<equiv> 25"
abbreviation (input) VGA_BUF :: u32 where "VGA_BUF \<equiv> 0xB8000"

definition st16 :: "memory \<Rightarrow> u32 \<Rightarrow> u16 \<Rightarrow> memory" where
  "st16 m a v = (m(a := ucast v))(a + 1 := ucast (drop_bit 8 v))"

text \<open>The colours are promoted to \<open>int\<close> before the shifts and the result is cut to 16 bits.\<close>

definition vga_attr :: "u8 \<Rightarrow> u8 \<Rightarrow> u16" where
  "vga_attr fg bg = ucast (push_bit 12 (ucast bg :: u32) OR push_bit 8 (ucast fg))"

definition vga_clear :: "u8 \<Rightarrow> u8 \<Rightarrow> memory \<Rightarrow> memory" where
  "vga_clear fg bg m =
     (let blank = ucast (push_bit 12 (ucast bg :: u32) OR push_bit 8 (ucast fg) OR 32)
      in fold (\<lambda>i m. st16 m (VGA_BUF + 2 * of_nat i) blank) [0..<VGA_COLS * VGA_ROWS] m)"

fun vga_loop :: "u16 \<Rightarrow> nat \<Rightarrow> u8 list \<Rightarrow> memory \<Rightarrow> memory" where
  "vga_loop attr i [] m = m"
| "vga_loop attr i (c # cs) m =
     (if c \<noteq> 0 \<and> i < VGA_COLS * VGA_ROWS then vga_loop attr (i + 1) cs (st16 m (VGA_BUF + 2 * of_nat i) (attr OR ucast c))
      else m)"

definition vga_puts :: "nat \<Rightarrow> nat \<Rightarrow> u8 \<Rightarrow> u8 \<Rightarrow> u8 list \<Rightarrow> memory \<Rightarrow> memory" where
  "vga_puts row col fg bg s m = vga_loop (vga_attr fg bg) (row * VGA_COLS + col) s m"

abbreviation (input) show_at :: "nat \<Rightarrow> nat \<Rightarrow> u8 \<Rightarrow> u8 \<Rightarrow> string \<Rightarrow> 'a desc_scheme \<Rightarrow> 'a desc_scheme" where
  "show_at row col fg bg msg s \<equiv> s\<lparr>mem := vga_puts row col fg bg (cstr msg) (mem s)\<rparr>"

section \<open>The code of \<open>kernel_main\<close>\<close>

abbreviation (input) MB2_MAGIC :: u32 where "MB2_MAGIC \<equiv> 0x36d76289"

text \<open>What the linker and the stack decide.\<close>

record boot_env =
  e_layout :: layout
  e_text :: text_syms
  e_tabs :: tab_syms
  e_tramp :: "u8 list"
  e_ap_entry :: u32
  e_bringup_stack :: u32
  e_exec_stack :: u32
  e_vfs_junk :: "u8 list"
  e_map_junk :: "u8 list"
  e_smp_junk :: "u8 list"

datatype 's boot_end = Returns 's | Halted 's | Ring3 user_frame 's

definition acpi_hotplug_stub_init :: "'s \<Rightarrow> 's" where
  "acpi_hotplug_stub_init s = s"

abbreviation (input) put :: "string \<Rightarrow> 'a con_scheme \<Rightarrow> 'a con_scheme option" where
  "put msg s \<equiv> serial_puts (cstr msg @ crlf) s"

text \<open>The wait for the timer: \<open>intr\<close> is what the interrupt that ends a \<open>hlt\<close> does.\<close>

partial_function (option) wait_ticks :: "('a sch_scheme \<Rightarrow> 'a sch_scheme option) \<Rightarrow> 'a sch_scheme \<Rightarrow> 'a sch_scheme option" where
  "wait_ticks intr s = (if sched_tick_count s < 5 then Option.bind (intr s) (wait_ticks intr) else Some s)"

text \<open>From the start to the memory and paging; \<open>Inl\<close> is an early return.\<close>

definition boot_memory :: "boot_env \<Rightarrow> u32 \<Rightarrow> u32 \<Rightarrow> 'a desc_scheme \<Rightarrow> ('a desc_scheme + 'a desc_scheme) option" where
  "boot_memory E magic mb_info_phys s =
     (let s0 = show_at 0 0 0xA 0 ''VerveOS kernel'' (s\<lparr>mem := vga_clear 7 0 (mem s)\<rparr>)
      in Option.bind (serial_puts (crlf @ cstr ''[VerveOS] kernel_main'' @ crlf) s0) (\<lambda>s1.
      if magic \<noteq> MB2_MAGIC then
        map_option (\<lambda>t. Inl (show_at 1 0 0xC 0 ''Multiboot2: unexpected magic'' t))
          (put ''[VerveOS] multiboot2: unexpected EAX magic'' s1)
      else Option.bind (put ''[VerveOS] multiboot2: OK'' s1) (\<lambda>s2.
      case mb2_sum_usable_ram (mem s2) mb_info_phys of
        None \<Rightarrow> map_option (\<lambda>t. Inl (show_at 2 0 0xC 0 ''mmap: parse error'' (show_at 1 0 0xF 0 ''Multiboot2: OK'' t)))
            (put ''[VerveOS] mb2: memory map parse failed'' s2)
      | Some usable \<Rightarrow>
        Option.bind (serial_puts (cstr ''[VerveOS] mmap type=1 sum: '') s2) (\<lambda>s3.
        Option.bind (serial_put_u64_hex usable s3) (\<lambda>s4.
        Option.bind (put '' bytes'' s4) (\<lambda>s5.
        Option.bind (case mb2_read_basic_meminfo (mem s5) mb_info_phys of
            None \<Rightarrow> put ''[VerveOS] basic meminfo: tag missing'' s5
          | Some (lo_kb, hi_kb) \<Rightarrow>
              Option.bind (serial_puts (cstr ''[VerveOS] basic meminfo: mem_lower_kb=0x'') s5) (\<lambda>t1.
              Option.bind (serial_put_u64_hex (ucast lo_kb) t1) (\<lambda>t2.
              Option.bind (serial_puts (cstr '' mem_upper_kb=0x'') t2) (\<lambda>t3.
              Option.bind (serial_put_u64_hex (ucast hi_kb) t3) (\<lambda>t4.
              Option.bind (serial_puts (cstr '' -> approx 0x'') t4) (\<lambda>t5.
              Option.bind (serial_put_u64_hex (ucast lo_kb * 1024 + ucast hi_kb * 1024) t5) (\<lambda>t6.
              Option.bind (put '' bytes'' t6)
                (put ''[VerveOS] mmap sum is authoritative for frames; basic meminfo is legacy summary'')))))))) (\<lambda>s6.
        case pmm_init (e_layout E) (mem s6) mb_info_phys mb_info_phys (frames s6) of (ok, p) \<Rightarrow>
        let s7 = s6\<lparr>frames := p\<rparr>
        in if \<not> ok then map_option (\<lambda>t. Inl (show_at 2 0 0xC 0 ''PMM: init failed'' (show_at 1 0 0xF 0 ''Multiboot2: OK'' t)))
            (put ''[VerveOS] pmm_init failed'' s7)
        else Option.bind (put ''[VerveOS] pmm: ready (bitmap PFN allocator)'' s7) (\<lambda>s8.
        Option.bind (put ''[VerveOS] heap: bump kmalloc arena (256 KiB BSS)'' (s8\<lparr>g_kheap := heap_init (g_kheap s8)\<rparr>)) (\<lambda>s9.
        Option.bind (verve_vfs_init s9) (\<lambda>s10.
        Option.bind (verve_vfs_selftest (e_vfs_junk E) s10) (\<lambda>s11.
        case paging_identity_init (e_layout E) (ucast (pmm_max_pfn (frames s11))) s11 of (ok, s12) \<Rightarrow>
        if \<not> ok then map_option (\<lambda>t. Inl (show_at 2 0 0xC 0 ''paging failed'' (show_at 1 0 0xF 0 ''Multiboot2: OK'' t)))
            (put ''[VerveOS] paging_identity_init failed'' s12)
        else Some (Inr s12))))))))))))"

text \<open>From the ACPI tables to the armed timer.\<close>

definition boot_devices :: "boot_env \<Rightarrow> u32 \<Rightarrow> 'a desc_scheme \<Rightarrow> 'a desc_scheme option" where
  "boot_devices E info s =
     Option.bind (Option.bind (acpi_hw_init info s) (\<lambda>(ok, t).
       if \<not> ok then put ''[VerveOS] acpi_hw: failed; using fallback single-CPU map'' t else Some t)) (\<lambda>s1.
     Option.bind (gdt_init (e_tabs E) (acpi_hotplug_stub_init s1)) (\<lambda>s2.
     Option.bind (put ''[VerveOS] gdt: flat ring0 segments loaded'' s2) (\<lambda>s3.
     Option.bind (put ''[VerveOS] idt: exceptions + IRQ + LAPIC timer vec 64'' (idt_init (e_tabs E) s3)) (\<lambda>s4.
     let s5 = smp_bootstrap_apic_map (e_map_junk E) (lapic_bsp_early_init (e_layout E) s4);
         logical_cpus = (if acpi_hw_cpu_count s5 = 0 then 1 else acpi_hw_cpu_count s5)
     in Option.bind (thread_subsystem_early_init (e_layout E) (e_text E) logical_cpus s5) (\<lambda>s6.
     Option.bind (put ''[VerveOS] pic: remapped master=0x20 slave=0x28'' (pic_init 0x20 0x28 s6)) (\<lambda>s7.
     Option.bind (put ''[VerveOS] pic: all IRQ lines masked (timer via LAPIC)'' (pic_irq_mask_all s7)) (\<lambda>s8.
     Option.bind (Option.bind (ioapic_init_from_acpi (e_layout E) s8) (\<lambda>(found, t).
       if found then Option.bind (ioapic_route_irq0_timer (lapic_id t) t) (put ''[VerveOS] ioapic: legacy PIT/IRQ0 routed (optional)'')
       else put ''[VerveOS] ioapic: not present or disabled in MADT'' t)) (\<lambda>s9.
     Option.bind (put ''[VerveOS] sched: per-CPU ticks + LAPIC timer (vec 64)'' (sched_init s9)) (\<lambda>s10.
     Option.bind (smp_init (e_layout E) (e_tramp E) (e_ap_entry E) (e_smp_junk E) s10) (\<lambda>s11.
     put ''[VerveOS] lapic: BSP periodic timer armed'' (smp_bsp_timer_start s11)))))))))))"

text \<open>From the two test allocations to ring 3; \<open>smoke\<close> is the build option \<open>VERVE_USER_SMOKE_BRINGUP\<close>.\<close>

definition boot_run :: "boot_env \<Rightarrow> bool \<Rightarrow> ('a desc_scheme \<Rightarrow> 'a desc_scheme option)
    \<Rightarrow> (tref \<Rightarrow> tref \<Rightarrow> 'a desc_scheme \<Rightarrow> 'a desc_scheme option) \<Rightarrow> 'a desc_scheme \<Rightarrow> 'a desc_scheme boot_end option" where
  "boot_run E smoke intr away s =
     (case pmm_alloc_frame (frames s) of (a, p) \<Rightarrow>
     Option.bind (serial_puts (cstr ''[VerveOS] pmm_alloc_frame -> '') (s\<lparr>frames := p\<rparr>)) (\<lambda>s1.
     Option.bind (serial_put_u64_hex (ucast a) s1) (\<lambda>s2.
     Option.bind (serial_puts crlf s2) (\<lambda>s3.
     case pmm_alloc_frame (pmm_free_frame a (frames s3)) of (b, p) \<Rightarrow>
     Option.bind (serial_puts (cstr ''[VerveOS] pmm_alloc_frame (after free) -> '') (s3\<lparr>frames := p\<rparr>)) (\<lambda>s4.
     Option.bind (serial_put_u64_hex (ucast b) s4) (\<lambda>s5.
     Option.bind (serial_puts crlf s5) (\<lambda>s6.
     Option.bind (put ''[VerveOS] enabling interrupts (sti), waiting for 5 BSP timer ticks...''
         (show_at 2 0 0xE 0 ''sched + LAPIC'' (show_at 1 0 0xF 0 ''Multiboot2: OK'' s6))) (\<lambda>s7.
     Option.bind (wait_ticks intr (s7\<lparr>if_flag := True\<rparr>)) (\<lambda>s8.
     Option.bind (serial_puts (cstr ''[VerveOS] sched: 5 BSP ticks seen; need_resched='') s8) (\<lambda>s9.
     Option.bind (serial_put_u64_hex (ucast (sched_need_resched s9)) s9) (\<lambda>s10.
     Option.bind (serial_puts crlf s10) (\<lambda>s11.
     Option.bind (put ''[VerveOS] clearing resched before thread demo'' s11) (\<lambda>s12.
     Option.bind (put ''[VerveOS] sti: LAPIC timer drives per-CPU need_resched'' (sched_clear_resched s12)) (\<lambda>s13.
     Option.bind (thread_demo_run (e_layout E) (e_text E) away (s13\<lparr>if_flag := True\<rparr>)) (\<lambda>s14.
     Option.bind (put ''[VerveOS] cli after thread demo'' s14) (\<lambda>s15.
     Option.bind (put ''[VerveOS] Ring 3 smoke (userspace + int 0x80)...'' (s15\<lparr>if_flag := False\<rparr>)) (\<lambda>s16.
     Option.bind (if smoke then verve_user_bringup_smoke (e_layout E) (e_bringup_stack E) s16
                  else verve_exec_flat_run (e_layout E) (e_exec_stack E) (cstr ''/exit.bin'') s16) (\<lambda>r.
     case r of In_user f t \<Rightarrow> Some (Ring3 f t)
       | Back t \<Rightarrow> map_option Halted (put ''[VerveOS] halted after thread demo'' t)))))))))))))))))))"

definition kernel_main :: "boot_env \<Rightarrow> bool \<Rightarrow> ('a desc_scheme \<Rightarrow> 'a desc_scheme option)
    \<Rightarrow> (tref \<Rightarrow> tref \<Rightarrow> 'a desc_scheme \<Rightarrow> 'a desc_scheme option) \<Rightarrow> u32 \<Rightarrow> u32 \<Rightarrow> 'a desc_scheme \<Rightarrow> 'a desc_scheme boot_end option" where
  "kernel_main E smoke intr away magic mb_info_phys s =
     Option.bind (boot_memory E magic mb_info_phys s) (\<lambda>r. case r of
       Inl t \<Rightarrow> Some (Returns t)
     | Inr s1 \<Rightarrow> Option.bind (boot_devices E mb_info_phys s1) (boot_run E smoke intr away))"

section \<open>The wait for the timer\<close>

text \<open>One timer interrupt that finds the CPU in \<open>hlt\<close> with the registers \<open>r\<close>.\<close>

definition timer_intr :: "gregs \<Rightarrow> u32 \<Rightarrow> u32 \<Rightarrow> u32 \<Rightarrow> 'a irq_scheme \<Rightarrow> 'a irq_scheme option" where
  "timer_intr r eip cs fl s = (case irq_entry 64 r eip cs fl s of Some (Resumes _ s') \<Rightarrow> Some s' | _ \<Rightarrow> None)"

lemma timer_intr_effect:
  fixes s :: "'a irq_scheme"
  assumes "con_ok s"
  shows "\<exists>s'. timer_intr r eip cs fl s = Some s' \<and> con_ok s' \<and> sched_cpu_ix s' = sched_cpu_ix s \<and> lapic_eois s s' 1
    \<and> g_tick s' = (g_tick s)(sched_cpu_ix s := g_tick s (sched_cpu_ix s) + 1)"
proof -
  define s0 where "s0 = s\<lparr>if_flag := False\<rparr>"
  have con: "con_ok s0" using assms by (simp add: s0_def con_ok_def uart_live_def)
  have s0: "mmio_outs s0 = mmio_outs s" "g_tick s0 = g_tick s" "sched_cpu_ix s0 = sched_cpu_ix s"
    by (simp_all add: s0_def sched_cpu_ix_def smp_cpu_index_def lapic_id_def mmio_r32_def)
  let ?f = "frame_of (pusha r @ [64, 0, eip, cs, fl])"
  obtain t where t: "sched_timer_tick s0 = Some t" "mmio_outs t = mmio_outs s" "con_ok t" "sched_cpu_ix t = sched_cpu_ix s"
      "g_tick t = (g_tick s)(sched_cpu_ix s := g_tick s (sched_cpu_ix s) + 1)"
    using tick_irq [OF con] s0 by (auto simp: returns_def)
  have "verve_irq_dispatch ?f s0 = Some (Resumes ?f (lapic_eoi t))" using t(1) by (simp add: verve_irq_dispatch_def frame_vec)
  then have run: "timer_intr r eip cs fl s = Some ((lapic_eoi t)\<lparr>if_flag := bit fl 9\<rparr>)"
    by (simp add: timer_intr_def irq_entry_def frame_vec flip: s0_def)
  have "con_ok ((lapic_eoi t)\<lparr>if_flag := bit fl 9\<rparr>)"
    using t(3) by (simp add: lapic_eoi_def mmio_w32_def mmio_write_def con_ok_def uart_live_def)
  moreover have "sched_cpu_ix ((lapic_eoi t)\<lparr>if_flag := bit fl 9\<rparr>) = sched_cpu_ix s"
    using t(4) by (simp add: lapic_eoi_def mmio_w32_def mmio_write_def sched_cpu_ix_def smp_cpu_index_def lapic_id_def mmio_r32_def)
  moreover have "lapic_eois s ((lapic_eoi t)\<lparr>if_flag := bit fl 9\<rparr>) 1"
    using t(2) by (simp add: lapic_eois_def lapic_eoi_def mmio_w32_def mmio_write_def)
  moreover have "g_tick ((lapic_eoi t)\<lparr>if_flag := bit fl 9\<rparr>) = (g_tick s)(sched_cpu_ix s := g_tick s (sched_cpu_ix s) + 1)"
    using t(5) by (simp add: lapic_eoi_def mmio_w32_def mmio_write_def)
  ultimately show ?thesis using run by blast
qed

lemma eois_trans: "lapic_eois s t n \<Longrightarrow> lapic_eois t u m \<Longrightarrow> lapic_eois s u (n + m)"
  by (simp add: lapic_eois_def replicate_add)

lemma wait_ticks_loop:
  fixes s :: "'a irq_scheme"
  assumes "con_ok s" and "unat (sched_tick_count s) + n = 5"
  shows "\<exists>s'. wait_ticks (timer_intr r eip cs fl) s = Some s' \<and> sched_tick_count s' = 5 \<and> lapic_eois s s' n"
  using assms
proof (induction n arbitrary: s)
  case 0
  then have five: "sched_tick_count s = 5" by (simp add: word_unat_eq_iff)
  show ?case by (subst wait_ticks.simps) (simp add: five lapic_eois_def)
next
  case (Suc n)
  have lt: "sched_tick_count s < 5" using Suc.prems(2) by (simp add: word_less_nat_alt)
  obtain t where t: "timer_intr r eip cs fl s = Some t" "con_ok t" "sched_cpu_ix t = sched_cpu_ix s" "lapic_eois s t 1"
      "g_tick t = (g_tick s)(sched_cpu_ix s := g_tick s (sched_cpu_ix s) + 1)"
    using timer_intr_effect [OF Suc.prems(1)] by blast
  have "sched_tick_count t = sched_tick_count s + 1" by (simp add: sched_tick_count_def t(3,5))
  then have "unat (sched_tick_count t) = Suc (unat (sched_tick_count s))" using lt by (simp add: unat_arith_simps)
  then obtain s' where s': "wait_ticks (timer_intr r eip cs fl) t = Some s'" "sched_tick_count s' = 5" "lapic_eois t s' n"
    using Suc.IH [OF t(2)] Suc.prems(2) by auto
  then show ?case using lt t(1) eois_trans [OF t(4) s'(3)] by (subst wait_ticks.simps) simp
qed

text \<open>
  The wait for the timer.  When only timer interrupts arrive while the CPU halts, the wait
  of \<open>kernel_main\<close> ends: after exactly as many as are missing to five ticks of this CPU, each of
  them acknowledged to the local APIC.
\<close>

theorem wait_ticks_returns:
  assumes "con_ok s" and "sched_tick_count s \<le> 5"
  shows "\<exists>s'. wait_ticks (timer_intr r eip cs fl) s = Some s' \<and> sched_tick_count s' = 5
    \<and> lapic_eois s s' (5 - unat (sched_tick_count s))"
  using assms by (intro wait_ticks_loop) (simp_all add: word_le_nat_alt)

theorem wait_ticks_returns_witness:
  "\<exists>s'. wait_ticks (timer_intr \<lparr>g_eax = 0, g_ecx = 0, g_edx = 0, g_ebx = 0, g_esp = 0, g_ebp = 0, g_esi = 0, g_edi = 0\<rparr> 0x100000 8 0x202)
      sample_irq = Some s' \<and> length (mmio_outs s') = 5"
proof -
  have z: "sched_tick_count sample_irq = 0" "mmio_outs sample_irq = []"
    by (simp_all add: sched_tick_count_def sample_irq_def thr.extend_def sample_thr_def)
  have "sched_tick_count sample_irq \<le> 5" by (simp add: z)
  from wait_ticks_returns [OF sample_irq_con this, of "\<lparr>g_eax = 0, g_ecx = 0, g_edx = 0, g_ebx = 0, g_esp = 0, g_ebp = 0, g_esi = 0, g_edi = 0\<rparr>"
      "0x100000" 8 "0x202"]
  show ?thesis by (auto simp: z lapic_eois_def)
qed

section \<open>The screen\<close>

text \<open>The character cell \<open>k\<close>, and the bytes outside the screen.\<close>

definition cell :: "memory \<Rightarrow> nat \<Rightarrow> u8 \<times> u8" where
  "cell m k = (m (0xB8000 + 2 * of_nat k), m (0xB8000 + 2 * of_nat k + 1))"

lemma cell_neq:
  assumes "k < 2000" "i < 2000" "a \<le> 1" "b \<le> 1"
  shows "(0xB8000 + 2 * of_nat k + of_nat a = (0xB8000 + 2 * of_nat i + of_nat b :: u32)) \<longleftrightarrow> k = i \<and> a = b"
proof -
  have u: "unat (0xB8000 + 2 * of_nat j + of_nat c :: u32) = 0xB8000 + 2 * j + c" if "j < 2000" "c \<le> 1" for j c
  proof -
    have "(0xB8000 + 2 * of_nat j + of_nat c :: u32) = of_nat (0xB8000 + 2 * j + c)" by simp
    then show ?thesis using that unat_of_nat32 [of "0xB8000 + 2 * j + c"] by (simp only:)
  qed
  show ?thesis
  proof
    assume "0xB8000 + 2 * of_nat k + of_nat a = (0xB8000 + 2 * of_nat i + of_nat b :: u32)"
    then have "0xB8000 + 2 * k + a = 0xB8000 + 2 * i + b" using u assms by metis
    then show "k = i \<and> a = b" using assms(3,4) by presburger
  qed simp
qed

lemma cell_st16:
  assumes "k < 2000" "i < 2000"
  shows "cell (st16 m (0xB8000 + 2 * of_nat i) v) k = (if k = i then (ucast v, ucast (drop_bit 8 v)) else cell m k)"
  using cell_neq [OF assms, of 0 0] cell_neq [OF assms, of 0 1] cell_neq [OF assms, of 1 0] cell_neq [OF assms, of 1 1]
  by (auto simp: cell_def st16_def)

lemma off_screen_st16:
  assumes "i < 2000" and "\<not> in_range 0xB8000 4000 x"
  shows "st16 m (0xB8000 + 2 * of_nat i) v x = m x"
proof -
  have "in_range 0xB8000 4000 (0xB8000 + of_nat (2 * i + c))" if "c \<le> 1" for c
    using assms(1) that by (intro in_range_plus) simp_all
  from this [of 0] this [of 1] show ?thesis using assms(2) by (auto simp: st16_def add.assoc)
qed

lemma vga_loop_cells:
  assumes "0 \<notin> set cs"
  shows "k < 2000 \<Longrightarrow> cell (vga_loop attr i cs m) k
      = (if i \<le> k \<and> k < i + length cs then (ucast (attr OR ucast (cs ! (k - i))), ucast (drop_bit 8 (attr OR ucast (cs ! (k - i))))) else cell m k)"
    and "\<not> in_range 0xB8000 4000 x \<Longrightarrow> vga_loop attr i cs m x = m x"
  using assms
proof (induction cs arbitrary: i m)
  case Nil
  {
    case 1
    then show ?case by auto
  next
    case 2
    then show ?case by simp
  }
next
  case (Cons c cs)
  {
    case 1
    then show ?case
      using Cons.IH(1) [of "Suc i"] by (cases "i < 2000") (auto simp: cell_st16 nth_Cons' Suc_le_eq)
  next
    case 2
    then show ?case using Cons.IH(2) [of "Suc i"] by (simp add: off_screen_st16)
  }
qed

lemma attr_cell:
  "ucast (vga_attr fg bg OR ucast c) = (c :: u8)" "ucast (drop_bit 8 (vga_attr fg bg OR ucast (c :: u8))) = fg OR push_bit 4 bg"
  by (intro bit_word_eqI; auto simp: vga_attr_def bit_simps dest: bit_imp_le_length)+

lemma vga_puts_cells:
  assumes "0 \<notin> set cs" and "k < 2000"
  shows "cell (vga_puts row col fg bg cs m) k
    = (if row * 80 + col \<le> k \<and> k < row * 80 + col + length cs then (cs ! (k - (row * 80 + col)), fg OR push_bit 4 bg) else cell m k)"
  using vga_loop_cells(1) [OF assms, of "vga_attr fg bg" "row * 80 + col" m] by (simp only: vga_puts_def attr_cell)

lemma vga_off_screen:
  assumes "\<not> in_range 0xB8000 4000 x"
  shows "0 \<notin> set cs \<Longrightarrow> vga_puts row col fg bg cs m x = m x" and "vga_clear fg bg m x = m x"
proof -
  show "vga_puts row col fg bg cs m x = m x" if "0 \<notin> set cs"
    unfolding vga_puts_def by (rule vga_loop_cells(2) [OF that assms])
  have "fold (\<lambda>i m. st16 m (0xB8000 + 2 * of_nat i) v) is m x = m x" if "set is \<subseteq> {..<2000}" for "is" v m
    using that by (induction "is" arbitrary: m) (simp_all add: off_screen_st16 [OF _ assms])
  then show "vga_clear fg bg m x = m x" by (simp add: vga_clear_def Let_def atLeast_upt [symmetric] lessThan_atLeast0)
qed

section \<open>Refusing to start\<close>

text \<open>Only the screen and the console have changed.\<close>

definition quiet :: "'a desc_scheme \<Rightarrow> 'a desc_scheme \<Rightarrow> bool" where
  "quiet s s' \<longleftrightarrow> (\<exists>n out m. s' = s\<lparr>io_reads := n, io_outs := io_outs s @ out, mem := m\<rparr>
     \<and> (\<forall>x. \<not> in_range 0xB8000 4000 x \<longrightarrow> m x = mem s x))"

text \<open>The two screen messages of an early return, on rows \<open>r\<close>.\<close>

definition boot_screen :: "memory \<Rightarrow> memory" where
  "boot_screen m = vga_puts 0 0 0xA 0 (cstr ''VerveOS kernel'') (vga_clear 7 0 m)"

lemma quiet_refl: "quiet s s"
  unfolding quiet_def by (intro exI [of _ "io_reads s"] exI [of _ "[]"] exI [of _ "mem s"]) simp

lemma quiet_mem:
  assumes "quiet s t" and "\<And>x. \<not> in_range 0xB8000 4000 x \<Longrightarrow> m x = mem t x"
  shows "quiet s (t\<lparr>mem := m\<rparr>)"
proof -
  obtain n out m' where "t = s\<lparr>io_reads := n, io_outs := io_outs s @ out, mem := m'\<rparr>"
      "\<forall>x. \<not> in_range 0xB8000 4000 x \<longrightarrow> m' x = mem s x" using assms(1) by (auto simp: quiet_def)
  then show ?thesis unfolding quiet_def using assms(2) by (intro exI [of _ n] exI [of _ out] exI [of _ m]) simp
qed

lemma quiet_screen:
  "quiet s t \<Longrightarrow> 0 \<notin> set cs \<Longrightarrow> quiet s (t\<lparr>mem := vga_puts row col fg bg cs (mem t)\<rparr>)"
  "quiet s t \<Longrightarrow> quiet s (t\<lparr>mem := vga_clear fg bg (mem t)\<rparr>)"
  by (rule quiet_mem; simp add: vga_off_screen)+

lemma quiet_prints:
  assumes "quiet s t" and "prints t msg t'"
  shows "quiet s t'"
proof -
  obtain n out m' where "t = s\<lparr>io_reads := n, io_outs := io_outs s @ out, mem := m'\<rparr>"
      "\<forall>x. \<not> in_range 0xB8000 4000 x \<longrightarrow> m' x = mem s x" using assms(1) by (auto simp: quiet_def)
  moreover obtain k where "t' = t\<lparr>io_reads := k, io_outs := io_outs t @ map (\<lambda>c. (COM1_DATA, c)) msg\<rparr>"
    using assms(2) by (auto simp: prints_def)
  ultimately show ?thesis
    unfolding quiet_def by (intro exI [of _ k] exI [of _ "out @ map (\<lambda>c. (COM1_DATA, c)) msg"] exI [of _ m']) simp
qed

lemma puts_result:
  assumes "con_ok s"
  obtains t where "serial_puts m s = Some t" "prints s m t" "con_ok t"
  using returns_puts [OF assms, of m "\<lambda>t. prints s m t \<and> con_ok t"] by (auto simp: returns_def)

lemma boot_screen_row: "k < 14 \<Longrightarrow> cell (boot_screen m) k = (cstr ''VerveOS kernel'' ! k, 0x0A)"
  unfolding boot_screen_def by (subst vga_puts_cells) (auto simp: cstr_def)


definition sample_env :: boot_env where
  "sample_env = \<lparr>e_layout = sample_layout, e_text = \<lparr>at_ap_idle_fn = 1, at_thread_trampoline = 2, at_worker_a = 3, at_worker_b = 4\<rparr>,
     e_tabs = \<lparr>at_gdt_desc = 0x105000, at_g_tss = 0x105100, at_null_kstack = 0x106000, at_idt = 0x107000,
       at_isr = \<lambda>v. 0x110000 + 16 * of_nat v, at_irq = \<lambda>v. 0x111000 + 16 * of_nat v\<rparr>,
     e_tramp = [0xFA, 0xF4], e_ap_entry = 0x112000, e_bringup_stack = 0x108000, e_exec_stack = 0x109000,
     e_vfs_junk = replicate 48 0, e_map_junk = replicate 32 0, e_smp_junk = replicate 32 0\<rparr>"


end
