(* ===== verification/Machine64.thy ===== *)
theory Machine64
  imports Serial
begin

text \<open>
  The machine under the x86-64 build: a flat 64-bit physical address space of bytes with the
  little-endian loads and stores of \<open>uint64_t\<close> objects, and the page walk of long mode (the
  documented meaning of CR3 and of the four levels of tables, with the P and PS bits; the
  code sets no other bit that decides a translation).  Nothing here is code of the repository.
\<close>

type_synonym memory64 = "u64 \<Rightarrow> u8"

record kern64 = con +
  mem64 :: memory64
  cr3_64 :: u64

section \<open>Loads and stores\<close>

definition ld64w :: "memory64 \<Rightarrow> u64 \<Rightarrow> u64" where
  "ld64w m a = ucast (m a) OR push_bit 8 (ucast (m (a + 1))) OR push_bit 16 (ucast (m (a + 2)))
     OR push_bit 24 (ucast (m (a + 3))) OR push_bit 32 (ucast (m (a + 4))) OR push_bit 40 (ucast (m (a + 5)))
     OR push_bit 48 (ucast (m (a + 6))) OR push_bit 56 (ucast (m (a + 7)))"

definition st64w :: "memory64 \<Rightarrow> u64 \<Rightarrow> u64 \<Rightarrow> memory64" where
  "st64w m a v = (\<lambda>x. if x - a < 8 then ucast (drop_bit (8 * unat (x - a)) v) else m x)"

text \<open>Byte ranges are circular, as in the 32-bit machine.\<close>

definition in_range64 :: "u64 \<Rightarrow> nat \<Rightarrow> u64 \<Rightarrow> bool" where
  "in_range64 a n x \<longleftrightarrow> unat (x - a) < n"

lemma byte_bit: "8 \<le> i \<Longrightarrow> \<not> bit (b :: u8) i"
  using bit_imp_le_length [of b i] by auto

lemma bit_byte_at: "bit (push_bit s (ucast (b :: u8)) :: u64) n \<longleftrightarrow> s \<le> n \<and> n < 64 \<and> n - s < 8 \<and> bit b (n - s)"
  using byte_bit [of "n - s" b] by (cases "n - s < 8") (auto simp: bit_simps)

lemma bit_ld64w: "bit (ld64w m a) n \<longleftrightarrow> n < 64 \<and> bit (m (a + of_nat (n div 8))) (n mod 8)"
proof (cases "n < 64")
  case True
  define k j where "k = n div 8" and "j = n mod 8"
  have n: "n = 8 * k + j" "j < 8" by (simp_all add: k_def j_def)
  have at: "bit (push_bit (8 * i) (ucast b) :: u64) n \<longleftrightarrow> i = k \<and> bit b j" for i and b :: u8
  proof (cases "i = k")
    case True
    then show ?thesis unfolding bit_byte_at using n \<open>n < 64\<close> by simp
  next
    case False
    then have "\<not> (8 * i \<le> n \<and> n - 8 * i < 8)" using n by linarith
    then show ?thesis unfolding bit_byte_at using False by blast
  qed
  have "bit (ld64w m a) n \<longleftrightarrow> (0 = k \<and> bit (m a) j) \<or> (1 = k \<and> bit (m (a + 1)) j) \<or> (2 = k \<and> bit (m (a + 2)) j)
      \<or> (3 = k \<and> bit (m (a + 3)) j) \<or> (4 = k \<and> bit (m (a + 4)) j) \<or> (5 = k \<and> bit (m (a + 5)) j)
      \<or> (6 = k \<and> bit (m (a + 6)) j) \<or> (7 = k \<and> bit (m (a + 7)) j)"
    using at [of 0 "m a"] at [of 1 "m (a + 1)"] at [of 2 "m (a + 2)"] at [of 3 "m (a + 3)"] at [of 4 "m (a + 4)"]
      at [of 5 "m (a + 5)"] at [of 6 "m (a + 6)"] at [of 7 "m (a + 7)"]
    by (simp only: ld64w_def bit_or_iff mult_0_right push_bit_0_id id_apply) simp
  moreover have "k = 0 \<or> k = 1 \<or> k = 2 \<or> k = 3 \<or> k = 4 \<or> k = 5 \<or> k = 6 \<or> k = 7" using True n by linarith
  ultimately have "bit (ld64w m a) n \<longleftrightarrow> bit (m (a + of_nat k)) j" by (elim disjE) simp_all
  then show ?thesis using True by (simp add: k_def j_def)
next
  case False
  then show ?thesis by (auto dest: bit_imp_le_length)
qed

lemma ld64w_eqI: "(\<And>k. k < 8 \<Longrightarrow> m (a + of_nat k) = m' (b + of_nat k)) \<Longrightarrow> ld64w m a = ld64w m' b"
  by (rule bit_word_eqI) (simp add: bit_ld64w)

lemma offset64: "k < 8 \<Longrightarrow> unat (of_nat k :: u64) = k"
  by (rule unat_of_nat64) simp

lemma ld64w_st64w_same [mem_simps]: "ld64w (st64w m a v) a = v"
proof (rule bit_word_eqI)
  fix n assume n: "n < LENGTH(64)"
  have k: "n div 8 < 8" "n mod 8 < 8" using n by auto
  then have "(of_nat (n div 8) :: u64) < 8" using offset64 [of "n div 8"] by (simp add: word_less_nat_alt)
  then have "bit (ld64w (st64w m a v) a) n = bit (ucast (drop_bit (8 * (n div 8)) v) :: u8) (n mod 8)"
    using n k offset64 [of "n div 8"] by (simp add: bit_ld64w st64w_def)
  also have "\<dots> = bit v n" using k(2) by (simp add: bit_simps)
  finally show "bit (ld64w (st64w m a v) a) n = bit v n" .
qed

lemma st64w_out:
  assumes "8 \<le> x - a"
  shows "st64w m a v x = m x"
proof -
  have "\<not> x - a < 8" using assms by (rule leD)
  then show ?thesis unfolding st64w_def by (rule if_not_P)
qed

lemma in_range64_step: "in_range64 (a + of_nat k) 8 x \<Longrightarrow> k + 8 \<le> n \<Longrightarrow> n \<le> 18446744073709551616 \<Longrightarrow> in_range64 a n x"
proof -
  assume r: "in_range64 (a + of_nat k) 8 x" "k + 8 \<le> n" "n \<le> 18446744073709551616"
  define j where "j = unat (x - (a + of_nat k))"
  have j: "j < 8" using r(1) by (simp add: in_range64_def j_def)
  have "x - a = of_nat k + (x - (a + of_nat k))" by simp
  also have "\<dots> = of_nat (k + j)" by (simp add: j_def)
  finally have "unat (x - a) = k + j" using unat_of_nat64 [of "k + j"] j r(2,3) by simp
  then show "in_range64 a n x" using j r(2) by (simp add: in_range64_def)
qed

lemma st64w_out_range: "\<not> in_range64 a 8 x \<Longrightarrow> st64w m a v x = m x"
  by (rule st64w_out) (simp add: in_range64_def word_le_nat_alt not_less)

text \<open>Words at least eight bytes apart, on the circle of addresses, do not touch.\<close>

lemma ld64w_st64w_apart:
  assumes "8 \<le> unat (b - a)" and "unat (b - a) \<le> 18446744073709551608"
  shows "ld64w (st64w m a v) b = ld64w m b"
proof (rule ld64w_eqI)
  fix k :: nat assume k: "k < 8"
  have eq: "b + of_nat k - a = (b - a) + of_nat k" by simp
  have "unat ((b - a) + of_nat k) = unat (b - a) + k"
    using assms k by (simp only: unat_word_ariths unat_of_nat) simp
  then have "8 \<le> b + of_nat k - a" using assms(1) unfolding eq by (simp only: word_le_nat_alt) simp
  then show "st64w m a v (b + of_nat k) = m (b + of_nat k)" by (rule st64w_out)
qed

lemma unat_plus64: "unat (a :: u64) + n < 18446744073709551616 \<Longrightarrow> unat (a + of_nat n) = unat a + n"
  by (simp add: unat_word_ariths unat_of_nat)

lemma ld64w_st64w_diff:
  assumes "b = a + of_nat d" and "8 \<le> d" and "d \<le> 18446744073709551608"
  shows "ld64w (st64w m a v) b = ld64w m b" and "ld64w (st64w m b v) a = ld64w m a"
proof -
  have du: "unat (of_nat d :: u64) = d" using assms(3) by (intro unat_of_nat64) linarith
  have "b - a = of_nat d" using assms(1) by simp
  then show "ld64w (st64w m a v) b = ld64w m b" using du assms(2,3) by (intro ld64w_st64w_apart) simp_all
  have "a - b = - of_nat d" using assms(1) by simp
  moreover have "unat (- of_nat d :: u64) = 18446744073709551616 - d"
    using du assms(2) unat_sub_if_size [of 0 "of_nat d :: u64"] by (simp only: diff_0 word_size unat_0) simp
  ultimately show "ld64w (st64w m b v) a = ld64w m a"
    using assms(2,3) by (intro ld64w_st64w_apart) simp_all
qed

section \<open>The page walk\<close>

abbreviation (input) PHYS_MASK :: u64 where "PHYS_MASK \<equiv> 0x000FFFFFFFFFF000"

definition canonical :: "u64 \<Rightarrow> bool" where
  "canonical va \<longleftrightarrow> drop_bit 47 va = 0 \<or> drop_bit 47 va = 0x1FFFF"

definition entry64 :: "memory64 \<Rightarrow> u64 \<Rightarrow> u64 \<Rightarrow> nat \<Rightarrow> u64" where
  "entry64 m table va sh = ld64w m ((table AND PHYS_MASK) + push_bit 3 (drop_bit sh va AND 0x1FF))"

text \<open>The physical address of a linear address, or \<open>None\<close> when the access faults.\<close>

definition walk64 :: "memory64 \<Rightarrow> u64 \<Rightarrow> u64 \<Rightarrow> u64 option" where
  "walk64 m cr3 va =
     (if \<not> canonical va then None
      else let e4 = entry64 m cr3 va 39 in if \<not> bit e4 0 then None
      else let e3 = entry64 m e4 va 30 in if \<not> bit e3 0 then None
      else if bit e3 7 then Some ((e3 AND 0x000FFFFFC0000000) OR (va AND 0x3FFFFFFF))
      else let e2 = entry64 m e3 va 21 in if \<not> bit e2 0 then None
      else if bit e2 7 then Some ((e2 AND 0x000FFFFFFFE00000) OR (va AND 0x1FFFFF))
      else let e1 = entry64 m e2 va 12 in if \<not> bit e1 0 then None
      else Some ((e1 AND PHYS_MASK) OR (va AND 0xFFF)))"

end
