(* ===== verification/Devices64.thy ===== *)
theory Devices64
  imports Machine64 Pic_Pit
begin

text \<open>
  \<open>arch/x86_64/lapic_amd64.c\<close>, \<open>pic_amd64.c\<close>, \<open>pit_amd64.c\<close> and \<open>kernel/smp_stub_amd64.c\<close>: the
  devices of the x86-64 build.  As in the i386 model \<open>mmio64_in n a\<close> is the word the \<open>n\<close>-th
  memory-mapped read returns when it reads address \<open>a\<close> and \<open>mmio64_outs\<close> the trace of the words
  written; the addresses are 64 bits wide.
\<close>

record dev64 = kern64 +
  lapic64_id_reg :: u32
  mmio64_in :: "nat \<Rightarrow> u64 \<Rightarrow> u32"
  mmio64_reads :: nat
  mmio64_outs :: "(u64 \<times> u32) list"
  apic_base_msr64 :: "u32 \<times> u32"

section \<open>The local APIC\<close>

abbreviation (input) LAPIC64_BASE :: u64 where "LAPIC64_BASE \<equiv> 0xFEE00000"
abbreviation (input) LAPIC64_ID :: u32 where "LAPIC64_ID \<equiv> 0x20"
abbreviation (input) LAPIC64_SVR :: u32 where "LAPIC64_SVR \<equiv> 0xF0"
abbreviation (input) LAPIC64_EOI :: u32 where "LAPIC64_EOI \<equiv> 0xB0"
abbreviation (input) LAPIC64_ICRLO :: u32 where "LAPIC64_ICRLO \<equiv> 0x300"
abbreviation (input) LAPIC64_ICRHI :: u32 where "LAPIC64_ICRHI \<equiv> 0x310"
abbreviation (input) LAPIC64_DIVCONF :: u32 where "LAPIC64_DIVCONF \<equiv> 0x3E0"
abbreviation (input) LAPIC64_TIMER_ICR :: u32 where "LAPIC64_TIMER_ICR \<equiv> 0x380"
abbreviation (input) LAPIC64_LVT_TIMER :: u32 where "LAPIC64_LVT_TIMER \<equiv> 0x320"

text \<open>\<open>g_lapic + off\<close>: the offset is widened to the width of a pointer.\<close>

definition mmio_w32_64 :: "u32 \<Rightarrow> u32 \<Rightarrow> 'a dev64_scheme \<Rightarrow> 'a dev64_scheme" where
  "mmio_w32_64 off v s = s\<lparr>mmio64_outs := mmio64_outs s @ [(LAPIC64_BASE + ucast off, v)]\<rparr>"

definition mmio_r32_64 :: "u32 \<Rightarrow> 'a dev64_scheme \<Rightarrow> u32 \<times> 'a dev64_scheme" where
  "mmio_r32_64 off s =
     (if off = LAPIC64_ID then (lapic64_id_reg s, s)
      else (mmio64_in s (mmio64_reads s) (LAPIC64_BASE + ucast off), s\<lparr>mmio64_reads := Suc (mmio64_reads s)\<rparr>))"

definition lapic_msr_enable64 :: "'a dev64_scheme \<Rightarrow> 'a dev64_scheme" where
  "lapic_msr_enable64 s =
     (let lo = fst (apic_base_msr64 s); hi = snd (apic_base_msr64 s) in s\<lparr>apic_base_msr64 := (lo OR 0x800, hi)\<rparr>)"

definition lapic_mmio_map64 :: "'a dev64_scheme \<Rightarrow> 'a dev64_scheme" where
  "lapic_mmio_map64 s = s"

definition lapic_software_enable64 :: "'a dev64_scheme \<Rightarrow> 'a dev64_scheme" where
  "lapic_software_enable64 s =
     (case mmio_r32_64 LAPIC64_SVR s of (v, s1) \<Rightarrow>
        mmio_w32_64 LAPIC64_SVR (((v AND 0xFFFFFE00) OR 0x1FF) OR 0x100) s1)"

definition lapic_eoi64 :: "'a dev64_scheme \<Rightarrow> 'a dev64_scheme" where
  "lapic_eoi64 s = mmio_w32_64 LAPIC64_EOI 0 s"

definition lapic_id64 :: "'a dev64_scheme \<Rightarrow> u8" where
  "lapic_id64 s = ucast (drop_bit 24 (fst (mmio_r32_64 LAPIC64_ID s)))"

partial_function (option) lapic_icr_wait64 :: "'a dev64_scheme \<Rightarrow> 'a dev64_scheme option" where
  "lapic_icr_wait64 s =
     (case mmio_r32_64 LAPIC64_ICRLO s of (v, s1) \<Rightarrow> if v AND 0x1000 \<noteq> 0 then lapic_icr_wait64 s1 else Some s1)"

definition lapic_send_init64 :: "u8 \<Rightarrow> 'a dev64_scheme \<Rightarrow> 'a dev64_scheme option" where
  "lapic_send_init64 apic_id s =
     lapic_icr_wait64 (mmio_w32_64 LAPIC64_ICRLO 0x4500 (mmio_w32_64 LAPIC64_ICRHI (push_bit 24 (ucast apic_id)) s))"

definition lapic_send_sipi64 :: "u8 \<Rightarrow> u8 \<Rightarrow> 'a dev64_scheme \<Rightarrow> 'a dev64_scheme option" where
  "lapic_send_sipi64 apic_id vector s =
     lapic_icr_wait64 (mmio_w32_64 LAPIC64_ICRLO (0x600 OR ucast vector)
       (mmio_w32_64 LAPIC64_ICRHI (push_bit 24 (ucast apic_id)) s))"

definition lapic_bsp_early_init64 :: "'a dev64_scheme \<Rightarrow> 'a dev64_scheme" where
  "lapic_bsp_early_init64 s = lapic_software_enable64 (lapic_msr_enable64 (lapic_mmio_map64 s))"

definition lapic_timer_periodic64 :: "u8 \<Rightarrow> u32 \<Rightarrow> u8 \<Rightarrow> 'a dev64_scheme \<Rightarrow> 'a dev64_scheme" where
  "lapic_timer_periodic64 vector initial_count divide_reg s =
     mmio_w32_64 LAPIC64_LVT_TIMER (0x20000 OR ucast vector)
       (mmio_w32_64 LAPIC64_TIMER_ICR initial_count
         (mmio_w32_64 LAPIC64_DIVCONF (ucast divide_reg)
           (mmio_w32_64 LAPIC64_LVT_TIMER (0x10000 OR ucast vector) s)))"

section \<open>The 8259 and the 8254\<close>

definition pic_wait64 :: "'a io_scheme \<Rightarrow> 'a io_scheme" where
  "pic_wait64 s = snd (verve_inb PIC1_CMD s)"

definition pic_init64 :: "u8 \<Rightarrow> u8 \<Rightarrow> 'a io_scheme \<Rightarrow> 'a io_scheme" where
  "pic_init64 master slave s =
     (let s1 = pic_wait64 (verve_outb PIC1_CMD 0x11 s);
          s2 = pic_wait64 (verve_outb PIC2_CMD 0x11 s1);
          s3 = pic_wait64 (verve_outb PIC1_DATA master s2);
          s4 = pic_wait64 (verve_outb PIC2_DATA slave s3);
          s5 = pic_wait64 (verve_outb PIC1_DATA 4 s4);
          s6 = pic_wait64 (verve_outb PIC2_DATA 2 s5);
          s7 = pic_wait64 (verve_outb PIC1_DATA 1 s6);
          s8 = pic_wait64 (verve_outb PIC2_DATA 1 s7)
      in verve_outb PIC2_DATA 0xFF (verve_outb PIC1_DATA 0xFF s8))"

definition pic_irq_mask_all64 :: "'a io_scheme \<Rightarrow> 'a io_scheme" where
  "pic_irq_mask_all64 s = verve_outb PIC2_DATA 0xFF (verve_outb PIC1_DATA 0xFF s)"

definition pic_irq_unmask64 :: "u8 \<Rightarrow> 'a io_scheme \<Rightarrow> 'a io_scheme" where
  "pic_irq_unmask64 irq_line s =
     (let port = (if irq_line < 8 then PIC1_DATA else PIC2_DATA);
          shift = (if irq_line < 8 then irq_line else irq_line - 8)
      in case verve_inb port s of (val, s1) \<Rightarrow>
           verve_outb port (val AND ucast (NOT (push_bit (unat shift) (1 :: u32)))) s1)"

definition pic_send_eoi64 :: "u8 \<Rightarrow> 'a io_scheme \<Rightarrow> 'a io_scheme" where
  "pic_send_eoi64 irq_line s =
     verve_outb PIC1_CMD 0x20 (if irq_line \<ge> 8 then verve_outb PIC2_CMD 0x20 s else s)"

definition pit_set_frequency_hz64 :: "u32 \<Rightarrow> 'a io_scheme \<Rightarrow> 'a io_scheme option" where
  "pit_set_frequency_hz64 hz s =
     (if hz = 0 then None
      else let d0 = 1193182 div hz;
               d1 = (if d0 > 65535 then 65535 else d0);
               divisor = (if d1 < 2 then 2 else d1);
               s1 = verve_outb 0x43 0x36 s;
               s2 = verve_outb 0x40 (ucast (divisor AND 0xFF)) s1
           in Some (verve_outb 0x40 (ucast (drop_bit 8 divisor AND 0xFF)) s2))"

text \<open>
  The two builds drive these controllers by the same port accesses, so what is shown of the
  i386 functions holds here.
\<close>

lemma port_drivers_same:
  "pic_init64 = pic_init" "pic_irq_mask_all64 = pic_irq_mask_all" "pic_irq_unmask64 = pic_irq_unmask"
  "pic_send_eoi64 = pic_send_eoi" "pit_set_frequency_hz64 = pit_set_frequency_hz"
  by (simp_all add: fun_eq_iff pic_init64_def pic_init_def pic_wait64_def pic_wait_def pic_irq_mask_all64_def pic_irq_mask_all_def
      pic_irq_unmask64_def pic_irq_unmask_def pic_send_eoi64_def pic_send_eoi_def pit_set_frequency_hz64_def
      pit_set_frequency_hz_def pit_divisor_def Let_def)

section \<open>One CPU\<close>

definition smp_cpu_index64 :: "'s \<Rightarrow> u32" where
  "smp_cpu_index64 s = 0"

definition smp_cpu_count64 :: "'s \<Rightarrow> u32" where
  "smp_cpu_count64 s = 1"

definition smp_bootstrap_apic_map64 :: "'s \<Rightarrow> 's" where
  "smp_bootstrap_apic_map64 s = s"

definition smp_bsp_timer_start64 :: "'s \<Rightarrow> 's" where
  "smp_bsp_timer_start64 s = s"

definition smp_init64 :: "u64 \<Rightarrow> 's \<Rightarrow> 's" where
  "smp_init64 info s = s"

section \<open>What the APIC is programmed to\<close>

text \<open>The last word written to a register.\<close>

definition lapic_reg64 :: "u64 \<Rightarrow> 'a dev64_scheme \<Rightarrow> u32 option" where
  "lapic_reg64 off s = map_option snd (find (\<lambda>e. fst e = LAPIC64_BASE + off) (rev (mmio64_outs s)))"

lemma lapic_timer_armed64:
  "lapic_reg64 0x320 (lapic_timer_periodic64 v n d s) = Some (0x20000 OR ucast v)"
  "lapic_reg64 0x380 (lapic_timer_periodic64 v n d s) = Some n"
  "lapic_reg64 0x3E0 (lapic_timer_periodic64 v n d s) = Some (ucast d)"
  by (simp_all add: lapic_reg64_def lapic_timer_periodic64_def mmio_w32_64_def)

end
