(* ===== verification/Idt64.thy ===== *)
theory Idt64
  imports Devices64
begin

text \<open>
  \<open>arch/x86_64/idt_amd64.c\<close>: the interrupt gates of the x86-64 build and how the CPU takes an
  interrupt through them in long mode (the stubs they lead to are in \<open>Interrupts64\<close>).  The
  selectors are those of the boot code: \<open>0x08\<close> is its 64-bit ring 0 code segment.
\<close>

record idt_gate64 =
  offset_lo :: u16
  sel64 :: u16
  ist :: u8
  flags64 :: u8
  offset_mid :: u16
  offset_hi :: u32
  reserved_zero :: u32

text \<open>The addresses of the table and of the entry stubs are parameters.\<close>

record idt_syms64 =
  at_idt64 :: u64
  at_isr64 :: "nat \<Rightarrow> u64"
  at_irq64 :: "nat \<Rightarrow> u64"

record tabs64 =
  idt64 :: "idt_gate64 list"
  idtr64 :: "u16 \<times> u64"

section \<open>The code\<close>

definition idt_set64 :: "u8 \<Rightarrow> u64 \<Rightarrow> idt_gate64 list \<Rightarrow> idt_gate64 list" where
  "idt_set64 vec handler tab =
     (let h = handler
      in tab[unat vec := \<lparr>offset_lo = ucast (h AND 0xFFFF), sel64 = 0x08, ist = 0, flags64 = 0x8E,
           offset_mid = ucast (drop_bit 16 h AND 0xFFFF), offset_hi = ucast (drop_bit 32 h), reserved_zero = 0\<rparr>])"

definition empty_gate64 :: idt_gate64 where
  "empty_gate64 = \<lparr>offset_lo = 0, sel64 = 0, ist = 0, flags64 = 0, offset_mid = 0, offset_hi = 0, reserved_zero = 0\<rparr>"

fun idt_set_range64 :: "nat \<Rightarrow> (nat \<Rightarrow> u64) \<Rightarrow> nat \<Rightarrow> nat \<Rightarrow> idt_gate64 list \<Rightarrow> idt_gate64 list" where
  "idt_set_range64 base stubs i 0 tab = tab"
| "idt_set_range64 base stubs i (Suc n) tab =
     idt_set_range64 base stubs (Suc i) n (idt_set64 (of_nat (base + i)) (stubs (base + i)) tab)"

definition idt_init64 :: "idt_syms64 \<Rightarrow> tabs64 \<Rightarrow> tabs64" where
  "idt_init64 A t =
     (let t1 = replicate 256 empty_gate64;
          t2 = idt_set_range64 0 (at_isr64 A) 0 32 t1;
          t3 = idt_set_range64 32 (at_irq64 A) 0 16 t2;
          t4 = idt_set64 64 (at_irq64 A 64) t3
      in t\<lparr>idt64 := t4, idtr64 := (16 * 256 - 1, at_idt64 A)\<rparr>)"

section \<open>How the CPU takes an interrupt\<close>

text \<open>
  In long mode a gate is 16 bytes; types 14 and 15 are the 64-bit interrupt and trap gate;
  \<open>int n\<close> at a level above the gate's is refused.  \<open>Enters64\<close> gives the handler, the selector
  and whether interrupts stay as they are.
\<close>

datatype delivery64 = Enters64 u64 u16 bool | Gp_fault64 | Not_present64

definition deliver64 :: "bool \<Rightarrow> u8 \<Rightarrow> u8 \<Rightarrow> tabs64 \<Rightarrow> delivery64" where
  "deliver64 soft cpl v t =
     (if unat (fst (idtr64 t)) < 16 * unat v + 15 then Gp_fault64
      else let g = idt64 t ! unat v; typ_bits = flags64 g AND 0x1F
        in if typ_bits \<noteq> 0x0E \<and> typ_bits \<noteq> 0x0F then Gp_fault64
           else if soft \<and> cpl > drop_bit 5 (flags64 g) AND 3 then Gp_fault64
           else if \<not> bit (flags64 g) 7 then Not_present64
           else Enters64 (ucast (offset_lo g) OR push_bit 16 (ucast (offset_mid g)) OR push_bit 32 (ucast (offset_hi g)))
                  (sel64 g) (typ_bits = 0x0F))"

section \<open>The table after initialisation\<close>

definition handler64 :: "idt_syms64 \<Rightarrow> nat \<Rightarrow> u64 option" where
  "handler64 A v = (if v < 32 then Some (at_isr64 A v) else if v < 48 \<or> v = 64 then Some (at_irq64 A v) else None)"

definition gate64 :: "u64 \<Rightarrow> idt_gate64" where
  "gate64 h = \<lparr>offset_lo = ucast (h AND 0xFFFF), sel64 = 0x08, ist = 0, flags64 = 0x8E,
     offset_mid = ucast (drop_bit 16 h AND 0xFFFF), offset_hi = ucast (drop_bit 32 h), reserved_zero = 0\<rparr>"

lemma idt_set64_gate: "idt_set64 v h tab = tab[unat v := gate64 h]"
  by (simp add: idt_set64_def gate64_def Let_def)

lemma set_range64:
  "base + i + n \<le> 256 \<Longrightarrow> length tab = 256 \<Longrightarrow> length (idt_set_range64 base stubs i n tab) = 256
    \<and> (\<forall>v. idt_set_range64 base stubs i n tab ! v = (if base + i \<le> v \<and> v < base + i + n then gate64 (stubs v) else tab ! v))"
proof (induction n arbitrary: i tab)
  case 0
  then show ?case by auto
next
  case (Suc n)
  have u: "unat (of_nat (base + i) :: u8) = base + i" using Suc.prems(1) by (simp only: unat_of_nat) simp
  show ?case
    using Suc.IH [of "Suc i" "tab[base + i := gate64 (stubs (base + i))]"] Suc.prems
    by (auto simp: idt_set64_gate u nth_list_update simp del: of_nat_add)
qed

lemma idt_init64_entries:
  assumes "v < 256"
  shows "idt64 (idt_init64 A t) ! v = (case handler64 A v of None \<Rightarrow> empty_gate64 | Some h \<Rightarrow> gate64 h)"
proof -
  define t2 where "t2 = idt_set_range64 0 (at_isr64 A) 0 32 (replicate 256 empty_gate64)"
  define t3 where "t3 = idt_set_range64 32 (at_irq64 A) 0 16 t2"
  have t2: "length t2 = 256" "t2 ! w = (if w < 32 then gate64 (at_isr64 A w) else replicate 256 empty_gate64 ! w)" for w
    using set_range64 [of 0 0 32 "replicate 256 empty_gate64" "at_isr64 A"] by (simp_all add: t2_def)
  have t3: "length t3 = 256" "t3 ! w = (if 32 \<le> w \<and> w < 48 then gate64 (at_irq64 A w) else t2 ! w)" for w
    using set_range64 [of 32 0 16 t2 "at_irq64 A"] t2(1) by (simp_all add: t3_def)
  have "idt64 (idt_init64 A t) = t3[64 := gate64 (at_irq64 A 64)]"
    by (simp add: idt_init64_def Let_def t3_def t2_def idt_set64_gate)
  then show ?thesis using assms t3 t2 by (auto simp: nth_list_update handler64_def)
qed

lemma gate64_offset:
  "ucast (offset_lo (gate64 h)) OR push_bit 16 (ucast (offset_mid (gate64 h))) OR push_bit 32 (ucast (offset_hi (gate64 h))) = h"
proof (rule bit_word_eqI)
  fix n assume n: "n < LENGTH(64)"
  have m: "(65535 :: u64) = mask 16" by (simp add: mask_eq_exp_minus_1)
  show "bit (ucast (offset_lo (gate64 h)) OR push_bit 16 (ucast (offset_mid (gate64 h))) OR push_bit 32 (ucast (offset_hi (gate64 h))) :: u64) n = bit h n"
    using n unfolding gate64_def m by (cases "32 \<le> n"; cases "16 \<le> n") (auto simp: bit_simps)
qed

text \<open>
  C23: interrupt entry of the x86-64 build.  For every vector, whatever raises it: the 32
  exceptions, the 16 PIC lines and the APIC timer enter their own stub through the ring 0 code
  segment with interrupts off; every other vector is a protection fault, and so is every
  \<open>int n\<close> of code above ring 0.
\<close>

theorem idt64_enters_stubs:
  "deliver64 soft cpl v (idt_init64 A t)
    = (case handler64 A (unat v) of None \<Rightarrow> Gp_fault64
       | Some h \<Rightarrow> if soft \<and> cpl > 0 then Gp_fault64 else Enters64 h 0x08 False)"
proof -
  have v: "unat v < 256" by (rule unat_lt8)
  have lim: "\<not> unat (fst (idtr64 (idt_init64 A t))) < 16 * unat v + 15" using v by (simp add: idt_init64_def Let_def)
  show ?thesis
  proof (cases "handler64 A (unat v)")
    case None
    then show ?thesis using lim by (simp add: deliver64_def idt_init64_entries [OF v] empty_gate64_def)
  next
    case (Some h)
    have "flags64 (gate64 h) = 0x8E" "sel64 (gate64 h) = 0x08" by (simp_all add: gate64_def)
    moreover have "bit (0x8E :: u8) 7" by code_simp
    ultimately show ?thesis using lim Some
      by (simp add: deliver64_def idt_init64_entries [OF v] gate64_offset Let_def)
  qed
qed

end
