(* ===== verification/Con_View.thy ===== *)
theory Con_View
  imports Serial
begin

text \<open>
  The console under a change of state type.  The x86-64 build has its own state, but prints
  through the same \<open>kernel/serial.c\<close>; a view that reads and writes the same ports and the same
  lock commutes with everything that is printed.
\<close>

locale con_view =
  fixes v :: "'a con_scheme \<Rightarrow> 'b con_scheme"
  assumes con_reads: "io_in (v s) = io_in s" "io_reads (v s) = io_reads s" "io_outs (v s) = io_outs s"
      "g_serial_lock (v s) = g_serial_lock s"
    and con_writes: "v (s\<lparr>io_reads := n\<rparr>) = (v s)\<lparr>io_reads := n\<rparr>" "v (s\<lparr>io_outs := es\<rparr>) = (v s)\<lparr>io_outs := es\<rparr>"
      "v (s\<lparr>g_serial_lock := l\<rparr>) = (v s)\<lparr>g_serial_lock := l\<rparr>"
begin

lemma inb_view: "verve_inb p (v s) = map_prod id v (verve_inb p s)"
  by (simp add: verve_inb_def con_reads con_writes)

lemma outb_view: "verve_outb p c (v s) = v (verve_outb p c s)"
  by (simp add: verve_outb_def con_reads con_writes)

lemma ready_step:
  assumes "verve_inb (COM1_DATA + 5) s = (b, s1)"
  shows "serial_ready s = (if b AND 0x20 = 0 then serial_ready s1 else Some s1)"
    and "serial_ready (v s) = (if b AND 0x20 = 0 then serial_ready (v s1) else Some (v s1))"
  by (subst serial_ready.simps, simp only: inb_view assms map_prod_simp prod.case id_apply)+

lemma ready_fwd:
  assumes "serial_ready s = Some t"
  shows "serial_ready (v s) = Some (v t)"
proof (rule serial_ready.raw_induct [where P = "\<lambda>s t. serial_ready (v s) = Some (v t)", OF _ assms])
  fix f :: "'a con_scheme \<Rightarrow> 'a con_scheme option" and s t
  assume IH: "\<And>s t. f s = Some t \<Longrightarrow> serial_ready (v s) = Some (v t)"
    and run: "(case verve_inb (COM1_DATA + 5) s of (b, s1) \<Rightarrow> if b AND 0x20 = 0 then f s1 else Some s1) = Some t"
  obtain b s1 where i: "verve_inb (COM1_DATA + 5) s = (b, s1)" by (cases "verve_inb (COM1_DATA + 5) s")
  show "serial_ready (v s) = Some (v t)"
    using run IH unfolding ready_step(2) [OF i] i by (cases "b AND 0x20 = 0") simp_all
qed

lemma ready_bwd:
  assumes "serial_ready (v s) = Some t"
  shows "\<exists>t'. serial_ready s = Some t'"
proof -
  have "\<forall>s'. v s = v s' \<longrightarrow> (\<exists>t'. serial_ready s' = Some t')"
  proof (rule serial_ready.raw_induct [where P = "\<lambda>u t. \<forall>s'. u = v s' \<longrightarrow> (\<exists>t'. serial_ready s' = Some t')", OF _ assms])
    fix f :: "'b con_scheme \<Rightarrow> 'b con_scheme option" and u t
    assume IH: "\<And>u t. f u = Some t \<Longrightarrow> \<forall>s'. u = v s' \<longrightarrow> (\<exists>t'. serial_ready s' = Some t')"
      and run: "(case verve_inb (COM1_DATA + 5) u of (b, s1) \<Rightarrow> if b AND 0x20 = 0 then f s1 else Some s1) = Some t"
    show "\<forall>s'. u = v s' \<longrightarrow> (\<exists>t'. serial_ready s' = Some t')"
    proof (intro allI impI)
      fix s' assume u: "u = v s'"
      obtain b s1 where i: "verve_inb (COM1_DATA + 5) s' = (b, s1)" by (cases "verve_inb (COM1_DATA + 5) s'")
      then have i': "verve_inb (COM1_DATA + 5) u = (b, v s1)" by (simp only: u inb_view map_prod_simp id_apply)
      show "\<exists>t'. serial_ready s' = Some t'"
        using run IH unfolding ready_step(1) [OF i] i' by (cases "b AND 0x20 = 0") auto
    qed
  qed
  then show ?thesis by blast
qed

lemma ready_view: "serial_ready (v s) = map_option v (serial_ready s)"
proof (cases "serial_ready s")
  case None
  then show ?thesis using ready_bwd [of s] by (cases "serial_ready (v s)") auto
next
  case (Some t)
  then show ?thesis using ready_fwd by simp
qed

lemma putc_raw_view: "serial_putc_raw c (v s) = map_option v (serial_putc_raw c s)"
  by (cases "serial_ready s") (simp_all add: serial_putc_raw_def ready_view outb_view)

lemma put_list_view: "serial_put_list cs (v s) = map_option v (serial_put_list cs s)"
proof (induction cs arbitrary: s)
  case (Cons c cs)
  then show ?case by (cases "serial_putc_raw c s") (simp_all add: putc_raw_view)
qed simp

lemma locked_view: "locked (serial_put_list cs) (v s) = map_option v (locked (serial_put_list cs) s)"
proof (cases "verve_spin_lock (g_serial_lock s)")
  case (Some l)
  have "serial_put_list cs ((v s)\<lparr>g_serial_lock := l\<rparr>) = map_option v (serial_put_list cs (s\<lparr>g_serial_lock := l\<rparr>))"
    by (simp only: con_writes(3) [symmetric] put_list_view)
  then show ?thesis using Some
    by (cases "serial_put_list cs (s\<lparr>g_serial_lock := l\<rparr>)") (simp_all add: locked_def con_reads con_writes)
qed (simp add: locked_def con_reads)

lemma puts_view: "serial_puts cs (v s) = map_option v (serial_puts cs s)"
  unfolding serial_puts_def by (rule locked_view)

lemma hex_view: "serial_put_u64_hex x (v s) = map_option v (serial_put_u64_hex x s)"
  unfolding serial_put_u64_hex_def by (rule locked_view)

end

text \<open>The port devices seen alone.\<close>

interpretation id_view: con_view "\<lambda>s. s"
  by unfold_locales simp_all

lemma bind_map_view:
  "(\<And>x. f (v x) = map_option w (g x)) \<Longrightarrow> Option.bind (map_option v r) f = map_option w (Option.bind r g)"
  by (cases r) simp_all

lemma bind_map_view_pair:
  "(\<And>d x. f (d, v x) = map_option w (g (d, x))) \<Longrightarrow>
    Option.bind (map_option (map_prod id v) r) f = map_option w (Option.bind r g)"
  by (cases r) auto

end
