(* ===== verification/Sched64.thy ===== *)
theory Sched64
  imports Devices64 Con_View Sched
begin

text \<open>
  \<open>kernel/sched_amd64.c\<close>: the scheduler's accounting in the x86-64 build, a second copy of
  \<open>kernel/sched.c\<close> in the repository.  The code is translated on its own and then shown to
  behave as the i386 code does on a machine with one CPU.
\<close>

record sch64 = dev64 +
  g_tick64 :: "u32 \<Rightarrow> u64"
  g_need_resched64 :: "u32 \<Rightarrow> u32"
  g_defer_ring64 :: "u32 \<Rightarrow> u32 \<Rightarrow> u32"
  g_defer_w64 :: "u32 \<Rightarrow> u32"
  g_defer_r64 :: "u32 \<Rightarrow> u32"
  g_defer_overflow64 :: "u32 \<Rightarrow> u32"
  g_preempt_disable_depth64 :: u32
  if_flag64 :: bool

section \<open>The code\<close>

definition sched_cpu_ix64 :: "'a sch64_scheme \<Rightarrow> u32" where
  "sched_cpu_ix64 s = (let c = smp_cpu_index64 s in if c \<ge> SCHED_MAX_CPU then 0 else c)"

definition defer_push_tick64 :: "u32 \<Rightarrow> u64 \<Rightarrow> 'a sch64_scheme \<Rightarrow> 'a sch64_scheme" where
  "defer_push_tick64 cpu tick s =
     (let w = g_defer_w64 s cpu; r = g_defer_r64 s cpu; nxt = (w + 1) mod SCHED_DEFER_CAP
      in if nxt = r then s\<lparr>g_defer_overflow64 := (g_defer_overflow64 s)(cpu := g_defer_overflow64 s cpu + 1)\<rparr>
         else s\<lparr>g_defer_ring64 := (g_defer_ring64 s)(cpu := (g_defer_ring64 s cpu)(w := ucast (tick AND 0xFFFFFFFF))),
                g_defer_w64 := (g_defer_w64 s)(cpu := nxt)\<rparr>)"

definition sched_init64 :: "'a sch64_scheme \<Rightarrow> 'a sch64_scheme" where
  "sched_init64 s = s\<lparr>g_tick64 := \<lambda>i. if i < SCHED_MAX_CPU then 0 else g_tick64 s i,
     g_need_resched64 := \<lambda>i. if i < SCHED_MAX_CPU then 0 else g_need_resched64 s i,
     g_defer_w64 := \<lambda>i. if i < SCHED_MAX_CPU then 0 else g_defer_w64 s i,
     g_defer_r64 := \<lambda>i. if i < SCHED_MAX_CPU then 0 else g_defer_r64 s i,
     g_defer_overflow64 := \<lambda>i. if i < SCHED_MAX_CPU then 0 else g_defer_overflow64 s i,
     g_preempt_disable_depth64 := 0\<rparr>"

definition sched_timer_tick64 :: "'a sch64_scheme \<Rightarrow> 'a sch64_scheme option" where
  "sched_timer_tick64 s =
     (let cpu = sched_cpu_ix64 s;
          t = g_tick64 s cpu + 1;
          s1 = s\<lparr>g_tick64 := (g_tick64 s)(cpu := t)\<rparr>
      in map_option
           (\<lambda>s2. if t mod PREEMPT_INTERVAL_TICKS = 0
                 then defer_push_tick64 cpu t (s2\<lparr>g_need_resched64 := (g_need_resched64 s2)(cpu := 1)\<rparr>) else s2)
           (if t \<le> 5 \<and> cpu = 0
            then Option.bind (serial_puts (cstr ''[VerveOS] sched: timer tick '') s1) (\<lambda>s2.
                 Option.bind (serial_put_u64_hex t s2) (\<lambda>s3. serial_puts crlf s3))
            else Some s1))"

partial_function (option) drain_loop64 ::
    "u32 \<Rightarrow> u32 \<Rightarrow> u32 \<Rightarrow> 'a sch64_scheme \<Rightarrow> (u32 \<times> u32 \<times> 'a sch64_scheme) option" where
  "drain_loop64 cpu drained last_tick s =
     (if g_defer_r64 s cpu \<noteq> g_defer_w64 s cpu then
        let r = g_defer_r64 s cpu; v = g_defer_ring64 s cpu r
        in drain_loop64 cpu (drained + 1) v (s\<lparr>g_defer_r64 := (g_defer_r64 s)(cpu := (r + 1) mod SCHED_DEFER_CAP)\<rparr>)
      else Some (drained, last_tick, s))"

definition sched_process_deferred64 :: "'a sch64_scheme \<Rightarrow> (u32 \<times> 'a sch64_scheme) option" where
  "sched_process_deferred64 s =
     (let cpu = sched_cpu_ix64 s; flags = if_flag64 s
      in case drain_loop64 cpu 0 0 (s\<lparr>if_flag64 := False\<rparr>) of None \<Rightarrow> None
         | Some (drained, last_tick, s1) \<Rightarrow>
             let ovf = g_defer_overflow64 s1 cpu;
                 s2 = s1\<lparr>g_defer_overflow64 := (g_defer_overflow64 s1)(cpu := 0), if_flag64 := flags\<rparr>
             in if drained = 0 \<and> ovf = 0 then Some (0, s2)
                else Option.bind (serial_puts (cstr ''[VerveOS] sched: deferred ring drained='') s2) (\<lambda>s3.
                     Option.bind (serial_put_u64_hex (ucast drained) s3) (\<lambda>s4.
                     Option.bind (if drained \<noteq> 0
                        then Option.bind (serial_puts (cstr '' last_tick='') s4) (serial_put_u64_hex (ucast last_tick))
                        else Some s4) (\<lambda>s5.
                     Option.bind (if ovf \<noteq> 0
                        then Option.bind (serial_puts (cstr '' dropped='') s5) (serial_put_u64_hex (ucast ovf))
                        else Some s5) (\<lambda>s6.
                     map_option (\<lambda>s7. (drained, s7))
                       (serial_puts (cstr '' (cpu_switch stays out of IRQ)'' @ crlf) s6))))))"

definition sched_tick_count64 :: "'a sch64_scheme \<Rightarrow> u64" where
  "sched_tick_count64 s = g_tick64 s (sched_cpu_ix64 s)"

definition sched_need_resched64 :: "'a sch64_scheme \<Rightarrow> u32" where
  "sched_need_resched64 s = g_need_resched64 s (sched_cpu_ix64 s)"

definition sched_clear_resched64 :: "'a sch64_scheme \<Rightarrow> 'a sch64_scheme" where
  "sched_clear_resched64 s = s\<lparr>g_need_resched64 := (g_need_resched64 s)(sched_cpu_ix64 s := 0)\<rparr>"

definition sched_preempt_disable64 :: "'a sch64_scheme \<Rightarrow> 'a sch64_scheme" where
  "sched_preempt_disable64 s = s\<lparr>g_preempt_disable_depth64 := g_preempt_disable_depth64 s + 1\<rparr>"

definition sched_preempt_enable64 :: "'a sch64_scheme \<Rightarrow> 'a sch64_scheme" where
  "sched_preempt_enable64 s =
     (if sint (g_preempt_disable_depth64 s) > 0
      then s\<lparr>g_preempt_disable_depth64 := g_preempt_disable_depth64 s - 1\<rparr> else s)"

definition sched_preempt_disabled64 :: "'a sch64_scheme \<Rightarrow> bool" where
  "sched_preempt_disabled64 s \<longleftrightarrow> g_preempt_disable_depth64 s \<noteq> 0"

section \<open>The i386 scheduler as the specification\<close>

text \<open>
  A view of the x86-64 state as an i386 state whose table of APIC ids names one CPU: it reads
  and writes the same scheduler variables and the same console.
\<close>

locale sched_view = con_view v for v :: "'a sch64_scheme \<Rightarrow> 'b sch_scheme" +
  assumes one_cpu: "smp_cpu_index (v s) = 0"
    and reads: "g_tick (v s) = g_tick64 s" "g_need_resched (v s) = g_need_resched64 s" "g_defer_ring (v s) = g_defer_ring64 s"
      "g_defer_w (v s) = g_defer_w64 s" "g_defer_r (v s) = g_defer_r64 s" "g_defer_overflow (v s) = g_defer_overflow64 s"
      "g_preempt_disable_depth (v s) = g_preempt_disable_depth64 s" "if_flag (v s) = if_flag64 s"
    and writes: "v (s\<lparr>g_tick64 := x1\<rparr>) = (v s)\<lparr>g_tick := x1\<rparr>" "v (s\<lparr>g_need_resched64 := x2\<rparr>) = (v s)\<lparr>g_need_resched := x2\<rparr>"
      "v (s\<lparr>g_defer_ring64 := x3\<rparr>) = (v s)\<lparr>g_defer_ring := x3\<rparr>" "v (s\<lparr>g_defer_w64 := x4\<rparr>) = (v s)\<lparr>g_defer_w := x4\<rparr>"
      "v (s\<lparr>g_defer_r64 := x4\<rparr>) = (v s)\<lparr>g_defer_r := x4\<rparr>" "v (s\<lparr>g_defer_overflow64 := x4\<rparr>) = (v s)\<lparr>g_defer_overflow := x4\<rparr>"
      "v (s\<lparr>g_preempt_disable_depth64 := x5\<rparr>) = (v s)\<lparr>g_preempt_disable_depth := x5\<rparr>" "v (s\<lparr>if_flag64 := x6\<rparr>) = (v s)\<lparr>if_flag := x6\<rparr>"
begin

lemma cpu_ix_view: "sched_cpu_ix (v s) = sched_cpu_ix64 s" "sched_cpu_ix64 s = 0"
  by (simp_all add: sched_cpu_ix_def sched_cpu_ix64_def one_cpu smp_cpu_index64_def)

lemma push_view: "defer_push_tick c t (v s) = v (defer_push_tick64 c t s)"
  by (simp add: defer_push_tick_def defer_push_tick64_def Let_def reads writes)

lemma init_view: "sched_init (v s) = v (sched_init64 s)"
  by (simp add: sched_init_def sched_init64_def reads writes cong: if_cong)

lemma clear_view: "sched_clear_resched (v s) = v (sched_clear_resched64 s)"
  by (simp add: sched_clear_resched_def sched_clear_resched64_def reads writes cpu_ix_view)

lemma preempt_view:
  "sched_preempt_disable (v s) = v (sched_preempt_disable64 s)" "sched_preempt_enable (v s) = v (sched_preempt_enable64 s)"
  "sched_preempt_disabled (v s) = sched_preempt_disabled64 s"
  by (simp_all add: sched_preempt_disable_def sched_preempt_disable64_def sched_preempt_enable_def sched_preempt_enable64_def
      sched_preempt_disabled_def sched_preempt_disabled64_def reads writes)

lemma query_view: "sched_tick_count (v s) = sched_tick_count64 s" "sched_need_resched (v s) = sched_need_resched64 s"
  by (simp_all add: sched_tick_count_def sched_tick_count64_def sched_need_resched_def sched_need_resched64_def reads cpu_ix_view)

lemma tick_view: "sched_timer_tick (v s) = map_option v (sched_timer_tick64 s)"
proof -
  define c where "c = sched_cpu_ix64 s"
  define t where "t = g_tick64 s c + 1"
  define s1 where "s1 = s\<lparr>g_tick64 := (g_tick64 s)(c := t)\<rparr>"
  define out where "out = (if t \<le> 5 \<and> c = 0
      then Option.bind (serial_puts (cstr ''[VerveOS] sched: timer tick '') s1) (\<lambda>s2. Option.bind (serial_put_u64_hex t s2) (serial_puts crlf))
      else Some s1)"
  have "(v s)\<lparr>g_tick := (g_tick64 s)(c := t)\<rparr> = v s1" by (simp add: s1_def writes)
  moreover have "(if t \<le> 5 \<and> c = 0
      then Option.bind (serial_puts (cstr ''[VerveOS] sched: timer tick '') (v s1)) (\<lambda>s2. Option.bind (serial_put_u64_hex t s2) (serial_puts crlf))
      else Some (v s1)) = map_option v out"
    unfolding out_def by (simp add: puts_view hex_view bind_map_view)
  ultimately have "sched_timer_tick (v s) = map_option (\<lambda>s2. if t mod 5 = 0
      then defer_push_tick c t (s2\<lparr>g_need_resched := (g_need_resched s2)(c := 1)\<rparr>) else s2) (map_option v out)"
    by (simp only: sched_timer_tick_def Let_def cpu_ix_view(1) reads flip: c_def t_def)
  moreover have "sched_timer_tick64 s = map_option (\<lambda>s2. if t mod 5 = 0
      then defer_push_tick64 c t (s2\<lparr>g_need_resched64 := (g_need_resched64 s2)(c := 1)\<rparr>) else s2) out"
    by (simp only: sched_timer_tick64_def Let_def out_def s1_def flip: c_def t_def)
  ultimately show ?thesis by (cases out) (simp_all add: reads push_view flip: writes)
qed

lemma drain_step:
  "drain_loop64 c d l s = (if g_defer_r64 s c \<noteq> g_defer_w64 s c
     then drain_loop64 c (d + 1) (g_defer_ring64 s c (g_defer_r64 s c)) (s\<lparr>g_defer_r64 := (g_defer_r64 s)(c := (g_defer_r64 s c + 1) mod 16)\<rparr>)
     else Some (d, l, s))"
  "drain_loop c d l (v s) = (if g_defer_r64 s c \<noteq> g_defer_w64 s c
     then drain_loop c (d + 1) (g_defer_ring64 s c (g_defer_r64 s c)) (v (s\<lparr>g_defer_r64 := (g_defer_r64 s)(c := (g_defer_r64 s c + 1) mod 16)\<rparr>))
     else Some (d, l, v s))"
  by (subst drain_loop64.simps drain_loop.simps, simp only: Let_def reads writes)+

abbreviation (input) lift3 :: "(u32 \<times> u32 \<times> 'a sch64_scheme) \<Rightarrow> u32 \<times> u32 \<times> 'b sch_scheme" where
  "lift3 \<equiv> map_prod id (map_prod id v)"

lemma drain_fwd:
  assumes "drain_loop64 c d l s = Some r"
  shows "drain_loop c d l (v s) = Some (lift3 r)"
proof (rule drain_loop64.raw_induct [where P = "\<lambda>c d l s r. drain_loop c d l (v s) = Some (lift3 r)", OF _ assms])
  fix f :: "u32 \<Rightarrow> u32 \<Rightarrow> u32 \<Rightarrow> 'a sch64_scheme \<Rightarrow> (u32 \<times> u32 \<times> 'a sch64_scheme) option" and c d l s r
  assume IH: "\<And>c d l s r. f c d l s = Some r \<Longrightarrow> drain_loop c d l (v s) = Some (lift3 r)"
    and run: "(if g_defer_r64 s c \<noteq> g_defer_w64 s c then
        let r = g_defer_r64 s c; w = g_defer_ring64 s c r
        in f c (d + 1) w (s\<lparr>g_defer_r64 := (g_defer_r64 s)(c := (r + 1) mod SCHED_DEFER_CAP)\<rparr>)
      else Some (d, l, s)) = Some r"
  show "drain_loop c d l (v s) = Some (lift3 r)"
    using run IH by (subst drain_step(2)) (auto simp: Let_def split: if_splits)
qed

lemma drain_bwd:
  assumes "drain_loop c d l (v s) = Some r"
  shows "\<exists>r'. drain_loop64 c d l s = Some r'"
proof -
  have "\<forall>s'. v s = v s' \<longrightarrow> (\<exists>r'. drain_loop64 c d l s' = Some r')"
  proof (rule drain_loop.raw_induct [where P = "\<lambda>c d l u r. \<forall>s'. u = v s' \<longrightarrow> (\<exists>r'. drain_loop64 c d l s' = Some r')", OF _ assms])
    fix f :: "u32 \<Rightarrow> u32 \<Rightarrow> u32 \<Rightarrow> 'b sch_scheme \<Rightarrow> (u32 \<times> u32 \<times> 'b sch_scheme) option" and c d l u r
    assume IH: "\<And>c d l u r. f c d l u = Some r \<Longrightarrow> \<forall>s'. u = v s' \<longrightarrow> (\<exists>r'. drain_loop64 c d l s' = Some r')"
      and run: "(if g_defer_r u c \<noteq> g_defer_w u c then
          let r = g_defer_r u c; w = g_defer_ring u c r
          in f c (d + 1) w (u\<lparr>g_defer_r := (g_defer_r u)(c := (r + 1) mod SCHED_DEFER_CAP)\<rparr>)
        else Some (d, l, u)) = Some r"
    show "\<forall>s'. u = v s' \<longrightarrow> (\<exists>r'. drain_loop64 c d l s' = Some r')"
    proof (intro allI impI)
      fix s' assume u: "u = v s'"
      show "\<exists>r'. drain_loop64 c d l s' = Some r'"
        using run IH unfolding u Let_def reads writes [symmetric] by (subst drain_step(1)) (auto split: if_splits)
    qed
  qed
  then show ?thesis by blast
qed

lemma drain_view: "drain_loop c d l (v s) = map_option lift3 (drain_loop64 c d l s)"
proof (cases "drain_loop64 c d l s")
  case None
  then show ?thesis using drain_bwd [of c d l s] by (cases "drain_loop c d l (v s)") auto
next
  case (Some r)
  then show ?thesis using drain_fwd by simp
qed

lemma report_view:
  "(if b then Option.bind (serial_puts m (v s)) (serial_put_u64_hex x) else Some (v s))
    = map_option v (if b then Option.bind (serial_puts m s) (serial_put_u64_hex x) else Some s)"
  by (simp add: puts_view hex_view bind_map_view)

lemma deferred_view: "sched_process_deferred (v s) = map_option (map_prod id v) (sched_process_deferred64 s)"
proof -
  define c where "c = sched_cpu_ix64 s"
  have off: "(v s)\<lparr>if_flag := False\<rparr> = v (s\<lparr>if_flag64 := False\<rparr>)" by (simp only: writes)
  show ?thesis
  proof (cases "drain_loop64 c 0 0 (s\<lparr>if_flag64 := False\<rparr>)")
    case None
    then show ?thesis by (simp add: sched_process_deferred_def sched_process_deferred64_def Let_def cpu_ix_view(1) off drain_view flip: c_def)
  next
    case (Some r)
    obtain d l s1 where r: "r = (d, l, s1)" by (cases r)
    define s2 where "s2 = s1\<lparr>g_defer_overflow64 := (g_defer_overflow64 s1)(c := 0), if_flag64 := if_flag64 s\<rparr>"
    have s2: "(v s1)\<lparr>g_defer_overflow := (g_defer_overflow64 s1)(c := 0), if_flag := if_flag64 s\<rparr> = v s2" by (simp only: s2_def writes)
    have loop: "drain_loop c 0 0 (v (s\<lparr>if_flag64 := False\<rparr>)) = Some (d, l, v s1)" using Some r by (simp add: drain_view)
    have rest: "Option.bind (serial_puts (cstr ''[VerveOS] sched: deferred ring drained='') (v s2)) (\<lambda>s3.
          Option.bind (serial_put_u64_hex (ucast d) s3) (\<lambda>s4.
          Option.bind (if d \<noteq> 0 then Option.bind (serial_puts (cstr '' last_tick='') s4) (serial_put_u64_hex (ucast l)) else Some s4) (\<lambda>s5.
          Option.bind (if ovf \<noteq> 0 then Option.bind (serial_puts (cstr '' dropped='') s5) (serial_put_u64_hex (ucast ovf)) else Some s5) (\<lambda>s6.
          map_option (\<lambda>s7. (d, s7)) (serial_puts (cstr '' (cpu_switch stays out of IRQ)'' @ crlf) s6)))))
      = map_option (map_prod id v) (Option.bind (serial_puts (cstr ''[VerveOS] sched: deferred ring drained='') s2) (\<lambda>s3.
          Option.bind (serial_put_u64_hex (ucast d) s3) (\<lambda>s4.
          Option.bind (if d \<noteq> 0 then Option.bind (serial_puts (cstr '' last_tick='') s4) (serial_put_u64_hex (ucast l)) else Some s4) (\<lambda>s5.
          Option.bind (if ovf \<noteq> 0 then Option.bind (serial_puts (cstr '' dropped='') s5) (serial_put_u64_hex (ucast ovf)) else Some s5) (\<lambda>s6.
          map_option (\<lambda>s7. (d, s7)) (serial_puts (cstr '' (cpu_switch stays out of IRQ)'' @ crlf) s6))))))" for ovf :: u32
      by (simp only: puts_view, rule bind_map_view, simp only: hex_view, rule bind_map_view, simp only: report_view,
          rule bind_map_view, simp only: report_view, rule bind_map_view) (simp add: puts_view option.map_comp comp_def)
    show ?thesis
      unfolding sched_process_deferred_def sched_process_deferred64_def Let_def cpu_ix_view(1) c_def [symmetric] off loop Some r
        option.case prod.case reads s2 s2_def [symmetric] rest
      by (cases "d = 0 \<and> g_defer_overflow64 s1 c = 0")
        (simp_all only: if_P if_not_P not_False_eq_True if_False if_True option.map map_prod_simp id_apply)
  qed
qed

end

text \<open>
  The view that forgets the rest of the machine: an i386 state whose APIC id table is empty, so
  that every CPU is CPU 0, with the scheduler's variables and the console of \<open>s\<close>.
\<close>

definition as_bsp :: "'b sch_scheme \<Rightarrow> 'a sch64_scheme \<Rightarrow> 'b sch_scheme" where
  "as_bsp b s = b\<lparr>io_in := io_in s, io_reads := io_reads s, io_outs := io_outs s, g_serial_lock := g_serial_lock s,
     lapic_id_reg := 0, g_apic_to_logical := replicate 256 0xFF,
     g_tick := g_tick64 s, g_need_resched := g_need_resched64 s, g_defer_ring := g_defer_ring64 s,
     g_defer_w := g_defer_w64 s, g_defer_r := g_defer_r64 s, g_defer_overflow := g_defer_overflow64 s,
     g_preempt_disable_depth := g_preempt_disable_depth64 s, if_flag := if_flag64 s\<rparr>"

lemma as_bsp_one_cpu: "smp_cpu_index (as_bsp b s) = 0"
  by (simp add: smp_cpu_index_def lapic_id_def mmio_r32_def as_bsp_def)

interpretation bsp: sched_view "as_bsp b" for b
  by unfold_locales (rule as_bsp_one_cpu | simp add: as_bsp_def)+

section \<open>Properties\<close>

text \<open>The operations of the scheduler, as the interrupt handler and the threads call them.\<close>

datatype sched_op = Op_init | Op_tick | Op_drain | Op_clear | Op_disable | Op_enable

fun sched_do :: "sched_op \<Rightarrow> 'a sch_scheme \<Rightarrow> 'a sch_scheme option" where
  "sched_do Op_init s = Some (sched_init s)"
| "sched_do Op_tick s = sched_timer_tick s"
| "sched_do Op_drain s = map_option snd (sched_process_deferred s)"
| "sched_do Op_clear s = Some (sched_clear_resched s)"
| "sched_do Op_disable s = Some (sched_preempt_disable s)"
| "sched_do Op_enable s = Some (sched_preempt_enable s)"

fun sched_do64 :: "sched_op \<Rightarrow> 'a sch64_scheme \<Rightarrow> 'a sch64_scheme option" where
  "sched_do64 Op_init s = Some (sched_init64 s)"
| "sched_do64 Op_tick s = sched_timer_tick64 s"
| "sched_do64 Op_drain s = map_option snd (sched_process_deferred64 s)"
| "sched_do64 Op_clear s = Some (sched_clear_resched64 s)"
| "sched_do64 Op_disable s = Some (sched_preempt_disable64 s)"
| "sched_do64 Op_enable s = Some (sched_preempt_enable64 s)"

primrec sched_all :: "sched_op list \<Rightarrow> 'a sch_scheme \<Rightarrow> 'a sch_scheme option" where
  "sched_all [] s = Some s"
| "sched_all (p # ps) s = Option.bind (sched_do p s) (sched_all ps)"

primrec sched_all64 :: "sched_op list \<Rightarrow> 'a sch64_scheme \<Rightarrow> 'a sch64_scheme option" where
  "sched_all64 [] s = Some s"
| "sched_all64 (p # ps) s = Option.bind (sched_do64 p s) (sched_all64 ps)"

lemma sched_do_view: "sched_do p (as_bsp b s) = map_option (as_bsp b) (sched_do64 p s)"
proof (cases p)
  case Op_drain
  then show ?thesis by (cases "sched_process_deferred64 s") (auto simp: bsp.deferred_view)
qed (simp_all add: bsp.init_view bsp.tick_view bsp.clear_view bsp.preempt_view)


end
