(* ===== verification/Kheap64.thy ===== *)
theory Kheap64
  imports Machine64
begin

text \<open>
  \<open>kernel/heap.c\<close> compiled for x86-64: \<open>size_t\<close> and pointers are eight bytes wide, so the header
  and the link of a free block are, too.  \<open>H\<close> is the address of the arena \<open>g_heap\<close>.
\<close>

record kheap64 =
  g_freelist64 :: u64
  g_heap_off64 :: u64

section \<open>The code\<close>

abbreviation (input) VERVE_HEAP_SIZE64 :: u64 where "VERVE_HEAP_SIZE64 \<equiv> 262144"
abbreviation (input) HEAP_HDR_ALIGN64 :: u64 where "HEAP_HDR_ALIGN64 \<equiv> 16"

definition HEAP_HDR_USER_OFFSET64 :: u64 where
  "HEAP_HDR_USER_OFFSET64 = (8 + (HEAP_HDR_ALIGN64 - 1)) AND NOT (HEAP_HDR_ALIGN64 - 1)"

definition heap_align_up64 :: "u64 \<Rightarrow> u64 \<Rightarrow> u64" where
  "heap_align_up64 x align = (x + align - 1) AND NOT (align - 1)"

definition heap_init64 :: "kheap64 \<Rightarrow> kheap64" where
  "heap_init64 h = h\<lparr>g_freelist64 := 0, g_heap_off64 := 0\<rparr>"

partial_function (option) heap_search64 ::
    "memory64 \<Rightarrow> u64 \<Rightarrow> u64 option \<Rightarrow> u64 \<Rightarrow> (u64 option \<times> u64 \<times> u64) option option" where
  "heap_search64 m need plink b =
     (if b = 0 then Some None
      else let nb = ld64w m (b + HEAP_HDR_USER_OFFSET64)
        in if ld64w m b \<ge> need then Some (Some (plink, b, nb))
           else heap_search64 m need (Some (b + HEAP_HDR_USER_OFFSET64)) nb)"

definition store_link64 :: "u64 option \<Rightarrow> u64 \<Rightarrow> memory64 \<times> kheap64 \<Rightarrow> memory64 \<times> kheap64" where
  "store_link64 plink v mh =
     (case plink of None \<Rightarrow> (fst mh, (snd mh)\<lparr>g_freelist64 := v\<rparr>) | Some a \<Rightarrow> (st64w (fst mh) a v, snd mh))"

definition kmalloc64 :: "u64 \<Rightarrow> u64 \<Rightarrow> memory64 \<times> kheap64 \<Rightarrow> (u64 \<times> memory64 \<times> kheap64) option" where
  "kmalloc64 H sz mh =
     (if sz = 0 \<or> sz > VERVE_HEAP_SIZE64 then Some (0, mh)
      else let need = heap_align_up64 (HEAP_HDR_USER_OFFSET64 + sz) HEAP_HDR_ALIGN64
        in if need > VERVE_HEAP_SIZE64 then Some (0, mh)
        else case heap_search64 (fst mh) need None (g_freelist64 (snd mh)) of
          None \<Rightarrow> None
        | Some (Some (plink, b, nb)) \<Rightarrow> Some (b + HEAP_HDR_USER_OFFSET64, store_link64 plink nb mh)
        | Some None \<Rightarrow>
            if VERVE_HEAP_SIZE64 - g_heap_off64 (snd mh) < need then Some (0, mh)
            else let h = H + g_heap_off64 (snd mh)
              in Some (h + HEAP_HDR_USER_OFFSET64, st64w (fst mh) h need,
                   (snd mh)\<lparr>g_heap_off64 := g_heap_off64 (snd mh) + need\<rparr>))"

definition kfree64 :: "u64 \<Rightarrow> u64 \<Rightarrow> memory64 \<times> kheap64 \<Rightarrow> memory64 \<times> kheap64" where
  "kfree64 H ptr mh =
     (if ptr = 0 then mh
      else let arena_lo = H + HEAP_HDR_USER_OFFSET64; arena_hi = H + VERVE_HEAP_SIZE64
        in if ptr < arena_lo \<or> ptr \<ge> arena_hi then mh
        else let h = ptr - HEAP_HDR_USER_OFFSET64
          in (st64w (fst mh) (h + HEAP_HDR_USER_OFFSET64) (g_freelist64 (snd mh)), (snd mh)\<lparr>g_freelist64 := h\<rparr>))"

section \<open>What the threads rely on\<close>

lemma heap_consts64 [simp]: "HEAP_HDR_USER_OFFSET64 = 16"
  by (simp add: HEAP_HDR_USER_OFFSET64_def)

text \<open>An empty free list: the block comes from behind the last one.\<close>

lemma kmalloc64_bump:
  assumes "g_freelist64 h = 0" and "sz \<noteq> 0" and "sz \<le> 262144"
    and "heap_align_up64 (16 + sz) 16 \<le> 262144 - g_heap_off64 h" and "heap_align_up64 (16 + sz) 16 \<le> 262144"
  shows "kmalloc64 H sz (m, h) = Some (H + g_heap_off64 h + 16, st64w m (H + g_heap_off64 h) (heap_align_up64 (16 + sz) 16),
    h\<lparr>g_heap_off64 := g_heap_off64 h + heap_align_up64 (16 + sz) 16\<rparr>)"
proof -
  have "heap_search64 m n pl 0 = Some None" for n pl by (subst heap_search64.simps) simp
  then show ?thesis using assms(1,2) leD [OF assms(3)] leD [OF assms(4)] leD [OF assms(5)]
    by (simp add: kmalloc64_def Let_def)
qed

text \<open>
  A block that is freed is the first one the next search looks at: a request of the same size
  gets it back, and the heap is as it was before the pair of calls.
\<close>

lemma kfree64_kmalloc64:
  assumes "p = H + of_nat k + 16" and "unat H + 262144 < 18446744073709551616" and "H \<noteq> 0" and "k + 16 < 262144"
    and "sz \<noteq> 0" and "sz \<le> 262144" and "heap_align_up64 (16 + sz) 16 \<le> 262144"
    and "heap_align_up64 (16 + sz) 16 \<le> ld64w m (p - 16)"
  shows "kmalloc64 H sz (kfree64 H p (m, h)) = Some (p, st64w m p (g_freelist64 h), h)"
proof -
  have u: "unat (H + of_nat j) = unat H + j" if "j \<le> 262144" for j using that assms(2) by (intro unat_plus64) linarith
  have p: "p = H + of_nat (k + 16)" using assms(1) by simp
  have up: "unat p = unat H + (k + 16)" unfolding p using assms(4) by (intro u) simp
  have pos: "0 < unat H" using assms(3) by (simp add: unat_gt_0)
  have lo: "unat (H + 16) = unat H + 16" "unat (H + 262144) = unat H + 262144" using u [of 16] u [of 262144] by simp_all
  have in_arena: "\<not> (p = 0)" "\<not> (p < H + 16 \<or> p \<ge> H + 262144)"
    using up pos assms(4) lo by (auto simp: word_less_nat_alt word_le_nat_alt simp flip: unat_eq_0)
  have free: "kfree64 H p (m, h) = (st64w m p (g_freelist64 h), h\<lparr>g_freelist64 := p - 16\<rparr>)"
    using in_arena by (simp add: kfree64_def Let_def)
  have "p - 16 = H + of_nat k" using assms(1) by simp
  then have "unat (p - 16) \<noteq> 0" using u [of k] pos assms(4) by simp
  then have b: "p - 16 \<noteq> 0" by (metis unat_0)
  have "ld64w (st64w m p v) (p - 16) = ld64w m (p - 16)" for v
    by (rule ld64w_st64w_diff(2) [of p "p - 16" 16]) simp_all
  then have "heap_search64 (st64w m p (g_freelist64 h)) (heap_align_up64 (16 + sz) 16) None (p - 16)
      = Some (Some (None, p - 16, g_freelist64 h))"
    using b assms(8) by (subst heap_search64.simps) (simp add: Let_def ld64w_st64w_same)
  then show ?thesis using assms(5) leD [OF assms(6)] leD [OF assms(7)] unfolding free
    by (simp add: kmalloc64_def Let_def store_link64_def)
qed

end
