(* ===== verification/Threads64.thy ===== *)
theory Threads64
  imports Sched64 Kheap64 Turns
begin

text \<open>
  \<open>kernel/thread_amd64.c\<close> and \<open>arch/x86_64/context_amd64.S\<close>: the threads of the x86-64 build, a
  second copy of \<open>kernel/thread.c\<close> with 64-bit stack pointers.  The model has the same shape as
  \<open>Threads\<close>; \<open>H\<close> is the address of the heap arena.
\<close>

record thread64 =
  rsp :: u64
  nxt64 :: "tref option"
  fn_ptr64 :: u64
  tstate64 :: thread_state
  kstack64 :: u64
  affinity_cpu64 :: u32
  sched_token64 :: u32

record thr64 = sch64 +
  g_kheap64 :: kheap64
  threads64 :: "tref \<Rightarrow> thread64"
  g_current64 :: "u32 \<Rightarrow> tref option"
  g_idle_for_cpu64 :: "u32 \<Rightarrow> tref option"
  g_thread_rq_lock64 :: u32
  g_yield_from64 :: "tref option"

record text_syms64 =
  at_ap_idle_fn64 :: u64
  at_thread_trampoline64 :: u64
  at_worker_a64 :: u64
  at_worker_b64 :: u64

section \<open>The code\<close>

abbreviation (input) STACK_SIZE64 :: u64 where "STACK_SIZE64 \<equiv> 4096"

definition set_thread64 :: "tref \<Rightarrow> (thread64 \<Rightarrow> thread64) \<Rightarrow> 'a thr64_scheme \<Rightarrow> 'a thr64_scheme" where
  "set_thread64 t f s = s\<lparr>threads64 := (threads64 s)(t := f (threads64 s t))\<rparr>"

text \<open>\<open>kmalloc\<close> and \<open>kfree\<close> on the kernel's memory.\<close>

definition kmalloc_s64 :: "u64 \<Rightarrow> u64 \<Rightarrow> 'a thr64_scheme \<Rightarrow> (u64 \<times> 'a thr64_scheme) option" where
  "kmalloc_s64 H n s = map_option (\<lambda>(p, m, h). (p, s\<lparr>mem64 := m, g_kheap64 := h\<rparr>)) (kmalloc64 H n (mem64 s, g_kheap64 s))"

definition kfree_s64 :: "u64 \<Rightarrow> u64 \<Rightarrow> 'a thr64_scheme \<Rightarrow> 'a thr64_scheme" where
  "kfree_s64 H p s = (case kfree64 H p (mem64 s, g_kheap64 s) of (m, h) \<Rightarrow> s\<lparr>mem64 := m, g_kheap64 := h\<rparr>)"

definition rq_lock64 :: "'a thr64_scheme \<Rightarrow> 'a thr64_scheme option" where
  "rq_lock64 s = map_option (\<lambda>l. s\<lparr>g_thread_rq_lock64 := l\<rparr>) (verve_spin_lock (g_thread_rq_lock64 s))"

definition rq_unlock64 :: "'a thr64_scheme \<Rightarrow> 'a thr64_scheme" where
  "rq_unlock64 s = s\<lparr>g_thread_rq_lock64 := verve_spin_unlock (g_thread_rq_lock64 s)\<rparr>"

definition thread_current_slot64 :: "'a thr64_scheme \<Rightarrow> tref option" where
  "thread_current_slot64 s = (let ix = smp_cpu_index64 s in g_current64 s (if ix \<ge> MAX_SMP_CPU then 0 else ix))"

definition thread_set_current_slot64 :: "u32 \<Rightarrow> tref option \<Rightarrow> 'a thr64_scheme \<Rightarrow> 'a thr64_scheme" where
  "thread_set_current_slot64 ix t s = (if ix < MAX_SMP_CPU then s\<lparr>g_current64 := (g_current64 s)(ix := t)\<rparr> else s)"

text \<open>The walk of \<open>unlink_thread\<close>; \<open>p\<close> is the thread whose successor is looked at.\<close>

partial_function (option) unlink_loop64 :: "tref \<Rightarrow> tref \<Rightarrow> (tref \<Rightarrow> thread64) \<Rightarrow> (tref \<Rightarrow> thread64) option" where
  "unlink_loop64 t p ts =
     (if nxt64 (ts p) = Some t then
        let ts1 = ts(p := (ts p)\<lparr>nxt64 := nxt64 (ts t)\<rparr>) in Some (ts1(t := (ts1 t)\<lparr>nxt64 := None\<rparr>))
      else case nxt64 (ts p) of None \<Rightarrow> None
         | Some q \<Rightarrow> if q \<noteq> Main_thread then unlink_loop64 t q ts else Some ts)"

definition unlink_thread64 :: "tref \<Rightarrow> 'a thr64_scheme \<Rightarrow> 'a thr64_scheme option" where
  "unlink_thread64 t s = map_option (\<lambda>ts. s\<lparr>threads64 := ts\<rparr>) (unlink_loop64 t Main_thread (threads64 s))"

definition thread_reap_yield_from64 :: "u64 \<Rightarrow> 'a thr64_scheme \<Rightarrow> 'a thr64_scheme option" where
  "thread_reap_yield_from64 H s =
     (let s1 = s\<lparr>g_yield_from64 := None\<rparr>
      in case g_yield_from64 s of None \<Rightarrow> Some s1
         | Some z \<Rightarrow>
             if z = Main_thread then Some s1
             else if tstate64 (threads64 s z) \<noteq> THREAD_ZOMBIE \<or> kstack64 (threads64 s z) = 0 then Some s1
             else let stk = kstack64 (threads64 s z)
               in Option.bind (rq_lock64 s1) (\<lambda>s2.
                  map_option (\<lambda>s3. kfree_s64 H stk (rq_unlock64 (set_thread64 z (\<lambda>t. t\<lparr>tstate64 := THREAD_UNUSED, kstack64 := 0\<rparr>) s3)))
                    (unlink_thread64 z s2)))"

definition enqueue_thread64 :: "tref \<Rightarrow> 'a thr64_scheme \<Rightarrow> 'a thr64_scheme option" where
  "enqueue_thread64 t s =
     map_option (\<lambda>s1. rq_unlock64 (set_thread64 Main_thread (\<lambda>h. h\<lparr>nxt64 := Some t\<rparr>)
         (set_thread64 t (\<lambda>x. x\<lparr>nxt64 := nxt64 (threads64 s1 Main_thread)\<rparr>) s1)))
       (rq_lock64 s)"

text \<open>
  The search of \<open>pick_next\<close>: \<open>t\<close> is the thread looked at.  The compare-and-swap succeeds exactly
  when the token is free, because the caller holds the lock that every claim is made under.
\<close>

partial_function (option) pick_loop64 ::
    "u32 \<Rightarrow> tref \<Rightarrow> tref option \<Rightarrow> (tref \<Rightarrow> thread64) \<Rightarrow> (tref \<times> (tref \<Rightarrow> thread64)) option" where
  "pick_loop64 me cur p ts =
     (case p of None \<Rightarrow> None
      | Some t \<Rightarrow>
          if t = cur then Some (cur, ts)
          else if tstate64 (ts t) = THREAD_RUNNABLE then
            (if affinity_cpu64 (ts t) \<noteq> AFF_ANY \<and> affinity_cpu64 (ts t) \<noteq> me then pick_loop64 me cur (nxt64 (ts t)) ts
             else if sched_token64 (ts t) = NO_TOKEN then Some (t, ts(t := (ts t)\<lparr>sched_token64 := me\<rparr>))
             else pick_loop64 me cur (nxt64 (ts t)) ts)
          else pick_loop64 me cur (nxt64 (ts t)) ts)"

definition pick_next64 :: "tref \<Rightarrow> 'a thr64_scheme \<Rightarrow> (tref \<times> 'a thr64_scheme) option" where
  "pick_next64 cur s =
     map_option (\<lambda>(t, ts). (t, s\<lparr>threads64 := ts\<rparr>)) (pick_loop64 (smp_cpu_index64 s) cur (nxt64 (threads64 s cur)) (threads64 s))"

definition thread_alloc_slot64 :: "'a thr64_scheme \<Rightarrow> tref option" where
  "thread_alloc_slot64 s = map_option Pool (first_index (\<lambda>i. tstate64 (threads64 s (Pool i)) = THREAD_UNUSED) 0 MAX_THREADS)"

text \<open>\<open>sp[i] = v\<close> for the seven words of the first frame.\<close>

definition setup_initial_stack64 :: "text_syms64 \<Rightarrow> tref \<Rightarrow> 'a thr64_scheme \<Rightarrow> 'a thr64_scheme" where
  "setup_initial_stack64 T t s =
     (let sp = kstack64 (threads64 s t) + STACK_SIZE64 - 56;
          m0 = st64w (mem64 s) sp 0;
          m1 = st64w m0 (sp + 8) 0;
          m2 = st64w m1 (sp + 16) 0;
          m3 = st64w m2 (sp + 24) 0;
          m4 = st64w m3 (sp + 32) 0;
          m5 = st64w m4 (sp + 40) 0;
          m6 = st64w m5 (sp + 48) (at_thread_trampoline64 T)
      in set_thread64 t (\<lambda>x. x\<lparr>rsp := sp\<rparr>) (s\<lparr>mem64 := m6\<rparr>))"

text \<open>The tables \<open>thread_subsystem_early_init\<close> starts from, then its loop over the idle threads.\<close>

definition blank_thread64 :: thread64 where
  "blank_thread64 = \<lparr>rsp = 0, nxt64 = None, fn_ptr64 = 0, tstate64 = THREAD_UNUSED, kstack64 = 0, affinity_cpu64 = AFF_ANY,
     sched_token64 = NO_TOKEN\<rparr>"

definition boot_thread64 :: thread64 where
  "boot_thread64 = \<lparr>rsp = 0, nxt64 = Some Main_thread, fn_ptr64 = 0, tstate64 = THREAD_RUNNABLE, kstack64 = 0, affinity_cpu64 = 0,
     sched_token64 = 0\<rparr>"

definition thread_tables64 :: "'a thr64_scheme \<Rightarrow> 'a thr64_scheme" where
  "thread_tables64 s = s\<lparr>
     threads64 := \<lambda>t. case t of Main_thread \<Rightarrow> boot_thread64 | Pool i \<Rightarrow> if i < MAX_THREADS then blank_thread64 else threads64 s (Pool i),
     g_current64 := \<lambda>k. if k = 0 then Some Main_thread else if k < MAX_SMP_CPU then None else g_current64 s k,
     g_idle_for_cpu64 := \<lambda>k. if k < MAX_SMP_CPU then None else g_idle_for_cpu64 s k\<rparr>"

fun idle_loop64 :: "u64 \<Rightarrow> text_syms64 \<Rightarrow> u32 list \<Rightarrow> 'a thr64_scheme \<Rightarrow> 'a thr64_scheme option" where
  "idle_loop64 H T [] s = Some s"
| "idle_loop64 H T (k # ks) s =
     (case thread_alloc_slot64 s of
        None \<Rightarrow> serial_puts (cstr ''[VerveOS] thread: idle pool full'' @ crlf) s
      | Some t \<Rightarrow> Option.bind (kmalloc_s64 H STACK_SIZE64 s) (\<lambda>(p, s1).
          let s2 = set_thread64 t (\<lambda>x. x\<lparr>kstack64 := p\<rparr>) s1
          in if p = 0 then
               map_option (set_thread64 t (\<lambda>x. x\<lparr>tstate64 := THREAD_UNUSED\<rparr>))
                 (serial_puts (cstr ''[VerveOS] thread: kmalloc idle stack failed'' @ crlf) s2)
             else
               let s3 = setup_initial_stack64 T t (set_thread64 t (\<lambda>x. x\<lparr>fn_ptr64 := at_ap_idle_fn64 T,
                     tstate64 := THREAD_RUNNABLE, affinity_cpu64 := k, sched_token64 := NO_TOKEN\<rparr>) s2)
               in Option.bind (enqueue_thread64 t (s3\<lparr>g_idle_for_cpu64 := (g_idle_for_cpu64 s3)(k := Some t)\<rparr>))
                    (idle_loop64 H T ks)))"

definition thread_subsystem_early_init64 :: "u64 \<Rightarrow> text_syms64 \<Rightarrow> u32 \<Rightarrow> 'a thr64_scheme \<Rightarrow> 'a thr64_scheme option" where
  "thread_subsystem_early_init64 H T logical_cpus s =
     (let lim = (if logical_cpus = 0 then 1 else logical_cpus);
          lim = (if lim > MAX_SMP_CPU then MAX_SMP_CPU else lim)
      in Option.bind (idle_loop64 H T (map of_nat [1..<unat lim]) (thread_tables64 s)) (\<lambda>s1.
         Option.bind (serial_puts (cstr ''[VerveOS] thread: subsystem early init logical_cpus='') s1) (\<lambda>s2.
         Option.bind (serial_put_u64_hex (ucast lim) s2) (serial_puts crlf))))"

definition thread_system_init64 :: "u64 \<Rightarrow> text_syms64 \<Rightarrow> 'a thr64_scheme \<Rightarrow> 'a thr64_scheme option" where
  "thread_system_init64 H T s = thread_subsystem_early_init64 H T 1 s"

definition thread_spawn64 :: "u64 \<Rightarrow> text_syms64 \<Rightarrow> u64 \<Rightarrow> 'a thr64_scheme \<Rightarrow> 'a thr64_scheme option" where
  "thread_spawn64 H T f s =
     (case thread_alloc_slot64 s of
        None \<Rightarrow> serial_puts (cstr ''[VerveOS] thread_spawn: failed (null or pool full)'' @ crlf) s
      | Some t \<Rightarrow>
          if f = 0 then serial_puts (cstr ''[VerveOS] thread_spawn: failed (null or pool full)'' @ crlf) s
          else Option.bind (kmalloc_s64 H STACK_SIZE64 s) (\<lambda>(p, s1).
            let s2 = set_thread64 t (\<lambda>x. x\<lparr>kstack64 := p\<rparr>) s1
            in if p = 0 then serial_puts (cstr ''[VerveOS] thread_spawn: kmalloc(kernel stack) failed'' @ crlf) s2
               else enqueue_thread64 t (setup_initial_stack64 T t (set_thread64 t (\<lambda>x. x\<lparr>fn_ptr64 := f,
                     tstate64 := THREAD_RUNNABLE, affinity_cpu64 := AFF_ANY, sched_token64 := NO_TOKEN\<rparr>) s2))))"

section \<open>The context switch\<close>

text \<open>
  \<open>cpu_switch\<close> on the registers it touches: on entry \<open>x_rsp\<close> points to the return address; the
  result is the stack pointer stored for the old thread, the registers after \<open>ret\<close>, the memory.
\<close>

record cpu_regs64 =
  x_rsp :: u64
  x_rbp :: u64
  x_rbx :: u64
  x_r12 :: u64
  x_r13 :: u64
  x_r14 :: u64
  x_r15 :: u64
  x_rip :: u64

definition cpu_switch64 :: "u64 \<Rightarrow> cpu_regs64 \<Rightarrow> memory64 \<Rightarrow> u64 \<times> cpu_regs64 \<times> memory64" where
  "cpu_switch64 new_sp r m =
     (let m1 = st64w m (x_rsp r - 8) (x_rbp r);
          m2 = st64w m1 (x_rsp r - 16) (x_rbx r);
          m3 = st64w m2 (x_rsp r - 24) (x_r12 r);
          m4 = st64w m3 (x_rsp r - 32) (x_r13 r);
          m5 = st64w m4 (x_rsp r - 40) (x_r14 r);
          m6 = st64w m5 (x_rsp r - 48) (x_r15 r)
      in (x_rsp r - 48,
          \<lparr>x_rsp = new_sp + 56, x_rbp = ld64w m6 (new_sp + 40), x_rbx = ld64w m6 (new_sp + 32), x_r12 = ld64w m6 (new_sp + 24),
           x_r13 = ld64w m6 (new_sp + 16), x_r14 = ld64w m6 (new_sp + 8), x_r15 = ld64w m6 new_sp,
           x_rip = ld64w m6 (new_sp + 48)\<rparr>, m6))"

section \<open>Yielding\<close>

text \<open>
  \<open>sched_yield\<close> up to \<open>cpu_switch\<close>: \<open>None\<close> in the result when the thread keeps the CPU, otherwise
  the old and the next thread.
\<close>

definition sched_yield_enter64 :: "'a thr64_scheme \<Rightarrow> ((tref \<times> tref) option \<times> 'a thr64_scheme) option" where
  "sched_yield_enter64 s =
     Option.bind (rq_lock64 (s\<lparr>if_flag64 := False\<rparr>)) (\<lambda>s1.
       let cpu_ix = smp_cpu_index64 s1
       in case g_current64 s1 cpu_ix of None \<Rightarrow> None
          | Some old \<Rightarrow> map_option (\<lambda>(nx, s2).
              if nx = old then (None, (rq_unlock64 s2)\<lparr>if_flag64 := if_flag64 s\<rparr>)
              else let s3 = (if tstate64 (threads64 s2 old) = THREAD_RUNNABLE
                             then set_thread64 old (\<lambda>t. t\<lparr>sched_token64 := NO_TOKEN\<rparr>) s2 else s2)
                   in (Some (old, nx), rq_unlock64 (s3\<lparr>g_current64 := (g_current64 s3)(cpu_ix := Some nx), g_yield_from64 := Some old\<rparr>)))
              (pick_next64 old s1))"

text \<open>
  The whole of \<open>sched_yield\<close> as its caller sees it.  \<open>away old nx\<close> is what happens between the
  call of \<open>cpu_switch\<close> and its return: the switch, and the run of the other threads until one
  of them switches back.
\<close>

definition sched_yield_leave64 :: "u64 \<Rightarrow> bool \<Rightarrow> 'a thr64_scheme \<Rightarrow> 'a thr64_scheme option" where
  "sched_yield_leave64 H flags s = map_option (\<lambda>s1. s1\<lparr>if_flag64 := flags\<rparr>) (thread_reap_yield_from64 H s)"

definition sched_yield64 ::
    "u64 \<Rightarrow> (tref \<Rightarrow> tref \<Rightarrow> 'a thr64_scheme \<Rightarrow> 'a thr64_scheme option) \<Rightarrow> 'a thr64_scheme \<Rightarrow> 'a thr64_scheme option" where
  "sched_yield64 H away s =
     (if sched_preempt_disabled64 s then Some s
      else case sched_yield_enter64 s of None \<Rightarrow> None
         | Some (None, s1) \<Rightarrow> Some s1
         | Some (Some (old, nx), s1) \<Rightarrow> Option.bind (away old nx s1) (sched_yield_leave64 H (if_flag64 s)))"

definition schedule64 ::
    "u64 \<Rightarrow> (tref \<Rightarrow> tref \<Rightarrow> 'a thr64_scheme \<Rightarrow> 'a thr64_scheme option) \<Rightarrow> 'a thr64_scheme \<Rightarrow> 'a thr64_scheme option" where
  "schedule64 H away s = (if sched_preempt_disabled64 s then Some s else sched_yield64 H away s)"

definition sched_checkpoint64 ::
    "u64 \<Rightarrow> (tref \<Rightarrow> tref \<Rightarrow> 'a thr64_scheme \<Rightarrow> 'a thr64_scheme option) \<Rightarrow> 'a thr64_scheme \<Rightarrow> 'a thr64_scheme option" where
  "sched_checkpoint64 H away s =
     Option.bind (sched_process_deferred64 s) (\<lambda>(drained, s1).
     Option.bind (if drained \<noteq> 0 \<and> \<not> sched_preempt_disabled64 s1
                  then map_option sched_clear_resched64 (schedule64 H away s1) else Some s1) (\<lambda>s2.
       if sched_need_resched64 s2 = 0 \<or> sched_preempt_disabled64 s2 then Some s2
       else map_option sched_clear_resched64 (sched_yield64 H away s2)))"

text \<open>Loops that never end: \<open>while (1) sched_yield ();\<close> and the two idle loops.\<close>

partial_function (option) yield_forever64 ::
    "u64 \<Rightarrow> (tref \<Rightarrow> tref \<Rightarrow> 'a thr64_scheme \<Rightarrow> 'a thr64_scheme option) \<Rightarrow> 'a thr64_scheme \<Rightarrow> 'a thr64_scheme option" where
  "yield_forever64 H away s = Option.bind (sched_yield64 H away s) (yield_forever64 H away)"

partial_function (option) ap_idle_fn64 ::
    "u64 \<Rightarrow> (tref \<Rightarrow> tref \<Rightarrow> 'a thr64_scheme \<Rightarrow> 'a thr64_scheme option) \<Rightarrow> 'a thr64_scheme \<Rightarrow> 'a thr64_scheme option" where
  "ap_idle_fn64 H away s = Option.bind (sched_checkpoint64 H away s) (ap_idle_fn64 H away)"

partial_function (option) ap_online_loop64 ::
    "u64 \<Rightarrow> (tref \<Rightarrow> tref \<Rightarrow> 'a thr64_scheme \<Rightarrow> 'a thr64_scheme option) \<Rightarrow> 'a thr64_scheme \<Rightarrow> 'a thr64_scheme option" where
  "ap_online_loop64 H away s =
     Option.bind (sched_checkpoint64 H away s) (\<lambda>s1. Option.bind (sched_yield64 H away s1) (ap_online_loop64 H away))"

text \<open>\<open>call f\<close> is the run of the function at address \<open>f\<close>.\<close>

definition thread_exit64 :: "(u64 \<Rightarrow> 'a thr64_scheme \<Rightarrow> 'a thr64_scheme option) \<Rightarrow> 'a thr64_scheme \<Rightarrow> 'a thr64_scheme option" where
  "thread_exit64 call s =
     (case thread_current_slot64 s of None \<Rightarrow> Some s
      | Some self \<Rightarrow>
          if self = Main_thread then Some s
          else Option.bind (if fn_ptr64 (threads64 s self) \<noteq> 0 then call (fn_ptr64 (threads64 s self)) s else Some s) (\<lambda>s1.
            map_option (\<lambda>s2. rq_unlock64 (set_thread64 self (\<lambda>t. t\<lparr>tstate64 := THREAD_ZOMBIE\<rparr>) s2)) (rq_lock64 s1)))"

definition thread_trampoline64 ::
    "u64 \<Rightarrow> (u64 \<Rightarrow> 'a thr64_scheme \<Rightarrow> 'a thr64_scheme option) \<Rightarrow> (tref \<Rightarrow> tref \<Rightarrow> 'a thr64_scheme \<Rightarrow> 'a thr64_scheme option)
     \<Rightarrow> 'a thr64_scheme \<Rightarrow> 'a thr64_scheme option" where
  "thread_trampoline64 H call away s = Option.bind (thread_exit64 call s) (yield_forever64 H away)"

text \<open>\<open>thread_ap_online\<close> before its loop: the boolean says that the loop is entered.\<close>

definition thread_ap_claim64 :: "'a thr64_scheme \<Rightarrow> (bool \<times> 'a thr64_scheme) option" where
  "thread_ap_claim64 s =
     (let ix = smp_cpu_index64 s
      in if ix = 0 \<or> ix \<ge> MAX_SMP_CPU then Some (False, s)
         else case g_idle_for_cpu64 s ix of None \<Rightarrow> Some (False, s)
            | Some t \<Rightarrow>
                Option.bind (serial_puts (cstr ''[VerveOS] thread: AP sched online cpu='')
                  (set_thread64 t (\<lambda>x. x\<lparr>sched_token64 := ix\<rparr>) (thread_set_current_slot64 ix (Some t) s))) (\<lambda>s1.
                Option.bind (serial_put_u64_hex (ucast ix) s1) (\<lambda>s2.
                map_option (\<lambda>s3. (True, s3\<lparr>if_flag64 := True\<rparr>)) (serial_puts crlf s2))))"

definition thread_ap_online64 ::
    "u64 \<Rightarrow> (tref \<Rightarrow> tref \<Rightarrow> 'a thr64_scheme \<Rightarrow> 'a thr64_scheme option) \<Rightarrow> 'a thr64_scheme \<Rightarrow> 'a thr64_scheme option" where
  "thread_ap_online64 H away s =
     Option.bind (thread_ap_claim64 s) (\<lambda>(loop, s1). if loop then ap_online_loop64 H away s1 else Some s1)"

section \<open>The demonstration\<close>

fun work64 :: "u64 \<Rightarrow> (tref \<Rightarrow> tref \<Rightarrow> 'a thr64_scheme \<Rightarrow> 'a thr64_scheme option) \<Rightarrow> string \<Rightarrow> bool \<Rightarrow> nat list
    \<Rightarrow> 'a thr64_scheme \<Rightarrow> 'a thr64_scheme option" where
  "work64 H away name crit [] s = Some s"
| "work64 H away name crit (i # is) s =
     Option.bind (if crit \<and> i = 0 then
         Option.bind (serial_puts (cstr ''[VerveOS] thread A critical begin (preempt disabled)'' @ crlf) (sched_preempt_disable64 s)) (\<lambda>s1.
         map_option sched_preempt_enable64 (serial_puts (cstr ''[VerveOS] thread A critical end'' @ crlf) s1))
       else Some s) (\<lambda>s2.
     Option.bind (serial_puts (cstr (''[VerveOS] thread '' @ name @ '' work '')) s2) (\<lambda>s3.
     Option.bind (serial_put_u64_hex (of_nat i) s3) (\<lambda>s4.
     Option.bind (serial_puts crlf s4) (\<lambda>s5.
     Option.bind (sched_checkpoint64 H away s5) (work64 H away name crit is)))))"

definition worker_a64 :: "u64 \<Rightarrow> (tref \<Rightarrow> tref \<Rightarrow> 'a thr64_scheme \<Rightarrow> 'a thr64_scheme option) \<Rightarrow> 'a thr64_scheme \<Rightarrow> 'a thr64_scheme option" where
  "worker_a64 H away s =
     Option.bind (serial_puts (cstr ''[VerveOS] thread A start (will checkpoint on timer quantum)'' @ crlf) s) (\<lambda>s1.
     Option.bind (work64 H away ''A'' True [0..<6] s1) (serial_puts (cstr ''[VerveOS] thread A end'' @ crlf)))"

definition worker_b64 :: "u64 \<Rightarrow> (tref \<Rightarrow> tref \<Rightarrow> 'a thr64_scheme \<Rightarrow> 'a thr64_scheme option) \<Rightarrow> 'a thr64_scheme \<Rightarrow> 'a thr64_scheme option" where
  "worker_b64 H away s =
     Option.bind (serial_puts (cstr ''[VerveOS] thread B start (will checkpoint on timer quantum)'' @ crlf) s) (\<lambda>s1.
     Option.bind (work64 H away ''B'' False [0..<6] s1) (serial_puts (cstr ''[VerveOS] thread B end'' @ crlf)))"

primrec demo_rounds64 :: "u64 \<Rightarrow> (tref \<Rightarrow> tref \<Rightarrow> 'a thr64_scheme \<Rightarrow> 'a thr64_scheme option) \<Rightarrow> nat
    \<Rightarrow> 'a thr64_scheme \<Rightarrow> 'a thr64_scheme option" where
  "demo_rounds64 H away 0 s = Some s"
| "demo_rounds64 H away (Suc n) s =
     Option.bind (sched_yield64 H away s) (\<lambda>s1. Option.bind (sched_checkpoint64 H away s1) (demo_rounds64 H away n))"

definition thread_demo_run64 :: "u64 \<Rightarrow> text_syms64 \<Rightarrow> (tref \<Rightarrow> tref \<Rightarrow> 'a thr64_scheme \<Rightarrow> 'a thr64_scheme option)
    \<Rightarrow> 'a thr64_scheme \<Rightarrow> 'a thr64_scheme option" where
  "thread_demo_run64 H T away s =
     Option.bind (serial_puts (cstr ''[VerveOS] coop threads: spawning A,B (LAPIC vec 64 '' @ [0xE2, 0x86, 0x92] @ cstr '' sched_timer_tick)'' @ crlf) s) (\<lambda>s1.
     Option.bind (serial_puts (cstr ''[VerveOS] thread: SMP affinity + sched_token claim'' @ crlf) s1) (\<lambda>s2.
     Option.bind (thread_spawn64 H T (at_worker_a64 T) s2) (\<lambda>s3.
     Option.bind (thread_spawn64 H T (at_worker_b64 T) s3) (\<lambda>s4.
     Option.bind (serial_puts (cstr ''[VerveOS] main: round-robin + timer checkpoints'' @ crlf) s4) (\<lambda>s5.
     Option.bind (demo_rounds64 H away 48 s5)
       (serial_puts (cstr ''[VerveOS] coop demo: main returns to idle'' @ crlf)))))))"

end
