(* ===== verification/Turns64.thy ===== *)
theory Turns64
  imports Threads64
begin

text \<open>
  The threads of the x86-64 build against the i386 model as their specification: a view of the
  state commutes with every operation on the run queue, so the invariant of the ring and the
  turns of the threads carry over.  The stacks and the context switch are 64-bit and are treated
  on their own.
\<close>

section \<open>The view\<close>

text \<open>
  The stack pointer is dropped; of the stack and of the function the view keeps whether they are
  null, all that the run queue looks at.
\<close>

definition thin :: "thread64 \<Rightarrow> thread" where
  "thin t = \<lparr>esp = 0, nxt = nxt64 t, fn_ptr = (if fn_ptr64 t = 0 then 0 else 1), tstate = tstate64 t,
     kstack = (if kstack64 t = 0 then 0 else 1), affinity_cpu = affinity_cpu64 t, sched_token = sched_token64 t\<rparr>"

definition as_thr :: "'b thr_scheme \<Rightarrow> 'a thr64_scheme \<Rightarrow> 'b thr_scheme" where
  "as_thr b s = (as_bsp b s)\<lparr>threads := thin \<circ> threads64 s, g_current := g_current64 s, g_idle_for_cpu := g_idle_for_cpu64 s,
     g_thread_rq_lock := g_thread_rq_lock64 s, g_yield_from := g_yield_from64 s\<rparr>"

lemma thin_simps [simp]:
  "nxt (thin t) = nxt64 t" "tstate (thin t) = tstate64 t" "affinity_cpu (thin t) = affinity_cpu64 t"
  "sched_token (thin t) = sched_token64 t" "kstack (thin t) = 0 \<longleftrightarrow> kstack64 t = 0" "fn_ptr (thin t) = 0 \<longleftrightarrow> fn_ptr64 t = 0"
  "thin (t\<lparr>nxt64 := n\<rparr>) = (thin t)\<lparr>nxt := n\<rparr>" "thin (t\<lparr>tstate64 := st\<rparr>) = (thin t)\<lparr>tstate := st\<rparr>"
  "thin (t\<lparr>sched_token64 := k\<rparr>) = (thin t)\<lparr>sched_token := k\<rparr>" "thin (t\<lparr>rsp := r\<rparr>) = thin t"
  "thin (t\<lparr>kstack64 := 0\<rparr>) = (thin t)\<lparr>kstack := 0\<rparr>"
  by (simp_all add: thin_def)

lemma as_thr_sel [simp]:
  "threads (as_thr b s) t = thin (threads64 s t)" "g_current (as_thr b s) = g_current64 s"
  "g_idle_for_cpu (as_thr b s) = g_idle_for_cpu64 s" "g_thread_rq_lock (as_thr b s) = g_thread_rq_lock64 s"
  "g_yield_from (as_thr b s) = g_yield_from64 s" "smp_cpu_index (as_thr b s) = 0" "if_flag (as_thr b s) = if_flag64 s"
  by (simp_all add: as_thr_def) (simp_all add: smp_cpu_index_def lapic_id_def mmio_r32_def as_bsp_def)

lemma as_thr_upd:
  "as_thr b (s\<lparr>threads64 := ts\<rparr>) = (as_thr b s)\<lparr>threads := thin \<circ> ts\<rparr>"
  "as_thr b (s\<lparr>g_current64 := c\<rparr>) = (as_thr b s)\<lparr>g_current := c\<rparr>"
  "as_thr b (s\<lparr>g_idle_for_cpu64 := c\<rparr>) = (as_thr b s)\<lparr>g_idle_for_cpu := c\<rparr>"
  "as_thr b (s\<lparr>g_thread_rq_lock64 := l\<rparr>) = (as_thr b s)\<lparr>g_thread_rq_lock := l\<rparr>"
  "as_thr b (s\<lparr>g_yield_from64 := y\<rparr>) = (as_thr b s)\<lparr>g_yield_from := y\<rparr>"
  "as_thr b (s\<lparr>if_flag64 := f\<rparr>) = (as_thr b s)\<lparr>if_flag := f\<rparr>"
  "as_thr b (s\<lparr>mem64 := m\<rparr>) = as_thr b s" "as_thr b (s\<lparr>g_kheap64 := h\<rparr>) = as_thr b s"
  by (simp_all add: as_thr_def as_bsp_def)

interpretation tv: sched_view "as_thr b" for b
  by unfold_locales (simp | simp add: as_thr_def as_bsp_def)+

section \<open>The run queue\<close>

lemma lock_view: "rq_lock (as_thr b s) = map_option (as_thr b) (rq_lock64 s)" "rq_unlock (as_thr b s) = as_thr b (rq_unlock64 s)"
  by (cases "verve_spin_lock (g_thread_rq_lock64 s)") (simp_all add: rq_lock_def rq_lock64_def rq_unlock_def rq_unlock64_def as_thr_upd)

lemma set_view: "f (thin (threads64 s t)) = thin (g (threads64 s t)) \<Longrightarrow> set_thread t f (as_thr b s) = as_thr b (set_thread64 t g s)"
  by (auto simp: set_thread_def set_thread64_def as_thr_upd fun_eq_iff intro!: arg_cong [where f = "\<lambda>x. (as_thr b s)\<lparr>threads := x\<rparr>"])

lemma alloc_slot_view: "thread_alloc_slot (as_thr b s) = thread_alloc_slot64 s"
  by (simp add: thread_alloc_slot_def thread_alloc_slot64_def)

lemma current_slot_view: "thread_current_slot (as_thr b s) = thread_current_slot64 s"
  by (simp add: thread_current_slot_def thread_current_slot64_def smp_cpu_index64_def)

lemma enqueue_view: "enqueue_thread t (as_thr b s) = map_option (as_thr b) (enqueue_thread64 t s)"
proof (cases "rq_lock64 s")
  case None
  then show ?thesis by (simp add: enqueue_thread_def enqueue_thread64_def lock_view)
next
  case (Some s1)
  have "set_thread t (\<lambda>x. x\<lparr>nxt := nxt64 (threads64 s1 Main_thread)\<rparr>) (as_thr b s1)
      = as_thr b (set_thread64 t (\<lambda>x. x\<lparr>nxt64 := nxt64 (threads64 s1 Main_thread)\<rparr>) s1)" by (rule set_view) simp
  moreover have "set_thread Main_thread (\<lambda>h. h\<lparr>nxt := Some t\<rparr>) (as_thr b u)
      = as_thr b (set_thread64 Main_thread (\<lambda>h. h\<lparr>nxt64 := Some t\<rparr>) u)" for u :: "'b thr64_scheme" by (rule set_view) simp
  ultimately show ?thesis using Some by (simp add: enqueue_thread_def enqueue_thread64_def lock_view)
qed

abbreviation (input) thins :: "(tref \<Rightarrow> thread64) \<Rightarrow> tref \<Rightarrow> thread" where
  "thins ts \<equiv> thin \<circ> ts"

lemma thins_upd: "thins (ts(t := x)) = (thins ts)(t := thin x)"
  by (simp add: fun_eq_iff)

lemma pick_step64:
  "pick_loop64 me cur p ts = (case p of None \<Rightarrow> None | Some t \<Rightarrow> if t = cur then Some (cur, ts)
     else if eligible me (thins ts) t then Some (t, ts(t := (ts t)\<lparr>sched_token64 := me\<rparr>))
     else pick_loop64 me cur (nxt64 (ts t)) ts)"
  by (subst pick_loop64.simps) (auto simp: eligible_def split: option.splits)

lemma pick_step:
  "pick_loop me cur p (thins ts) = (case p of None \<Rightarrow> None | Some t \<Rightarrow> if t = cur then Some (cur, thins ts)
     else if eligible me (thins ts) t then Some (t, thins (ts(t := (ts t)\<lparr>sched_token64 := me\<rparr>)))
     else pick_loop me cur (nxt64 (ts t)) (thins ts))"
  by (subst pick_loop.simps) (auto simp: eligible_def thins_upd split: option.splits)

lemma pick_fwd:
  assumes "pick_loop64 me cur p ts = Some r"
  shows "pick_loop me cur p (thins ts) = Some (map_prod id thins r)"
proof (rule pick_loop64.raw_induct [where P = "\<lambda>me cur p ts r. pick_loop me cur p (thins ts) = Some (map_prod id thins r)", OF _ assms])
  fix f me cur p ts r
  assume IH: "\<And>me cur p ts r. f me cur p ts = Some r \<Longrightarrow> pick_loop me cur p (thins ts) = Some (map_prod id thins r)"
    and run: "(case p of None \<Rightarrow> None
      | Some t \<Rightarrow>
          if t = cur then Some (cur, ts)
          else if tstate64 (ts t) = THREAD_RUNNABLE then
            (if affinity_cpu64 (ts t) \<noteq> AFF_ANY \<and> affinity_cpu64 (ts t) \<noteq> me then f me cur (nxt64 (ts t)) ts
             else if sched_token64 (ts t) = NO_TOKEN then Some (t, ts(t := (ts t)\<lparr>sched_token64 := me\<rparr>))
             else f me cur (nxt64 (ts t)) ts)
          else f me cur (nxt64 (ts t)) ts) = Some r"
  show "pick_loop me cur p (thins ts) = Some (map_prod id thins r)"
    using run by (subst pick_step) (auto simp: eligible_def IH split: option.splits if_splits)
qed

lemma pick_bwd:
  assumes "pick_loop me cur p (thins ts) = Some r"
  shows "returns (pick_loop64 me cur p ts) (\<lambda>_. True)"
proof -
  have "\<forall>ts'. thins ts = thins ts' \<longrightarrow> returns (pick_loop64 me cur p ts') (\<lambda>_. True)"
  proof (rule pick_loop.raw_induct [where P = "\<lambda>me cur p us r. \<forall>ts'. us = thins ts' \<longrightarrow> returns (pick_loop64 me cur p ts') (\<lambda>_. True)", OF _ assms])
    fix f me cur p us r
    assume IH: "\<And>me cur p us r. f me cur p us = Some r \<Longrightarrow> \<forall>ts'. us = thins ts' \<longrightarrow> returns (pick_loop64 me cur p ts') (\<lambda>_. True)"
      and run: "(case p of None \<Rightarrow> None
        | Some t \<Rightarrow>
            if t = cur then Some (cur, us)
            else if tstate (us t) = THREAD_RUNNABLE then
              (if affinity_cpu (us t) \<noteq> AFF_ANY \<and> affinity_cpu (us t) \<noteq> me then f me cur (nxt (us t)) us
               else if sched_token (us t) = NO_TOKEN then Some (t, us(t := (us t)\<lparr>sched_token := me\<rparr>))
               else f me cur (nxt (us t)) us)
            else f me cur (nxt (us t)) us) = Some r"
    show "\<forall>ts'. us = thins ts' \<longrightarrow> returns (pick_loop64 me cur p ts') (\<lambda>_. True)"
    proof (intro allI impI)
      fix ts' assume u: "us = thins ts'"
      have IH': "f me cur q (thins ts') = Some r \<Longrightarrow> returns (pick_loop64 me cur q ts') (\<lambda>_. True)" for q using IH by blast
      show "returns (pick_loop64 me cur p ts') (\<lambda>_. True)"
        using run unfolding u by (subst pick_step64) (auto simp: eligible_def IH' split: option.splits if_splits)
    qed
  qed
  then show ?thesis by blast
qed

lemma pick_loop_view: "pick_loop me cur p (thins ts) = map_option (map_prod id thins) (pick_loop64 me cur p ts)"
proof (cases "pick_loop64 me cur p ts")
  case None
  then show ?thesis using pick_bwd [of me cur p ts] by (cases "pick_loop me cur p (thins ts)") (auto simp: returns_def)
next
  case (Some r)
  then show ?thesis using pick_fwd by simp
qed

lemma pick_view: "pick_next cur (as_thr b s) = map_option (map_prod id (as_thr b)) (pick_next64 cur s)"
proof -
  have t: "threads (as_thr b s) = thins (threads64 s)" by (simp add: fun_eq_iff)
  show ?thesis
    by (cases "pick_loop64 0 cur (nxt64 (threads64 s cur)) (threads64 s)")
      (auto simp: pick_next_def pick_next64_def smp_cpu_index64_def t pick_loop_view as_thr_upd)
qed

lemma yield_enter_view: "sched_yield_enter (as_thr b s) = map_option (map_prod id (as_thr b)) (sched_yield_enter64 s)"
proof (cases "rq_lock64 (s\<lparr>if_flag64 := False\<rparr>)")
  case None
  then show ?thesis by (simp add: sched_yield_enter_def sched_yield_enter64_def lock_view flip: as_thr_upd)
next
  case (Some s1)
  then have lk: "rq_lock ((as_thr b s)\<lparr>if_flag := False\<rparr>) = Some (as_thr b s1)" by (simp add: lock_view flip: as_thr_upd)
  have rel: "set_thread old (\<lambda>t. t\<lparr>sched_token := NO_TOKEN\<rparr>) (as_thr b u) = as_thr b (set_thread64 old (\<lambda>t. t\<lparr>sched_token64 := NO_TOKEN\<rparr>) u)"
    for old and u :: "'b thr64_scheme" by (rule set_view) simp
  show ?thesis
    unfolding sched_yield_enter_def sched_yield_enter64_def Some lk
    by (cases "g_current64 s1 0")
      (auto simp: smp_cpu_index64_def pick_view option.map_comp lock_view rel Let_def as_thr_upd
        intro!: option.map_cong0 simp flip: as_thr_upd)
qed

text \<open>Coming back from a switch: nothing is reaped when the old thread is no zombie.\<close>

lemma yield_leave_view:
  assumes "\<And>z. g_yield_from64 s = Some z \<Longrightarrow> tstate64 (threads64 s z) \<noteq> THREAD_ZOMBIE"
  shows "sched_yield_leave L f (as_thr b s) = map_option (as_thr b) (sched_yield_leave64 H f s)"
  using assms
  by (auto simp: sched_yield_leave_def sched_yield_leave64_def thread_reap_yield_from_def thread_reap_yield_from64_def Let_def
      as_thr_upd split: option.splits)

lemma pick_keeps64:
  assumes "pick_loop64 me cur p ts = Some r"
  shows "tstate64 (snd r t) = tstate64 (ts t)"
proof -
  have "\<forall>t. tstate64 (snd r t) = tstate64 (ts t)"
  proof (rule pick_loop64.raw_induct [where P = "\<lambda>me cur p ts r. \<forall>t. tstate64 (snd r t) = tstate64 (ts t)", OF _ assms])
    fix f me cur p ts r
    assume IH: "\<And>me cur p ts r. f me cur p ts = Some r \<Longrightarrow> \<forall>t. tstate64 (snd r t) = tstate64 (ts t)"
      and run: "(case p of None \<Rightarrow> None
        | Some t \<Rightarrow>
            if t = cur then Some (cur, ts)
            else if tstate64 (ts t) = THREAD_RUNNABLE then
              (if affinity_cpu64 (ts t) \<noteq> AFF_ANY \<and> affinity_cpu64 (ts t) \<noteq> me then f me cur (nxt64 (ts t)) ts
               else if sched_token64 (ts t) = NO_TOKEN then Some (t, ts(t := (ts t)\<lparr>sched_token64 := me\<rparr>))
               else f me cur (nxt64 (ts t)) ts)
            else f me cur (nxt64 (ts t)) ts) = Some r"
    show "\<forall>t. tstate64 (snd r t) = tstate64 (ts t)"
      using run by (auto dest: IH split: option.splits if_splits)
  qed
  then show ?thesis by blast
qed

lemma yield_enter64_old:
  assumes "sched_yield_enter64 s = Some (Some (old, nx), s')"
  shows "g_current64 s 0 = Some old" "g_yield_from64 s' = Some old" "tstate64 (threads64 s' t) = tstate64 (threads64 s t)"
proof -
  obtain s1 where s1: "rq_lock64 (s\<lparr>if_flag64 := False\<rparr>) = Some s1" using assms by (auto simp: sched_yield_enter64_def split: bind_splits)
  then have f: "g_current64 s1 = g_current64 s" "threads64 s1 = threads64 s" by (auto simp: rq_lock64_def)
  obtain cur where cur: "g_current64 s1 0 = Some cur" using assms s1 by (auto simp: sched_yield_enter64_def smp_cpu_index64_def split: option.splits)
  obtain n s2 where pk: "pick_next64 cur s1 = Some (n, s2)"
    using assms s1 cur by (cases "pick_next64 cur s1") (auto simp: sched_yield_enter64_def smp_cpu_index64_def)
  then have st: "tstate64 (threads64 s2 t) = tstate64 (threads64 s1 t)" for t
    by (auto simp: pick_next64_def dest: pick_keeps64)
  have "old = cur \<and> g_yield_from64 s' = Some old \<and> tstate64 (threads64 s' t) = tstate64 (threads64 s2 t)"
    using assms s1 cur pk
    by (auto simp: sched_yield_enter64_def smp_cpu_index64_def Let_def rq_unlock64_def set_thread64_def split: if_splits)
  then show "g_current64 s 0 = Some old" "g_yield_from64 s' = Some old" "tstate64 (threads64 s' t) = tstate64 (threads64 s t)"
    using cur f st by simp_all
qed

section \<open>Turns\<close>

definition turn64 :: "u64 \<Rightarrow> 'a thr64_scheme \<Rightarrow> 'a thr64_scheme option" where
  "turn64 H s = Option.bind (sched_yield_enter64 s) (\<lambda>(r, s1). if r = None then Some s1 else sched_yield_leave64 H True s1)"

primrec turns64 :: "u64 \<Rightarrow> nat \<Rightarrow> 'a thr64_scheme \<Rightarrow> 'a thr64_scheme option" where
  "turns64 H 0 s = Some s"
| "turns64 H (Suc n) s = Option.bind (turns64 H n s) (turn64 H)"

lemma turn_view:
  assumes "rr_state 0 xs ys i (as_thr b s)"
  shows "turn L (as_thr b s) = map_option (as_thr b) (turn64 H s)"
proof (cases "sched_yield_enter64 s")
  case None
  then show ?thesis by (simp add: turn_def turn64_def yield_enter_view)
next
  case (Some r)
  obtain o1 s1 where r: "r = (o1, s1)" by (cases r)
  have run: "tstate64 (threads64 s old) = THREAD_RUNNABLE" if "g_current64 s 0 = Some old" for old
    using assms that unfolding rr_state_def by force
  show ?thesis
  proof (cases o1)
    case None
    then show ?thesis using Some r by (simp add: turn_def turn64_def yield_enter_view)
  next
    case o: (Some p)
    obtain old nx where p: "p = (old, nx)" by (cases p)
    note e = yield_enter64_old [OF Some [unfolded r o p]]
    have "tstate64 (threads64 s1 z) \<noteq> THREAD_ZOMBIE" if "g_yield_from64 s1 = Some z" for z
      using that e run [OF e(1)] by simp
    from yield_leave_view [OF this] show ?thesis using Some r o by (simp add: turn_def turn64_def yield_enter_view)
  qed
qed


section \<open>The context switch\<close>

definition pushed64 :: "cpu_regs64 \<Rightarrow> memory64 \<Rightarrow> memory64" where
  "pushed64 r m = snd (snd (cpu_switch64 0 r m))"

lemma pushes_out64:
  assumes "\<not> in_range64 (x_rsp r - 48) 48 x"
  shows "pushed64 r m x = m x"
proof -
  have "\<not> in_range64 (x_rsp r - 48 + of_nat k) 8 x" if "k + 8 \<le> 48" for k
    using assms in_range64_step [of "x_rsp r - 48" k x 48] that by auto
  from this [of 40] this [of 32] this [of 24] this [of 16] this [of 8] this [of 0]
  show ?thesis by (simp add: pushed64_def cpu_switch64_def Let_def st64w_out_range)
qed

lemma cpu_switch64_regs:
  "cpu_switch64 n r m = (x_rsp r - 48, \<lparr>x_rsp = n + 56, x_rbp = ld64w (pushed64 r m) (n + 40), x_rbx = ld64w (pushed64 r m) (n + 32),
     x_r12 = ld64w (pushed64 r m) (n + 24), x_r13 = ld64w (pushed64 r m) (n + 16), x_r14 = ld64w (pushed64 r m) (n + 8),
     x_r15 = ld64w (pushed64 r m) n, x_rip = ld64w (pushed64 r m) (n + 48)\<rparr>, pushed64 r m)"
  by (simp add: cpu_switch64_def pushed64_def Let_def)

lemma pushed64_words:
  "ld64w (pushed64 r m) (x_rsp r - 48) = x_r15 r" "ld64w (pushed64 r m) (x_rsp r - 48 + 8) = x_r14 r"
  "ld64w (pushed64 r m) (x_rsp r - 48 + 16) = x_r13 r" "ld64w (pushed64 r m) (x_rsp r - 48 + 24) = x_r12 r"
  "ld64w (pushed64 r m) (x_rsp r - 48 + 32) = x_rbx r" "ld64w (pushed64 r m) (x_rsp r - 48 + 40) = x_rbp r"
  "ld64w (pushed64 r m) (x_rsp r - 48 + 48) = ld64w m (x_rsp r)"
  by (simp_all add: pushed64_def cpu_switch64_def Let_def ld64w_st64w_same ld64w_st64w_apart)

definition same_on64 :: "u64 \<Rightarrow> nat \<Rightarrow> memory64 \<Rightarrow> memory64 \<Rightarrow> bool" where
  "same_on64 a n m m' \<longleftrightarrow> (\<forall>x. in_range64 a n x \<longrightarrow> m x = m' x)"

lemma same_on64_refl: "same_on64 a n m m"
  by (simp add: same_on64_def)

lemma ld64w_same_on:
  assumes "same_on64 a n m m'" and "k + 8 \<le> n" and "n \<le> 18446744073709551616"
  shows "ld64w m (a + of_nat k) = ld64w m' (a + of_nat k)"
proof (rule ld64w_eqI)
  fix j :: nat assume "j < 8"
  then have "unat (of_nat (k + j) :: u64) = k + j" using assms(2,3) by (intro unat_of_nat64) linarith
  then have "in_range64 a n (a + of_nat (k + j))" using \<open>j < 8\<close> assms(2) by (simp add: in_range64_def)
  then show "m (a + of_nat k + of_nat j) = m' (a + of_nat k + of_nat j)" using assms(1) by (simp add: same_on64_def add.assoc)
qed

text \<open>
  The context switch of the x86-64 build.  A thread that has been switched away from and
  whose seven saved words have been left alone continues, when \<open>cpu_switch\<close> is called with the
  stack pointer saved for it, after its call with its six callee-saved registers.
\<close>

theorem cpu_switch64_roundtrip:
  assumes "cpu_switch64 n r m = (sp, r1, m1)" and "same_on64 sp 56 m1 m2"
    and "\<forall>x. in_range64 sp 56 x \<longrightarrow> \<not> in_range64 (x_rsp r2 - 48) 48 x"
  shows "fst (snd (cpu_switch64 sp r2 m2)) = r\<lparr>x_rsp := x_rsp r + 8, x_rip := ld64w m (x_rsp r)\<rparr>"
proof -
  have sp: "sp = x_rsp r - 48" and m1: "m1 = pushed64 r m" using assms(1) by (auto simp: cpu_switch64_regs)
  have same: "same_on64 sp 56 (pushed64 r m) (pushed64 r2 m2)"
    using assms(2,3) pushes_out64 [of r2] m1 by (simp add: same_on64_def)
  have w: "ld64w (pushed64 r2 m2) (sp + of_nat k) = ld64w (pushed64 r m) (sp + of_nat k)" if "k + 8 \<le> 56" for k
    using ld64w_same_on [OF same, of k] that by simp
  show ?thesis
    using w [of 0] w [of 8] w [of 16] w [of 24] w [of 32] w [of 40] w [of 48] pushed64_words [of r m]
    by (simp add: cpu_switch64_regs sp)
qed

definition sample_regs64 :: "u64 \<Rightarrow> cpu_regs64" where
  "sample_regs64 sp = \<lparr>x_rsp = sp, x_rbp = 1, x_rbx = 2, x_r12 = 3, x_r13 = 4, x_r14 = 5, x_r15 = 6, x_rip = 7\<rparr>"

theorem cpu_switch64_roundtrip_witness:
  "fst (snd (cpu_switch64 0x7FD0 (sample_regs64 0x9000) (pushed64 (sample_regs64 0x8000) (\<lambda>_. 7))))
     = (sample_regs64 0x8000)\<lparr>x_rsp := 0x8008, x_rip := ld64w (\<lambda>_. 7) 0x8000\<rparr>"
proof -
  have sp: "x_rsp (sample_regs64 k) = k" for k by (simp add: sample_regs64_def)
  have "cpu_switch64 0 (sample_regs64 0x8000) (\<lambda>_. 7)
      = (0x7FD0, fst (snd (cpu_switch64 0 (sample_regs64 0x8000) (\<lambda>_. 7))), pushed64 (sample_regs64 0x8000) (\<lambda>_. 7))"
    by (simp add: cpu_switch64_regs sp)
  moreover have "\<forall>x. in_range64 0x7FD0 56 x \<longrightarrow> \<not> in_range64 (x_rsp (sample_regs64 0x9000) - 48) 48 x"
    by (auto simp: in_range64_def sp unat_sub_if_size word_size)
  ultimately have "fst (snd (cpu_switch64 0x7FD0 (sample_regs64 0x9000) (pushed64 (sample_regs64 0x8000) (\<lambda>_. 7))))
     = (sample_regs64 0x8000)\<lparr>x_rsp := x_rsp (sample_regs64 0x8000) + 8, x_rip := ld64w (\<lambda>_. 7) (x_rsp (sample_regs64 0x8000))\<rparr>"
    by (rule cpu_switch64_roundtrip [OF _ same_on64_refl])
  then show ?thesis by (simp add: sp)
qed

section \<open>Starting a thread\<close>

definition initial_stack64 :: "text_syms64 \<Rightarrow> u64 \<Rightarrow> memory64 \<Rightarrow> memory64" where
  "initial_stack64 T p m = (let sp = p + STACK_SIZE64 - 56; m0 = st64w m sp 0; m1 = st64w m0 (sp + 8) 0; m2 = st64w m1 (sp + 16) 0;
     m3 = st64w m2 (sp + 24) 0; m4 = st64w m3 (sp + 32) 0; m5 = st64w m4 (sp + 40) 0
     in st64w m5 (sp + 48) (at_thread_trampoline64 T))"

lemma ld64w_later: "8 \<le> d \<Longrightarrow> d \<le> 18446744073709551608 \<Longrightarrow> a = b + of_nat d \<Longrightarrow> ld64w (st64w m a v) b = ld64w m b"
  by (rule ld64w_st64w_diff(2))

lemma initial_stack64_words:
  "ld64w (initial_stack64 T p m) (p + 4040) = 0" "ld64w (initial_stack64 T p m) (p + 4048) = 0"
  "ld64w (initial_stack64 T p m) (p + 4056) = 0" "ld64w (initial_stack64 T p m) (p + 4064) = 0"
  "ld64w (initial_stack64 T p m) (p + 4072) = 0" "ld64w (initial_stack64 T p m) (p + 4080) = 0"
  "ld64w (initial_stack64 T p m) (p + 4088) = at_thread_trampoline64 T"
  by (simp_all add: initial_stack64_def Let_def ld64w_st64w_same ld64w_later [of 8] ld64w_later [of 16] ld64w_later [of 24]
      ld64w_later [of 32] ld64w_later [of 40] ld64w_later [of 48] ac_simps)

lemma alloc_slot64_Some: "thread_alloc_slot64 s = Some t \<Longrightarrow> t \<noteq> Main_thread"
  by (auto simp: thread_alloc_slot64_def)

definition new_thread64 :: "u64 \<Rightarrow> u64 \<Rightarrow> tref option \<Rightarrow> thread64" where
  "new_thread64 f p n = \<lparr>rsp = p + 4040, nxt64 = n, fn_ptr64 = f, tstate64 = THREAD_RUNNABLE, kstack64 = p,
     affinity_cpu64 = AFF_ANY, sched_token64 = NO_TOKEN\<rparr>"

definition insert_thread64 :: "tref \<Rightarrow> u64 \<Rightarrow> u64 \<Rightarrow> (tref \<Rightarrow> thread64) \<Rightarrow> tref \<Rightarrow> thread64" where
  "insert_thread64 t f p ts = ts(t := new_thread64 f p (nxt64 (ts Main_thread)), Main_thread := (ts Main_thread)\<lparr>nxt64 := Some t\<rparr>)"

lemma thread64_upd_all:
  "x\<lparr>kstack64 := p, fn_ptr64 := f, tstate64 := st, affinity_cpu64 := a, sched_token64 := k, rsp := e, nxt64 := n\<rparr>
   = \<lparr>rsp = e, nxt64 = n, fn_ptr64 = f, tstate64 = st, kstack64 = p, affinity_cpu64 = a, sched_token64 = k\<rparr>" for x :: thread64
  by (cases x) simp

lemma lock_same64: "g_thread_rq_lock64 s = 0 \<Longrightarrow> s\<lparr>g_thread_rq_lock64 := 0\<rparr> = s"
  by simp

lemma spawn_effect64:
  assumes "g_thread_rq_lock64 s = 0" and "thread_alloc_slot64 s = Some t" and "f \<noteq> 0"
    and "kmalloc64 H 4096 (mem64 s, g_kheap64 s) = Some (p, m, h)" and "p \<noteq> 0"
  shows "thread_spawn64 H T f s
    = Some (s\<lparr>mem64 := initial_stack64 T p m, g_kheap64 := h, threads64 := insert_thread64 t f p (threads64 s)\<rparr>)"
proof -
  note t = alloc_slot64_Some [OF assms(2)]
  have k: "kmalloc_s64 H STACK_SIZE64 s = Some (p, s\<lparr>mem64 := m, g_kheap64 := h\<rparr>)" by (simp add: kmalloc_s64_def assms(4))
  show ?thesis
    using assms(1-3,5) t
    by (simp add: thread_spawn64_def k Let_def enqueue_thread64_def setup_initial_stack64_def set_thread64_def rq_lock64_def
        rq_unlock64_def verve_spin_unlock_def initial_stack64_def insert_thread64_def new_thread64_def fun_upd_twist
        thread64_upd_all lock_same64 ac_simps)
qed

text \<open>
  Starting a thread in the x86-64 build.  With a free slot and a block for its stack,
  \<open>thread_spawn\<close> puts the new thread right behind \<open>main_thread\<close> in the ring, and the first
  switch to it, from any stack outside its own, enters \<open>thread_trampoline\<close> with cleared
  registers and the stack pointer at the top of its stack.
\<close>

theorem thread_spawn64_correct:
  assumes "rq_inv (as_thr b s) xs" and "thread_alloc_slot64 s = Some t" and "f \<noteq> 0"
    and "kmalloc64 H 4096 (mem64 s, g_kheap64 s) = Some (p, m, h)" and "p \<noteq> 0"
  shows "\<exists>s'. thread_spawn64 H T f s = Some s' \<and> rq_inv (as_thr b s') (t # xs) \<and> fn_ptr64 (threads64 s' t) = f
    \<and> kstack64 (threads64 s' t) = p \<and> (\<forall>u. u \<noteq> t \<and> u \<noteq> Main_thread \<longrightarrow> threads64 s' u = threads64 s u)
    \<and> (\<forall>r. (\<forall>x. in_range64 p 4096 x \<longrightarrow> \<not> in_range64 (x_rsp r - 48) 48 x) \<longrightarrow>
         fst (snd (cpu_switch64 (rsp (threads64 s' t)) r (mem64 s')))
         = \<lparr>x_rsp = p + 4096, x_rbp = 0, x_rbx = 0, x_r12 = 0, x_r13 = 0, x_r14 = 0, x_r15 = 0, x_rip = at_thread_trampoline64 T\<rparr>)"
proof -
  let ?s' = "s\<lparr>mem64 := initial_stack64 T p m, g_kheap64 := h, threads64 := insert_thread64 t f p (threads64 s)\<rparr>"
  note t = alloc_slot64_Some [OF assms(2)]
  have lock: "g_thread_rq_lock64 s = 0" using rq_invD(2) [OF assms(1)] by simp
  have nt: "threads64 ?s' t = new_thread64 f p (nxt64 (threads64 s Main_thread))" using t by (simp add: insert_thread64_def)
  have slot: "thread_alloc_slot (as_thr b s) = Some t" by (simp add: alloc_slot_view assms(2))
  have "rq_inv ((as_thr b s)\<lparr>threads := insert_thread t 1 1 AFF_ANY (threads (as_thr b s))\<rparr>) (t # xs)"
    by (rule rq_inv_insert [OF assms(1) slot])
  then have inv: "rq_inv (as_thr b ?s') (t # xs)"
  proof (rule rq_inv_cong)
    have ts: "threads (as_thr b s) = thins (threads64 s)" by (simp add: fun_eq_iff)
    fix u
    show "nxt (threads (as_thr b ?s') u) = nxt (threads ((as_thr b s)\<lparr>threads := insert_thread t 1 1 AFF_ANY (threads (as_thr b s))\<rparr>) u)"
      using t by (simp add: ts insert_thread_def insert_thread64_def new_thread_def new_thread64_def)
    show "(tstate (threads (as_thr b ?s') u) = THREAD_UNUSED)
        = (tstate (threads ((as_thr b s)\<lparr>threads := insert_thread t 1 1 AFF_ANY (threads (as_thr b s))\<rparr>) u) = THREAD_UNUSED)"
      using t by (simp add: ts insert_thread_def insert_thread64_def new_thread_def new_thread64_def)
    show "g_thread_rq_lock (as_thr b ?s') = 0" using lock by simp
  qed
  have start: "fst (snd (cpu_switch64 (rsp (threads64 ?s' t)) r (mem64 ?s')))
      = \<lparr>x_rsp = p + 4096, x_rbp = 0, x_rbx = 0, x_r12 = 0, x_r13 = 0, x_r14 = 0, x_r15 = 0, x_rip = at_thread_trampoline64 T\<rparr>"
    if out: "\<forall>x. in_range64 p 4096 x \<longrightarrow> \<not> in_range64 (x_rsp r - 48) 48 x" for r
  proof -
    let ?m = "initial_stack64 T p m"
    have same: "same_on64 p 4096 (pushed64 r ?m) ?m" using out pushes_out64 [of r] by (simp add: same_on64_def)
    have w: "ld64w (pushed64 r ?m) (p + of_nat k) = ld64w ?m (p + of_nat k)" if "k + 8 \<le> 4096" for k
      using ld64w_same_on [OF same that] by simp
    have "rsp (threads64 ?s' t) = p + 4040" unfolding nt by (simp add: new_thread64_def)
    then show ?thesis
      using w [of 4040] w [of 4048] w [of 4056] w [of 4064] w [of 4072] w [of 4080] w [of 4088] initial_stack64_words [of T p m]
      by (simp add: cpu_switch64_regs add.assoc)
  qed
  have "threads64 ?s' u = threads64 s u" if "u \<noteq> t" "u \<noteq> Main_thread" for u using that by (simp add: insert_thread64_def)
  moreover have "fn_ptr64 (threads64 ?s' t) = f" "kstack64 (threads64 ?s' t) = p" unfolding nt by (simp_all add: new_thread64_def)
  ultimately show ?thesis
    using spawn_effect64 [OF lock assms(2-5), of T] inv start by (intro exI [of _ ?s']) simp
qed

section \<open>Samples\<close>

definition sample_thr64 :: thr64 where
  "sample_thr64 = \<lparr>io_in = \<lambda>_ _. 0x60, io_reads = 0, io_outs = [], g_serial_lock = 0, mem64 = \<lambda>_. 0, cr3_64 = 0x241000,
     lapic64_id_reg = 0, mmio64_in = \<lambda>_ _. 0, mmio64_reads = 0, mmio64_outs = [], apic_base_msr64 = (0, 0),
     g_tick64 = \<lambda>_. 0, g_need_resched64 = \<lambda>_. 0, g_defer_ring64 = \<lambda>_ _. 0, g_defer_w64 = \<lambda>_. 0, g_defer_r64 = \<lambda>_. 0,
     g_defer_overflow64 = \<lambda>_. 0, g_preempt_disable_depth64 = 0, if_flag64 = True,
     g_kheap64 = \<lparr>g_freelist64 = 0, g_heap_off64 = 0\<rparr>, threads64 = \<lambda>_. blank_thread64, g_current64 = \<lambda>_. None,
     g_idle_for_cpu64 = \<lambda>_. None, g_thread_rq_lock64 = 0, g_yield_from64 = None\<rparr>"

definition sample_syms64 :: text_syms64 where
  "sample_syms64 = \<lparr>at_ap_idle_fn64 = 0x201000, at_thread_trampoline64 = 0x202000, at_worker_a64 = 0x203000, at_worker_b64 = 0x204000\<rparr>"

abbreviation (input) started64 :: thr64 where
  "started64 \<equiv> thread_tables64 sample_thr64"

lemma started64_facts:
  "rq_inv (as_thr sample_thr started64) []" "thread_alloc_slot64 started64 = Some (Pool 0)"
  "kmalloc64 0x210000 4096 (mem64 started64, g_kheap64 started64)
    = Some (0x210010, st64w (\<lambda>_. 0) 0x210000 4112, \<lparr>g_freelist64 = 0, g_heap_off64 = 4112\<rparr>)"
proof -
  have l: "g_thread_rq_lock64 started64 = 0" "mem64 started64 = (\<lambda>_. 0)" "g_kheap64 started64 = \<lparr>g_freelist64 = 0, g_heap_off64 = 0\<rparr>"
    by (simp_all add: thread_tables64_def) (simp_all add: sample_thr64_def)
  have m: "threads64 started64 Main_thread = boot_thread64" "threads64 started64 (Pool i) = blank_thread64" for i
    by (simp_all add: thread_tables64_def) (simp add: sample_thr64_def)
  show "rq_inv (as_thr sample_thr started64) []"
    using l by (auto simp: rq_inv_def tq.ring_def m boot_thread64_def blank_thread64_def)
  show "thread_alloc_slot64 started64 = Some (Pool 0)"
    by (simp add: thread_alloc_slot64_def first_index.simps [of _ 0] m blank_thread64_def)
  have "heap_align_up64 (16 + 4096) 16 = 4112" by (simp add: heap_align_up64_def)
  then show "kmalloc64 0x210000 4096 (mem64 started64, g_kheap64 started64)
    = Some (0x210010, st64w (\<lambda>_. 0) 0x210000 4112, \<lparr>g_freelist64 = 0, g_heap_off64 = 4112\<rparr>)"
    using kmalloc64_bump [of "\<lparr>g_freelist64 = 0, g_heap_off64 = 0\<rparr>" 4096 "0x210000" "\<lambda>_. 0"] unfolding l by simp
qed

theorem thread_spawn64_correct_witness:
  "\<exists>s'. thread_spawn64 0x210000 sample_syms64 0x203000 started64 = Some s' \<and> kstack64 (threads64 s' (Pool 0)) = 0x210010"
  using thread_spawn64_correct [OF started64_facts(1,2) _ started64_facts(3), of "0x203000" sample_syms64] by auto

definition two_threads64 :: thr64 where
  "two_threads64 = started64\<lparr>threads64 := insert_thread64 (Pool 0) 0x203000 0x210010 (threads64 started64)\<rparr>"

lemma two_threads64_rr: "rr_state 0 [Pool 0] [Main_thread, Pool 0] 0 (as_thr sample_thr two_threads64)"
proof -
  obtain s' where s': "thread_spawn64 0x210000 sample_syms64 0x203000 started64 = Some s'" "rq_inv (as_thr sample_thr s') [Pool 0]"
    using thread_spawn64_correct [OF started64_facts(1,2) _ started64_facts(3), of "0x203000" sample_syms64] by auto
  have "g_thread_rq_lock64 started64 = 0" by (simp add: thread_tables64_def) (simp add: sample_thr64_def)
  from spawn_effect64 [OF this started64_facts(2) _ started64_facts(3), of "0x203000" sample_syms64] s'(1)
  have "as_thr sample_thr s' = as_thr sample_thr two_threads64" by (simp add: two_threads64_def as_thr_upd)
  then have inv: "rq_inv (as_thr sample_thr two_threads64) [Pool 0]" using s'(2) by simp
  have m: "threads64 two_threads64 Main_thread = boot_thread64\<lparr>nxt64 := Some (Pool 0)\<rparr>"
    "threads64 two_threads64 (Pool 0) = new_thread64 0x203000 0x210010 (Some Main_thread)" "g_current64 two_threads64 0 = Some Main_thread"
    by (simp_all add: two_threads64_def insert_thread64_def thread_tables64_def) (simp add: boot_thread64_def)
  show ?thesis using inv by (simp add: rr_state_def allowed_def m) (simp add: boot_thread64_def new_thread64_def)
qed


end
