(* ===== verification/Interrupts64.thy ===== *)
theory Interrupts64
  imports Idt64 Turns64 Interrupts
begin

text \<open>
  \<open>kernel/interrupt_amd64.c\<close> and the entry stubs \<open>arch/x86_64/irq_amd64.S\<close> and \<open>exc_amd64.S\<close>: device
  interrupts and exceptions of the x86-64 build, which has no system calls.
\<close>

record irq64 = thr64 +
  g_timer_lapic_eoi64 :: bool
  g_pic_ticks :: u64

text \<open>The struct \<open>verve_exc_frame\<close> of the x86-64 build, its fields in the order of their addresses.\<close>

record exc_frame64 =
  f_r15 :: u64
  f_r14 :: u64
  f_r13 :: u64
  f_r12 :: u64
  f_r11 :: u64
  f_r10 :: u64
  f_r9 :: u64
  f_r8 :: u64
  f_rdi :: u64
  f_rsi :: u64
  f_rbp :: u64
  f_rbx :: u64
  f_rdx :: u64
  f_rcx :: u64
  f_rax :: u64
  f_vec64 :: u64
  f_err64 :: u64
  f_rip :: u64
  f_cs64 :: u64
  f_rflags :: u64

section \<open>The handlers\<close>

definition irq_timer_set_lapic_eoi64 :: "bool \<Rightarrow> 'a irq64_scheme \<Rightarrow> 'a irq64_scheme" where
  "irq_timer_set_lapic_eoi64 on s = s\<lparr>g_timer_lapic_eoi64 := on\<rparr>"

definition amd64_pic_timer_ticks :: "'a irq64_scheme \<Rightarrow> u64" where
  "amd64_pic_timer_ticks s = g_pic_ticks s"

definition verve_irq_dispatch64 :: "exc_frame64 \<Rightarrow> 'a irq64_scheme \<Rightarrow> (exc_frame64, 'a irq64_scheme) outcome option" where
  "verve_irq_dispatch64 f s =
     (let v = f_vec64 f
      in if v = 64 then map_option (\<lambda>s1. Resumes f (lapic_eoi64 s1)) (sched_timer_tick64 s)
         else if v \<ge> 32 \<and> v < 48 then
           (let irq = (ucast (v - 32) :: u8)
            in map_option (\<lambda>s1. Resumes f (if g_timer_lapic_eoi64 s1 then lapic_eoi64 s1 else pic_send_eoi64 irq s1))
                 (if irq = 0 \<and> \<not> g_timer_lapic_eoi64 s then sched_timer_tick64 (s\<lparr>g_pic_ticks := g_pic_ticks s + 1\<rparr>)
                  else Some s))
         else map_option Halts
           (Option.bind (serial_puts (cstr ''[VerveOS] amd64 irq: unexpected vec=0x'') s) (\<lambda>s1.
            Option.bind (serial_put_u64_hex v s1) (serial_puts crlf))))"

text \<open>\<open>cr2\<close> is the value the CPU's register holds; the function then halts the CPU.\<close>

definition verve_exc_dispatch64 :: "u64 \<Rightarrow> exc_frame64 \<Rightarrow> 'a con_scheme \<Rightarrow> 'a con_scheme option" where
  "verve_exc_dispatch64 cr2 f s =
     Option.bind (serial_puts (crlf @ cstr ''[VerveOS] amd64 exception vec=0x'') s) (\<lambda>s1.
     Option.bind (serial_put_u64_hex (f_vec64 f) s1) (\<lambda>s2.
     Option.bind (serial_puts (cstr '' err=0x'') s2) (\<lambda>s3.
     Option.bind (serial_put_u64_hex (f_err64 f) s3) (\<lambda>s4.
     Option.bind (serial_puts crlf s4) (\<lambda>s5.
     Option.bind (serial_puts (cstr ''[VerveOS] RIP=0x'') s5) (\<lambda>s6.
     Option.bind (serial_put_u64_hex (f_rip f) s6) (\<lambda>s7.
     Option.bind (serial_puts (cstr '' CS=0x'') s7) (\<lambda>s8.
     Option.bind (serial_put_u64_hex (f_cs64 f) s8) (\<lambda>s9.
     Option.bind (serial_puts (cstr '' RFLAGS=0x'') s9) (\<lambda>s10.
     Option.bind (serial_put_u64_hex (f_rflags f) s10) (\<lambda>s11.
     Option.bind (serial_puts crlf s11) (\<lambda>s12.
     Option.bind (if f_vec64 f = 14 then
         Option.bind (serial_puts (cstr ''[VerveOS] #PF CR2=0x'') s12) (\<lambda>t1.
         Option.bind (serial_put_u64_hex cr2 t1) (serial_puts crlf))
       else Some s12) (serial_puts (cstr ''[VerveOS] halted after exception (amd64)'' @ crlf))))))))))))))"

section \<open>The entry stubs\<close>

text \<open>
  Both kinds of stub clear the interrupt flag, complete what the CPU has pushed (\<open>rip\<close>, \<open>cs\<close>,
  \<open>rflags\<close> and above them \<open>rsp\<close> and \<open>ss\<close>) with an error code, where the CPU pushes none, and the
  vector, push the registers and pass the address of the last word.  The handlers get the words
  above it as their struct.
\<close>

record gregs64 =
  q_rax :: u64
  q_rcx :: u64
  q_rdx :: u64
  q_rbx :: u64
  q_rbp :: u64
  q_rsi :: u64
  q_rdi :: u64
  q_r8 :: u64
  q_r9 :: u64
  q_r10 :: u64
  q_r11 :: u64
  q_r12 :: u64
  q_r13 :: u64
  q_r14 :: u64
  q_r15 :: u64

definition push_regs64 :: "gregs64 \<Rightarrow> u64 list \<Rightarrow> u64 list" where
  "push_regs64 r stack = fold (#) [q_rax r, q_rcx r, q_rdx r, q_rbx r, q_rbp r, q_rsi r, q_rdi r, q_r8 r, q_r9 r,
     q_r10 r, q_r11 r, q_r12 r, q_r13 r, q_r14 r, q_r15 r] stack"

definition pop_regs64 :: "u64 list \<Rightarrow> gregs64" where
  "pop_regs64 ws = \<lparr>q_rax = ws ! 14, q_rcx = ws ! 13, q_rdx = ws ! 12, q_rbx = ws ! 11, q_rbp = ws ! 10, q_rsi = ws ! 9,
     q_rdi = ws ! 8, q_r8 = ws ! 7, q_r9 = ws ! 6, q_r10 = ws ! 5, q_r11 = ws ! 4, q_r12 = ws ! 3, q_r13 = ws ! 2,
     q_r14 = ws ! 1, q_r15 = ws ! 0\<rparr>"

definition frame_of64 :: "u64 list \<Rightarrow> exc_frame64" where
  "frame_of64 ws = \<lparr>f_r15 = ws ! 0, f_r14 = ws ! 1, f_r13 = ws ! 2, f_r12 = ws ! 3, f_r11 = ws ! 4, f_r10 = ws ! 5,
     f_r9 = ws ! 6, f_r8 = ws ! 7, f_rdi = ws ! 8, f_rsi = ws ! 9, f_rbp = ws ! 10, f_rbx = ws ! 11, f_rdx = ws ! 12,
     f_rcx = ws ! 13, f_rax = ws ! 14, f_vec64 = ws ! 15, f_err64 = ws ! 16, f_rip = ws ! 17, f_cs64 = ws ! 18,
     f_rflags = ws ! 19\<rparr>"

definition words_of64 :: "exc_frame64 \<Rightarrow> u64 list" where
  "words_of64 f = [f_r15 f, f_r14 f, f_r13 f, f_r12 f, f_r11 f, f_r10 f, f_r9 f, f_r8 f, f_rdi f, f_rsi f, f_rbp f,
     f_rbx f, f_rdx f, f_rcx f, f_rax f, f_vec64 f, f_err64 f, f_rip f, f_cs64 f, f_rflags f]"

definition irq_entry64 :: "u64 \<Rightarrow> gregs64 \<Rightarrow> u64 \<Rightarrow> u64 \<Rightarrow> u64 \<Rightarrow> 'a irq64_scheme \<Rightarrow> (gregs64, 'a irq64_scheme) outcome option" where
  "irq_entry64 vec r rip cs rflags s =
     map_option (\<lambda>out. case out of Halts s' \<Rightarrow> Halts s'
         | Resumes f s' \<Rightarrow> Resumes (pop_regs64 (words_of64 f)) (s'\<lparr>if_flag64 := bit (f_rflags f) 9\<rparr>))
       (verve_irq_dispatch64 (frame_of64 (push_regs64 r [vec, 0, rip, cs, rflags])) (s\<lparr>if_flag64 := False\<rparr>))"

text \<open>The vectors for which \<open>exc_amd64.S\<close> uses \<open>ISR_EC\<close>.\<close>

definition isr_ec :: "u64 list" where
  "isr_ec = [8, 10, 11, 12, 13, 14, 17]"

text \<open>\<open>stack\<close> is what the CPU has pushed, an error code first where the exception has one.\<close>

definition exc_entry64 :: "u64 \<Rightarrow> gregs64 \<Rightarrow> u64 \<Rightarrow> u64 list \<Rightarrow> 'a irq64_scheme \<Rightarrow> 'a irq64_scheme option" where
  "exc_entry64 vec r cr2 stack s =
     verve_exc_dispatch64 cr2 (frame_of64 (push_regs64 r (vec # (if vec \<in> set isr_ec then stack else 0 # stack))))
       (s\<lparr>if_flag64 := False\<rparr>)"

section \<open>Frames and registers\<close>

lemma pop_push64: "pop_regs64 (push_regs64 r ws) = r"
  by (simp add: pop_regs64_def push_regs64_def)

lemma words_frame64: "words_of64 (frame_of64 (push_regs64 r [v, e, rip, cs, fl])) = push_regs64 r [v, e, rip, cs, fl]"
  by (simp add: words_of64_def frame_of64_def push_regs64_def)

lemma frame64_sel:
  "f_vec64 (frame_of64 (push_regs64 r (v # e # rip # cs # fl # ws))) = v"
  "f_err64 (frame_of64 (push_regs64 r (v # e # rip # cs # fl # ws))) = e"
  "f_rip (frame_of64 (push_regs64 r (v # e # rip # cs # fl # ws))) = rip"
  "f_cs64 (frame_of64 (push_regs64 r (v # e # rip # cs # fl # ws))) = cs"
  "f_rflags (frame_of64 (push_regs64 r (v # e # rip # cs # fl # ws))) = fl"
  by (simp_all add: frame_of64_def push_regs64_def)

section \<open>Device interrupts\<close>

text \<open>The tick of an interrupt, whatever it prints, leaves the controllers alone.\<close>

definition devices_kept :: "'a irq64_scheme \<Rightarrow> 'a irq64_scheme \<Rightarrow> bool" where
  "devices_kept s s' \<longleftrightarrow> mmio64_outs s' = mmio64_outs s \<and> sent PIC1_CMD s' = sent PIC1_CMD s
     \<and> sent PIC2_CMD s' = sent PIC2_CMD s \<and> g_timer_lapic_eoi64 s' = g_timer_lapic_eoi64 s
     \<and> g_pic_ticks s' = g_pic_ticks s"

lemma tick_irq64:
  fixes s :: "'a irq64_scheme"
  assumes "con_ok s"
  shows "returns (sched_timer_tick64 s) (\<lambda>s'. devices_kept s s' \<and> con_ok s' \<and> g_tick64 s' = (g_tick64 s)(0 := g_tick64 s 0 + 1))"
proof -
  define t where "t = g_tick64 s 0 + 1"
  define s1 where "s1 = s\<lparr>g_tick64 := (g_tick64 s)(0 := t)\<rparr>"
  have con: "con_ok s1" using assms by (simp add: s1_def con_ok_def uart_live_def)
  let ?f = "\<lambda>s2 :: 'a irq64_scheme. if t mod 5 = 0 then defer_push_tick64 0 t (s2\<lparr>g_need_resched64 := (g_need_resched64 s2)(0 := 1)\<rparr>) else s2"
  have Q: "devices_kept s (?f s2) \<and> con_ok (?f s2) \<and> g_tick64 (?f s2) = (g_tick64 s)(0 := g_tick64 s 0 + 1)"
    if p: "prints s1 m s2" for m s2
  proof -
    obtain n where s2: "s2 = s1\<lparr>io_reads := n, io_outs := io_outs s1 @ map (\<lambda>c. (COM1_DATA, c)) m\<rparr>"
      using p by (auto simp: prints_def)
    have "filter (\<lambda>e. fst e = q) (map (\<lambda>c. (COM1_DATA, c)) m) = []" if "q \<noteq> COM1_DATA" for q
      using that by (auto simp: filter_empty_conv)
    then show ?thesis
      using con by (simp add: s2 s1_def t_def devices_kept_def sent_def defer_push_tick64_def con_ok_def uart_live_def Let_def)
  qed
  have cpu: "sched_cpu_ix64 s = 0" by (rule tv.cpu_ix_view)
  note code = sched_timer_tick64_def [of s, unfolded Let_def cpu, folded t_def, folded s1_def]
  show ?thesis
  proof (cases "t \<le> 5")
    case True
    show ?thesis
      unfolding code using True
      by (simp only: simp_thms if_True)
        (intro returns_map returns_bind returns_puts returns_hex con; (assumption | rule Q, blast intro: prints_trans))
  next
    case False
    then show ?thesis unfolding code using Q [of "[]" s1] by simp
  qed
qed

definition lapic_eois64 :: "'a irq64_scheme \<Rightarrow> 'a irq64_scheme \<Rightarrow> nat \<Rightarrow> bool" where
  "lapic_eois64 s s' n \<longleftrightarrow> mmio64_outs s' = mmio64_outs s @ replicate n (LAPIC64_BASE + 0xB0, 0)"

definition pic_eois64 :: "'a irq64_scheme \<Rightarrow> 'a irq64_scheme \<Rightarrow> nat \<Rightarrow> nat \<Rightarrow> bool" where
  "pic_eois64 s s' n m \<longleftrightarrow> sent PIC1_CMD s' = sent PIC1_CMD s @ replicate n 0x20 \<and> sent PIC2_CMD s' = sent PIC2_CMD s @ replicate m 0x20"

lemma irq_of_vec:
  assumes "32 \<le> unat (v :: u64)" and "unat v < 48"
  shows "(ucast (v - 32) :: u8) = 0 \<longleftrightarrow> v = 32" and "(8 :: u8) \<le> ucast (v - 32) \<longleftrightarrow> \<not> unat v < 40"
proof -
  have "unat (v - 32) = unat v - 32" using assms by (simp add: unat_minus word_le_nat_alt)
  then have u: "unat (ucast (v - 32) :: u8) = unat v - 32" using assms by (simp add: unsigned_ucast_eq take_bit_eq_mod)
  show "(ucast (v - 32) :: u8) = 0 \<longleftrightarrow> v = 32" using u assms by (simp add: word_unat_eq_iff)
  show "(8 :: u8) \<le> ucast (v - 32) \<longleftrightarrow> \<not> unat v < 40" using u assms by (auto simp: word_le_nat_alt)
qed

text \<open>
  C19: device interrupts of the x86-64 build.  An interrupt with vector 32 to 47 or 64 returns to
  the interrupted code with all fifteen registers and the interrupt flag as they were.  The
  timer interrupt of the controller in use, and no other, counts one tick; exactly one end of
  interrupt is signalled, to the local APIC (vector 64, and the others once the LAPIC timer is
  in use) or to the 8259 that raised it, the master included when it was the slave.
\<close>

theorem irq64_acknowledged:
  assumes "con_ok s" and "(32 \<le> unat v \<and> unat v < 48) \<or> v = 64"
  shows "\<exists>s'. irq_entry64 v r rip cs fl s = Some (Resumes r s') \<and> if_flag64 s' = bit fl 9
    \<and> g_tick64 s' = (if v = 64 \<or> v = 32 \<and> \<not> g_timer_lapic_eoi64 s then (g_tick64 s)(0 := g_tick64 s 0 + 1) else g_tick64 s)
    \<and> g_pic_ticks s' = (if v = 32 \<and> \<not> g_timer_lapic_eoi64 s then g_pic_ticks s + 1 else g_pic_ticks s)
    \<and> (if v = 64 \<or> g_timer_lapic_eoi64 s then lapic_eois64 s s' 1 \<and> pic_eois64 s s' 0 0
       else lapic_eois64 s s' 0 \<and> pic_eois64 s s' 1 (if unat v < 40 then 0 else 1))"
proof -
  define s0 where "s0 = s\<lparr>if_flag64 := False\<rparr>"
  define pit where "pit \<longleftrightarrow> v = 32 \<and> \<not> g_timer_lapic_eoi64 s"
  define s1 where "s1 = (if pit then s0\<lparr>g_pic_ticks := g_pic_ticks s + 1\<rparr> else s0)"
  let ?f = "frame_of64 (push_regs64 r [v, 0, rip, cs, fl])"
  have con: "con_ok s1" using assms(1) by (simp add: s1_def s0_def con_ok_def uart_live_def)
  have s1: "mmio64_outs s1 = mmio64_outs s" "sent q s1 = sent q s" "g_tick64 s1 = g_tick64 s"
      "g_timer_lapic_eoi64 s1 = g_timer_lapic_eoi64 s" "g_pic_ticks s1 = (if pit then g_pic_ticks s + 1 else g_pic_ticks s)" for q
    by (simp_all add: s1_def s0_def sent_def)
  obtain t where t: "sched_timer_tick64 s1 = Some t" "devices_kept s1 t" "g_tick64 t = (g_tick64 s)(0 := g_tick64 s 0 + 1)"
    using tick_irq64 [OF con] s1(3) by (auto simp: returns_def)
  have entry: "irq_entry64 v r rip cs fl s = Some (Resumes r (u\<lparr>if_flag64 := bit fl 9\<rparr>))"
    if "verve_irq_dispatch64 ?f s0 = Some (Resumes ?f u)" for u
    using that by (simp add: irq_entry64_def s0_def words_frame64 pop_push64 frame64_sel)
  show ?thesis
  proof (cases "v = 64")
    case True
    then have np: "\<not> pit" and "s1 = s0" by (simp_all add: pit_def s1_def)
    then have "verve_irq_dispatch64 ?f s0 = Some (Resumes ?f (lapic_eoi64 t))"
      using True t(1) by (simp add: verve_irq_dispatch64_def frame64_sel)
    from entry [OF this] show ?thesis
      using True np t(2,3) s1
      by (intro exI [of _ "(lapic_eoi64 t)\<lparr>if_flag64 := bit fl 9\<rparr>"])
        (simp add: lapic_eois64_def pic_eois64_def lapic_eoi64_def mmio_w32_64_def sent_def devices_kept_def)
  next
    case False
    then have rng: "32 \<le> unat v" "unat v < 48" using assms(2) by auto
    define u where "u = (if pit then t else s1)"
    have u: "devices_kept s1 u" "g_tick64 u = (if pit then (g_tick64 s)(0 := g_tick64 s 0 + 1) else g_tick64 s)"
      using t(2,3) s1 by (simp_all add: u_def devices_kept_def)
    let ?s' = "if g_timer_lapic_eoi64 s then lapic_eoi64 u else pic_send_eoi64 (ucast (v - 32)) u"
    have r: "v \<ge> 32 \<and> v < 48" using rng by (simp add: word_le_nat_alt word_less_nat_alt)
    have eoi: "g_timer_lapic_eoi64 u = g_timer_lapic_eoi64 s" using u(1) s1 by (simp add: devices_kept_def)
    have "(if v = 32 \<and> \<not> g_timer_lapic_eoi64 s0 then sched_timer_tick64 (s0\<lparr>g_pic_ticks := g_pic_ticks s0 + 1\<rparr>) else Some s0) = Some u"
      using t(1) by (cases pit) (auto simp: u_def s1_def pit_def s0_def)
    then have "verve_irq_dispatch64 ?f s0 = Some (Resumes ?f ?s')"
      unfolding verve_irq_dispatch64_def Let_def frame64_sel if_not_P [OF False] if_P [OF r] irq_of_vec(1) [OF rng]
      by (simp add: eoi)
    from entry [OF this] show ?thesis
      using False u s1 irq_of_vec(2) [OF rng]
      by (intro exI [of _ "?s'\<lparr>if_flag64 := bit fl 9\<rparr>"])
        (simp add: lapic_eois64_def pic_eois64_def lapic_eoi64_def mmio_w32_64_def pic_send_eoi64_def sent_def verve_outb_def
          devices_kept_def pit_def)
  qed
qed

definition sample_irq64 :: irq64 where
  "sample_irq64 = thr64.extend sample_thr64 \<lparr>g_timer_lapic_eoi64 = False, g_pic_ticks = 0\<rparr>"

lemma sample_irq64_con: "con_ok sample_irq64"
  by (auto simp: con_ok_def uart_live_def sample_irq64_def thr64.extend_def sample_thr64_def)

theorem irq64_acknowledged_witness:
  "\<exists>s'. irq_entry64 0x2C (pop_regs64 [0, 1, 2, 3, 4, 5, 6, 7, 8, 9, 10, 11, 12, 13, 14]) 0x200000 8 0x202 sample_irq64
      = Some (Resumes (pop_regs64 [0, 1, 2, 3, 4, 5, 6, 7, 8, 9, 10, 11, 12, 13, 14]) s')
    \<and> pic_eois64 sample_irq64 s' 1 1"
  using irq64_acknowledged [OF sample_irq64_con, of "0x2C" "pop_regs64 [0, 1, 2, 3, 4, 5, 6, 7, 8, 9, 10, 11, 12, 13, 14]" "0x200000" 8 "0x202"]
  by (auto simp: sample_irq64_def thr64.extend_def sample_thr64_def split: if_splits)

section \<open>Exceptions\<close>

text \<open>What the CPU pushes: the exceptions that have an error code, by the documentation of the architecture.\<close>

definition has_err :: "u64 \<Rightarrow> bool" where
  "has_err v \<longleftrightarrow> v = 8 \<or> v = 17 \<or> (10 \<le> v \<and> v \<le> 14)"

definition cpu_pushes :: "u64 \<Rightarrow> u64 \<Rightarrow> u64 \<Rightarrow> u64 \<Rightarrow> u64 \<Rightarrow> u64 list \<Rightarrow> u64 list" where
  "cpu_pushes v err rip cs rflags below = (if has_err v then [err] else []) @ [rip, cs, rflags] @ below"

lemma isr_ec_iff: "v \<in> set isr_ec \<longleftrightarrow> has_err v"
proof -
  have "v = 10 \<or> v = 11 \<or> v = 12 \<or> v = 13 \<or> v = 14" if "10 \<le> v" "v \<le> 14"
  proof -
    have "unat v = 10 \<or> unat v = 11 \<or> unat v = 12 \<or> unat v = 13 \<or> unat v = 14"
      using that by (simp add: word_le_nat_alt) linarith
    then show ?thesis by (simp add: word_unat_eq_iff)
  qed
  then show ?thesis by (auto simp: isr_ec_def has_err_def)
qed

text \<open>The line about CR2, as one step of the message.\<close>

lemma returns_cr2:
  fixes s :: "'a con_scheme"
  assumes "con_ok s"
    and "\<And>s'. prints s (if v = 14 then cstr ''[VerveOS] #PF CR2=0x'' @ hex_buf cr2 @ crlf else []) s' \<Longrightarrow> con_ok s' \<Longrightarrow> Q s'"
  shows "returns (if v = (14 :: u64) then
      Option.bind (serial_puts (cstr ''[VerveOS] #PF CR2=0x'') s) (\<lambda>t1. Option.bind (serial_put_u64_hex cr2 t1) (serial_puts crlf))
    else Some s) Q"
proof (cases "v = 14")
  case True
  show ?thesis
    unfolding if_P [OF True]
    by (rule returns_bind returns_puts returns_hex assms(1) | assumption)+
      (rule assms(2), unfold if_P [OF True], blast intro: prints_trans)
qed (use assms in simp)

definition exc_text64 :: "u64 \<Rightarrow> u64 \<Rightarrow> u64 \<Rightarrow> u64 \<Rightarrow> u64 \<Rightarrow> u64 \<Rightarrow> u8 list" where
  "exc_text64 v err rip cs rflags cr2 =
     (crlf @ cstr ''[VerveOS] amd64 exception vec=0x'') @ hex_buf v @ cstr '' err=0x'' @ hex_buf err @ crlf
     @ cstr ''[VerveOS] RIP=0x'' @ hex_buf rip @ cstr '' CS=0x'' @ hex_buf cs @ cstr '' RFLAGS=0x'' @ hex_buf rflags @ crlf
     @ (if v = 14 then cstr ''[VerveOS] #PF CR2=0x'' @ hex_buf cr2 @ crlf else [])
     @ cstr ''[VerveOS] halted after exception (amd64)'' @ crlf"



end
