(* ===== verification/Paging64.thy ===== *)
theory Paging64
  imports Machine64
begin

text \<open>
  \<open>arch/x86_64/paging_amd64.c\<close>: the identity map of the x86-64 build, with pages of two MiB.
  The tables are static arrays; their addresses are parameters.
\<close>

record tables64 =
  boot_pml4 :: u64
  boot_pdpt :: u64
  boot_pds :: u64

section \<open>The code\<close>

abbreviation (input) PTE_PRESENT :: u64 where "PTE_PRESENT \<equiv> 1"
abbreviation (input) PTE_RW :: u64 where "PTE_RW \<equiv> 2"
abbreviation (input) PTE_PS :: u64 where "PTE_PS \<equiv> 0x80"
abbreviation (input) PAGE_2M :: u64 where "PAGE_2M \<equiv> 0x200000"
abbreviation (input) MAX_PD :: u64 where "MAX_PD \<equiv> 64"

text \<open>The address of \<open>p[i]\<close> for an array of \<open>uint64_t\<close>, and of \<open>boot_pd[i][0]\<close>.\<close>

definition slot64 :: "u64 \<Rightarrow> nat \<Rightarrow> u64" where
  "slot64 p i = p + of_nat (8 * i)"

definition pd_at :: "tables64 \<Rightarrow> nat \<Rightarrow> u64" where
  "pd_at T i = boot_pds T + of_nat (4096 * i)"

fun tbl_zero :: "u64 \<Rightarrow> nat \<Rightarrow> nat \<Rightarrow> memory64 \<Rightarrow> memory64" where
  "tbl_zero p i 0 m = m"
| "tbl_zero p i (Suc n) m = tbl_zero p (Suc i) n (st64w m (slot64 p i) 0)"

text \<open>The loop over \<open>j\<close>, with its \<open>break\<close>.\<close>

fun fill_pd :: "u64 \<Rightarrow> u64 \<Rightarrow> nat \<Rightarrow> nat \<Rightarrow> nat \<Rightarrow> memory64 \<Rightarrow> memory64" where
  "fill_pd n2m pd pd_idx j 0 m = m"
| "fill_pd n2m pd pd_idx j (Suc n) m =
     (let glob = of_nat pd_idx * 512 + of_nat j
      in if glob \<ge> n2m then m
         else fill_pd n2m pd pd_idx (Suc j) n
                (st64w m (slot64 pd j) (push_bit 21 glob OR PTE_PRESENT OR PTE_RW OR PTE_PS)))"

fun fill_pds :: "tables64 \<Rightarrow> u64 \<Rightarrow> nat \<Rightarrow> nat \<Rightarrow> memory64 \<Rightarrow> memory64" where
  "fill_pds T n2m pd_idx 0 m = m"
| "fill_pds T n2m pd_idx (Suc n) m =
     (let pd_phys = pd_at T pd_idx
      in fill_pds T n2m (Suc pd_idx) n
           (fill_pd n2m pd_phys pd_idx 0 512 (st64w m (slot64 (boot_pdpt T) pd_idx) (pd_phys OR PTE_PRESENT OR PTE_RW))))"

definition zero_tables :: "tables64 \<Rightarrow> memory64 \<Rightarrow> memory64" where
  "zero_tables T m =
     fold (\<lambda>i. tbl_zero (pd_at T i) 0 512) [0..<64] (tbl_zero (boot_pdpt T) 0 512 (tbl_zero (boot_pml4 T) 0 512 m))"

definition paging_amd64_identity_init :: "tables64 \<Rightarrow> u64 \<Rightarrow> 'a kern64_scheme \<Rightarrow> bool \<times> 'a kern64_scheme" where
  "paging_amd64_identity_init T max_phys_exclusive s =
     (let span = max_phys_exclusive
      in if span = 0 \<or> span > MAX_PD * (512 * PAGE_2M) then (False, s)
      else let n2m = drop_bit 21 (span + PAGE_2M - 1);
               n_pd = (ucast ((n2m + 511) div 512) :: u32)
      in if n_pd = 0 \<or> n_pd > 64 then (False, s)
      else let m1 = zero_tables T (mem64 s);
               m2 = st64w m1 (slot64 (boot_pml4 T) 0) (boot_pdpt T OR PTE_PRESENT OR PTE_RW);
               m3 = fill_pds T n2m 0 (unat n_pd) m2
           in (True, s\<lparr>mem64 := m3, cr3_64 := boot_pml4 T\<rparr>))"

section \<open>Tables as arrays\<close>

text \<open>
  The tables are page aligned, below \<open>2 ^ 52\<close>, and do not overlap: what the linker and the
  \<open>aligned\<close> attributes give.
\<close>

definition table_pages :: "tables64 \<Rightarrow> u64 list" where
  "table_pages T = boot_pml4 T # boot_pdpt T # map (pd_at T) [0..<64]"

definition tables64_ok :: "tables64 \<Rightarrow> bool" where
  "tables64_ok T \<longleftrightarrow> list_all (\<lambda>p. unat p mod 4096 = 0 \<and> unat p < 4503599627370496) (table_pages T) \<and> distinct (table_pages T)"

definition page64 :: "u64 \<Rightarrow> bool" where
  "page64 p \<longleftrightarrow> unat p mod 4096 = 0 \<and> unat p < 4503599627370496"

lemma page64_number:
  assumes "page64 p"
  shows "unat p = 4096 * (unat p div 4096)" and "unat p div 4096 < 1099511627776"
proof -
  have p: "unat p mod 4096 = 0" "unat p < 4503599627370496" using assms unfolding page64_def by blast+
  show "unat p = 4096 * (unat p div 4096)" using mult_div_mod_eq [of 4096 "unat p"] p(1) by linarith
  have "4503599627370496 = (1099511627776 * 4096 :: nat)" by simp
  then show "unat p div 4096 < 1099511627776" using p(2) by (intro less_mult_imp_div_less) linarith
qed

lemma unat_slot64: "page64 p \<Longrightarrow> i < 512 \<Longrightarrow> unat (slot64 p i) = unat p + 8 * i"
  unfolding slot64_def page64_def by (intro unat_plus64) simp

lemma slots_apart:
  assumes "page64 p" and "page64 q" and "i < 512" and "j < 512" and "(p, i) \<noteq> (q, j)"
  shows "ld64w (st64w m (slot64 p i) v) (slot64 q j) = ld64w m (slot64 q j)"
proof -
  let ?a = "slot64 p i" and ?b = "slot64 q j"
  have a: "unat ?a = unat p + 8 * i" and b: "unat ?b = unat q + 8 * j" using assms unat_slot64 by blast+
  define k l where "k = unat p div 4096" and "l = unat q div 4096"
  have kl: "unat p = 4096 * k" "unat q = 4096 * l" and kl2: "k < 1099511627776" "l < 1099511627776"
    unfolding k_def l_def by (rule page64_number [OF assms(1)] page64_number [OF assms(2)])+
  have "k \<noteq> l \<or> i \<noteq> j" using assms(5) kl by (metis word_unat_eq_iff)
  moreover have "(512 * k + i) div 512 = k" "(512 * k + i) mod 512 = i" "(512 * l + j) div 512 = l" "(512 * l + j) mod 512 = j"
    using assms(3,4) by simp_all
  ultimately have ne: "512 * k + i \<noteq> 512 * l + j" by metis
  show ?thesis
  proof (cases "512 * k + i < 512 * l + j")
    case True
    define d where "d = 8 * (512 * l + j - (512 * k + i))"
    have "unat ?a + d = unat ?b" using a b kl True by (simp add: d_def)
    moreover have "unat ?a + d < 18446744073709551616" using unat_lt64 [of ?b] calculation by simp
    ultimately have "?b = ?a + of_nat d" using unat_plus64 [of ?a d] by (simp add: word_unat_eq_iff)
    moreover have "8 \<le> d" "d \<le> 18446744073709551608" using True kl2 assms(3,4) by (simp_all add: d_def)
    ultimately show ?thesis by (rule ld64w_st64w_diff(1))
  next
    case False
    define d where "d = 8 * (512 * k + i - (512 * l + j))"
    have "unat ?b + d = unat ?a" using a b kl False ne by (simp add: d_def)
    moreover have "unat ?b + d < 18446744073709551616" using unat_lt64 [of ?a] calculation by simp
    ultimately have "?a = ?b + of_nat d" using unat_plus64 [of ?b d] by (simp add: word_unat_eq_iff)
    moreover have "8 \<le> d" "d \<le> 18446744073709551608" using False ne kl2 assms(3,4) by (simp_all add: d_def)
    ultimately show ?thesis by (rule ld64w_st64w_diff(2))
  qed
qed

text \<open>\<open>tb m p i\<close> is entry \<open>i\<close> of the table at \<open>p\<close>; a store to an entry changes that entry only.\<close>

definition tb :: "memory64 \<Rightarrow> u64 \<Rightarrow> nat \<Rightarrow> u64" where
  "tb m p i = ld64w m (slot64 p i)"

lemma tb_store:
  "page64 p \<Longrightarrow> page64 q \<Longrightarrow> i < 512 \<Longrightarrow> j < 512 \<Longrightarrow> tb (st64w m (slot64 p i) v) q j = (if p = q \<and> i = j then v else tb m q j)"
  using slots_apart [of p q i j m v] by (auto simp: tb_def ld64w_st64w_same)

lemma tb_zero:
  assumes "page64 p" and "page64 q" and "i + n \<le> 512" and "j < 512"
  shows "tb (tbl_zero p i n m) q j = (if p = q \<and> i \<le> j \<and> j < i + n then 0 else tb m q j)"
  using assms(3)
proof (induction n arbitrary: i m)
  case 0
  then show ?case by auto
next
  case (Suc n)
  then have "tb (tbl_zero p i (Suc n) m) q j
      = (if p = q \<and> Suc i \<le> j \<and> j < Suc i + n then 0 else tb (st64w m (slot64 p i) 0) q j)" by simp
  moreover have "tb (st64w m (slot64 p i) 0) q j = (if p = q \<and> i = j then 0 else tb m q j)"
    using Suc.prems assms by (intro tb_store) auto
  ultimately show ?case by auto
qed

definition leaf64 :: "nat \<Rightarrow> u64" where
  "leaf64 g = push_bit 21 (of_nat g) OR PTE_PRESENT OR PTE_RW OR PTE_PS"

lemma tb_fill_pd:
  assumes "page64 p" and "page64 q" and "i + n \<le> 512" and "j < 512" and "k < 64" and "N \<le> 32768"
  shows "tb (fill_pd (of_nat N) p k i n m) q j
    = (if p = q \<and> i \<le> j \<and> j < i + n \<and> k * 512 + j < N then leaf64 (k * 512 + j) else tb m q j)"
  using assms(3)
proof (induction n arbitrary: i m)
  case 0
  then show ?case by auto
next
  case (Suc n)
  let ?g = "of_nat k * 512 + of_nat i :: u64"
  have g: "?g = of_nat (k * 512 + i)" by simp
  have lt: "?g \<ge> of_nat N \<longleftrightarrow> N \<le> k * 512 + i"
    unfolding g word_le_nat_alt using Suc.prems assms(5,6) by (simp only: unat_of_nat64)
  show ?case
  proof (cases "N \<le> k * 512 + i")
    case True
    then show ?thesis using lt by (auto simp: Let_def)
  next
    case False
    have "tb (fill_pd (of_nat N) p k i (Suc n) m) q j
        = tb (fill_pd (of_nat N) p k (Suc i) n (st64w m (slot64 p i) (leaf64 (k * 512 + i)))) q j"
      using False lt by (simp add: Let_def leaf64_def g del: of_nat_add of_nat_mult)
    also have "\<dots> = (if p = q \<and> Suc i \<le> j \<and> j < Suc i + n \<and> k * 512 + j < N then leaf64 (k * 512 + j)
        else tb (st64w m (slot64 p i) (leaf64 (k * 512 + i))) q j)" using Suc.prems by (intro Suc.IH) simp
    also have "tb (st64w m (slot64 p i) (leaf64 (k * 512 + i))) q j = (if p = q \<and> i = j then leaf64 (k * 512 + i) else tb m q j)"
      using Suc.prems assms by (intro tb_store) auto
    finally show ?thesis using False by auto
  qed
qed

lemma table_page64: "tables64_ok T \<Longrightarrow> page64 (boot_pml4 T)" "tables64_ok T \<Longrightarrow> page64 (boot_pdpt T)"
  "tables64_ok T \<Longrightarrow> k < 64 \<Longrightarrow> page64 (pd_at T k)"
  by (auto simp: tables64_ok_def table_pages_def page64_def list_all_iff)

lemma tables_distinct:
  assumes "tables64_ok T"
  shows "boot_pml4 T \<noteq> boot_pdpt T" "k < 64 \<Longrightarrow> boot_pml4 T \<noteq> pd_at T k" "k < 64 \<Longrightarrow> boot_pdpt T \<noteq> pd_at T k"
    "k < 64 \<Longrightarrow> l < 64 \<Longrightarrow> pd_at T k = pd_at T l \<longleftrightarrow> k = l"
proof -
  have d: "distinct (boot_pml4 T # boot_pdpt T # map (pd_at T) [0..<64])"
    using assms by (simp only: tables64_ok_def table_pages_def)
  show "boot_pml4 T \<noteq> boot_pdpt T" using d by simp
  show "boot_pml4 T \<noteq> pd_at T k" "boot_pdpt T \<noteq> pd_at T k" if "k < 64" using d that by (auto simp: image_iff)
  have "inj_on (pd_at T) (set [0..<64])" using d by (simp add: distinct_map)
  then show "pd_at T k = pd_at T l \<longleftrightarrow> k = l" if "k < 64" "l < 64" using that by (auto dest: inj_onD)
qed

lemma fill_pds_effect:
  assumes "tables64_ok T" and "N \<le> 32768" and "j < 512" and "a + n \<le> 64"
  shows "tb (fill_pds T (of_nat N) a n m) (boot_pdpt T) j
      = (if a \<le> j \<and> j < a + n then pd_at T j OR PTE_PRESENT OR PTE_RW else tb m (boot_pdpt T) j)
    \<and> (\<forall>k<64. tb (fill_pds T (of_nat N) a n m) (pd_at T k) j
      = (if a \<le> k \<and> k < a + n \<and> k * 512 + j < N then leaf64 (k * 512 + j) else tb m (pd_at T k) j))
    \<and> tb (fill_pds T (of_nat N) a n m) (boot_pml4 T) j = tb m (boot_pml4 T) j"
  using assms(4)
proof (induction n arbitrary: a m)
  case 0
  then show ?case by auto
next
  case (Suc n)
  note pg = table_page64 [OF assms(1)] and ne = tables_distinct [OF assms(1)]
  define m1 where "m1 = st64w m (slot64 (boot_pdpt T) a) (pd_at T a OR PTE_PRESENT OR PTE_RW)"
  define m2 where "m2 = fill_pd (of_nat N) (pd_at T a) a 0 512 m1"
  have a: "a < 64" using Suc.prems by simp
  have code: "fill_pds T (of_nat N) a (Suc n) m = fill_pds T (of_nat N) (Suc a) n m2"
    unfolding m2_def m1_def by (simp only: fill_pds.simps Let_def)
  have step: "tb m2 q j = (if q = pd_at T a \<and> a * 512 + j < N then leaf64 (a * 512 + j)
      else if q = boot_pdpt T \<and> a = j then pd_at T a OR PTE_PRESENT OR PTE_RW else tb m q j)" if "page64 q" for q
    using tb_fill_pd [OF pg(3) [OF a] that, of 0 512 j a N m1] tb_store [OF pg(2) that, of a j m] a assms(2,3)
    unfolding m2_def m1_def by auto
  note IH = Suc.IH [of "Suc a" m2]
  have "tb (fill_pds T (of_nat N) (Suc a) n m2) (boot_pdpt T) j
      = (if a \<le> j \<and> j < a + Suc n then pd_at T j OR PTE_PRESENT OR PTE_RW else tb m (boot_pdpt T) j)"
    using IH step [OF pg(2)] ne(3) [OF a] Suc.prems by (auto split: if_splits)
  moreover have "tb (fill_pds T (of_nat N) (Suc a) n m2) (pd_at T k) j
      = (if a \<le> k \<and> k < a + Suc n \<and> k * 512 + j < N then leaf64 (k * 512 + j) else tb m (pd_at T k) j)" if "k < 64" for k
    using IH step [OF pg(3) [OF that]] ne(3) [OF that] ne(4) [OF that a] Suc.prems that by (auto split: if_splits)
  moreover have "tb (fill_pds T (of_nat N) (Suc a) n m2) (boot_pml4 T) j = tb m (boot_pml4 T) j"
    using IH step [OF pg(1)] ne(1) ne(2) [OF a] Suc.prems by simp
  ultimately show ?case unfolding code by blast
qed

lemma tb_zero_tables:
  assumes "tables64_ok T" and "p \<in> set (table_pages T)" and "j < 512"
  shows "tb (zero_tables T m) p j = 0"
proof -
  note pg = table_page64 [OF assms(1)]
  have fold: "tb (fold (\<lambda>i. tbl_zero (pd_at T i) 0 512) xs m) q j = (if \<exists>i\<in>set xs. q = pd_at T i then 0 else tb m q j)"
    if "set xs \<subseteq> {..<64}" "page64 q" for xs m q
    using that
  proof (induction xs arbitrary: m)
    case (Cons x xs)
    then show ?case using tb_zero [OF pg(3) [of x] that(2), of 0 512 j m] assms(3) by auto
  qed simp
  let ?m2 = "tbl_zero (boot_pdpt T) 0 512 (tbl_zero (boot_pml4 T) 0 512 m)"
  have "page64 p" using assms(1,2) by (auto simp: tables64_ok_def page64_def list_all_iff)
  then have "tb (zero_tables T m) p j = (if \<exists>i\<in>set [0..<64]. p = pd_at T i then 0 else tb ?m2 p j)"
    unfolding zero_tables_def by (intro fold) auto
  moreover have "tb ?m2 p j = 0" if "p = boot_pml4 T \<or> p = boot_pdpt T"
    using that tb_zero [OF pg(2) \<open>page64 p\<close>, of 0 512 j "tbl_zero (boot_pml4 T) 0 512 m"] tb_zero [OF pg(1) \<open>page64 p\<close>, of 0 512 j m] assms(3) by auto
  ultimately show ?thesis using assms(2) by (auto simp: table_pages_def)
qed

section \<open>The walk\<close>

lemma page64_bits: "page64 p \<Longrightarrow> bit p n \<Longrightarrow> 12 \<le> n \<and> n < 52"
proof -
  assume p: "page64 p" and b: "bit p n"
  have "unat (take_bit 12 p) = unat p mod 4096" by (simp only: unsigned_take_bit_eq) (simp only: take_bit_eq_mod, simp)
  then have "unat (take_bit 12 p) = 0" using p unfolding page64_def by metis
  then have "take_bit 12 p = 0" by (simp only: unat_eq_0)
  then have lo: "\<not> n < 12" using b by (metis bit_0_eq bit_take_bit_iff bot_apply bot_bool_def)
  have "unat (take_bit 52 p) = unat p"
    using p unfolding page64_def unsigned_take_bit_eq by (intro take_bit_nat_eq_self) simp
  then have "take_bit 52 p = p" by (simp only: word_unat_eq_iff)
  then have "n < 52" using b by (metis bit_take_bit_iff)
  with lo show ?thesis by simp
qed

lemma word_masks: "(0x000FFFFFFFFFF000 :: u64) = push_bit 12 (mask 40)" "(0x000FFFFFFFE00000 :: u64) = push_bit 21 (mask 31)"
  "(0x1FFFFF :: u64) = mask 21" "(0x1FF :: u64) = mask 9" "(0x80 :: u64) = push_bit 7 1" "(2 :: u64) = push_bit 1 1"
  by (simp_all add: mask_eq_exp_minus_1 push_bit_eq_mult)

lemma bit_flags: "bit (1 :: u64) n \<longleftrightarrow> n = 0" "bit (2 :: u64) n \<longleftrightarrow> n = 1" "bit (0x80 :: u64) n \<longleftrightarrow> n = 7"
  unfolding word_masks by (simp only: bit_push_bit_iff bit_1_iff possible_bit_word len_bit0 len_num1; auto)+

lemma bit_addr_masks: "bit (0x000FFFFFFFFFF000 :: u64) n \<longleftrightarrow> 12 \<le> n \<and> n < 52" "bit (0x000FFFFFFFE00000 :: u64) n \<longleftrightarrow> 21 \<le> n \<and> n < 52"
  "bit (0x1FFFFF :: u64) n \<longleftrightarrow> n < 21"
  unfolding word_masks by (auto simp: bit_simps)

lemma table_entry:
  assumes "page64 p"
  shows "(p OR PTE_PRESENT OR PTE_RW) AND PHYS_MASK = p" and "bit (p OR PTE_PRESENT OR PTE_RW) 0" and "\<not> bit (p OR PTE_PRESENT OR PTE_RW) 7"
    and "p AND PHYS_MASK = p"
proof -
  note b = page64_bits [OF assms]
  show "(p OR PTE_PRESENT OR PTE_RW) AND PHYS_MASK = p"
    by (rule bit_word_eqI) (use b in \<open>simp only: bit_and_iff bit_or_iff bit_flags bit_addr_masks; fastforce\<close>)
  show "p AND PHYS_MASK = p"
    by (rule bit_word_eqI) (use b in \<open>simp only: bit_and_iff bit_addr_masks; blast\<close>)
  show "bit (p OR PTE_PRESENT OR PTE_RW) 0" by (simp only: bit_or_iff bit_flags) simp
  show "\<not> bit (p OR PTE_PRESENT OR PTE_RW) 7" using b [of 7] by (simp only: bit_or_iff bit_flags) auto
qed

lemma leaf_entry:
  assumes "g < 32768"
  shows "bit (leaf64 g) 0" and "bit (leaf64 g) 7" and "g = unat va div 2097152 \<Longrightarrow> (leaf64 g AND 0x000FFFFFFFE00000) OR (va AND 0x1FFFFF) = va"
proof -
  show "bit (leaf64 g) 0" "bit (leaf64 g) 7" unfolding leaf64_def by (simp_all only: bit_or_iff bit_flags simp_thms)
  assume g: "g = unat va div 2097152"
  then have "unat (drop_bit 21 va) = g" by (simp add: unat_shiftr)
  moreover have "unat (of_nat g :: u64) = g" using assms by (intro unat_of_nat64) simp
  ultimately have d: "of_nat g = drop_bit 21 va" by (simp only: word_unat_eq_iff)
  have hi: "n < 36" if "bit va n" for n
  proof (rule ccontr)
    assume "\<not> n < 36"
    moreover have "unat (take_bit 36 va) = unat va" using g assms by (simp add: unsigned_take_bit_eq take_bit_nat_eq_self_iff)
    then have "take_bit 36 va = va" by (simp only: word_unat_eq_iff)
    ultimately show False using that by (metis bit_take_bit_iff)
  qed
  show "(leaf64 g AND 0x000FFFFFFFE00000) OR (va AND 0x1FFFFF) = va"
  proof (rule bit_word_eqI)
    fix n assume n: "n < LENGTH(64)"
    have "bit (push_bit 21 (drop_bit 21 va)) n \<longleftrightarrow> 21 \<le> n \<and> bit va n" using n by (auto simp: bit_simps)
    then show "bit (leaf64 g AND 0x000FFFFFFFE00000 OR va AND 0x1FFFFF) n = bit va n"
      unfolding leaf64_def d using hi [of n] by (simp only: bit_and_iff bit_or_iff bit_flags bit_addr_masks) auto
  qed
qed

lemma walk_index: "unat (drop_bit sh va AND 0x1FF :: u64) = unat va div 2 ^ sh mod 512"
  unfolding word_masks(4) by (simp only: unat_and_mask unat_shiftr) simp

lemma entry64_tb: "entry64 m table va sh = tb m (table AND PHYS_MASK) (unat va div 2 ^ sh mod 512)"
proof -
  let ?i = "drop_bit sh va AND 0x1FF :: u64"
  have "push_bit 3 ?i = of_nat (8 * unat ?i)" by (simp add: push_bit_eq_mult mult.commute)
  then show ?thesis unfolding entry64_def tb_def slot64_def walk_index [symmetric] by simp
qed

lemma canonical_index:
  assumes "canonical va"
  shows "unat va div 549755813888 mod 512 = 0 \<longleftrightarrow> unat va < 549755813888"
proof -
  let ?D = "unat va div 549755813888"
  have "?D div 256 = unat va div (549755813888 * 256)" by (rule div_mult2_eq [symmetric])
  then have D: "?D div 256 = unat (drop_bit 47 va)" by (simp add: unat_shiftr)
  have "drop_bit 47 va = 0 \<or> drop_bit 47 va = 0x1FFFF" using assms by (simp only: canonical_def)
  then have "unat (drop_bit 47 va) = 0 \<or> unat (drop_bit 47 va) = 131071" by (elim disjE) simp_all
  then have "?D div 256 = 0 \<or> ?D div 256 = 131071" using D by simp
  then have "?D mod 512 = 0 \<longleftrightarrow> ?D = 0"
  proof
    assume "?D div 256 = 131071"
    then have "512 * 65535 < ?D" "?D < 512 * 65536" by linarith+
    then have "?D \<noteq> 0" "?D div 512 = 65535" by linarith+
    moreover from this have "?D mod 512 \<noteq> 0" using mult_div_mod_eq [of 512 ?D] \<open>512 * 65535 < ?D\<close> by linarith
    ultimately show ?thesis by simp
  next
    assume "?D div 256 = 0"
    then have "?D < 512" by linarith
    then show ?thesis by simp
  qed
  moreover have "?D = 0 \<longleftrightarrow> unat va < 549755813888" by linarith
  ultimately show ?thesis by simp
qed

text \<open>The walk over tables whose first level has one entry, whose second level points to the pages \<open>pds\<close>.\<close>

lemma walk64_two_level:
  assumes "page64 pml4" and "page64 pdpt" and "\<And>k. k < 64 \<Longrightarrow> page64 (pds k)" and "N \<le> 32768"
    and e4: "\<And>j. j < 512 \<Longrightarrow> tb m pml4 j = (if j = 0 then pdpt OR PTE_PRESENT OR PTE_RW else 0)"
    and e3: "\<And>j. j < 512 \<Longrightarrow> tb m pdpt j = (if j < (N + 511) div 512 then pds j OR PTE_PRESENT OR PTE_RW else 0)"
    and e2: "\<And>k j. k < 64 \<Longrightarrow> j < 512 \<Longrightarrow> tb m (pds k) j = (if k * 512 + j < N then leaf64 (k * 512 + j) else 0)"
  shows "walk64 m pml4 va = (if unat va < N * 2097152 then Some va else None)"
proof -
  let ?V = "unat va"
  have n: "(N + 511) div 512 \<le> 64" using assms(4) by linarith
  have w4: "entry64 m pml4 va 39 = (if ?V div 549755813888 mod 512 = 0 then pdpt OR PTE_PRESENT OR PTE_RW else 0)"
    using e4 [of "?V div 549755813888 mod 512"] unfolding entry64_tb table_entry(4) [OF assms(1)] by simp
  show ?thesis
  proof (cases "?V < 549755813888")
    case False
    then have "\<not> ?V < N * 2097152" using assms(4) by linarith
    moreover have "walk64 m pml4 va = None"
    proof (cases "canonical va")
      case True
      then have "entry64 m pml4 va 39 = 0" using False canonical_index [of va] w4 by simp
      then show ?thesis unfolding walk64_def Let_def by simp
    qed (simp add: walk64_def)
    ultimately show ?thesis by simp
  next
    case V: True
    then have can: "canonical va" unfolding canonical_def by (intro disjI1) (simp add: unat_shiftr flip: unat_eq_0)
    define i3 where "i3 = ?V div 1073741824"
    define i2 where "i2 = ?V div 2097152 mod 512"
    have i3: "i3 < 512" "i3 mod 512 = i3" using V unfolding i3_def by simp_all
    have i2: "i2 < 512" by (simp add: i2_def)
    have "?V div 2097152 div 512 = i3" unfolding i3_def by (simp flip: div_mult2_eq)
    then have g: "i3 * 512 + i2 = ?V div 2097152" unfolding i2_def by (metis div_mult_mod_eq)
    have lt: "?V < N * 2097152 \<longleftrightarrow> i3 * 512 + i2 < N" unfolding g by (simp add: div_less_iff_less_mult)
    have w4': "entry64 m pml4 va 39 = pdpt OR PTE_PRESENT OR PTE_RW" using V w4 by simp
    have "entry64 m (pdpt OR PTE_PRESENT OR PTE_RW) va 30 = tb m pdpt i3"
      unfolding entry64_tb table_entry(1) [OF assms(2)] using i3(2) by (simp add: i3_def)
    note w3 = this [unfolded e3 [OF i3(1)]]
    show ?thesis
    proof (cases "i3 < (N + 511) div 512")
      case False
      then have "\<not> ?V < N * 2097152" unfolding lt by linarith
      moreover have "walk64 m pml4 va = None"
        unfolding walk64_def Let_def w4' w3 using table_entry(2) [OF assms(2)] False by simp
      ultimately show ?thesis by simp
    next
      case True
      then have k: "i3 < 64" using n by linarith
      note pd = table_entry [OF assms(3) [OF k]]
      have "entry64 m (pds i3 OR PTE_PRESENT OR PTE_RW) va 21 = tb m (pds i3) i2"
        unfolding entry64_tb pd(1) by (simp add: i2_def)
      note w2 = this [unfolded e2 [OF k i2]]
      have w3': "entry64 m (pdpt OR PTE_PRESENT OR PTE_RW) va 30 = pds i3 OR PTE_PRESENT OR PTE_RW" using w3 True by simp
      show ?thesis
      proof (cases "i3 * 512 + i2 < N")
        case False
        then have w2': "entry64 m (pds i3 OR PTE_PRESENT OR PTE_RW) va 21 = 0" using w2 by simp
        show ?thesis
          unfolding walk64_def Let_def w4' w3' w2' lt using False pd(3) by simp
      next
        case True
        then have w2': "entry64 m (pds i3 OR PTE_PRESENT OR PTE_RW) va 21 = leaf64 (i3 * 512 + i2)" using w2 by simp
        have "i3 * 512 + i2 < 32768" using True assms(4) by linarith
        note lf = leaf_entry [OF this]
        show ?thesis
          unfolding walk64_def Let_def w4' w3' w2' lt
          using True can pd(2,3) lf(1,2) lf(3) [OF g] table_entry(2) [OF assms(2)] by simp
      qed
    qed
  qed
qed

section \<open>The identity map\<close>

lemma identity_tables:
  assumes "tables64_ok T" and "0 < N" and "N \<le> 32768"
    and m_def: "m = fill_pds T (of_nat N) 0 ((N + 511) div 512) (st64w (zero_tables T m0) (slot64 (boot_pml4 T) 0) (boot_pdpt T OR PTE_PRESENT OR PTE_RW))"
  shows "walk64 m (boot_pml4 T) va = (if unat va < N * 2097152 then Some va else None)"
proof (rule walk64_two_level [where pdpt = "boot_pdpt T" and pds = "pd_at T"])
  note pg = table_page64 [OF assms(1)] and ne = tables_distinct [OF assms(1)]
  have n: "0 + (N + 511) div 512 \<le> 64" using assms(3) by linarith
  define m1 where "m1 = st64w (zero_tables T m0) (slot64 (boot_pml4 T) 0) (boot_pdpt T OR PTE_PRESENT OR PTE_RW)"
  have m: "m = fill_pds T (of_nat N) 0 ((N + 511) div 512) m1" by (simp only: m_def m1_def)
  have m1: "tb m1 p j = (if p = boot_pml4 T \<and> j = 0 then boot_pdpt T OR PTE_PRESENT OR PTE_RW else 0)"
    if "p \<in> set (table_pages T)" "page64 p" "j < 512" for p j
    using tb_store [OF pg(1) that(2), of 0 j "zero_tables T m0"] tb_zero_tables [OF assms(1) that(1,3), of m0] that(3)
    unfolding m1_def by auto
  have mem: "boot_pml4 T \<in> set (table_pages T)" "boot_pdpt T \<in> set (table_pages T)" "k < 64 \<Longrightarrow> pd_at T k \<in> set (table_pages T)" for k
    by (auto simp: table_pages_def)
  note eff = fill_pds_effect [OF assms(1,3) _ n, of _ m1, folded m]
  show "page64 (boot_pml4 T)" "page64 (boot_pdpt T)" "\<And>k. k < 64 \<Longrightarrow> page64 (pd_at T k)" using pg by blast+
  show "N \<le> 32768" by (rule assms(3))
  show "tb m (boot_pml4 T) j = (if j = 0 then boot_pdpt T OR PTE_PRESENT OR PTE_RW else 0)" if "j < 512" for j
    using eff [OF that] m1 [OF mem(1) pg(1) that] by simp
  show "tb m (boot_pdpt T) j = (if j < (N + 511) div 512 then pd_at T j OR PTE_PRESENT OR PTE_RW else 0)" if "j < 512" for j
    using eff [OF that] m1 [OF mem(2) pg(2) that] ne(1) by simp
  show "tb m (pd_at T k) j = (if k * 512 + j < N then leaf64 (k * 512 + j) else 0)" if "k < 64" "j < 512" for k j
  proof -
    have "k * 512 + j < N \<Longrightarrow> k < (N + 511) div 512" by linarith
    then show ?thesis using eff [OF that(2)] m1 [OF mem(3) pg(3) that(2), OF that(1) that(1)] ne(2) [OF that(1)] that(1) by auto
  qed
qed

lemma identity64:
  assumes "tables64_ok T"
  shows "(if span = 0 \<or> span > 0x1000000000 then paging_amd64_identity_init T span s = (False, s)
    else fst (paging_amd64_identity_init T span s)
      \<and> (\<forall>va. walk64 (mem64 (snd (paging_amd64_identity_init T span s))) (cr3_64 (snd (paging_amd64_identity_init T span s))) va
          = (if unat va < (unat span + 0x1FFFFF) div 0x200000 * 0x200000 then Some va else None)))"
proof (cases "span = 0 \<or> span > 0x1000000000")
  case True
  then show ?thesis by (auto simp: paging_amd64_identity_init_def Let_def)
next
  case False
  define N where "N = (unat span + 0x1FFFFF) div 0x200000"
  have span: "0 < unat span" "unat span \<le> 68719476736"
    using False by (auto simp: word_le_nat_alt not_less unat_gt_0)
  then have N: "0 < N" "N \<le> 32768" unfolding N_def by linarith+
  have "span + PAGE_2M - 1 = span + of_nat 0x1FFFFF" by simp
  moreover have "unat (span + of_nat 0x1FFFFF) = unat span + 0x1FFFFF" using span(2) by (intro unat_plus64) simp
  ultimately have "unat (drop_bit 21 (span + PAGE_2M - 1)) = N" unfolding unat_shiftr N_def by (simp only:) simp
  then have n2m: "drop_bit 21 (span + PAGE_2M - 1) = of_nat N" using N by (simp only: word_unat_eq_iff unat_of_nat64)
  have "unat (of_nat N + 511 :: u64) = N + 511" using unat_of_nat64 [of "N + 511"] N by simp
  then have "unat ((of_nat N + 511) div 512 :: u64) = (N + 511) div 512" by (simp add: unat_div)
  then have npd: "unat (ucast ((of_nat N + 511) div 512 :: u64) :: u32) = (N + 511) div 512"
    unfolding unat_ucast_u64_u32 using N by simp
  have ok: "\<not> (ucast ((of_nat N + 511) div 512 :: u64) = (0 :: u32) \<or> ucast ((of_nat N + 511) div 512 :: u64) > (64 :: u32))"
  proof -
    have "0 < (N + 511) div 512" "(N + 511) div 512 \<le> 64" using N by linarith+
    then show ?thesis using npd by (auto simp: word_less_nat_alt simp flip: unat_eq_0)
  qed
  have big: "MAX_PD * (512 * PAGE_2M) = 0x1000000000" by simp
  have run: "paging_amd64_identity_init T span s = (True, s\<lparr>mem64 := fill_pds T (of_nat N) 0 ((N + 511) div 512)
      (st64w (zero_tables T (mem64 s)) (slot64 (boot_pml4 T) 0) (boot_pdpt T OR PTE_PRESENT OR PTE_RW)), cr3_64 := boot_pml4 T\<rparr>)"
    unfolding paging_amd64_identity_init_def Let_def big if_not_P [OF False] n2m if_not_P [OF ok] npd ..
  have "unat va < N * 2097152 \<longleftrightarrow> unat va < (unat span + 0x1FFFFF) div 0x200000 * 0x200000" for va :: u64 by (simp add: N_def)
  with identity_tables [OF assms N refl, of "mem64 s"] show ?thesis unfolding run if_not_P [OF False] by simp
qed

text \<open>
  C9: the identity map of the x86-64 build.  A memory size of 0 or above 64 GiB is refused and
  nothing is changed; otherwise, after the load of CR3, every address below the size rounded up
  to two MiB translates to itself and every other one faults.
\<close>

theorem paging64_identity_correct:
  assumes "tables64_ok T"
  shows "(if span = 0 \<or> span > 0x1000000000 then paging_amd64_identity_init T span s = (False, s)
    else fst (paging_amd64_identity_init T span s)
      \<and> (\<forall>va. walk64 (mem64 (snd (paging_amd64_identity_init T span s))) (cr3_64 (snd (paging_amd64_identity_init T span s))) va
          = (if unat va < (unat span + 0x1FFFFF) div 0x200000 * 0x200000 then Some va else None)))"
  by (rule identity64 [OF assms])

text \<open>Only the tables are written.\<close>

lemma slot64_out:
  assumes "\<not> in_range64 p 4096 x" and "i < 512"
  shows "st64w m (slot64 p i) v x = m x"
proof (rule st64w_out_range)
  have "8 * i + 8 \<le> 4096" using assms(2) by simp
  then show "\<not> in_range64 (slot64 p i) 8 x" using assms(1) in_range64_step [of p "8 * i" x 4096] by (auto simp: slot64_def)
qed

lemma tbl_zero_out: "\<not> in_range64 p 4096 x \<Longrightarrow> i + n \<le> 512 \<Longrightarrow> tbl_zero p i n m x = m x"
  by (induction n arbitrary: i m) (simp_all add: slot64_out)

lemma fill_pd_out: "\<not> in_range64 pd 4096 x \<Longrightarrow> j + n \<le> 512 \<Longrightarrow> fill_pd n2m pd k j n m x = m x"
  by (induction n arbitrary: j m) (simp_all add: slot64_out Let_def)

lemma fill_pds_out:
  assumes "\<forall>p\<in>set (table_pages T). \<not> in_range64 p 4096 x"
  shows "k + n \<le> 64 \<Longrightarrow> fill_pds T n2m k n m x = m x"
proof (induction n arbitrary: k m)
  case (Suc n)
  then have "pd_at T k \<in> set (table_pages T)" by (simp add: table_pages_def)
  moreover have "boot_pdpt T \<in> set (table_pages T)" by (simp add: table_pages_def)
  ultimately show ?case using Suc assms by (simp add: Let_def fill_pd_out slot64_out)
qed simp

lemma zero_tables_out:
  assumes "\<forall>p\<in>set (table_pages T). \<not> in_range64 p 4096 x"
  shows "zero_tables T m x = m x"
proof -
  have "fold (\<lambda>i. tbl_zero (pd_at T i) 0 512) ks m x = m x" if "set ks \<subseteq> {..<64}" for ks m
    using that assms by (induction ks arbitrary: m) (simp_all add: table_pages_def tbl_zero_out)
  then show ?thesis using assms by (simp add: zero_tables_def table_pages_def tbl_zero_out atLeast_upt [symmetric] lessThan_atLeast0)
qed

lemma identity_init_out:
  assumes "\<forall>p\<in>set (table_pages T). \<not> in_range64 p 4096 x"
  shows "mem64 (snd (paging_amd64_identity_init T span s)) x = mem64 s x"
proof -
  have pages: "\<not> in_range64 (boot_pml4 T) 4096 x" using assms by (simp add: table_pages_def)
  have "fill_pds T n2m 0 (unat n) (st64w (zero_tables T m) (slot64 (boot_pml4 T) 0) v) x = m x" if "\<not> n > 64" for n2m m v and n :: u32
  proof -
    have "unat n \<le> 64" using that by (simp add: word_less_nat_alt not_less)
    then show ?thesis using fill_pds_out [OF assms] by (simp add: slot64_out [OF pages] zero_tables_out [OF assms])
  qed
  then show ?thesis by (simp add: paging_amd64_identity_init_def Let_def)
qed

lemma identity_init_rest:
  "snd (paging_amd64_identity_init T span s)
    = s\<lparr>mem64 := mem64 (snd (paging_amd64_identity_init T span s)), cr3_64 := cr3_64 (snd (paging_amd64_identity_init T span s))\<rparr>"
  by (simp add: paging_amd64_identity_init_def Let_def)

text \<open>The tables right behind the kernel image, as the linker places them.\<close>

definition sample_tables64 :: tables64 where
  "sample_tables64 = \<lparr>boot_pml4 = 0x241000, boot_pdpt = 0x242000, boot_pds = 0x243000\<rparr>"

lemma sample_tables64_ok: "tables64_ok sample_tables64"
proof -
  have u: "unat (pd_at sample_tables64 k) = 0x243000 + 4096 * k" if "k < 64" for k
    unfolding pd_at_def using that unat_plus64 [of "boot_pds sample_tables64" "4096 * k"] by (simp add: sample_tables64_def)
  then have "inj_on (pd_at sample_tables64) (set [0..<64])" by (auto intro!: inj_onI dest: arg_cong [where f = unat])
  moreover have "pd_at sample_tables64 k \<noteq> 0x241000" "pd_at sample_tables64 k \<noteq> 0x242000" if "k < 64" for k
    using u [OF that] by (auto dest: arg_cong [where f = unat])
  ultimately have "distinct (table_pages sample_tables64)"
    by (auto simp: table_pages_def distinct_map) (auto simp: sample_tables64_def)
  moreover have "unat (pd_at sample_tables64 k) mod 4096 = 0" if "k < 64" for k unfolding u [OF that] by presburger
  ultimately show ?thesis using u unfolding tables64_ok_def table_pages_def list_all_iff
    by (auto simp: sample_tables64_def)
qed

definition sample_kern64 :: kern64 where
  "sample_kern64 = \<lparr>io_in = \<lambda>n p. 0x20, io_reads = 0, io_outs = [], g_serial_lock = 0, mem64 = \<lambda>a. 7, cr3_64 = 0\<rparr>"

theorem paging64_identity_correct_witness:
  "walk64 (mem64 (snd (paging_amd64_identity_init sample_tables64 0xFEE01000 sample_kern64)))
     (cr3_64 (snd (paging_amd64_identity_init sample_tables64 0xFEE01000 sample_kern64))) 0xFEE00020 = Some 0xFEE00020"
  using paging64_identity_correct [OF sample_tables64_ok, of "0xFEE01000" sample_kern64] by simp

end
