(* ===== verification/Pmm64.thy ===== *)
theory Pmm64
  imports Machine64 Pmm
begin

text \<open>
  \<open>kernel/pmm.c\<close> compiled for x86-64, where \<open>uintptr_t\<close> and \<open>size_t\<close> are 64 bits wide, so that
  frames above 4 GiB are managed.  \<open>kernel/mboot2.c\<close> reads the boot information through a
  pointer and an offset below its 32-bit size, so its model runs on the bytes from there on.
\<close>

section \<open>The code\<close>

definition mbi_at :: "memory64 \<Rightarrow> u64 \<Rightarrow> memory" where
  "mbi_at m info = (\<lambda>a. m (info + ucast a))"

abbreviation (input) FRAME_SIZE64 :: u64 where "FRAME_SIZE64 \<equiv> 4096"

record layout64 =
  kernel_image_begin64 :: u64
  kernel_image_end64 :: u64

record pmm64 =
  bitmap64 :: "u8 list"
  bm_base64 :: u64
  bitmap_byte_len64 :: u64
  frame_count64 :: u64

definition align_up64 :: "u64 \<Rightarrow> u64 \<Rightarrow> u64" where
  "align_up64 x a = (x + a - 1) AND NOT (a - 1)"

definition align_down64 :: "u64 \<Rightarrow> u64 \<Rightarrow> u64" where
  "align_down64 x a = x AND NOT (a - 1)"

definition phys_pfn64 :: "u64 \<Rightarrow> u64" where
  "phys_pfn64 p = drop_bit 12 p"

definition bm_set64 :: "u64 \<Rightarrow> pmm64 \<Rightarrow> pmm64" where
  "bm_set64 pfn s =
     (if pfn \<ge> frame_count64 s then s
      else let i = unat (drop_bit 3 pfn); b = unat (ucast (pfn AND 7) :: u32)
        in s\<lparr>bitmap64 := (bitmap64 s)[i := bitmap64 s ! i OR ucast (push_bit b (1 :: u32))]\<rparr>)"

definition bm_clear64 :: "u64 \<Rightarrow> pmm64 \<Rightarrow> pmm64" where
  "bm_clear64 pfn s =
     (if pfn \<ge> frame_count64 s then s
      else let i = unat (drop_bit 3 pfn); b = unat (ucast (pfn AND 7) :: u32)
        in s\<lparr>bitmap64 := (bitmap64 s)[i := bitmap64 s ! i AND ucast (NOT (push_bit b (1 :: u32)))]\<rparr>)"

definition bm_get64 :: "u64 \<Rightarrow> pmm64 \<Rightarrow> u32" where
  "bm_get64 pfn s =
     (if pfn \<ge> frame_count64 s then 1
      else let i = unat (drop_bit 3 pfn); b = unat (ucast (pfn AND 7) :: u32)
        in ucast (drop_bit b (bitmap64 s ! i)) AND 1)"

definition bm_fill64 :: "u8 \<Rightarrow> u64 \<Rightarrow> pmm64 \<Rightarrow> pmm64" where
  "bm_fill64 v n s = s\<lparr>bitmap64 := replicate (unat n) v\<rparr>"

text \<open>The test \<open>p < p + FRAME_SIZE\<close> always holds here, as on i386; it is there for the termination proof.\<close>

function mark_frames64 :: "(u64 \<Rightarrow> pmm64 \<Rightarrow> pmm64) \<Rightarrow> u64 \<Rightarrow> u64 \<Rightarrow> pmm64 \<Rightarrow> pmm64" where
  "mark_frames64 f p e s =
     (if p < e then
        let pfn = phys_pfn64 p; s' = (if pfn < frame_count64 s then f pfn s else s)
        in if p < p + FRAME_SIZE64 then mark_frames64 f (p + FRAME_SIZE64) e s' else s'
      else s)"
  by pat_completeness auto
termination
  by (relation "measure (\<lambda>(f, p, e, s). unat e - unat p)") (auto simp: word_less_nat_alt)

declare mark_frames64.simps [simp del]

definition frames_mark_used64 :: "u64 \<Rightarrow> u64 \<Rightarrow> pmm64 \<Rightarrow> pmm64" where
  "frames_mark_used64 begin_a end_a s =
     (if begin_a \<ge> end_a then s
      else mark_frames64 bm_set64 (align_down64 begin_a FRAME_SIZE64) (align_up64 end_a FRAME_SIZE64) s)"

definition frames_mark_free64 :: "u64 \<Rightarrow> u64 \<Rightarrow> pmm64 \<Rightarrow> pmm64" where
  "frames_mark_free64 begin_a end_a s =
     (if begin_a \<ge> end_a then s
      else mark_frames64 bm_clear64 (align_down64 begin_a FRAME_SIZE64) (align_up64 end_a FRAME_SIZE64) s)"

definition free_cb64 :: "u64 \<Rightarrow> u64 \<Rightarrow> pmm64 \<Rightarrow> pmm64" where
  "free_cb64 base_a len s = frames_mark_free64 base_a (base_a + len) s"

definition pmm_setup64 :: "layout64 \<Rightarrow> u64 \<Rightarrow> pmm64 \<Rightarrow> pmm64" where
  "pmm_setup64 L max_end s =
     (let last_byte = max_end - 1; last_pfn = drop_bit 12 last_byte;
          fc = last_pfn + 1; len = (fc + 7) div 8
      in bm_fill64 0xFF len (s\<lparr>frame_count64 := fc, bitmap_byte_len64 := len,
           bm_base64 := align_up64 (kernel_image_end64 L) FRAME_SIZE64\<rparr>))"

definition store_bytes64 :: "memory64 \<Rightarrow> u64 \<Rightarrow> u8 list \<Rightarrow> memory64" where
  "store_bytes64 m p bs = (\<lambda>x. if unat (x - p) < length bs then bs ! unat (x - p) else m x)"

definition pmm_init64 :: "layout64 \<Rightarrow> memory64 \<Rightarrow> u64 \<Rightarrow> u32 \<Rightarrow> pmm64 \<Rightarrow> bool \<times> pmm64" where
  "pmm_init64 L m info mb_info_phys s =
     (case mb2_for_each_available (mbi_at m info) 0 max_cb 0 of (ok, max_end) \<Rightarrow>
        if \<not> ok \<or> max_end = 0 then (False, s)
        else let s1 = pmm_setup64 L max_end s; m1 = store_bytes64 m (bm_base64 s1) (bitmap64 s1)
          in case mb2_for_each_available (mbi_at m1 info) 0 free_cb64 s1 of (ok2, s2) \<Rightarrow>
            if \<not> ok2 then (False, s2)
            else
              let s3 = frames_mark_used64 (kernel_image_begin64 L) (kernel_image_end64 L) s2;
                  mb0 = ucast mb_info_phys;
                  s4 = frames_mark_used64 mb0 (mb0 + ucast (ld32 (mbi_at m1 info) 0)) s3;
                  s5 = frames_mark_used64 (bm_base64 s4) (bm_base64 s4 + bitmap_byte_len64 s4) s4
              in (True, bm_set64 0 s5))"

definition pmm_frame_count64 :: "pmm64 \<Rightarrow> u64" where
  "pmm_frame_count64 s = frame_count64 s"

definition pmm_max_pfn64 :: "pmm64 \<Rightarrow> u64" where
  "pmm_max_pfn64 s = (if frame_count64 s \<noteq> 0 then frame_count64 s - 1 else 0)"

definition pmm_alloc_frame64 :: "pmm64 \<Rightarrow> u64 \<times> pmm64" where
  "pmm_alloc_frame64 s =
     (case first_index (\<lambda>k. bm_get64 (of_nat k) s = 0) 1 (unat (frame_count64 s)) of
        Some k \<Rightarrow> (push_bit 12 (of_nat k), bm_set64 (of_nat k) s)
      | None \<Rightarrow> (0, s))"

definition pmm_free_frame64 :: "u64 \<Rightarrow> pmm64 \<Rightarrow> pmm64" where
  "pmm_free_frame64 phys s =
     (if phys AND (FRAME_SIZE64 - 1) \<noteq> 0 then s
      else let pfn = phys_pfn64 phys in
        if pfn = 0 \<or> pfn \<ge> frame_count64 s then s
        else if bm_get64 pfn s = 0 then s
        else bm_clear64 pfn s)"

text \<open>
  \<open>frame_free s k\<close>: frame number \<open>k\<close> is managed and its bit is clear.  The invariant says
  that the bitmap has a bit for every managed frame, that all frame numbers fit 32-bit
  physical addresses, and that frame 0 is never free.
\<close>

definition frame_free64 :: "pmm64 \<Rightarrow> nat \<Rightarrow> bool" where
  "frame_free64 s k \<longleftrightarrow> k < unat (frame_count64 s) \<and> \<not> bit (bitmap64 s ! (k div 8)) (k mod 8)"

definition pmm_shape64 :: "pmm64 \<Rightarrow> bool" where
  "pmm_shape64 s \<longleftrightarrow> unat (frame_count64 s) \<le> 8 * length (bitmap64 s) \<and> unat (frame_count64 s) \<le> 4503599627370496"

definition pmm_inv64 :: "pmm64 \<Rightarrow> bool" where
  "pmm_inv64 s \<longleftrightarrow> pmm_shape64 s \<and> \<not> frame_free64 s 0"

lemma bm_index64: "unat (drop_bit 3 pfn :: u64) = unat pfn div 8"
  by (simp add: unat_shiftr)

lemma bm_bit64: "unat (ucast (pfn AND 7 :: u64) :: u32) = unat pfn mod 8"
proof -
  have "unat (pfn AND 7) = unat pfn mod 8" by (simp only: mask3 unat_and_mask) simp
  then show ?thesis by (simp add: unat_ucast_u64_u32)
qed

lemma u64_of_nat64: "k < 4503599627370496 \<Longrightarrow> unat (of_nat k :: u64) = k"
  by (intro unat_of_nat64) simp

lemma bm_get_free64:
  assumes "pmm_shape64 s" and "k < unat (frame_count64 s)"
  shows "bm_get64 (of_nat k) s = 0 \<longleftrightarrow> frame_free64 s k"
proof -
  have k: "k < 4503599627370496" using assms by (simp add: pmm_shape64_def)
  have "(ucast (drop_bit b w) AND 1 :: u32) = 0 \<longleftrightarrow> \<not> bit w b" for w :: u8 and b
  proof -
    have "(ucast (drop_bit b w) AND 1 :: u32) = of_bool (bit (ucast (drop_bit b w) :: u32) 0)"
      by (simp add: and_one_eq mod_2_eq_odd bit_0)
    then show ?thesis by (simp add: bit_simps)
  qed
  then show ?thesis
    using assms(2) k by (simp add: bm_get64_def frame_free64_def Let_def bm_index64 bm_bit64 u64_of_nat64
        word_le_nat_alt not_le)
qed

lemma shape_bm_set64 [simp]: "pmm_shape64 (bm_set64 pfn s) = pmm_shape64 s"
  and shape_bm_clear64 [simp]: "pmm_shape64 (bm_clear64 pfn s) = pmm_shape64 s"
  by (simp_all add: pmm_shape64_def bm_set64_def bm_clear64_def Let_def)

lemma bm_frame64 [frame_simps]:
  "frame_count64 (bm_set64 pfn s) = frame_count64 s" "frame_count64 (bm_clear64 pfn s) = frame_count64 s"
  "bm_base64 (bm_set64 pfn s) = bm_base64 s" "bm_base64 (bm_clear64 pfn s) = bm_base64 s"
  "bitmap_byte_len64 (bm_set64 pfn s) = bitmap_byte_len64 s"
  "bitmap_byte_len64 (bm_clear64 pfn s) = bitmap_byte_len64 s"
  by (simp_all add: bm_set64_def bm_clear64_def Let_def)

lemma frame_free_bm_set64:
  assumes "pmm_shape64 s" and "unat pfn < unat (frame_count64 s)"
  shows "frame_free64 (bm_set64 pfn s) k \<longleftrightarrow> frame_free64 s k \<and> k \<noteq> unat pfn"
proof -
  have p: "unat pfn < 4503599627370496" and len: "unat pfn div 8 < length (bitmap64 s)"
    using assms by (auto simp: pmm_shape64_def)
  show ?thesis
    using assms(2) p len same_bit_index [of k "unat pfn"]
    by (auto simp: frame_free64_def bm_set64_def Let_def bm_index64 bm_bit64 word_le_nat_alt
        nth_list_update bit_or_iff bit_one_shift)
qed

lemma frame_free_bm_clear64:
  assumes "pmm_shape64 s" and "unat pfn < unat (frame_count64 s)"
  shows "frame_free64 (bm_clear64 pfn s) k \<longleftrightarrow> frame_free64 s k \<or> k = unat pfn"
proof -
  have p: "unat pfn < 4503599627370496" and len: "unat pfn div 8 < length (bitmap64 s)"
    using assms by (auto simp: pmm_shape64_def)
  show ?thesis
    using assms(2) p len same_bit_index [of k "unat pfn"]
    by (auto simp: frame_free64_def bm_clear64_def Let_def bm_index64 bm_bit64 word_le_nat_alt
        nth_list_update bit_and_iff bit_not_one_shift)
qed

lemma unat_phys_pfn64: "unat (phys_pfn64 p) = unat p div 4096"
  by (simp add: phys_pfn64_def unat_shiftr)

section \<open>Marking ranges\<close>

lemma unat_page64: "unat (x AND NOT 4095 :: u64) = unat x div 4096 * 4096"
proof -
  have "unat (x AND NOT 4095) = unat x - unat (x AND 4095)"
    unfolding and_not_minus by (rule unat_sub) (simp only: word_le_nat_alt unat_page_off mod_less_eq_dividend)
  then show ?thesis by (simp only: unat_page_off minus_mod_eq_div_mult)
qed

lemma unat_align_down64: "unat (align_down64 x FRAME_SIZE64) = unat x div 4096 * 4096"
  using unat_page64 [of x] by (simp add: align_down64_def)

lemma unat_align_up64:
  "unat (align_up64 x FRAME_SIZE64)
     = (if unat x \<le> 18446744073709547520 then (unat x + 4095) div 4096 * 4096 else 0)"
proof -
  have eq: "align_up64 x FRAME_SIZE64 = (x + of_nat 4095) AND NOT 4095"
    by (simp add: align_up64_def add.commute)
  show ?thesis
  proof (cases "unat x \<le> 18446744073709547520")
    case True
    then have "unat (x + of_nat 4095) = unat x + 4095" by (intro unat_plus64) simp
    then show ?thesis using True by (simp only: eq unat_page64) simp
  next
    case False
    have "unat (x + of_nat 4095) = (unat x + 4095) mod 18446744073709551616"
      by (simp add: unat_word_ariths)
    also have "\<dots> = unat x + 4095 - 18446744073709551616"
      using False unat_lt64 [of x] by (subst le_mod_geq) auto
    also have "\<dots> < 4096" using unat_lt64 [of x] by simp
    finally show ?thesis using False by (simp only: eq unat_page64) simp
  qed
qed

lemma frame_step_no_wrap64:
  fixes p e :: u64
  assumes "unat p mod 4096 = 0" and "unat e mod 4096 = 0" and "p < e"
  shows "unat (p + FRAME_SIZE64) = unat p + 4096" and "p < p + FRAME_SIZE64" and "unat p + 4096 \<le> unat e"
proof -
  have "4096 dvd unat e - unat p" using assms by (intro dvd_diff_nat) auto
  then show le: "unat p + 4096 \<le> unat e"
    using assms(3) by (auto simp: word_less_nat_alt dest!: dvd_imp_le)
  then show "unat (p + FRAME_SIZE64) = unat p + 4096"
    using unat_lt64 [of e] unat_plus64 [of p 4096] by simp
  then show "p < p + FRAME_SIZE64" by (simp add: word_less_nat_alt)
qed

lemma frame_mod_step64: "unat p mod 4096 = 0 \<Longrightarrow> unat (p + FRAME_SIZE64) = unat p + 4096 \<Longrightarrow>
    unat (p + FRAME_SIZE64) mod 4096 = 0 \<and> unat (p + FRAME_SIZE64) div 4096 = Suc (unat p div 4096)"
  by (simp del: Word.unat_add_lem)

text \<open>The marking loop, once per frame number of the range.\<close>

definition mark_all64 :: "(u64 \<Rightarrow> pmm64 \<Rightarrow> pmm64) \<Rightarrow> nat list \<Rightarrow> pmm64 \<Rightarrow> pmm64" where
  "mark_all64 f ks s = fold (\<lambda>k s. if k < unat (frame_count64 s) then f (of_nat k) s else s) ks s"

lemma mark_all_simps64 [simp]:
  "mark_all64 f [] s = s"
  "mark_all64 f (k # ks) s = mark_all64 f ks (if k < unat (frame_count64 s) then f (of_nat k) s else s)"
  by (simp_all add: mark_all64_def)

lemma mark_frames_all64:
  assumes "unat p mod 4096 = 0" and "unat e mod 4096 = 0"
  shows "mark_frames64 f p e s = mark_all64 f [unat p div 4096..<unat e div 4096] s"
  using assms
proof (induction f p e s rule: mark_frames64.induct)
  case (1 f p e s)
  show ?case
  proof (cases "p < e")
    case True
    note step = frame_step_no_wrap64 [OF 1(2,3) True]
    note m = frame_mod_step64 [OF 1(2) step(1)]
    have k: "unat p div 4096 < 4503599627370496" using unat_lt64 [of p] by simp
    then have pfn: "phys_pfn64 p = of_nat (unat p div 4096)"
      by (simp add: word_unat_eq_iff unat_phys_pfn64 u64_of_nat64)
    have "unat p div 4096 < unat e div 4096" using step(3) by simp
    then have "[unat p div 4096..<unat e div 4096]
        = unat p div 4096 # [unat (p + FRAME_SIZE64) div 4096..<unat e div 4096]"
      using m by (metis upt_conv_Cons)
    moreover have "mark_frames64 f p e s = mark_frames64 f (p + FRAME_SIZE64) e
        (if phys_pfn64 p < frame_count64 s then f (phys_pfn64 p) s else s)"
      using True step(2) by (subst mark_frames64.simps) (simp add: Let_def)
    moreover have "phys_pfn64 p < frame_count64 s \<longleftrightarrow> unat p div 4096 < unat (frame_count64 s)"
      by (simp add: word_less_nat_alt unat_phys_pfn64)
    ultimately show ?thesis
      using 1(1) [OF True refl refl step(2)] m 1(3) by (simp only: pfn mark_all_simps64)
  next
    case False
    then have "unat e div 4096 \<le> unat p div 4096"
      by (intro div_le_mono) (simp add: word_less_nat_alt)
    then show ?thesis using False by (subst mark_frames64.simps) simp
  qed
qed

lemma frame_free_lt64: "frame_free64 s k \<Longrightarrow> k < unat (frame_count64 s)"
  by (simp add: frame_free64_def)

lemma mark_all_set64:
  assumes "pmm_shape64 s"
  shows "pmm_shape64 (mark_all64 bm_set64 ks s) \<and> frame_count64 (mark_all64 bm_set64 ks s) = frame_count64 s
      \<and> (frame_free64 (mark_all64 bm_set64 ks s) j \<longleftrightarrow> frame_free64 s j \<and> j \<notin> set ks)"
  using assms
proof (induction ks arbitrary: s)
  case (Cons k ks)
  show ?case
  proof (cases "k < unat (frame_count64 s)")
    case True
    then have "unat (of_nat k :: u64) = k" using Cons.prems by (intro u64_of_nat64) (simp add: pmm_shape64_def)
    then have "frame_free64 (bm_set64 (of_nat k) s) j \<longleftrightarrow> frame_free64 s j \<and> j \<noteq> k"
      using frame_free_bm_set64 [OF Cons.prems, of "of_nat k" j] True by simp
    then show ?thesis
      using True Cons.prems Cons.IH [of "bm_set64 (of_nat k) s"] by (auto simp: frame_simps)
  next
    case False
    then show ?thesis using Cons.IH [OF Cons.prems] frame_free_lt64 [of s j] by auto
  qed
qed simp

lemma mark_all_clear64:
  assumes "pmm_shape64 s"
  shows "pmm_shape64 (mark_all64 bm_clear64 ks s) \<and> frame_count64 (mark_all64 bm_clear64 ks s) = frame_count64 s
      \<and> (frame_free64 (mark_all64 bm_clear64 ks s) j
          \<longleftrightarrow> frame_free64 s j \<or> j \<in> set ks \<and> j < unat (frame_count64 s))"
  using assms
proof (induction ks arbitrary: s)
  case (Cons k ks)
  show ?case
  proof (cases "k < unat (frame_count64 s)")
    case True
    then have "unat (of_nat k :: u64) = k" using Cons.prems by (intro u64_of_nat64) (simp add: pmm_shape64_def)
    then have "frame_free64 (bm_clear64 (of_nat k) s) j \<longleftrightarrow> frame_free64 s j \<or> j = k"
      using frame_free_bm_clear64 [OF Cons.prems, of "of_nat k" j] True by simp
    then show ?thesis
      using True Cons.prems Cons.IH [of "bm_clear64 (of_nat k) s"] by (auto simp: frame_simps)
  next
    case False
    then show ?thesis using Cons.IH [OF Cons.prems] by auto
  qed
qed simp

text \<open>
  The frames a byte range \<open>[b, e)\<close> touches.  A range that ends in the last frame of the
  address space touches none: \<open>align_up\<close> of its end wraps to 0.
\<close>

definition range_frames64 :: "u64 \<Rightarrow> u64 \<Rightarrow> nat \<Rightarrow> bool" where
  "range_frames64 b e k \<longleftrightarrow> b < e \<and> unat e \<le> 0xFFFFFFFFFFFFF000
     \<and> unat b < (k + 1) * 4096 \<and> k * 4096 < unat e"

lemma range_frames_upt64:
  "b < e \<Longrightarrow> range_frames64 b e k
     \<longleftrightarrow> k \<in> set [unat (align_down64 b FRAME_SIZE64) div 4096..<unat (align_up64 e FRAME_SIZE64) div 4096]"
proof -
  assume be: "b < e"
  have lo: "x < 4096 + k * 4096 \<longleftrightarrow> x div 4096 \<le> k" for x :: nat
    using div_less_iff_less_mult [of 4096 x "k + 1"] by auto
  have hi: "k * 4096 < x \<longleftrightarrow> k < (x + 4095) div 4096" for x :: nat
    using less_eq_div_iff_mult_less_eq [of 4096 "Suc k" "x + 4095"] by auto
  show ?thesis
    using be by (simp add: range_frames64_def unat_align_down64 unat_align_up64 lo hi)
qed

lemma frames_mark_used_effect64:
  assumes "pmm_shape64 s"
  shows "pmm_shape64 (frames_mark_used64 b e s)" and "frame_count64 (frames_mark_used64 b e s) = frame_count64 s"
    and "frame_free64 (frames_mark_used64 b e s) k \<longleftrightarrow> frame_free64 s k \<and> \<not> range_frames64 b e k"
proof -
  have "pmm_shape64 (frames_mark_used64 b e s) \<and> frame_count64 (frames_mark_used64 b e s) = frame_count64 s
    \<and> (frame_free64 (frames_mark_used64 b e s) k \<longleftrightarrow> frame_free64 s k \<and> \<not> range_frames64 b e k)"
  proof (cases "b < e")
    case True
    then have "frames_mark_used64 b e s = mark_all64 bm_set64
        [unat (align_down64 b FRAME_SIZE64) div 4096..<unat (align_up64 e FRAME_SIZE64) div 4096] s"
      by (simp add: frames_mark_used64_def mark_frames_all64 unat_align_down64 unat_align_up64)
    then show ?thesis
      using mark_all_set64 [OF assms] range_frames_upt64 [OF True] by simp
  qed (use assms in \<open>auto simp: frames_mark_used64_def range_frames64_def\<close>)
  then show "pmm_shape64 (frames_mark_used64 b e s)" "frame_count64 (frames_mark_used64 b e s) = frame_count64 s"
    "frame_free64 (frames_mark_used64 b e s) k \<longleftrightarrow> frame_free64 s k \<and> \<not> range_frames64 b e k"
    by auto
qed

lemma frames_mark_free_effect64:
  assumes "pmm_shape64 s"
  shows "pmm_shape64 (frames_mark_free64 b e s)" and "frame_count64 (frames_mark_free64 b e s) = frame_count64 s"
    and "frame_free64 (frames_mark_free64 b e s) k
      \<longleftrightarrow> frame_free64 s k \<or> range_frames64 b e k \<and> k < unat (frame_count64 s)"
proof -
  have "pmm_shape64 (frames_mark_free64 b e s) \<and> frame_count64 (frames_mark_free64 b e s) = frame_count64 s
    \<and> (frame_free64 (frames_mark_free64 b e s) k
       \<longleftrightarrow> frame_free64 s k \<or> range_frames64 b e k \<and> k < unat (frame_count64 s))"
  proof (cases "b < e")
    case True
    then have "frames_mark_free64 b e s = mark_all64 bm_clear64
        [unat (align_down64 b FRAME_SIZE64) div 4096..<unat (align_up64 e FRAME_SIZE64) div 4096] s"
      by (simp add: frames_mark_free64_def mark_frames_all64 unat_align_down64 unat_align_up64)
    then show ?thesis
      using mark_all_clear64 [OF assms] range_frames_upt64 [OF True] by simp
  qed (use assms in \<open>auto simp: frames_mark_free64_def range_frames64_def\<close>)
  then show "pmm_shape64 (frames_mark_free64 b e s)" "frame_count64 (frames_mark_free64 b e s) = frame_count64 s"
    "frame_free64 (frames_mark_free64 b e s) k
      \<longleftrightarrow> frame_free64 s k \<or> range_frames64 b e k \<and> k < unat (frame_count64 s)"
    by auto
qed

section \<open>Initialisation\<close>

text \<open>The end of usable memory, and what the bitmap of \<open>n\<close> frames looks like.\<close>
definition touches64 :: "mb2_mmap_entry \<Rightarrow> nat \<Rightarrow> bool" where
  "touches64 e = range_frames64 (mm_base e) (mm_base e + mm_length e)"

lemma fold_free_cb64:
  assumes "pmm_shape64 s"
  shows "pmm_shape64 (fold (\<lambda>e. free_cb64 (mm_base e) (mm_length e)) es s)
    \<and> frame_count64 (fold (\<lambda>e. free_cb64 (mm_base e) (mm_length e)) es s) = frame_count64 s
    \<and> (frame_free64 (fold (\<lambda>e. free_cb64 (mm_base e) (mm_length e)) es s) k
       \<longleftrightarrow> frame_free64 s k \<or> (\<exists>e\<in>set es. touches64 e k) \<and> k < unat (frame_count64 s))"
  using assms
proof (induction es arbitrary: s)
  case (Cons e es)
  let ?s = "free_cb64 (mm_base e) (mm_length e) s"
  have "pmm_shape64 ?s" "frame_count64 ?s = frame_count64 s"
    "frame_free64 ?s k \<longleftrightarrow> frame_free64 s k \<or> touches64 e k \<and> k < unat (frame_count64 s)"
    using frames_mark_free_effect64 [OF Cons.prems] by (auto simp: free_cb64_def touches64_def)
  then show ?case using Cons.IH [of ?s] by auto
qed simp

lemma unat_bitmap_len64: "unat (f :: u64) \<le> 4503599627370496 \<Longrightarrow> unat ((f + 7) div 8) = (unat f + 7) div 8"
  by (simp add: unat_div_distrib unat_word_ariths del: unat_div)

lemma pmm_setup_effect64:
  assumes "0 < n"
  shows "unat (frame_count64 (pmm_setup64 L n s)) = (unat n + 4095) div 4096"
    and "pmm_shape64 (pmm_setup64 L n s)" and "\<not> frame_free64 (pmm_setup64 L n s) k"
    and "length (bitmap64 (pmm_setup64 L n s)) = unat (bitmap_byte_len64 (pmm_setup64 L n s))"
proof -
  let ?fc = "drop_bit 12 (n - 1) + 1 :: u64"
  have fc: "unat ?fc = (unat n + 4095) div 4096" by (rule unat_frame_total [OF assms])
  have le: "unat ?fc \<le> 4503599627370496" using fc unat_lt64 [of n] by linarith
  have len: "unat ((?fc + 7) div 8) = (unat ?fc + 7) div 8"
    by (rule unat_bitmap_len64 [OF le])
  show "unat (frame_count64 (pmm_setup64 L n s)) = (unat n + 4095) div 4096"
    using fc by (simp add: pmm_setup64_def bm_fill64_def Let_def)
  show sh: "pmm_shape64 (pmm_setup64 L n s)"
    using len le by (simp add: pmm_shape64_def pmm_setup64_def bm_fill64_def Let_def) 
  show "length (bitmap64 (pmm_setup64 L n s)) = unat (bitmap_byte_len64 (pmm_setup64 L n s))"
    by (simp add: pmm_setup64_def bm_fill64_def Let_def)
  have ones: "bit (0xFF :: u8) j" if "j < 8" for j
  proof -
    have "(0xFF :: u8) = mask 8" by (simp add: mask_eq_exp_minus_1)
    then show ?thesis using that by (simp only: bit_mask_iff) simp
  qed
  show "\<not> frame_free64 (pmm_setup64 L n s) k"
  proof
    assume free: "frame_free64 (pmm_setup64 L n s) k"
    then have "k div 8 < length (bitmap64 (pmm_setup64 L n s))"
      using sh by (auto simp: frame_free64_def pmm_shape64_def)
    then have "bitmap64 (pmm_setup64 L n s) ! (k div 8) = 0xFF"
      by (simp add: pmm_setup64_def bm_fill64_def Let_def)
    then show False using free ones [of "k mod 8"] by (simp add: frame_free64_def)
  qed
qed

text \<open>The bytes of the bitmap: from the page after the kernel image on.\<close>

definition bitmap_start64 :: "layout64 \<Rightarrow> u64" where
  "bitmap_start64 L = align_up64 (kernel_image_end64 L) FRAME_SIZE64"

definition bitmap_bytes64 :: "u64 \<Rightarrow> nat" where
  "bitmap_bytes64 n = ((unat n + 4095) div 4096 + 7) div 8"

lemma pmm_setup_fields64:
  assumes "0 < n"
  shows "bm_base64 (pmm_setup64 L n s) = bitmap_start64 L"
    and "bitmap_byte_len64 (pmm_setup64 L n s) = of_nat (bitmap_bytes64 n)"
    and "length (bitmap64 (pmm_setup64 L n s)) = bitmap_bytes64 n"
proof -
  let ?fc = "drop_bit 12 (n - 1) + 1 :: u64"
  have fc: "unat ?fc = (unat n + 4095) div 4096" by (rule unat_frame_total [OF assms])
  have "unat ?fc \<le> 4503599627370496" using fc unat_lt64 [of n] by linarith
  then have len: "unat ((?fc + 7) div 8) = bitmap_bytes64 n"
    by (simp only: unat_bitmap_len64 bitmap_bytes64_def fc)
  show "bm_base64 (pmm_setup64 L n s) = bitmap_start64 L"
    by (simp add: pmm_setup64_def bm_fill64_def Let_def bitmap_start64_def)
  show "bitmap_byte_len64 (pmm_setup64 L n s) = of_nat (bitmap_bytes64 n)"
    unfolding len [symmetric] by (simp add: pmm_setup64_def bm_fill64_def Let_def)
  show "length (bitmap64 (pmm_setup64 L n s)) = bitmap_bytes64 n"
    unfolding len [symmetric] by (simp add: pmm_setup64_def bm_fill64_def Let_def)
qed

lemma bm_base_mark64 [frame_simps]:
  "bm_base64 (mark_frames64 bm_set64 p e s) = bm_base64 s"
  "bitmap_byte_len64 (mark_frames64 bm_set64 p e s) = bitmap_byte_len64 s"
  "bm_base64 (mark_frames64 bm_clear64 p e s) = bm_base64 s"
  "bitmap_byte_len64 (mark_frames64 bm_clear64 p e s) = bitmap_byte_len64 s"
proof -
  have "bm_base64 (mark_frames64 f p e s) = bm_base64 s \<and> bitmap_byte_len64 (mark_frames64 f p e s) = bitmap_byte_len64 s"
    if "\<And>k s. bm_base64 (f k s) = bm_base64 s" "\<And>k s. bitmap_byte_len64 (f k s) = bitmap_byte_len64 s" for f
    using that
  proof (induction f p e s rule: mark_frames64.induct)
    case (1 f p e s)
    then show ?case by (subst (1 2) mark_frames64.simps) (simp add: Let_def)
  qed
  from this [of bm_set64] this [of bm_clear64] show
    "bm_base64 (mark_frames64 bm_set64 p e s) = bm_base64 s"
    "bitmap_byte_len64 (mark_frames64 bm_set64 p e s) = bitmap_byte_len64 s"
    "bm_base64 (mark_frames64 bm_clear64 p e s) = bm_base64 s"
    "bitmap_byte_len64 (mark_frames64 bm_clear64 p e s) = bitmap_byte_len64 s"
    by (auto simp: frame_simps)
qed

lemma bm_base_marks64 [frame_simps]:
  "bm_base64 (frames_mark_used64 b e s) = bm_base64 s"
  "bitmap_byte_len64 (frames_mark_used64 b e s) = bitmap_byte_len64 s"
  "bm_base64 (frames_mark_free64 b e s) = bm_base64 s"
  "bitmap_byte_len64 (frames_mark_free64 b e s) = bitmap_byte_len64 s"
  by (simp_all add: frames_mark_used64_def frames_mark_free64_def frame_simps)

lemma bm_base_fold_free64:
  "bm_base64 (fold (\<lambda>e. free_cb64 (mm_base e) (mm_length e)) es s) = bm_base64 s \<and>
   bitmap_byte_len64 (fold (\<lambda>e. free_cb64 (mm_base e) (mm_length e)) es s) = bitmap_byte_len64 s"
  by (induction es arbitrary: s) (auto simp: free_cb64_def frame_simps)

lemma mbi_at_same:
  assumes "\<And>x. in_range64 info n x \<Longrightarrow> m' x = m x" and "n \<le> 4294967296"
  shows "same_on 0 n (mbi_at m info) (mbi_at m' info)"
proof -
  have "m (info + ucast a) = m' (info + ucast a)" if "unat a < n" for a :: u32
    using assms(1) [of "info + ucast a"] that by (simp add: in_range64_def)
  then show ?thesis by (simp add: same_on_def in_range_def mbi_at_def)
qed

section \<open>The free frames\<close>

lemma frames64_init:
  assumes map: "mb2_mmap (mbi_at m info) 0 = Some es" and n: "0 < ram_end es"
    and sep: "\<And>x. in_range64 info (max 8 (unat (ld32 (mbi_at m info) 0))) x \<Longrightarrow>
      \<not> in_range64 (bitmap_start64 L) (bitmap_bytes64 (ram_end es)) x"
  shows "\<exists>s'. pmm_init64 L m info mb s = (True, s') \<and> pmm_inv64 s'
    \<and> unat (frame_count64 s') = (unat (ram_end es) + 4095) div 4096
    \<and> (\<forall>k. frame_free64 s' k \<longleftrightarrow>
         0 < k \<and> k < (unat (ram_end es) + 4095) div 4096
         \<and> (\<exists>e\<in>set (avail_entries es). touches64 e k)
         \<and> \<not> range_frames64 (kernel_image_begin64 L) (kernel_image_end64 L) k
         \<and> \<not> range_frames64 (ucast mb) (ucast mb + ucast (ld32 (mbi_at m info) 0)) k
         \<and> \<not> range_frames64 (bitmap_start64 L)
              (bitmap_start64 L + of_nat (bitmap_bytes64 (ram_end es))) k)"
proof -
  let ?s1 = "pmm_setup64 L (ram_end es) s"
  let ?m1 = "store_bytes64 m (bitmap_start64 L) (bitmap64 ?s1)"
  let ?n = "max 8 (unat (ld32 (mbi_at m info) 0))"
  note su = pmm_setup_effect64 [OF n, of L s] and fields = pmm_setup_fields64 [OF n, of L s]
  have "?m1 x = m x" if "in_range64 info ?n x" for x
    using sep [OF that] by (simp add: store_bytes64_def in_range64_def fields(3))
  moreover have "?n \<le> 4294967296" using unat_lt32 [of "ld32 (mbi_at m info) 0"] by simp
  ultimately have same: "same_on 0 ?n (mbi_at m info) (mbi_at ?m1 info)" by (rule mbi_at_same)
  let ?s2 = "fold (\<lambda>e. free_cb64 (mm_base e) (mm_length e)) (avail_entries es) ?s1"
  let ?s3 = "frames_mark_used64 (kernel_image_begin64 L) (kernel_image_end64 L) ?s2"
  let ?s4 = "frames_mark_used64 (ucast mb) (ucast mb + ucast (ld32 (mbi_at m info) 0)) ?s3"
  let ?s5 = "frames_mark_used64 (bitmap_start64 L)
      (bitmap_start64 L + of_nat (bitmap_bytes64 (ram_end es))) ?s4"
  have "ld32 (mbi_at ?m1 info) 0 = ld32 (mbi_at m info) 0"
    using ld32_same_on [OF same, of 0] unat_lt32 [of "ld32 (mbi_at m info) 0"] by simp
  then have run: "pmm_init64 L m info mb s = (True, bm_set64 0 ?s5)"
    using n by (simp add: pmm_init64_def mb2_for_each_available_Some [OF map] ram_end_max_cb
        fields Let_def for_each_same [OF same] frame_simps bm_base_fold_free64)
  have f2: "pmm_shape64 ?s2" "frame_count64 ?s2 = frame_count64 ?s1"
    "frame_free64 ?s2 j \<longleftrightarrow> (\<exists>e\<in>set (avail_entries es). touches64 e j) \<and> j < unat (frame_count64 ?s1)" for j
    using fold_free_cb64 [OF su(2), of "avail_entries es" j] su(3) [of j] by auto
  note u3 = frames_mark_used_effect64 [OF f2(1), of "kernel_image_begin64 L" "kernel_image_end64 L"]
  note u4 = frames_mark_used_effect64 [OF u3(1), of "ucast mb" "ucast mb + ucast (ld32 (mbi_at m info) 0)"]
  note u5 = frames_mark_used_effect64 [OF u4(1), of "bitmap_start64 L"
      "bitmap_start64 L + of_nat (bitmap_bytes64 (ram_end es))"]
  have fc: "frame_count64 ?s5 = frame_count64 ?s1" by (simp only: u5(2) u4(2) u3(2) f2(2))
  have "0 < unat (ram_end es)" using n by (simp add: word_less_nat_alt)
  then have "0 < (unat (ram_end es) + 4095) div 4096" by linarith
  then have lt: "unat (0 :: u64) < unat (frame_count64 ?s5)" using fc su(1) by simp
  have free: "frame_free64 (bm_set64 0 ?s5) j \<longleftrightarrow> frame_free64 ?s5 j \<and> j \<noteq> 0" for j
    using frame_free_bm_set64 [OF u5(1) lt, of j] by simp
  have inv: "pmm_inv64 (bm_set64 0 ?s5)"
    using u5(1) free [of 0] by (simp only: pmm_inv64_def shape_bm_set64) simp
  show ?thesis
    using inv fc su(1) f2(3)
    by (intro exI [of _ "bm_set64 0 ?s5"]) (simp only: run free u5(3) u4(3) u3(3) frame_simps, blast)
qed

text \<open>
  C12: the frames of the x86-64 build.  For any memory map \<open>es\<close> with usable memory, at any address
  of the 64-bit space, and a bitmap that does not lie over the boot information: \<open>pmm_init\<close>
  succeeds, and a frame is free exactly when an available region touches it and it is neither
  frame 0 nor touched by the kernel image, the boot information or the bitmap itself.
\<close>

theorem pmm64_init_free_frames:
  assumes map: "mb2_mmap (mbi_at m info) 0 = Some es" and n: "0 < ram_end es"
    and sep: "\<And>x. in_range64 info (max 8 (unat (ld32 (mbi_at m info) 0))) x \<Longrightarrow>
      \<not> in_range64 (bitmap_start64 L) (bitmap_bytes64 (ram_end es)) x"
  shows "\<exists>s'. pmm_init64 L m info mb s = (True, s') \<and> pmm_inv64 s'
    \<and> unat (frame_count64 s') = (unat (ram_end es) + 4095) div 4096
    \<and> (\<forall>k. frame_free64 s' k \<longleftrightarrow>
         0 < k \<and> k < (unat (ram_end es) + 4095) div 4096
         \<and> (\<exists>e\<in>set (avail_entries es). touches64 e k)
         \<and> \<not> range_frames64 (kernel_image_begin64 L) (kernel_image_end64 L) k
         \<and> \<not> range_frames64 (ucast mb) (ucast mb + ucast (ld32 (mbi_at m info) 0)) k
         \<and> \<not> range_frames64 (bitmap_start64 L)
              (bitmap_start64 L + of_nat (bitmap_bytes64 (ram_end es))) k)"
  by (rule frames64_init [OF assms])

text \<open>Memory from 4 GiB to 6 GiB, the kernel at 2 MiB, the boot information at 0x9000.\<close>

definition sample_layout64 :: layout64 where
  "sample_layout64 = \<lparr>kernel_image_begin64 = 0x200000, kernel_image_end64 = 0x204000\<rparr>"

definition high_map :: "mb2_mmap_entry list" where
  "high_map = [\<lparr>mm_base = 0x100000000, mm_length = 0x80000000, mm_type = 1, mm_reserved0 = 0\<rparr>]"

definition high_memory :: memory64 where
  "high_memory = store_bytes64 (\<lambda>_. 0) 0x9000 (mbi_image high_map)"

definition sample_pmm64 :: pmm64 where
  "sample_pmm64 = \<lparr>bitmap64 = [], bm_base64 = 0, bitmap_byte_len64 = 0, frame_count64 = 0\<rparr>"

lemma high_memory_mbi: "mbi_at high_memory 0x9000 = store_bytes (\<lambda>_. 0) 0 (mbi_image high_map)"
proof
  fix a :: u32
  have len: "length (mbi_image high_map) = 56" by (simp add: mbi_image_def high_map_def)
  show "mbi_at high_memory 0x9000 a = store_bytes (\<lambda>_. 0) 0 (mbi_image high_map) a"
  proof (cases "unat a < 56")
    case True
    then have "store_bytes (\<lambda>_. 0) 0 (mbi_image high_map) (0 + of_nat (unat a)) = mbi_image high_map ! unat a"
      using len by (intro store_bytes_in) simp_all
    then show ?thesis using True len by (simp add: mbi_at_def high_memory_def store_bytes64_def)
  next
    case False
    then have "store_bytes (\<lambda>_. 0) 0 (mbi_image high_map) a = 0"
      using len by (intro store_bytes_out) (simp_all add: in_range_def)
    then show ?thesis using False len by (simp add: mbi_at_def high_memory_def store_bytes64_def)
  qed
qed

lemma high_memory_map: "mb2_mmap (mbi_at high_memory 0x9000) 0 = Some high_map"
  unfolding high_memory_mbi
  by (rule mb2_parse_image) (simp_all add: holds_store_bytes mbi_image_def high_map_def)

lemma high_map_facts:
  "ram_end high_map = 0x180000000" "bitmap_bytes64 0x180000000 = 196608" "bitmap_start64 sample_layout64 = 0x204000"
  "avail_entries high_map = high_map" "ld32 (mbi_at high_memory 0x9000) 0 = 56"
proof -
  show "ram_end high_map = 0x180000000" "avail_entries high_map = high_map"
    by (simp_all add: ram_end_def avail_entries_def high_map_def)
  show "bitmap_bytes64 0x180000000 = 196608" by (simp add: bitmap_bytes64_def)
  show "bitmap_start64 sample_layout64 = 0x204000"
    by (simp add: bitmap_start64_def align_up64_def sample_layout64_def)
  show "ld32 (mbi_at high_memory 0x9000) 0 = 56" unfolding high_memory_mbi by code_simp
qed

text \<open>The frame at 4 GiB is free.\<close>

theorem pmm64_init_free_frames_witness:
  "\<exists>s'. pmm_init64 sample_layout64 high_memory 0x9000 0x9000 sample_pmm64 = (True, s') \<and> frame_free64 s' 0x100000"
proof -
  have sep: "\<not> in_range64 (bitmap_start64 sample_layout64) (bitmap_bytes64 (ram_end high_map)) x"
    if "in_range64 0x9000 (max 8 (unat (ld32 (mbi_at high_memory 0x9000) 0))) x" for x
  proof
    assume x: "in_range64 (bitmap_start64 sample_layout64) (bitmap_bytes64 (ram_end high_map)) x"
    have "unat (x - 0x9000) < 56" using that by (simp add: high_map_facts in_range64_def)
    moreover have "unat (x - 0x204000) < 196608" using x by (simp add: high_map_facts in_range64_def)
    ultimately show False by (simp add: unat_sub_if_size word_size split: if_splits)
  qed
  have "\<exists>e\<in>set high_map. touches64 e 0x100000" "\<not> range_frames64 0x200000 0x204000 0x100000"
    "\<not> range_frames64 0x9000 (0x9000 + 56) 0x100000" "\<not> range_frames64 0x204000 (0x204000 + 196608) 0x100000"
    by (simp_all add: touches64_def range_frames64_def high_map_def)
  then show ?thesis
    using pmm64_init_free_frames [where mb = "0x9000" and s = sample_pmm64, OF high_memory_map _ sep]
    by (simp add: high_map_facts) (auto simp: sample_layout64_def)
qed

end
