(* ===== verification/Kmain64.thy ===== *)
theory Kmain64
  imports Interrupts64 Paging64 Pmm64 Kmain
begin

text \<open>
  \<open>kernel/main_amd64.c\<close>: \<open>kernel_main_amd64\<close> of the x86-64 build, which maps memory, brings the
  parts up in their order, waits for the timer and runs the thread demo.
\<close>

record main64 = irq64 +
  frames64 :: pmm64
  tabs :: tabs64

text \<open>What the linker decides.\<close>

record boot_env64 =
  e_layout64 :: layout64
  e_tables64 :: tables64
  e_heap64 :: u64
  e_text64 :: text_syms64
  e_idt64 :: idt_syms64

section \<open>The code\<close>

definition max_phys_cb :: "u64 \<Rightarrow> u64 \<Rightarrow> u64 \<Rightarrow> u64" where
  "max_phys_cb base_a len max_end = (let end_a = base_a + len in if end_a > max_end then end_a else max_end)"

definition st16_64 :: "memory64 \<Rightarrow> u64 \<Rightarrow> u16 \<Rightarrow> memory64" where
  "st16_64 m a v = (m(a := ucast v))(a + 1 := ucast (drop_bit 8 v))"

definition vga_mark64 :: "memory64 \<Rightarrow> memory64" where
  "vga_mark64 m = st16_64 (st16_64 m 0xB8000 (push_bit 12 2 OR push_bit 8 0xA OR 0x36)) 0xB8002 (push_bit 12 2 OR push_bit 8 0xA OR 0x34)"

text \<open>From the upper end of memory to the frames; \<open>Inl\<close> is an early return.\<close>

definition boot_map64 :: "boot_env64 \<Rightarrow> u64 \<Rightarrow> 'a main64_scheme \<Rightarrow> ('a main64_scheme + 'a main64_scheme) option" where
  "boot_map64 E mb_info_phys s =
     (case mb2_for_each_available (mbi_at (mem64 s) mb_info_phys) 0 max_phys_cb 0 of (ok, max_end) \<Rightarrow>
     if \<not> ok \<or> max_end = 0 then map_option Inl (put ''[VerveOS] mmap: cannot determine max physical address'' s)
     else let lapic_end = 0xFEE00000 + 0x1000; map_end = (if max_end < lapic_end then lapic_end else max_end)
     in case paging_amd64_identity_init (e_tables64 E) map_end s of (ok, s1) \<Rightarrow>
     if \<not> ok then map_option Inl (put ''[VerveOS] paging_amd64_identity_init failed (span too large for static PT pool?)'' s1)
     else Option.bind (put ''[VerveOS] amd64 paging: CR3 reload (2 MiB identity)'' s1) (\<lambda>s2.
     case pmm_init64 (e_layout64 E) (mem64 s2) mb_info_phys (ucast mb_info_phys) (frames64 s2) of (ok, p) \<Rightarrow>
     if \<not> ok then map_option Inl (put ''[VerveOS] pmm_init failed'' (s2\<lparr>frames64 := p\<rparr>))
     else Option.bind (serial_puts (cstr ''[VerveOS] pmm: ready; frames='') (s2\<lparr>frames64 := p\<rparr>)) (\<lambda>s3.
     Option.bind (serial_put_u64_hex (pmm_frame_count64 (frames64 s3)) s3) (\<lambda>s4.
     Option.bind (serial_puts (cstr '' max_pfn='') s4) (\<lambda>s5.
     Option.bind (serial_put_u64_hex (pmm_max_pfn64 (frames64 s5)) s5) (\<lambda>s6.
     map_option Inr (serial_puts crlf s6)))))))"

text \<open>From the start to the frames.\<close>

definition boot_memory64 :: "boot_env64 \<Rightarrow> u64 \<Rightarrow> u64 \<Rightarrow> 'a main64_scheme \<Rightarrow> ('a main64_scheme + 'a main64_scheme) option" where
  "boot_memory64 E magic mb_info_phys s =
     Option.bind (serial_puts (crlf @ cstr ''[VerveOS] kernel_main_amd64 (long mode)'' @ crlf) (s\<lparr>mem64 := vga_mark64 (mem64 s)\<rparr>)) (\<lambda>s1.
     if magic \<noteq> 0x36d76289 then map_option Inl (put ''[VerveOS] multiboot2: unexpected RAX magic'' s1)
     else Option.bind (put ''[VerveOS] multiboot2: OK (x86_64)'' s1) (\<lambda>s2.
     Option.bind (case mb2_sum_usable_ram (mbi_at (mem64 s2) mb_info_phys) 0 of
         None \<Rightarrow> put ''[VerveOS] mmap sum: parse failed'' s2
       | Some usable_mmap \<Rightarrow>
           Option.bind (serial_puts (cstr ''[VerveOS] mmap type=1 sum: '') s2) (\<lambda>t1.
           Option.bind (serial_put_u64_hex usable_mmap t1) (put '' bytes''))) (boot_map64 E mb_info_phys)))"

text \<open>From the heap to the armed timer; two of the messages hold UTF-8 characters.\<close>

definition boot_devices64 :: "boot_env64 \<Rightarrow> 'a main64_scheme \<Rightarrow> 'a main64_scheme option" where
  "boot_devices64 E s =
     Option.bind (put ''[VerveOS] heap: bump kmalloc arena (256 KiB BSS)'' (s\<lparr>g_kheap64 := heap_init64 (g_kheap64 s)\<rparr>)) (\<lambda>s1.
     Option.bind (serial_puts (cstr ''[VerveOS] amd64 IDT: loaded (exceptions 0'' @ [0xE2, 0x80, 0x93] @ cstr ''31, IRQ stubs 32''
         @ [0xE2, 0x80, 0x93] @ cstr ''47, vec 64)'' @ crlf) (s1\<lparr>tabs := idt_init64 (e_idt64 E) (tabs s1)\<rparr>)) (\<lambda>s2.
     Option.bind (put ''[VerveOS] amd64 LAPIC: BSP MMIO + SW enable'' (lapic_bsp_early_init64 s2)) (\<lambda>s3.
     Option.bind (serial_puts (cstr ''[VerveOS] sched: per-CPU ticks (LAPIC periodic '' @ [0xE2, 0x86, 0x92] @ cstr '' vec 64)'' @ crlf)
         (sched_init64 s3)) (\<lambda>s4.
     Option.bind (thread_system_init64 (e_heap64 E) (e_text64 E) s4) (\<lambda>s5.
     Option.bind (put ''[VerveOS] amd64 PIC: remapped + all IRQ masked'' (pic_irq_mask_all64 (pic_init64 0x20 0x28 s5))) (\<lambda>s6.
     put ''[VerveOS] amd64 LAPIC timer: periodic vec 64 armed''
       (lapic_timer_periodic64 64 125000 3 (irq_timer_set_lapic_eoi64 True s6))))))))"

partial_function (option) wait_ticks64 :: "('a sch64_scheme \<Rightarrow> 'a sch64_scheme option) \<Rightarrow> 'a sch64_scheme \<Rightarrow> 'a sch64_scheme option" where
  "wait_ticks64 intr s = (if sched_tick_count64 s < 5 then Option.bind (intr s) (wait_ticks64 intr) else Some s)"

text \<open>
  From the wait for the timer to the halt.  \<open>intr\<close> is what the interrupt that ends a \<open>hlt\<close> does,
  \<open>away\<close> what the other threads do while this one is switched away from.
\<close>

definition boot_run64 :: "boot_env64 \<Rightarrow> ('a main64_scheme \<Rightarrow> 'a main64_scheme option)
    \<Rightarrow> (tref \<Rightarrow> tref \<Rightarrow> 'a main64_scheme \<Rightarrow> 'a main64_scheme option) \<Rightarrow> 'a main64_scheme \<Rightarrow> 'a main64_scheme option" where
  "boot_run64 E intr away s =
     Option.bind (put ''[VerveOS] enabling interrupts (sti); wait 5 BSP timer ticks...'' s) (\<lambda>s1.
     Option.bind (wait_ticks64 intr (s1\<lparr>if_flag64 := True\<rparr>)) (\<lambda>s2.
     Option.bind (serial_puts (cstr ''[VerveOS] sched: 5 ticks seen; need_resched='') s2) (\<lambda>s3.
     Option.bind (serial_put_u64_hex (ucast (sched_need_resched64 s3)) s3) (\<lambda>s4.
     Option.bind (serial_puts crlf s4) (\<lambda>s5.
     Option.bind (put ''[VerveOS] clearing resched before thread demo'' s5) (\<lambda>s6.
     Option.bind (put ''[VerveOS] sti: LAPIC drives per-CPU need_resched'' (sched_clear_resched64 s6)) (\<lambda>s7.
     Option.bind (thread_demo_run64 (e_heap64 E) (e_text64 E) away (s7\<lparr>if_flag64 := True\<rparr>)) (\<lambda>s8.
     Option.bind (put ''[VerveOS] cli after thread demo'' s8) (\<lambda>s9.
     put ''[VerveOS] halted after thread demo (amd64)'' (s9\<lparr>if_flag64 := False\<rparr>))))))))))"

definition kernel_main_amd64 :: "boot_env64 \<Rightarrow> ('a main64_scheme \<Rightarrow> 'a main64_scheme option)
    \<Rightarrow> (tref \<Rightarrow> tref \<Rightarrow> 'a main64_scheme \<Rightarrow> 'a main64_scheme option) \<Rightarrow> u64 \<Rightarrow> u64 \<Rightarrow> 'a main64_scheme \<Rightarrow> 'a main64_scheme boot_end option" where
  "kernel_main_amd64 E intr away magic mb_info_phys s =
     Option.bind (boot_memory64 E magic mb_info_phys s) (\<lambda>r. case r of
       Inl t \<Rightarrow> Some (Returns t)
     | Inr s1 \<Rightarrow> map_option Halted (Option.bind (boot_devices64 E s1) (boot_run64 E intr away)))"

section \<open>The console aside\<close>

text \<open>\<open>says s t\<close>: from \<open>s\<close> to \<open>t\<close> only the console has been used.\<close>

definition says :: "'a main64_scheme \<Rightarrow> 'a main64_scheme \<Rightarrow> bool" where
  "says s t \<longleftrightarrow> (\<exists>m. prints s m t)"

lemma says_refl: "says s s"
  unfolding says_def by (rule exI, rule prints_refl)

lemma says_prints: "says s t \<Longrightarrow> prints t m u \<Longrightarrow> says s u"
  unfolding says_def by (blast intro: prints_trans)

lemma says_trans: "says s t \<Longrightarrow> says t u \<Longrightarrow> says s u"
  unfolding says_def by (blast intro: prints_trans)

lemma says_keeps: "says s t \<Longrightarrow> mem64 t = mem64 s \<and> cr3_64 t = cr3_64 s \<and> frames64 t = frames64 s"
  by (auto simp: says_def prints_def)

lemma returns_says:
  assumes "con_ok t" and "says s t" and "\<And>u. says s u \<Longrightarrow> con_ok u \<Longrightarrow> Q u"
  shows "returns (serial_puts m t) Q" and "returns (serial_put_u64_hex v t) Q"
  using assms by (auto intro!: returns_puts returns_hex intro: says_prints)

lemma max_phys_cb_eq: "max_phys_cb = max_cb"
  by (simp add: fun_eq_iff max_phys_cb_def max_cb_def Let_def)

lemma returns_sum:
  assumes "con_ok t" and "says s t" and "\<And>u. says s u \<Longrightarrow> con_ok u \<Longrightarrow> Q u"
  shows "returns (case usable of None \<Rightarrow> serial_puts m t
       | Some v \<Rightarrow> Option.bind (serial_puts m1 t) (\<lambda>t1. Option.bind (serial_put_u64_hex v t1) (serial_puts m2))) Q"
proof (cases usable)
  case None
  then show ?thesis using returns_says(1) [OF assms] by simp
next
  case (Some v)
  show ?thesis unfolding Some option.case
    by (rule returns_bind returns_says assms | assumption)+
qed

lemma returns_boot_memory64:
  assumes "con_ok s"
    and "magic = 0x36d76289 \<Longrightarrow> \<forall>t. says (s\<lparr>mem64 := vga_mark64 (mem64 s)\<rparr>) t \<longrightarrow> con_ok t \<longrightarrow> returns (boot_map64 E info t) Q"
    and "magic \<noteq> 0x36d76289 \<Longrightarrow> \<forall>t. says (s\<lparr>mem64 := vga_mark64 (mem64 s)\<rparr>) t \<longrightarrow> Q (Inl t)"
  shows "returns (boot_memory64 E magic info s) Q"
proof -
  let ?s0 = "s\<lparr>mem64 := vga_mark64 (mem64 s)\<rparr>"
  have con: "con_ok ?s0" using assms(1) by (simp add: con_ok_def uart_live_def)
  show ?thesis
    unfolding boot_memory64_def
  proof (rule returns_bind, rule returns_says(1) [OF con says_refl])
    fix t assume t: "says ?s0 t" "con_ok t"
    show "returns (if magic \<noteq> 0x36d76289 then map_option Inl (put ''[VerveOS] multiboot2: unexpected RAX magic'' t)
      else Option.bind (put ''[VerveOS] multiboot2: OK (x86_64)'' t) (\<lambda>s2.
        Option.bind (case mb2_sum_usable_ram (mbi_at (mem64 s2) info) 0 of
            None \<Rightarrow> put ''[VerveOS] mmap sum: parse failed'' s2
          | Some usable_mmap \<Rightarrow>
              Option.bind (serial_puts (cstr ''[VerveOS] mmap type=1 sum: '') s2) (\<lambda>t1.
              Option.bind (serial_put_u64_hex usable_mmap t1) (put '' bytes''))) (boot_map64 E info))) Q"
    proof (cases "magic = 0x36d76289")
      case True
      show ?thesis unfolding True using assms(2) [OF True]
        by (simp only: simp_thms if_False) (rule returns_bind, rule returns_says(1) [OF t(2,1)], rule returns_bind,
            rule returns_sum, assumption, assumption, blast)
    next
      case False
      then show ?thesis using assms(3) [OF False]
        by (simp only: simp_thms if_True) (rule returns_map, rule returns_says(1) [OF t(2,1)], blast)
    qed
  qed
qed

section \<open>Refusing to start\<close>

definition bootable64 :: "u64 \<Rightarrow> memory64 \<Rightarrow> u64 \<Rightarrow> bool" where
  "bootable64 magic m info \<longleftrightarrow> magic = 0x36d76289
     \<and> (case mb2_mmap (mbi_at m info) 0 of None \<Rightarrow> False | Some es \<Rightarrow> 0 < ram_end es \<and> ram_end es \<le> 0x1000000000)"

lemma boot_map64_refuses:
  assumes "con_ok t" and "\<not> bootable64 0x36d76289 (mem64 t) info"
  shows "returns (boot_map64 E info t) (\<lambda>r. \<exists>u. r = Inl u \<and> says t u)"
proof -
  have refuse: "returns (map_option Inl (serial_puts m t)) (\<lambda>r. \<exists>u. r = Inl u \<and> says t u)" for m
    by (rule returns_map, rule returns_says(1) [OF assms(1) says_refl]) simp
  show ?thesis
  proof (cases "mb2_mmap (mbi_at (mem64 t) info) 0")
    case None
    then have "\<not> fst (mb2_for_each_available (mbi_at (mem64 t) info) 0 max_phys_cb 0)" by (rule mb2_for_each_available_None)
    then show ?thesis using refuse by (auto simp: boot_map64_def split: prod.split)
  next
    case (Some es)
    then have lim: "ram_end es = 0 \<or> ram_end es > 0x1000000000" using assms(2) by (auto simp: bootable64_def simp flip: word_neq_0_conv)
    have walk: "mb2_for_each_available (mbi_at (mem64 t) info) 0 max_phys_cb 0 = (True, ram_end es)"
      unfolding max_phys_cb_eq by (simp add: mb2_for_each_available_Some [OF Some] ram_end_max_cb)
    show ?thesis
    proof (cases "ram_end es = 0")
      case True
      then show ?thesis using refuse by (simp add: boot_map64_def walk)
    next
      case False
      then have big: "ram_end es > 0x1000000000" using lim by simp
      then have "\<not> ram_end es < 0xFEE00000 + 0x1000" by (auto simp: word_less_nat_alt)
      moreover have "paging_amd64_identity_init (e_tables64 E) (ram_end es) t = (False, t)"
        using big by (simp add: paging_amd64_identity_init_def)
      ultimately show ?thesis using refuse False by (simp add: boot_map64_def walk Let_def)
    qed
  qed
qed

text \<open>
  Refusing to start in the x86-64 build.  With a wrong magic number, without a memory map
  the parser accepts, without usable memory or with memory above 64 GiB, \<open>kernel_main_amd64\<close>
  returns to the boot code, and has changed nothing but two cells of the text screen and the
  console: no table is written, CR3 is not loaded, no frame is taken, no device is touched.
\<close>

theorem kernel_main_amd64_refuses:
  assumes "con_ok s" and "\<not> bootable64 magic (vga_mark64 (mem64 s)) info"
  shows "\<exists>s'. kernel_main_amd64 E intr away magic info s = Some (Returns s') \<and> says (s\<lparr>mem64 := vga_mark64 (mem64 s)\<rparr>) s'"
proof -
  let ?s0 = "s\<lparr>mem64 := vga_mark64 (mem64 s)\<rparr>"
  have "returns (boot_memory64 E magic info s) (\<lambda>r. \<exists>t. r = Inl t \<and> says ?s0 t)"
  proof (rule returns_boot_memory64 [OF assms(1)]; intro allI impI)
    fix t assume t: "says ?s0 t" "con_ok t" and "magic = 0x36d76289"
    then have "\<not> bootable64 0x36d76289 (mem64 t) info" using assms(2) says_keeps [OF t(1)] by simp
    from boot_map64_refuses [OF t(2) this]
    show "returns (boot_map64 E info t) (\<lambda>r. \<exists>t. r = Inl t \<and> says ?s0 t)"
      by (rule returns_mono) (use says_trans [OF t(1)] in blast)
  qed simp
  then show ?thesis by (auto simp: returns_def kernel_main_amd64_def)
qed

section \<open>Memory after the start\<close>

text \<open>The parser gives the same map on a memory that agrees on the structure.\<close>

lemma mb2_mmap_same:
  assumes "same_on info (max 8 (unat (ld32 m info))) m m'"
  shows "mb2_mmap m' info = mb2_mmap m info"
proof -
  let ?f = "\<lambda>e c. (True, c @ [e])"
  have f: "total_cb ?f" by (simp add: total_cb_def)
  have c: "fold (\<lambda>x c. snd (?f x c)) es [] = es" for es :: "mb2_mmap_entry list"
    by (induction es rule: rev_induct) simp_all
  have walk: "walk_mmap_entries m' info ?f [] = walk_mmap_entries m info ?f []"
    using mb2_reads_same(1) [OF assms, of ?f "[]"] by simp
  show ?thesis
    using walk_mmap_entries_Some [OF f, of m info _ "[]"] walk_mmap_entries_Some [OF f, of m' info _ "[]"]
      walk_mmap_entries_None [OF f, of m info "[]"] walk_mmap_entries_None [OF f, of m' info "[]"]
    unfolding c walk by (cases "mb2_mmap m info"; cases "mb2_mmap m' info") auto
qed

lemma round_up_mono: "(x + 4095) div 4096 * 4096 \<le> (x + 0x1FFFFF) div 0x200000 * 0x200000" for x :: nat
proof -
  define m where "m = (x + 0x1FFFFF) div 0x200000"
  have "x \<le> m * 0x200000" unfolding m_def by linarith
  then have "(x + 4095) div 4096 \<le> (4095 + m * 512 * 4096) div 4096" by (intro div_le_mono) simp
  also have "\<dots> = m * 512" by (subst div_mult_self1) simp_all
  finally show ?thesis unfolding m_def by simp
qed

definition maps_self :: "'a main64_scheme \<Rightarrow> u64 \<Rightarrow> bool" where
  "maps_self s va \<longleftrightarrow> walk64 (mem64 s) (cr3_64 s) va = Some va"

text \<open>
  The boot information lies below 4 GiB, where the boot code finds it, and neither over the page
  tables nor over the bitmap of the frames.
\<close>

definition mbi_apart :: "boot_env64 \<Rightarrow> memory64 \<Rightarrow> u64 \<Rightarrow> u64 \<Rightarrow> bool" where
  "mbi_apart E m info ram \<longleftrightarrow> (\<forall>x. in_range64 info (max 8 (unat (ld32 (mbi_at m info) 0))) x \<longrightarrow>
     (\<forall>p\<in>set (table_pages (e_tables64 E)). \<not> in_range64 p 4096 x)
     \<and> \<not> in_range64 (bitmap_start64 (e_layout64 E)) (bitmap_bytes64 ram) x)"

lemma boot_map64_maps:
  assumes con: "con_ok t" and tabs: "tables64_ok (e_tables64 E)"
    and map: "mb2_mmap (mbi_at (mem64 t) info) 0 = Some es" and n: "0 < ram_end es" "ram_end es \<le> 0x1000000000"
    and apart: "mbi_apart E (mem64 t) info (ram_end es)"
  shows "returns (boot_map64 E info t) (\<lambda>r. \<exists>s'. r = Inr s' \<and> pmm_inv64 (frames64 s')
    \<and> (\<forall>va. frame_free64 (frames64 s') (unat va div 4096) \<or> drop_bit 12 va = 0xFEE00 \<longrightarrow> maps_self s' va))"
proof -
  define span where "span = (if ram_end es < 0xFEE01000 then 0xFEE01000 else ram_end es)"
  define s1 where "s1 = snd (paging_amd64_identity_init (e_tables64 E) span t)"
  have "\<not> (span = 0 \<or> span > 0x1000000000)" using n by (auto simp: span_def not_less)
  with identity64 [OF tabs, of span t]
  have ok: "paging_amd64_identity_init (e_tables64 E) span t = (True, s1)"
    and maps: "walk64 (mem64 s1) (cr3_64 s1) va = (if unat va < (unat span + 0x1FFFFF) div 0x200000 * 0x200000 then Some va else None)" for va
    unfolding s1_def by (simp_all add: prod_eq_iff)
  have span: "unat (ram_end es) \<le> unat span" "0xFEE01000 \<le> unat span"
    by (auto simp: span_def word_less_nat_alt not_less)
  have con1: "con_ok s1" and fr1: "frames64 s1 = frames64 t"
    unfolding s1_def by (subst identity_init_rest, use con in \<open>simp add: con_ok_def uart_live_def\<close>)+
  let ?n = "max 8 (unat (ld32 (mbi_at (mem64 t) info) 0))"
  have "mem64 s1 x = mem64 t x" if "in_range64 info ?n x" for x
    unfolding s1_def by (rule identity_init_out) (use apart that in \<open>simp add: mbi_apart_def\<close>)
  moreover have "?n \<le> 4294967296" using unat_lt32 [of "ld32 (mbi_at (mem64 t) info) 0"] by simp
  ultimately have same: "same_on 0 ?n (mbi_at (mem64 t) info) (mbi_at (mem64 s1) info)" by (rule mbi_at_same)
  then have map1: "mb2_mmap (mbi_at (mem64 s1) info) 0 = Some es" using mb2_mmap_same map by simp
  have len1: "ld32 (mbi_at (mem64 s1) info) 0 = ld32 (mbi_at (mem64 t) info) 0"
    using ld32_same_on [OF same, of 0] unat_lt32 [of "ld32 (mbi_at (mem64 t) info) 0"] by simp
  have sep: "\<not> in_range64 (bitmap_start64 (e_layout64 E)) (bitmap_bytes64 (ram_end es)) x"
    if "in_range64 info (max 8 (unat (ld32 (mbi_at (mem64 s1) info) 0))) x" for x
    using apart that unfolding mbi_apart_def len1 by blast
  obtain p where p: "pmm_init64 (e_layout64 E) (mem64 s1) info (ucast info) (frames64 t) = (True, p)" "pmm_inv64 p"
    "\<And>k. frame_free64 p k \<Longrightarrow> k < (unat (ram_end es) + 4095) div 4096"
    using frames64_init [where L = "e_layout64 E" and mb = "ucast info" and s = "frames64 t", OF map1 n(1) sep] by auto
  have self: "walk64 (mem64 s1) (cr3_64 s1) va = Some va" if "frame_free64 p (unat va div 4096) \<or> drop_bit 12 va = 0xFEE00" for va
  proof -
    have "unat va < (unat span + 4095) div 4096 * 4096"
    proof (cases "drop_bit 12 va = 0xFEE00")
      case True
      then have "unat va div 4096 = 0xFEE00" using unat_shiftr [of 12 va] by simp
      then show ?thesis using span(2) by linarith
    next
      case False
      then have "unat va div 4096 < (unat (ram_end es) + 4095) div 4096" using that p(3) by blast
      moreover have "(unat (ram_end es) + 4095) div 4096 \<le> (unat span + 4095) div 4096" using span(1) by (intro div_le_mono) simp
      ultimately show ?thesis by linarith
    qed
    also have "\<dots> \<le> (unat span + 0x1FFFFF) div 0x200000 * 0x200000" by (rule round_up_mono)
    finally have "unat va < (unat span + 0x1FFFFF) div 0x200000 * 0x200000" .
    then show ?thesis by (simp only: maps if_True)
  qed
  have walk: "mb2_for_each_available (mbi_at (mem64 t) info) 0 max_phys_cb 0 = (True, ram_end es)"
    unfolding max_phys_cb_eq by (simp add: mb2_for_each_available_Some [OF map] ram_end_max_cb)
  have nz: "ram_end es \<noteq> 0" using n(1) by simp
  have spn: "(if ram_end es < 0xFEE00000 + 0x1000 then 0xFEE00000 + 0x1000 else ram_end es) = span" by (simp add: span_def)
  have tail: "returns (Option.bind (serial_puts (cstr ''[VerveOS] pmm: ready; frames='') (u\<lparr>frames64 := p\<rparr>)) (\<lambda>s3.
     Option.bind (serial_put_u64_hex (pmm_frame_count64 (frames64 s3)) s3) (\<lambda>s4.
     Option.bind (serial_puts (cstr '' max_pfn='') s4) (\<lambda>s5.
     Option.bind (serial_put_u64_hex (pmm_max_pfn64 (frames64 s5)) s5) (\<lambda>s6.
     map_option Inr (serial_puts crlf s6)))))) (\<lambda>r. \<exists>s'. r = Inr s' \<and> pmm_inv64 (frames64 s')
    \<and> (\<forall>va. frame_free64 (frames64 s') (unat va div 4096) \<or> drop_bit 12 va = 0xFEE00 \<longrightarrow> maps_self s' va))"
    if u: "says s1 u" "con_ok u" for u
  proof -
    let ?u = "u\<lparr>frames64 := p\<rparr>"
    have cu: "con_ok ?u" using u(2) by (simp add: con_ok_def uart_live_def)
    have fin: "pmm_inv64 (frames64 v) \<and> (\<forall>va. frame_free64 (frames64 v) (unat va div 4096) \<or> drop_bit 12 va = 0xFEE00 \<longrightarrow> maps_self v va)"
      if v: "says ?u v" for v
      using says_keeps [OF v] says_keeps [OF u(1)] p(2) self by (simp add: maps_self_def)
    show ?thesis
      by (rule returns_bind returns_map returns_says [OF cu says_refl] returns_says [where s = ?u] | assumption)+ (use fin in blast)
  qed
  show ?thesis
    unfolding boot_map64_def walk prod.case Let_def spn ok simp_thms if_False if_not_P [OF nz]
  proof (rule returns_bind, rule returns_says(1) [OF con1 says_refl], goal_cases)
    case (1 u)
    have "pmm_init64 (e_layout64 E) (mem64 u) info (ucast info) (frames64 u) = (True, p)"
      using says_keeps [OF 1(1)] fr1 p(1) by simp
    then show ?case using tail [OF 1] by (simp only: prod.case simp_thms if_False)
  qed
qed

text \<open>
  C4: memory after the start of the x86-64 build.  With a memory map that ends at or below 64 GiB
  and boot information that lies neither over the page tables nor over the bitmap, the start
  succeeds; then every address of every free frame, and every address of the local APIC's page,
  translates to itself, so the kernel can use the frames and the APIC by their physical addresses.
\<close>

theorem boot64_maps_memory:
  assumes "con_ok s" and "tables64_ok (e_tables64 E)"
    and "mb2_mmap (mbi_at (vga_mark64 (mem64 s)) info) 0 = Some es" and "0 < ram_end es" and "ram_end es \<le> 0x1000000000"
    and "mbi_apart E (vga_mark64 (mem64 s)) info (ram_end es)"
  shows "\<exists>s'. boot_memory64 E 0x36d76289 info s = Some (Inr s') \<and> pmm_inv64 (frames64 s')
    \<and> (\<forall>va. frame_free64 (frames64 s') (unat va div 4096) \<or> drop_bit 12 va = 0xFEE00 \<longrightarrow> maps_self s' va)"
proof -
  have "returns (boot_memory64 E 0x36d76289 info s) (\<lambda>r. \<exists>s'. r = Inr s' \<and> pmm_inv64 (frames64 s')
    \<and> (\<forall>va. frame_free64 (frames64 s') (unat va div 4096) \<or> drop_bit 12 va = 0xFEE00 \<longrightarrow> maps_self s' va))"
  proof (rule returns_boot_memory64 [OF assms(1)]; intro allI impI)
    fix t assume t: "says (s\<lparr>mem64 := vga_mark64 (mem64 s)\<rparr>) t" "con_ok t"
    have m: "mem64 t = vga_mark64 (mem64 s)" using says_keeps [OF t(1)] by simp
    show "returns (boot_map64 E info t) (\<lambda>r. \<exists>s'. r = Inr s' \<and> pmm_inv64 (frames64 s')
      \<and> (\<forall>va. frame_free64 (frames64 s') (unat va div 4096) \<or> drop_bit 12 va = 0xFEE00 \<longrightarrow> maps_self s' va))"
      by (rule boot_map64_maps [OF t(2) assms(2), unfolded m, OF assms(3-6)])
  qed simp
  then show ?thesis by (auto simp: returns_def)
qed

section \<open>Samples\<close>

definition sample_env64 :: boot_env64 where
  "sample_env64 = \<lparr>e_layout64 = sample_layout64, e_tables64 = sample_tables64, e_heap64 = 0x290000, e_text64 = sample_syms64,
     e_idt64 = \<lparr>at_idt64 = 0x2E0000, at_isr64 = \<lambda>v. 0x200100 + 16 * of_nat v, at_irq64 = \<lambda>v. 0x201100 + 16 * of_nat v\<rparr>\<rparr>"

definition sample_main64 :: main64 where
  "sample_main64 = (irq64.extend sample_irq64 \<lparr>frames64 = sample_pmm64, tabs = \<lparr>idt64 = [], idtr64 = (0, 0)\<rparr>\<rparr>)\<lparr>mem64 := high_memory\<rparr>"

lemma sample_main64_con: "con_ok sample_main64"
  using sample_irq64_con by (simp add: sample_main64_def irq64.extend_def con_ok_def uart_live_def)

lemma sample_main64_sel: "frames64 sample_main64 = sample_pmm64" "mem64 sample_main64 = high_memory"
  by (simp_all add: sample_main64_def irq64.extend_def)

text \<open>With the magic number of Multiboot 1.\<close>

theorem kernel_main_amd64_refuses_witness:
  "\<exists>s'. kernel_main_amd64 sample_env64 (\<lambda>s. None) (\<lambda>a b s. None) 0x2BADB002 0x9000 sample_main64 = Some (Returns s')
    \<and> frames64 s' = sample_pmm64"
proof -
  have "\<not> bootable64 0x2BADB002 (vga_mark64 (mem64 sample_main64)) 0x9000" by (simp add: bootable64_def)
  from kernel_main_amd64_refuses [OF sample_main64_con this, of sample_env64 "\<lambda>s. None" "\<lambda>a b s. None"]
  show ?thesis by (auto dest: says_keeps simp: sample_main64_sel)
qed

lemma vga_mark64_out: "unat x < 0xB8000 \<Longrightarrow> vga_mark64 m x = m x"
  by (auto simp: vga_mark64_def st16_64_def)

lemma below_range64: "unat x < unat p \<Longrightarrow> unat p \<le> 4503599627370496 \<Longrightarrow> n \<le> 4503599627370496 \<Longrightarrow> \<not> in_range64 p n x"
  by (simp add: in_range64_def unat_sub_if_size word_size)

lemma sample_mbi: "in_range64 0x9000 56 x \<Longrightarrow> unat x < 0x9038"
  by (simp add: in_range64_def unat_sub_if_size word_size split: if_splits)

lemma sample_map64:
  "mb2_mmap (mbi_at (vga_mark64 high_memory) 0x9000) 0 = Some high_map" "ld32 (mbi_at (vga_mark64 high_memory) 0x9000) 0 = 56"
proof -
  have v: "vga_mark64 high_memory x = high_memory x" if "in_range64 0x9000 56 x" for x
    using sample_mbi [OF that] by (intro vga_mark64_out) simp
  have same: "same_on 0 56 (mbi_at high_memory 0x9000) (mbi_at (vga_mark64 high_memory) 0x9000)"
    by (rule mbi_at_same [OF v]) simp_all
  then show "mb2_mmap (mbi_at (vga_mark64 high_memory) 0x9000) 0 = Some high_map"
    using mb2_mmap_same [of 0 "mbi_at high_memory 0x9000"] high_memory_map by (simp add: high_map_facts)
  show "ld32 (mbi_at (vga_mark64 high_memory) 0x9000) 0 = 56"
    using ld32_same_on [OF same, of 0] by (simp add: high_map_facts)
qed

lemma sample_apart: "mbi_apart sample_env64 (vga_mark64 high_memory) 0x9000 0x180000000"
proof -
  have pd: "unat (pd_at sample_tables64 k) = 0x243000 + 4096 * k" if "k < 64" for k
    unfolding pd_at_def using that unat_plus64 [of "boot_pds sample_tables64" "4096 * k"] by (simp add: sample_tables64_def)
  have "unat p \<le> 4503599627370496 \<and> 0x9038 \<le> unat p" if "p \<in> set (table_pages sample_tables64)" for p
    using that pd by (auto simp: table_pages_def) (auto simp: sample_tables64_def)
  then have "\<not> in_range64 p 4096 x" if "p \<in> set (table_pages sample_tables64)" "unat x < 0x9038" for p x
    using that by (intro below_range64) force+
  moreover have "\<not> in_range64 0x204000 196608 x" if "unat x < 0x9038" for x
    using that by (intro below_range64) simp_all
  ultimately show ?thesis
    using sample_mbi by (simp add: mbi_apart_def sample_map64(2) sample_env64_def high_map_facts)
qed

theorem boot64_maps_memory_witness:
  "\<exists>s'. boot_memory64 sample_env64 0x36d76289 0x9000 sample_main64 = Some (Inr s') \<and> maps_self s' 0xFEE000B0"
proof -
  have t: "tables64_ok (e_tables64 sample_env64)" using sample_tables64_ok by (simp add: sample_env64_def)
  have l: "drop_bit 12 (0xFEE000B0 :: u64) = 0xFEE00" by simp
  from boot64_maps_memory [where s = sample_main64 and info = "0x9000", OF sample_main64_con t, unfolded sample_main64_sel,
      OF sample_map64(1), unfolded high_map_facts, OF _ _ sample_apart]
  show ?thesis using l by force
qed

section \<open>The wait for the timer\<close>

text \<open>One timer interrupt that finds the CPU in \<open>hlt\<close> with the registers \<open>r\<close>.\<close>

definition timer_intr64 :: "gregs64 \<Rightarrow> u64 \<Rightarrow> u64 \<Rightarrow> u64 \<Rightarrow> 'a irq64_scheme \<Rightarrow> 'a irq64_scheme option" where
  "timer_intr64 r rip cs fl s = (case irq_entry64 64 r rip cs fl s of Some (Resumes _ s') \<Rightarrow> Some s' | _ \<Rightarrow> None)"

lemma timer_intr64_effect:
  fixes s :: "'a irq64_scheme"
  assumes "con_ok s"
  shows "\<exists>s'. timer_intr64 r rip cs fl s = Some s' \<and> con_ok s' \<and> lapic_eois64 s s' 1 \<and> sched_tick_count64 s' = sched_tick_count64 s + 1"
proof -
  define s0 where "s0 = s\<lparr>if_flag64 := False\<rparr>"
  have con: "con_ok s0" using assms by (simp add: s0_def con_ok_def uart_live_def)
  let ?f = "frame_of64 (push_regs64 r [64, 0, rip, cs, fl])"
  obtain t where t: "sched_timer_tick64 s0 = Some t" "devices_kept s0 t" "con_ok t" "g_tick64 t = (g_tick64 s)(0 := g_tick64 s 0 + 1)"
    using tick_irq64 [OF con] by (auto simp: returns_def s0_def)
  have "verve_irq_dispatch64 ?f s0 = Some (Resumes ?f (lapic_eoi64 t))" using t(1) by (simp add: verve_irq_dispatch64_def frame64_sel)
  then have run: "timer_intr64 r rip cs fl s = Some ((lapic_eoi64 t)\<lparr>if_flag64 := bit fl 9\<rparr>)"
    by (simp add: timer_intr64_def irq_entry64_def frame64_sel flip: s0_def)
  have "con_ok ((lapic_eoi64 t)\<lparr>if_flag64 := bit fl 9\<rparr>)"
    using t(3) by (simp add: lapic_eoi64_def mmio_w32_64_def con_ok_def uart_live_def)
  moreover have "lapic_eois64 s ((lapic_eoi64 t)\<lparr>if_flag64 := bit fl 9\<rparr>) 1"
    using t(2) by (simp add: lapic_eois64_def lapic_eoi64_def mmio_w32_64_def devices_kept_def s0_def)
  moreover have "sched_tick_count64 ((lapic_eoi64 t)\<lparr>if_flag64 := bit fl 9\<rparr>) = sched_tick_count64 s + 1"
    using t(4) by (simp add: lapic_eoi64_def mmio_w32_64_def sched_tick_count64_def tv.cpu_ix_view)
  ultimately show ?thesis using run by blast
qed

lemma eois64_trans: "lapic_eois64 s t n \<Longrightarrow> lapic_eois64 t u m \<Longrightarrow> lapic_eois64 s u (n + m)"
  by (simp add: lapic_eois64_def replicate_add)

lemma wait_ticks64_loop:
  fixes s :: "'a irq64_scheme"
  assumes "con_ok s" and "unat (sched_tick_count64 s) + n = 5"
  shows "\<exists>s'. wait_ticks64 (timer_intr64 r rip cs fl) s = Some s' \<and> sched_tick_count64 s' = 5 \<and> lapic_eois64 s s' n"
  using assms
proof (induction n arbitrary: s)
  case 0
  then have five: "sched_tick_count64 s = 5" by (simp add: word_unat_eq_iff)
  show ?case by (subst wait_ticks64.simps) (simp add: five lapic_eois64_def)
next
  case (Suc n)
  have lt: "sched_tick_count64 s < 5" using Suc.prems(2) by (simp add: word_less_nat_alt)
  obtain t where t: "timer_intr64 r rip cs fl s = Some t" "con_ok t" "lapic_eois64 s t 1" "sched_tick_count64 t = sched_tick_count64 s + 1"
    using timer_intr64_effect [OF Suc.prems(1)] by blast
  have "unat (sched_tick_count64 t) = Suc (unat (sched_tick_count64 s))" unfolding t(4) using lt by (simp add: unat_arith_simps)
  then obtain s' where s': "wait_ticks64 (timer_intr64 r rip cs fl) t = Some s'" "sched_tick_count64 s' = 5" "lapic_eois64 t s' n"
    using Suc.IH [OF t(2)] Suc.prems(2) by auto
  then show ?case using lt t(1) eois64_trans [OF t(3) s'(3)] by (subst wait_ticks64.simps) simp
qed

text \<open>
  The wait for the timer in the x86-64 build.  When only timer interrupts arrive while the CPU
  halts, the wait of \<open>kernel_main_amd64\<close> ends: after exactly as many as are missing to five ticks,
  each of them acknowledged to the local APIC.
\<close>

theorem wait_ticks64_returns:
  assumes "con_ok s" and "sched_tick_count64 s \<le> 5"
  shows "\<exists>s'. wait_ticks64 (timer_intr64 r rip cs fl) s = Some s' \<and> sched_tick_count64 s' = 5
    \<and> lapic_eois64 s s' (5 - unat (sched_tick_count64 s))"
  using assms by (intro wait_ticks64_loop) (simp_all add: word_le_nat_alt)

theorem wait_ticks64_returns_witness:
  "\<exists>s'. wait_ticks64 (timer_intr64 (pop_regs64 (replicate 15 0)) 0x200000 8 0x202) sample_irq64 = Some s' \<and> length (mmio64_outs s') = 5"
proof -
  have z: "sched_tick_count64 sample_irq64 = 0" "mmio64_outs sample_irq64 = []"
    by (simp_all add: sched_tick_count64_def sample_irq64_def thr64.extend_def sample_thr64_def)
  have "sched_tick_count64 sample_irq64 \<le> 5" by (simp add: z)
  from wait_ticks64_returns [OF sample_irq64_con this, of "pop_regs64 (replicate 15 0)" "0x200000" 8 "0x202"]
  show ?thesis by (auto simp: z lapic_eois64_def)
qed

end
