(* ===== verification/Spec2Isabelle.thy ===== *)
theory Spec2Isabelle
  imports Kheap Vfs_Ram Ioapic Smp Kmain Kmain64
begin

text \<open>
  VerveOS: a model of both builds of the kernel and its correctness.

  THE PROGRAM.  VerveOS is a small kernel in C that a Multiboot2 boot loader starts, in an i386
  build with processes in ring 3 and several CPUs, and in an x86-64 build that runs kernel
  threads on one CPU.  \<open>kernel_main\<close> and \<open>kernel_main_amd64\<close> bring up, in this order, the console,
  the frame allocator from the boot loader's memory map, the heap, the page tables, the
  descriptor tables, the interrupt controllers, the scheduler, the threads and the timer, then
  run a demonstration of the threads; the i386 kernel at last enters ring 3 with a program from
  its RAM file system, which calls back by \<open>int 0x80\<close>.

  HOW IT IS MODELLED.  Each C function is a function of the same name on an explicit state (names
  that clash with others, and those of the x86-64 build, have a suffix).  The state is a chain of
  extensible records, each adding the static variables of one file, so that an operation of an
  early file applies to every later state:
    i386:    \<open>io < con < vm < proc < kern < dev < acpi < mp < sch < thr < irq < iop < desc\<close>;
    x86-64:  \<open>io < con < kern64 < dev64 < sch64 < thr64 < irq64 < main64\<close>.
  Integers keep their widths (\<open>u8\<close> to \<open>u64\<close> are words that wrap).  Memory is a map from physical
  addresses to bytes, 32 or 64 bits wide; page tables, heap headers, stacks and the boot
  information live in it as bytes.  Devices are the environment: what the n-th read of a port or
  a register returns is a function in the state, what is written is a trace.  A result of type
  option is \<open>None\<close> when the C code runs for ever or has undefined behaviour (a null pointer is
  followed, an access faults); every theorem about such a function says that it returns, or
  that it does not.  Loops that may not end are \<open>partial_function (option)\<close>: there is no fuel.
  Functions that never return end in a constructor of their own (\<open>Halts\<close>, \<open>In_user\<close>, \<open>Halted\<close>,
  \<open>Ring3\<close>).

  THEORIES AND SOURCES.
    \<open>Prelude\<close>, \<open>Machine\<close>, \<open>Machine64\<close>, \<open>Ports\<close>: words, memory, the page walks of both
      architectures and the port instructions of \<open>arch/i386/io.h\<close>; the collections \<open>mem_simps\<close>,
      \<open>frame_simps\<close>, \<open>kdefs\<close> and \<open>returns_intros\<close> (rules for computations that return).
    \<open>Mboot2\<close>: \<open>kernel/mboot2.c\<close>.  \<open>Pmm\<close>, \<open>Pmm64\<close>: \<open>kernel/pmm.c\<close> at both widths.
    \<open>Paging\<close>: \<open>arch/i386/paging.c\<close>.  \<open>Paging64\<close>: \<open>arch/x86_64/paging_amd64.c\<close>.
    \<open>Kheap\<close>, \<open>Kheap64\<close>: \<open>kernel/heap.c\<close> at both widths.
    \<open>Serial\<close>, \<open>Con_View\<close>: \<open>kernel/serial.c\<close>, \<open>verve/spinlock.h\<close>.
    \<open>Proc\<close>, \<open>User_Memory\<close>, \<open>Vfs_Ram\<close>: \<open>kernel/proc.c\<close>, user accesses, \<open>kernel/vfs_ram.c\<close>.
    \<open>Pic_Pit\<close>, \<open>Lapic\<close>, \<open>Ioapic\<close>, \<open>Devices64\<close>: the interrupt controllers and timers of
      \<open>arch/i386\<close> and \<open>arch/x86_64\<close>, with \<open>kernel/smp_stub_amd64.c\<close>.
    \<open>Acpi\<close>, \<open>Apic_Map\<close>, \<open>Smp\<close>: \<open>kernel/acpi_hw.c\<close>, \<open>kernel/acpi_smp.c\<close>, \<open>kernel/smp.c\<close>.
    \<open>Sched\<close>, \<open>Sched64\<close>: \<open>kernel/sched.c\<close>, \<open>kernel/sched_amd64.c\<close>.
    \<open>Threads\<close>, \<open>Run_Queue\<close>, \<open>Run_Queue_Runs\<close>, \<open>Turns\<close>: \<open>kernel/thread.c\<close> and
      \<open>arch/i386/context.S\<close>: the code, the operations on the ring of threads, their
      interleavings, and the turns and stacks of the threads.
    \<open>Threads64\<close>, \<open>Turns64\<close>: \<open>kernel/thread_amd64.c\<close> and \<open>arch/x86_64/context_amd64.S\<close>.
    \<open>Gdt_Idt\<close>, \<open>Interrupts\<close>: \<open>arch/i386/gdt.c\<close>, \<open>gdt_asm.S\<close>, \<open>idt.c\<close>, \<open>irq_asm.S\<close>,
      \<open>kernel/interrupt.c\<close>, \<open>kernel/syscall.c\<close>.
    \<open>Idt64\<close>, \<open>Interrupts64\<close>: \<open>arch/x86_64/idt_amd64.c\<close>, \<open>irq_amd64.S\<close>, \<open>exc_amd64.S\<close>,
      \<open>kernel/interrupt_amd64.c\<close>.
    \<open>Exec_Flat\<close>, \<open>User_Bringup\<close>: \<open>kernel/exec_flat.c\<close>, \<open>user_asm.S\<close>, \<open>kernel/user_bringup.c\<close>.
    \<open>Kmain\<close>, \<open>Kmain64\<close>: \<open>kernel/main.c\<close>, \<open>kernel/main_amd64.c\<close>.

  INTERFACES.  Each is a locale, stated away from any code, with its clients' lemmas proved from
  it, and interpreted on the code's own operations: \<open>frame_allocator\<close> (by \<open>Pmm\<close>; the page tables,
  the break and the loaders rely on it), \<open>kernel_heap\<close> (by \<open>Kheap\<close>; the stacks rely on it),
  \<open>bounded_fifo\<close> (by the deferral ring of \<open>Sched\<close>), \<open>node_links\<close> (by the run queue of \<open>Threads\<close>),
  \<open>user_access\<close> (by the range check and the accesses of \<open>User_Memory\<close>), \<open>fd_table\<close> (by
  \<open>Vfs_Ram\<close>), \<open>con_view\<close> and its extension \<open>sched_view\<close> (maps from x86-64 states to i386 states
  under which the console and the scheduler commute; by \<open>as_bsp\<close> and \<open>as_thr\<close>).

  WHAT IS SHOWN.
    Memory: the parser agrees with one reading of the structure on every memory, malformed ones
      included, and never reads outside it; the free frames after \<open>pmm_init\<close>, at both widths;
      the heap is first fit, its blocks are disjoint and come back intact; mappings are exact
      with respect to the hardware's walk, and the range check accepts exactly the ranges a user
      may access; in the x86-64 build everything free is reachable at its own address.
    Processes: the break, opening and reading files as streams, \<open>SYS_WRITE\<close>, the image, the
      registers and the address space a program starts with.
    Interrupts: every vector enters its own stub, device interrupts restore the registers, tick
      and are acknowledged exactly once, exceptions are reported with what the CPU pushed.
    Scheduling: every expired quantum is drained, waiting or counted as dropped, however ticks
      and drains interleave; the run queue stays a ring of the threads in use however the CPUs'
      operations interleave; threads take turns in ring order; switches keep registers and
      stacks.  The x86-64 scheduler equals the i386 one on one CPU, and the x86-64 run queue
      is shown through the same view, so its turns follow from the i386 theorem.
    Devices and CPUs: the MADT walk, the CPUs' numbers, the start-up messages, the timers.
    Boot: what is refused, and that nothing but screen and console has then changed; that the
      wait for the timer ends.

  Some theorems record what the code does where that is not what it means to do: the page table
  entry of the program text without the user bit, the order of the registers in the frame
  struct of the i386 build, the I/O permission map, the end of the range check, a block freed
  twice, and the window of \<open>sched_yield\<close> on several CPUs.

  BOUNDS.  Constants are the code's: 64 threads, 32 CPUs, rings of 16, 256 KiB of heap, 64 page
  directories of 1 GiB.  Hypotheses say what holds at boot: a serial port that answers
  (\<open>con_ok\<close>), tables the linker has aligned and kept apart (\<open>tables64_ok\<close>), boot information that
  does not overlap what the kernel writes.  The x86-64 parser runs on the bytes from the boot
  information on (\<open>mbi_at\<close>), since its offsets stay below a 32-bit size.

  NOT MODELLED.  The assembly that runs before the C code and the start-up page of the other
  CPUs (\<open>arch/i386/boot.S\<close>, \<open>smp_tramp.S\<close>, \<open>arch/x86_64/boot_chain32.S\<close>, \<open>long64_stub.S\<close>): mode
  switches and temporary tables, after which the theorems start.  \<open>arch/i386/exc_asm.S\<close> only
  passes its frame on.  The Makefile and the linker scripts: their addresses are parameters.
  Busy-wait delays, caches and the TLB.  The bytes of the frame bitmap are kept apart from the
  flat memory after \<open>pmm_init\<close> has laid them out, in frames that the allocator never hands out.
  What other threads or interrupts do while a function waits is a parameter of that function.
\<close>

end
